(* ===== verification/Prelude.thy ===== *)
theory Prelude
  imports Main "HOL-Library.Word"
begin

text \<open>
  Shared vocabulary of the development: the machine integer types of the sources
  (\<^verbatim>\<open>uint32_t\<close>, \<^verbatim>\<open>size_t\<close>, \<^verbatim>\<open>int\<close>), the bit operations' notation, a sum-typed
  error monad for the partial memory accesses of C and C++, generic facts on words whose
  value is a power of two minus one (the ring masks and alignment masks), and reachability
  of transition systems with an interface for inductive invariants.
\<close>

unbundle bit_operations_syntax

type_synonym u32 = "32 word"
type_synonym u64 = "64 word"

named_theorems word_nat \<open>equations that move word arithmetic without wrap-around to nat\<close>

subsection \<open>Words read as natural numbers\<close>

lemma unat_u32_lt [simp]: "unat (x :: u32) < 4294967296"
  using unsigned_less [of x] by simp

lemma unat_u64_lt [simp]: "unat (x :: u64) < 18446744073709551616"
  using unsigned_less [of x] by simp

lemma unat_add_u32 [word_nat]:
  "unat x + unat y < 4294967296 \<Longrightarrow> unat (x + y :: u32) = unat x + unat y"
  by (simp add: unat_word_ariths)

lemma unat_mult_u32 [word_nat]:
  "unat x * unat y < 4294967296 \<Longrightarrow> unat (x * y :: u32) = unat x * unat y"
  by (simp add: unat_word_ariths)

lemma unat_of_nat_u32 [word_nat]:
  "n < 4294967296 \<Longrightarrow> unat (word_of_nat n :: u32) = n"
  by (simp add: unat_of_nat)

lemma unat_sub_word [word_nat]:
  "unat y \<le> unat x \<Longrightarrow> unat (x - y) = unat x - unat y"
  by (simp add: unat_sub_if_size)

text \<open>The mask of a power of two selects the remainder.\<close>

lemma unat_and_mask:
  fixes x m :: "'a::len word"
  assumes "unat m = 2 ^ k - 1"
  shows "unat (x AND m) = unat x mod 2 ^ k"
proof -
  have "unat (x AND m) = unat x AND (2 ^ k - 1)"
    by (simp add: unsigned_and_eq assms)
  also have "\<dots> = unat x mod 2 ^ k"
    by (metis mask_eq_exp_minus_1 take_bit_eq_mask take_bit_eq_mod)
  finally show ?thesis .
qed

lemma word_and_not_eq_sub:
  fixes x m :: "'a::len word"
  shows "x AND NOT m = x - (x AND m)"
proof -
  have "x - (x AND m) = x AND NOT (x AND m)"
    by (rule disjunctive_diff) (simp add: bit_and_iff)
  also have "\<dots> = x AND NOT m"
    by (rule bit_word_eqI) (auto simp: bit_and_iff bit_or_iff bit_not_iff)
  finally show ?thesis by simp
qed

lemma unat_mask:
  assumes "n \<le> LENGTH('a)"
  shows "unat (mask n :: 'a::len word) = 2 ^ n - 1"
proof -
  have "uint (mask n :: 'a word) = mask n" using assms by (simp add: uint_mask_eq)
  then have "int (unat (mask n :: 'a word)) = int (2 ^ n - 1)"
    by (simp add: mask_eq_exp_minus_1 of_nat_diff)
  then show ?thesis by (simp only: of_nat_eq_iff)
qed

lemma unat_exp: "n < LENGTH('a) \<Longrightarrow> unat (2 ^ n :: 'a::len word) = 2 ^ n"
  by transfer simp

text \<open>Every positive number lies between two powers of two.\<close>

lemma nat_power2_bracket:
  assumes "0 < (n::nat)"
  obtains k where "2 ^ k \<le> n" "n < 2 ^ Suc k"
proof -
  have "\<exists>k. 2 ^ k \<le> n \<and> n < 2 ^ Suc k"
    using assms
  proof (induction n rule: nat_less_induct)
    case (1 n)
    show ?case
    proof (cases "n < 2")
      case True
      with "1.prems" show ?thesis by (intro exI [of _ 0]) simp
    next
      case False
      then obtain k where "2 ^ k \<le> n div 2" "n div 2 < 2 ^ Suc k"
        using "1.IH" [rule_format, of "n div 2"] by auto
      then show ?thesis by (intro exI [of _ "Suc k"]) auto
    qed
  qed
  with that show ?thesis by blast
qed

text \<open>Positions less than a ring's size apart do not share a slot.\<close>

lemma mod_eq_near:
  fixes p q :: nat
  assumes "p mod sz = q mod sz" "p < q + sz" "q < p + sz"
  shows "p = q"
proof -
  have near: "p = q" if "p \<le> q" "q < p + sz" "p mod sz = q mod sz" for p q :: nat
  proof -
    have "sz dvd q - p" using that by (metis mod_eq_dvd_iff_nat)
    moreover have "q - p < sz" using that by simp
    ultimately have "q - p = 0" using nat_dvd_not_less by blast
    with that(1) show ?thesis by simp
  qed
  show ?thesis using near [of p q] near [of q p] assms by (cases "p \<le> q") auto
qed

subsection \<open>Errors of memory accesses\<close>

text \<open>
  C and C++ leave an access outside an object undefined. Every array access of the model
  is checked and an access out of range ends the operation with the value \<open>Out_of_bounds\<close>.
\<close>

datatype mem_error = Out_of_bounds

fun bind_err :: "'e + 'a \<Rightarrow> ('a \<Rightarrow> 'e + 'b) \<Rightarrow> 'e + 'b" where
  "bind_err (Inl e) f = Inl e"
| "bind_err (Inr x) f = f x"

lemma bind_err_Inr_iff:
  "bind_err m f = Inr y \<longleftrightarrow> (\<exists>x. m = Inr x \<and> f x = Inr y)"
  by (cases m) auto

definition array_get :: "'w list \<Rightarrow> u32 \<Rightarrow> mem_error + 'w" where
  "array_get xs i = (if unat i < length xs then Inr (xs ! unat i) else Inl Out_of_bounds)"

definition array_set :: "'w list \<Rightarrow> u32 \<Rightarrow> 'w \<Rightarrow> mem_error + 'w list" where
  "array_set xs i v = (if unat i < length xs then Inr (xs[unat i := v]) else Inl Out_of_bounds)"

lemma array_get_Inr [simp]: "unat i < length xs \<Longrightarrow> array_get xs i = Inr (xs ! unat i)"
  by (simp add: array_get_def)

lemma array_set_Inr [simp]: "unat i < length xs \<Longrightarrow> array_set xs i v = Inr (xs[unat i := v])"
  by (simp add: array_set_def)

subsection \<open>Reachable states and inductive invariants\<close>

inductive reach :: "('s \<Rightarrow> bool) \<Rightarrow> ('s \<Rightarrow> 's \<Rightarrow> bool) \<Rightarrow> 's \<Rightarrow> bool"
  for init :: "'s \<Rightarrow> bool" and step :: "'s \<Rightarrow> 's \<Rightarrow> bool" where
  reach_init: "init s \<Longrightarrow> reach init step s"
| reach_step: "reach init step s \<Longrightarrow> step s t \<Longrightarrow> reach init step t"

locale inductive_invariant =
  fixes init :: "'s \<Rightarrow> bool"
    and step :: "'s \<Rightarrow> 's \<Rightarrow> bool"
    and inv :: "'s \<Rightarrow> bool"
  assumes inv_init: "init s \<Longrightarrow> inv s"
    and inv_step: "inv s \<Longrightarrow> step s t \<Longrightarrow> inv t"
begin

lemma reach_inv: "reach init step s \<Longrightarrow> inv s"
  by (induction rule: reach.induct) (auto intro: inv_init inv_step)

lemma steps_inv: "step\<^sup>*\<^sup>* s t \<Longrightarrow> inv s \<Longrightarrow> inv t"
  by (induction rule: rtranclp_induct) (auto intro: inv_step)

end

end
