(* ===== verification/Ring_Bits.thy ===== *)
theory Ring_Bits
  imports Prelude
begin

text \<open>
  The bit tricks of \<^verbatim>\<open>src/common/include/ring.hpp\<close> that size and align a ring:
  \<^verbatim>\<open>sqk_combine32ms1b\<close>, \<^verbatim>\<open>sqk_align32pow2\<close>, the macros \<^verbatim>\<open>POWEROF2\<close>,
  \<^verbatim>\<open>SQK_ALIGN_FLOOR\<close>, \<^verbatim>\<open>SQK_ALIGN_CEIL\<close> and \<^verbatim>\<open>SQK_ALIGN\<close>, on words of the
  width the sources use. The lemmas give their arithmetic meaning: the smearing of the
  most significant bit, the least power of two above an argument, the test for powers of
  two, and rounding to a multiple of an alignment.
\<close>

subsection \<open>Definitions\<close>

definition SQK_RING_SZ_MASK :: u32 where
  "SQK_RING_SZ_MASK = 0x7fffffff"

definition sqk_combine32ms1b :: "u32 \<Rightarrow> u32" where
  "sqk_combine32ms1b x =
     (let x = x OR drop_bit 1 x;
          x = x OR drop_bit 2 x;
          x = x OR drop_bit 4 x;
          x = x OR drop_bit 8 x;
          x = x OR drop_bit 16 x
      in x)"

definition sqk_align32pow2 :: "u32 \<Rightarrow> u32" where
  "sqk_align32pow2 x =
     (let x = x - 1;
          x = sqk_combine32ms1b x
      in x + 1)"

definition POWEROF2 :: "u32 \<Rightarrow> bool" where
  "POWEROF2 x \<longleftrightarrow> (x - 1) AND x = 0"

definition SQK_ALIGN_FLOOR :: "u64 \<Rightarrow> u64 \<Rightarrow> u64" where
  "SQK_ALIGN_FLOOR val align = val AND NOT (align - 1)"

definition SQK_ALIGN_CEIL :: "u64 \<Rightarrow> u64 \<Rightarrow> u64" where
  "SQK_ALIGN_CEIL val align = SQK_ALIGN_FLOOR (val + (align - 1)) align"

definition SQK_ALIGN :: "u64 \<Rightarrow> u64 \<Rightarrow> u64" where
  "SQK_ALIGN val align = SQK_ALIGN_CEIL val align"

subsection \<open>Smearing the most significant bit\<close>

text \<open>
  One line of \<^const>\<open>sqk_combine32ms1b\<close>: a word whose bit \<open>n\<close> says that one of the
  \<open>k\<close> bits of \<open>x\<close> from \<open>n\<close> on is set is turned into one for \<open>2 * k\<close> bits.
\<close>

lemma smear_step:
  fixes a x :: "'a::len word"
  assumes "\<And>n. bit a n \<longleftrightarrow> (\<exists>j<k. bit x (n + j))"
  shows "bit (a OR drop_bit k a) n \<longleftrightarrow> (\<exists>j<2 * k. bit x (n + j))"
proof -
  have "bit (a OR drop_bit k a) n \<longleftrightarrow> (\<exists>j<k. bit x (n + j)) \<or> (\<exists>j<k. bit x (n + (k + j)))"
    by (simp add: bit_or_iff bit_drop_bit_eq assms add.commute add.left_commute)
  also have "\<dots> \<longleftrightarrow> (\<exists>j<2 * k. bit x (n + j))"
  proof
    assume "\<exists>j<2 * k. bit x (n + j)"
    then obtain j where j: "j < 2 * k" "bit x (n + j)" by blast
    show "(\<exists>j<k. bit x (n + j)) \<or> (\<exists>j<k. bit x (n + (k + j)))"
    proof (cases "j < k")
      case False
      then have "j - k < k" and "n + (k + (j - k)) = n + j" using j by simp_all
      with j show ?thesis by metis
    qed (use j in blast)
  next
    assume "(\<exists>j<k. bit x (n + j)) \<or> (\<exists>j<k. bit x (n + (k + j)))"
    then obtain j where "j < k \<and> bit x (n + j) \<or> j < k \<and> bit x (n + (k + j))" by blast
    then show "\<exists>j<2 * k. bit x (n + j)"
      by (metis add_strict_left_mono mult_2 trans_less_add1)
  qed
  finally show ?thesis .
qed

lemma bit_combine32ms1b:
  "bit (sqk_combine32ms1b x) n \<longleftrightarrow> (\<exists>j<32. bit x (n + j))"
proof -
  define a1 where "a1 = x OR drop_bit 1 x"
  define a2 where "a2 = a1 OR drop_bit 2 a1"
  define a3 where "a3 = a2 OR drop_bit 4 a2"
  define a4 where "a4 = a3 OR drop_bit 8 a3"
  have 1: "bit a1 n \<longleftrightarrow> (\<exists>j<2. bit x (n + j))" for n
    using smear_step [of x 1 x] by (simp add: a1_def)
  have 2: "bit a2 n \<longleftrightarrow> (\<exists>j<4. bit x (n + j))" for n
    using smear_step [OF 1] by (simp add: a2_def)
  have 3: "bit a3 n \<longleftrightarrow> (\<exists>j<8. bit x (n + j))" for n
    using smear_step [OF 2] by (simp add: a3_def)
  have 4: "bit a4 n \<longleftrightarrow> (\<exists>j<16. bit x (n + j))" for n
    using smear_step [OF 3] by (simp add: a4_def)
  have "sqk_combine32ms1b x = a4 OR drop_bit 16 a4"
    by (simp add: sqk_combine32ms1b_def a1_def a2_def a3_def a4_def Let_def)
  then show ?thesis using smear_step [OF 4] by simp
qed

lemma bit_combine32ms1b': "bit (sqk_combine32ms1b x) n \<longleftrightarrow> (\<exists>m\<ge>n. bit x m)"
proof
  assume "\<exists>m\<ge>n. bit x m"
  then obtain m where m: "n \<le> m" "bit x m" by blast
  then have "m < 32" using bit_imp_le_length by fastforce
  with m have "m - n < 32" "bit x (n + (m - n))" by simp_all
  then show "bit (sqk_combine32ms1b x) n" unfolding bit_combine32ms1b by blast
next
  assume "bit (sqk_combine32ms1b x) n"
  then obtain j where "bit x (n + j)" by (auto simp: bit_combine32ms1b)
  then show "\<exists>m\<ge>n. bit x m" using le_add1 by blast
qed

lemma nat_top_bit:
  assumes "2 ^ k \<le> (n::nat)" "n < 2 ^ Suc k"
  shows "bit n k"
proof -
  have "n div 2 ^ k = 1" using assms by (intro div_nat_eqI) simp_all
  then show ?thesis by (simp add: bit_iff_odd)
qed

lemma u32_power_le:
  assumes "2 ^ k \<le> unat (x :: u32)"
  shows "k < 32"
proof (rule ccontr)
  assume "\<not> k < 32"
  then have "(2::nat) ^ 32 \<le> 2 ^ k" by (intro power_increasing) simp_all
  with assms have "4294967296 \<le> unat x" by simp
  then show False using unat_u32_lt [of x] by (simp del: unat_u32_lt)
qed

lemma word_bit_le:
  fixes x :: "'a::len word"
  assumes "unat x < 2 ^ Suc k" "bit x m"
  shows "m \<le> k"
proof (rule ccontr)
  assume "\<not> m \<le> k"
  then have "bit (unat x) m" "Suc k \<le> m" using assms(2) by (simp_all add: bit_unsigned_iff)
  moreover have "take_bit (Suc k) (unat x) = unat x"
    using assms(1) by (simp only: take_bit_nat_eq_self_iff)
  ultimately show False by (metis bit_take_bit_iff not_less)
qed

lemma low_bits_full:
  fixes x :: u32
  assumes "2 ^ k \<le> unat x" "unat x < 2 ^ Suc k" "\<And>j. j < k \<Longrightarrow> bit x j"
  shows "unat x = 2 ^ Suc k - 1"
proof -
  have "bit x k" using nat_top_bit [OF assms(1,2)] by (simp add: bit_unsigned_iff)
  then have "x = mask (Suc k)"
    using word_bit_le [OF assms(2)] assms(3)
    by (intro bit_word_eqI) (auto simp: bit_mask_iff less_Suc_eq_le le_less)
  then show ?thesis using u32_power_le [OF assms(1)] by (simp add: unat_mask)
qed

lemma combine32ms1b_eq_mask:
  assumes "2 ^ k \<le> unat x" "unat x < 2 ^ Suc k"
  shows "unat (sqk_combine32ms1b x) = 2 ^ Suc k - 1"
proof -
  have k: "k < 32" by (rule u32_power_le [OF assms(1)])
  note hi = word_bit_le [OF assms(2)]
  have top: "bit x k" using nat_top_bit [OF assms] by (simp add: bit_unsigned_iff)
  have "sqk_combine32ms1b x = mask (Suc k)"
    by (rule bit_word_eqI)
      (use hi top in \<open>auto simp: bit_combine32ms1b' bit_mask_iff less_Suc_eq_le intro: le_trans\<close>)
  then show ?thesis using k by (simp add: unat_mask)
qed

subsection \<open>Powers of two\<close>

lemma sqk_align32pow2_bracket:
  assumes "2 ^ k < unat x" "unat x \<le> 2 ^ Suc k" "k < 31"
  shows "unat (sqk_align32pow2 x) = 2 ^ Suc k"
proof -
  have "unat (x - 1) = unat x - 1" using assms(1) by (subst unat_sub_word) auto
  then have c: "unat (sqk_combine32ms1b (x - 1)) = 2 ^ Suc k - 1"
    using assms by (intro combine32ms1b_eq_mask) auto
  have "(2::nat) ^ Suc k \<le> 2 ^ 31" using assms(3) by (intro power_increasing) auto
  then have "unat (sqk_combine32ms1b (x - 1) + 1) = 2 ^ Suc k"
    by (subst unat_add_u32) (auto simp: c)
  then show ?thesis by (simp add: sqk_align32pow2_def Let_def)
qed

lemma sqk_align32pow2_1 [simp]: "sqk_align32pow2 1 = 1"
  by (simp add: sqk_align32pow2_def sqk_combine32ms1b_def)

lemma sqk_align32pow2_pow2:
  assumes "1 \<le> unat x" "unat x \<le> 2 ^ 31"
  obtains k where "k \<le> 31" "unat (sqk_align32pow2 x) = 2 ^ k" "unat x \<le> 2 ^ k" "2 ^ k < 2 * unat x"
proof (cases "unat x = 1")
  case True
  then have "x = 1" by (metis unat_1 unsigned_word_eqI)
  then show ?thesis using that [of 0] by simp
next
  case False
  then obtain k where k: "2 ^ k \<le> unat x - 1" "unat x - 1 < 2 ^ Suc k"
    using nat_power2_bracket [of "unat x - 1"] assms(1) by auto
  have "k < 31"
  proof (rule ccontr)
    assume "\<not> k < 31"
    then have "(2::nat) ^ 31 \<le> 2 ^ k" by (intro power_increasing) simp_all
    with k(1) assms show False by linarith
  qed
  then have "unat (sqk_align32pow2 x) = 2 ^ Suc k"
    using k assms(1) by (intro sqk_align32pow2_bracket) auto
  then show ?thesis using that [of "Suc k"] \<open>k < 31\<close> k assms(1) by auto
qed

lemma sqk_align32pow2_large:
  assumes "2 ^ 31 < unat x"
  shows "sqk_align32pow2 x = 0"
proof -
  have "unat (x - 1) = unat x - 1" using assms by (subst unat_sub_word) auto
  then have "unat (sqk_combine32ms1b (x - 1)) = 2 ^ Suc 31 - 1"
    using assms unat_u32_lt [of x] by (intro combine32ms1b_eq_mask) (auto simp del: unat_u32_lt)
  then have "sqk_combine32ms1b (x - 1) = - 1"
    by (intro unsigned_word_eqI [where 'a = nat]) (simp add: unsigned_minus_1_eq_mask mask_eq_exp_minus_1)
  then show ?thesis by (simp add: sqk_align32pow2_def Let_def)
qed

lemma POWEROF2_pow2:
  assumes "unat x = 2 ^ k"
  shows "POWEROF2 x"
proof -
  have "unat (x - 1) = 2 ^ k - 1" using assms by (subst unat_sub_word) auto
  then have "unat (x AND (x - 1)) = 0"
    by (subst unat_and_mask) (auto simp: assms)
  then have "x AND (x - 1) = 0" by (simp only: unsigned_eq_0_iff)
  then show ?thesis by (simp add: POWEROF2_def and.commute)
qed

lemma POWEROF2_iff: "POWEROF2 x \<longleftrightarrow> x = 0 \<or> (\<exists>k. unat x = 2 ^ k)"
proof
  assume p: "POWEROF2 x"
  show "x = 0 \<or> (\<exists>k. unat x = 2 ^ k)"
  proof (cases "x = 0")
    case False
    then obtain k where k: "2 ^ k \<le> unat x" "unat x < 2 ^ Suc k"
      using nat_power2_bracket [of "unat x"] unat_gt_0 by blast
    have "unat x = 2 ^ k"
    proof (rule ccontr)
      assume ne: "unat x \<noteq> 2 ^ k"
      have "unat (x - 1) = unat x - 1" using k by (subst unat_sub_word) auto
      then have "2 ^ k \<le> unat (x - 1)" "unat (x - 1) < 2 ^ Suc k" using k ne by auto
      then have "bit (unat (x - 1)) k" and "bit (unat x) k" using nat_top_bit k by blast+
      then have "bit ((x - 1) AND x) k" by (simp add: bit_and_iff bit_unsigned_iff)
      with p show False by (simp add: POWEROF2_def)
    qed
    then show ?thesis by blast
  qed simp
next
  show "x = 0 \<or> (\<exists>k. unat x = 2 ^ k) \<Longrightarrow> POWEROF2 x"
    using POWEROF2_pow2 by (auto simp: POWEROF2_def [of 0])
qed

subsection \<open>Alignment\<close>

lemma SQK_ALIGN_FLOOR_eq:
  assumes "unat align = 2 ^ k"
  shows "unat (SQK_ALIGN_FLOOR val align) = unat val - unat val mod 2 ^ k"
proof -
  have m: "unat (align - 1) = 2 ^ k - 1" using assms by (subst unat_sub_word) auto
  have "unat (val AND (align - 1)) \<le> unat val"
    by (simp add: unat_and_mask [OF m])
  then show ?thesis
    by (simp add: SQK_ALIGN_FLOOR_def word_and_not_eq_sub unat_sub_word unat_and_mask [OF m])
qed

lemma SQK_ALIGN_props:
  assumes "unat align = 2 ^ k" "unat val + 2 ^ k \<le> 2 ^ 64"
  shows "2 ^ k dvd unat (SQK_ALIGN val align)"
    and "unat val \<le> unat (SQK_ALIGN val align)"
    and "unat (SQK_ALIGN val align) < unat val + 2 ^ k"
proof -
  have "unat (align - 1) = 2 ^ k - 1" using assms by (subst unat_sub_word) auto
  then have "unat (val + (align - 1)) = unat val + (2 ^ k - 1)"
    using assms(2) by (simp add: unat_word_ariths)
  then have e: "unat (SQK_ALIGN val align) =
      (unat val + (2 ^ k - 1)) - (unat val + (2 ^ k - 1)) mod 2 ^ k"
    by (simp add: SQK_ALIGN_def SQK_ALIGN_CEIL_def SQK_ALIGN_FLOOR_eq [OF assms(1)])
  have lt: "(unat val + (2 ^ k - 1)) mod 2 ^ k < 2 ^ k" by simp
  show "2 ^ k dvd unat (SQK_ALIGN val align)" unfolding e by (rule dvd_minus_mod)
  show "unat val \<le> unat (SQK_ALIGN val align)" using lt unfolding e by linarith
  have "(2::nat) ^ k > 0" by simp
  then show "unat (SQK_ALIGN val align) < unat val + 2 ^ k" unfolding e by linarith
qed

end
