(* ===== verification/Ring_Elems.thy ===== *)
theory Ring_Elems
  imports Ring_Bits
begin

text \<open>
  The state of a ring and its element copies (\<^verbatim>\<open>src/common/include/ring.hpp\<close>). A
  \<^verbatim>\<open>Ring<T>\<close> is a header followed in the same allocation by its element area, read by
  the copy routines as an array of 4, 8 or 16 byte units (\<^verbatim>\<open>(uint32_t*)&this[1]\<close> and
  so on). The area is the list \<open>elems\<close> of units of the type \<open>'w\<close>; a \<^verbatim>\<open>T\<close> is a list of
  units. The six copy routines are the unrolled loops of the source; the main result is
  that each of them copies unit \<open>j\<close> to or from position \<open>(idx + j) mod size\<close>, in order.
\<close>

subsection \<open>Data\<close>

datatype RingSyncType =
    SQK_RING_SYNC_MT
  | SQK_RING_SYNC_ST
  | SQK_RING_SYNC_MT_RTS
  | SQK_RING_SYNC_MT_HTS

record RingHeadTail =
  ht_head :: u32
  ht_tail :: u32

record 'w Ring =
  ring_size :: u32
  ring_mask :: u32
  capacity :: u32
  htd_max :: u32
  memzone_size :: u64
  prod_ht :: RingHeadTail
  cons_ht :: RingHeadTail
  elems :: "'w list"

subsection \<open>Copy loops\<close>

text \<open>
  A copier moves one unit between \<^verbatim>\<open>ring[idx]\<close> and \<^verbatim>\<open>obj[i]\<close>: \<open>enqueue_unit\<close> is
  the statement \<^verbatim>\<open>ring[idx] = obj[i]\<close>, \<open>dequeue_unit\<close> is \<^verbatim>\<open>obj[i] = ring[idx]\<close>.
\<close>

type_synonym 'w copier = "u32 \<Rightarrow> u32 \<Rightarrow> 'w list \<times> 'w list \<Rightarrow> mem_error + 'w list \<times> 'w list"

definition enqueue_unit :: "'w copier" where
  "enqueue_unit idx i m =
     bind_err (array_get (snd m) i) (\<lambda>v.
     bind_err (array_set (fst m) idx v) (\<lambda>ring. Inr (ring, snd m)))"

definition dequeue_unit :: "'w copier" where
  "dequeue_unit idx i m =
     bind_err (array_get (fst m) idx) (\<lambda>v.
     bind_err (array_set (snd m) i v) (\<lambda>obj. Inr (fst m, obj)))"

text \<open>
  \<open>copy_units cp k\<close> is a straight line of \<open>k\<close> copies (the body of an unrolled loop, the
  fall-through \<^verbatim>\<open>switch\<close> entered at \<^verbatim>\<open>case k\<close>, a \<^verbatim>\<open>memcpy\<close> of \<open>k\<close> units);
  \<open>copy_blocks cp w n\<close> is \<^verbatim>\<open>for (; i < (n & ~(w - 1)); i += w, idx += w)\<close> around such a
  line of \<open>w\<close> copies; \<open>copy_to_end\<close> and \<open>copy_from_start\<close> are the two loops of the
  wrapped case.
\<close>

primrec copy_units :: "'w copier \<Rightarrow> nat \<Rightarrow> 'w copier" where
  "copy_units cp 0 idx i m = Inr m"
| "copy_units cp (Suc k) idx i m = bind_err (cp idx i m) (copy_units cp k (idx + 1) (i + 1))"

lemma unat_neg_u32: "w \<noteq> 0 \<Longrightarrow> unat (- w :: u32) = 4294967296 - unat w"
  using unat_sub_if_size [of 0 w] by (simp add: word_size unat_eq_zero)

function copy_blocks ::
  "'w copier \<Rightarrow> u32 \<Rightarrow> u32 \<Rightarrow> u32 \<Rightarrow> u32 \<Rightarrow> 'w list \<times> 'w list \<Rightarrow>
     mem_error + u32 \<times> u32 \<times> 'w list \<times> 'w list" where
  "copy_blocks cp w n idx i m =
     (if i < (n AND NOT (w - 1))
      then bind_err (copy_units cp (unat w) idx i m) (copy_blocks cp w n (idx + w) (i + w))
      else Inr (idx, i, m))"
  by pat_completeness auto
termination
proof (relation "measure (\<lambda>(cp, w, n, idx, i, m). 2 ^ 32 - unat i)")
  fix w n i :: u32
  assume lt: "i < (n AND NOT (w - 1))"
  have "NOT (w - 1) = - w" by (simp add: not_eq_complement)
  then have le: "n AND NOT (w - 1) \<le> - w" by (metis word_and_le1)
  then have w: "w \<noteq> 0" using lt by auto
  then have "unat (- w) = 2 ^ 32 - unat w" by (simp add: unat_neg_u32)
  moreover have "unat i < unat (- w)"
    using less_le_trans [OF lt le] by (simp only: word_less_nat_alt)
  ultimately have "unat i + unat w < 4294967296" by simp
  then have "unat (i + w) = unat i + unat w" by (rule unat_add_u32)
  moreover have "0 < unat w" using w by (simp add: unat_gt_0)
  moreover have "unat i < 4294967296" by simp
  ultimately show "((cp, w, n, idx + w, i + w, x), cp, w, n, idx, i, m)
      \<in> measure (\<lambda>(cp, w, n, idx, i, m). 2 ^ 32 - unat i)" for cp idx x m
    by (simp del: unat_u32_lt)
qed simp

lemma u32_less_Suc: "x < y \<Longrightarrow> unat (x + 1 :: u32) = Suc (unat x)"
  using unat_u32_lt [of y] by (simp add: word_less_nat_alt unat_add_u32 del: unat_u32_lt)

lemma u32_up_measure: "x < y \<Longrightarrow> 4294967296 - unat (x + 1 :: u32) < 4294967296 - unat x"
  using unat_u32_lt [of x] by (simp add: u32_less_Suc del: unat_u32_lt)

function copy_to_end ::
  "'w copier \<Rightarrow> u32 \<Rightarrow> u32 \<Rightarrow> u32 \<Rightarrow> 'w list \<times> 'w list \<Rightarrow> mem_error + u32 \<times> 'w list \<times> 'w list" where
  "copy_to_end cp sz idx i m =
     (if idx < sz then bind_err (cp idx i m) (copy_to_end cp sz (idx + 1) (i + 1))
      else Inr (i, m))"
  by pat_completeness auto
termination
  by (relation "measure (\<lambda>(cp, sz, idx, i, m). 2 ^ 32 - unat idx)") (auto simp: u32_up_measure)

function copy_from_start ::
  "'w copier \<Rightarrow> u32 \<Rightarrow> u32 \<Rightarrow> u32 \<Rightarrow> 'w list \<times> 'w list \<Rightarrow> mem_error + 'w list \<times> 'w list" where
  "copy_from_start cp n idx i m =
     (if i < n then bind_err (cp idx i m) (copy_from_start cp n (idx + 1) (i + 1))
      else Inr m)"
  by pat_completeness auto
termination
  by (relation "measure (\<lambda>(cp, n, idx, i, m). 2 ^ 32 - unat i)") (auto simp: u32_up_measure)

declare copy_blocks.simps [simp del] copy_to_end.simps [simp del] copy_from_start.simps [simp del]

subsection \<open>The copy routines\<close>

definition enqueue_elems_32 ::
  "'w list \<Rightarrow> u32 \<Rightarrow> u32 \<Rightarrow> 'w list \<Rightarrow> u32 \<Rightarrow> mem_error + 'w list" where
  "enqueue_elems_32 ring sz idx entries n =
     bind_err
       (if idx + n < sz then
          bind_err (copy_blocks enqueue_unit 8 n idx 0 (ring, entries)) (\<lambda>(idx, i, m).
          copy_units enqueue_unit (unat (n AND 7)) idx i m)
        else
          bind_err (copy_to_end enqueue_unit sz idx 0 (ring, entries)) (\<lambda>(i, m).
          copy_from_start enqueue_unit n 0 i m))
       (\<lambda>m. Inr (fst m))"

definition enqueue_elems_128 :: "'w Ring \<Rightarrow> u32 \<Rightarrow> 'w list \<Rightarrow> u32 \<Rightarrow> mem_error + 'w list" where
  "enqueue_elems_128 r prod_head entries n =
     (let sz = ring_size r; idx = prod_head AND ring_mask r in
      bind_err
       (if idx + n < sz then
          bind_err (copy_blocks enqueue_unit 2 n idx 0 (elems r, entries)) (\<lambda>(idx, i, m).
          copy_units enqueue_unit (unat (n AND 1)) idx i m)
        else
          bind_err (copy_to_end enqueue_unit sz idx 0 (elems r, entries)) (\<lambda>(i, m).
          copy_from_start enqueue_unit n 0 i m))
       (\<lambda>m. Inr (fst m)))"

definition enqueue_elems_64 :: "'w Ring \<Rightarrow> u32 \<Rightarrow> 'w list \<Rightarrow> u32 \<Rightarrow> mem_error + 'w list" where
  "enqueue_elems_64 r prod_head entries n =
     (let sz = ring_size r; idx = prod_head AND ring_mask r in
      bind_err
       (if idx + n < sz then
          bind_err (copy_blocks enqueue_unit 4 n idx 0 (elems r, entries)) (\<lambda>(idx, i, m).
          copy_units enqueue_unit (unat (n AND 3)) idx i m)
        else
          bind_err (copy_to_end enqueue_unit sz idx 0 (elems r, entries)) (\<lambda>(i, m).
          copy_from_start enqueue_unit n 0 i m))
       (\<lambda>m. Inr (fst m)))"

text \<open>
  \<^verbatim>\<open>enqueue_elements\<close> is overloaded on \<^verbatim>\<open>sizeof(T)\<close>: 8 and 16 have routines of their
  own, every other size is normalised to 4 byte units.
\<close>

definition enqueue_elements ::
  "u32 \<Rightarrow> 'w Ring \<Rightarrow> u32 \<Rightarrow> 'w list \<Rightarrow> u32 \<Rightarrow> mem_error + 'w list" where
  "enqueue_elements esize r prod_head entries n =
     (if esize = 8 then enqueue_elems_64 r prod_head entries n
      else if esize = 16 then enqueue_elems_128 r prod_head entries n
      else
        let scale = esize div 4;
            nr_num = n * scale;
            idx = prod_head AND ring_mask r;
            nr_idx = idx * scale;
            nr_size = ring_size r * scale
        in enqueue_elems_32 (elems r) nr_size nr_idx entries nr_num)"

definition dequeue_elems_64 :: "'w Ring \<Rightarrow> u32 \<Rightarrow> 'w list \<Rightarrow> u32 \<Rightarrow> mem_error + 'w list" where
  "dequeue_elems_64 r prod_head entries n =
     (let sz = ring_size r; idx = prod_head AND ring_mask r in
      bind_err
       (if idx + n < sz then
          bind_err (copy_blocks dequeue_unit 4 n idx 0 (elems r, entries)) (\<lambda>(idx, i, m).
          copy_units dequeue_unit (unat (n AND 3)) idx i m)
        else
          bind_err (copy_to_end dequeue_unit sz idx 0 (elems r, entries)) (\<lambda>(i, m).
          copy_from_start dequeue_unit n 0 i m))
       (\<lambda>m. Inr (snd m)))"

definition dequeue_elems_128 :: "'w Ring \<Rightarrow> u32 \<Rightarrow> 'w list \<Rightarrow> u32 \<Rightarrow> mem_error + 'w list" where
  "dequeue_elems_128 r prod_head entries n =
     (let sz = ring_size r; idx = prod_head AND ring_mask r in
      bind_err
       (if idx + n < sz then
          bind_err (copy_blocks dequeue_unit 2 n idx 0 (elems r, entries)) (\<lambda>(idx, i, m).
          copy_units dequeue_unit (unat (n AND 1)) idx i m)
        else
          bind_err (copy_to_end dequeue_unit sz idx 0 (elems r, entries)) (\<lambda>(i, m).
          copy_from_start dequeue_unit n 0 i m))
       (\<lambda>m. Inr (snd m)))"

definition dequeue_elems_32 ::
  "'w list \<Rightarrow> u32 \<Rightarrow> u32 \<Rightarrow> 'w list \<Rightarrow> u32 \<Rightarrow> mem_error + 'w list" where
  "dequeue_elems_32 ring sz idx entries n =
     bind_err
       (if idx + n < sz then
          bind_err (copy_blocks dequeue_unit 8 n idx 0 (ring, entries)) (\<lambda>(idx, i, m).
          copy_units dequeue_unit (unat (n AND 7)) idx i m)
        else
          bind_err (copy_to_end dequeue_unit sz idx 0 (ring, entries)) (\<lambda>(i, m).
          copy_from_start dequeue_unit n 0 i m))
       (\<lambda>m. Inr (snd m))"

definition dequeue_elements ::
  "u32 \<Rightarrow> 'w Ring \<Rightarrow> u32 \<Rightarrow> 'w list \<Rightarrow> u32 \<Rightarrow> mem_error + 'w list" where
  "dequeue_elements esize r cons_head entries num =
     (if esize = 8 then dequeue_elems_64 r cons_head entries num
      else if esize = 16 then dequeue_elems_128 r cons_head entries num
      else
        let scale = esize div 4;
            nr_num = num * scale;
            idx = cons_head AND ring_mask r;
            nr_idx = idx * scale;
            nr_size = ring_size r * scale
        in dequeue_elems_32 (elems r) nr_size nr_idx entries nr_num)"

subsection \<open>The copy loops as one sequence of unit copies\<close>

text \<open>\<open>copy_seq cp ps\<close> performs the unit copies \<open>ps\<close> (pairs of a ring and an object index) in order.\<close>

primrec copy_seq ::
  "'w copier \<Rightarrow> (u32 \<times> u32) list \<Rightarrow> 'w list \<times> 'w list \<Rightarrow> mem_error + 'w list \<times> 'w list" where
  "copy_seq cp [] m = Inr m"
| "copy_seq cp (p # ps) m = bind_err (cp (fst p) (snd p) m) (copy_seq cp ps)"

lemma bind_err_assoc: "bind_err (bind_err m f) g = bind_err m (\<lambda>x. bind_err (f x) g)"
  by (cases m) auto

lemma bind_err_cong: "(\<And>x. f x = g x) \<Longrightarrow> bind_err m f = bind_err m g"
  by (cases m) auto

lemma bind_err_Inr [simp]: "bind_err m Inr = m"
  by (cases m) auto

lemma copy_seq_append: "copy_seq cp (ps @ qs) m = bind_err (copy_seq cp ps m) (copy_seq cp qs)"
  by (induction ps arbitrary: m) (auto simp: bind_err_assoc intro: bind_err_cong)

text \<open>\<open>run idx i k\<close>: the \<open>k\<close> index pairs from \<open>(idx, i)\<close> on, both counting up.\<close>

definition run :: "u32 \<Rightarrow> u32 \<Rightarrow> nat \<Rightarrow> (u32 \<times> u32) list" where
  "run idx i k = map (\<lambda>j. (idx + word_of_nat j, i + word_of_nat j)) [0..<k]"

lemma run_0 [simp]: "run idx i 0 = []"
  by (simp add: run_def)

lemma run_Suc: "run idx i (Suc k) = (idx, i) # run (idx + 1) (i + 1) k"
proof -
  have "[0..<Suc k] = 0 # map Suc [0..<k]" by (simp add: map_Suc_upt upt_conv_Cons del: upt_Suc)
  then show ?thesis by (simp add: run_def algebra_simps del: upt_Suc)
qed

lemma run_append: "run idx i k @ run (idx + word_of_nat k) (i + word_of_nat k) l = run idx i (k + l)"
  by (induction k arbitrary: idx i) (simp_all add: run_Suc add.assoc [symmetric])

lemma copy_units_run: "copy_units cp k idx i m = copy_seq cp (run idx i k) m"
  by (induction k arbitrary: idx i m) (auto simp: run_Suc intro: bind_err_cong)

lemma copy_to_end_run:
  "copy_to_end cp sz idx i m =
     bind_err (copy_seq cp (run idx i (unat sz - unat idx)) m)
       (\<lambda>m. Inr (i + word_of_nat (unat sz - unat idx), m))"
proof (induction cp sz idx i m rule: copy_to_end.induct)
  case (1 cp sz idx i m)
  show ?case
  proof (cases "idx < sz")
    case True
    then have "unat sz - unat idx = Suc (unat sz - unat (idx + 1))"
      by (simp add: u32_less_Suc word_less_nat_alt)
    then show ?thesis using True 1
      by (auto simp: copy_to_end.simps [of cp sz idx] run_Suc bind_err_assoc add.assoc 
        intro!: bind_err_cong)
  qed (simp add: copy_to_end.simps [of cp sz idx] word_less_nat_alt)
qed

lemma copy_from_start_run:
  "copy_from_start cp n idx i m = copy_seq cp (run idx i (unat n - unat i)) m"
proof (induction cp n idx i m rule: copy_from_start.induct)
  case (1 cp n idx i m)
  show ?case
  proof (cases "i < n")
    case True
    then have "unat n - unat i = Suc (unat n - unat (i + 1))"
      by (simp add: u32_less_Suc word_less_nat_alt)
    then show ?thesis using True 1
      by (auto simp: copy_from_start.simps [of cp n idx i] run_Suc 
        intro!: bind_err_cong)
  qed (simp add: copy_from_start.simps [of cp n idx i] word_less_nat_alt)
qed

lemma bind_err_split: "bind_err m (\<lambda>(a, b). f a b) = bind_err m (\<lambda>x. f (fst x) (snd x))"
  by (simp add: case_prod_unfold)

lemma and_not_mask_eq:
  fixes n w :: u32
  assumes "unat w = 2 ^ k"
  shows "unat (n AND NOT (w - 1)) = unat n - unat n mod 2 ^ k"
    and "unat (n AND (w - 1)) = unat n mod 2 ^ k"
proof -
  have m: "unat (w - 1) = 2 ^ k - 1" using assms by (subst unat_sub_word) auto
  show "unat (n AND (w - 1)) = unat n mod 2 ^ k" by (rule unat_and_mask [OF m])
  then show "unat (n AND NOT (w - 1)) = unat n - unat n mod 2 ^ k"
    by (simp add: word_and_not_eq_sub unat_sub_word)
qed

text \<open>The unrolled loop copies whole blocks up to the largest multiple of \<open>w\<close> below \<open>n\<close>.\<close>

lemma copy_blocks_run:
  assumes w: "unat w = 2 ^ k" and "i \<le> (n AND NOT (w - 1))" and "2 ^ k dvd unat i"
  shows "copy_blocks cp w n idx i m =
     (let l = unat (n AND NOT (w - 1)) - unat i in
      bind_err (copy_seq cp (run idx i l) m)
        (\<lambda>m. Inr (idx + word_of_nat l, i + word_of_nat l, m)))"
  using assms
proof (induction cp w n idx i m rule: copy_blocks.induct)
  case (1 cp w n idx i m)
  define lim where "lim = (n AND NOT (w - 1))"
  have lim: "unat lim = unat n - unat n mod 2 ^ k"
    using and_not_mask_eq(1) [OF "1.prems"(1)] by (simp add: lim_def)
  have dvd_lim: "2 ^ k dvd unat lim" by (simp add: lim dvd_minus_mod)
  show ?case
  proof (cases "i < lim")
    case True
    then have lt: "unat i < unat lim" by (simp add: word_less_nat_alt)
    have le: "unat i + 2 ^ k \<le> unat lim"
    proof -
      have "2 ^ k dvd unat lim - unat i" using dvd_lim "1.prems"(3) by (simp add: dvd_diff_nat)
      with lt have "2 ^ k \<le> unat lim - unat i" by (simp add: dvd_imp_le)
      with lt show ?thesis by simp
    qed
    have iw: "unat (i + w) = unat i + 2 ^ k"
      using le "1.prems"(1) unat_u32_lt [of lim] by (subst unat_add_u32) (auto simp del: unat_u32_lt)
    define l where "l = unat lim - unat (i + w)"
    have l: "unat lim - unat i = unat w + l" using le by (simp add: l_def iw "1.prems"(1))
    have "copy_blocks cp w n (idx + w) (i + w) x =
      bind_err (copy_seq cp (run (idx + w) (i + w) l) x)
        (\<lambda>m. Inr (idx + w + word_of_nat l, i + w + word_of_nat l, m))" for x
      using "1.IH" [of x] True le iw "1.prems"
      by (simp add: lim_def [symmetric] l_def word_le_nat_alt Let_def)
    then show ?thesis using True
      by (auto simp: copy_blocks.simps [of cp w n idx i] lim_def [symmetric] l copy_units_run
          copy_seq_append run_append [symmetric] bind_err_assoc add.assoc Let_def intro!: bind_err_cong)
  next
    case False
    then have "unat lim - unat i = 0" using "1.prems"(2) by (simp add: lim_def [symmetric] word_less_nat_alt)
    then show ?thesis using False
      by (simp add: copy_blocks.simps [of cp w n idx i] lim_def [symmetric])
  qed
qed

subsection \<open>Every copy routine visits the wrapped positions in order\<close>

text \<open>The reference: unit \<open>j\<close> of the object belongs at ring position \<open>(idx + j) mod sz\<close>.\<close>

definition wrapped :: "nat \<Rightarrow> nat \<Rightarrow> nat \<Rightarrow> (u32 \<times> u32) list" where
  "wrapped sz idx n = map (\<lambda>j. (word_of_nat ((idx + j) mod sz), word_of_nat j)) [0..<n]"

lemma run_wrapped:
  assumes "unat idx + n \<le> sz"
  shows "run idx 0 n = wrapped sz (unat idx) n"
  unfolding run_def wrapped_def
  by (rule map_cong [OF refl]) (use assms in auto)

lemma unrolled_wrapped:
  assumes w: "unat w = 2 ^ k" and sz: "unat idx + unat n \<le> sz"
  shows "bind_err (copy_blocks cp w n idx 0 m) (\<lambda>(idx, i, m).
           copy_units cp (unat (n AND (w - 1))) idx i m) =
         copy_seq cp (wrapped sz (unat idx) (unat n)) m"
proof -
  define l where "l = unat n - unat n mod 2 ^ k"
  have n: "unat n = l + unat n mod 2 ^ k" by (simp add: l_def)
  have "copy_blocks cp w n idx 0 m =
      bind_err (copy_seq cp (run idx 0 l) m) (\<lambda>m. Inr (idx + word_of_nat l, word_of_nat l, m))"
    by (subst copy_blocks_run [OF w]) (simp_all add: and_not_mask_eq(1) [OF w] l_def)
  then have "bind_err (copy_blocks cp w n idx 0 m) (\<lambda>(idx, i, m).
        copy_units cp (unat (n AND (w - 1))) idx i m) =
      copy_seq cp (run idx 0 l @ run (idx + word_of_nat l) (0 + word_of_nat l) (unat n mod 2 ^ k)) m"
    by (simp add: bind_err_assoc copy_seq_append copy_units_run and_not_mask_eq(2) [OF w])
  also have "\<dots> = copy_seq cp (run idx 0 (unat n)) m"
    unfolding run_append n [symmetric] ..
  finally show ?thesis by (simp add: run_wrapped [OF sz])
qed

lemma looped_wrapped:
  assumes "unat idx < unat sz" "unat sz \<le> unat idx + unat n" "unat n \<le> unat sz"
  shows "bind_err (copy_to_end cp sz idx 0 m) (\<lambda>(i, m). copy_from_start cp n 0 i m) =
         copy_seq cp (wrapped (unat sz) (unat idx) (unat n)) m"
proof -
  define l where "l = unat sz - unat idx"
  have l: "l \<le> unat n" "l < 4294967296"
    using assms unat_u32_lt [of sz] by (auto simp: l_def simp del: unat_u32_lt)
  have "[0..<unat n] = [0..<l] @ [l..<l + (unat n - l)]" using l upt_add_eq_append [of 0 l "unat n - l"] by simp
  also have "[l..<l + (unat n - l)] = map (\<lambda>j. l + j) [0..<unat n - l]"
    using map_add_upt [of l "unat n - l"] by (simp add: add.commute)
  finally have upt: "[0..<unat n] = [0..<l] @ map (\<lambda>j. l + j) [0..<unat n - l]" .
  have "(unat idx + (l + j)) mod unat sz = j" if "j < unat n - l" for j
    using that assms by (simp add: l_def flip: add.assoc)
  then have split: "wrapped (unat sz) (unat idx) (unat n) =
      wrapped (unat sz) (unat idx) l @ run 0 (word_of_nat l) (unat n - l)"
    by (simp add: wrapped_def run_def upt)
  have "unat (word_of_nat l :: u32) = l" using l by (simp add: unat_of_nat_u32)
  then have "bind_err (copy_to_end cp sz idx 0 m) (\<lambda>(i, m). copy_from_start cp n 0 i m) =
      copy_seq cp (run idx 0 l @ run 0 (word_of_nat l) (unat n - l)) m"
    by (simp add: copy_to_end_run l_def [symmetric] bind_err_assoc copy_from_start_run copy_seq_append)
  also have "run idx 0 l = wrapped (unat sz) (unat idx) l"
    using assms by (intro run_wrapped) (simp add: l_def)
  finally show ?thesis by (simp add: split)
qed

text \<open>
  The common shape of the six routines: the unrolled copy when the run does not touch the
  end of the ring, the two loops otherwise.
\<close>

lemma elems_wrapped:
  assumes "unat w = 2 ^ k" "w - 1 = low" "unat idx < unat sz" "unat n \<le> unat sz"
    "unat idx + unat n < 4294967296"
  shows "(if idx + n < sz then
            bind_err (copy_blocks cp w n idx 0 m) (\<lambda>(idx, i, m).
              copy_units cp (unat (n AND low)) idx i m)
          else bind_err (copy_to_end cp sz idx 0 m) (\<lambda>(i, m). copy_from_start cp n 0 i m)) =
         copy_seq cp (wrapped (unat sz) (unat idx) (unat n)) m"
proof -
  have "idx + n < sz \<longleftrightarrow> unat idx + unat n < unat sz"
    using assms(5) by (simp add: word_less_nat_alt unat_add_u32)
  then show ?thesis using assms by (auto simp: unrolled_wrapped looped_wrapped)
qed

subsection \<open>The effect on the two arrays\<close>

definition ring_put :: "nat \<Rightarrow> nat \<Rightarrow> 'w list \<Rightarrow> nat \<Rightarrow> 'w list \<Rightarrow> 'w list" where
  "ring_put sz idx entries n ring = fold (\<lambda>j r. r[(idx + j) mod sz := entries ! j]) [0..<n] ring"

definition ring_get :: "nat \<Rightarrow> nat \<Rightarrow> nat \<Rightarrow> 'w list \<Rightarrow> 'w list" where
  "ring_get sz idx n ring = map (\<lambda>j. ring ! ((idx + j) mod sz)) [0..<n]"

lemma ring_put_0 [simp]: "ring_put sz idx entries 0 ring = ring"
  by (simp add: ring_put_def)

lemma ring_put_Suc:
  "ring_put sz idx entries (Suc n) ring =
     (ring_put sz idx entries n ring)[(idx + n) mod sz := entries ! n]"
  by (simp add: ring_put_def)

lemma length_ring_put [simp]: "length (ring_put sz idx entries n ring) = length ring"
  by (induction n) (simp_all add: ring_put_Suc)

lemma ring_put_nth_other:
  "(\<And>j. j < n \<Longrightarrow> (idx + j) mod sz \<noteq> p) \<Longrightarrow> ring_put sz idx entries n ring ! p = ring ! p"
  by (induction n) (simp_all add: ring_put_Suc)

lemma ring_put_nth:
  assumes "j < n" "n \<le> sz" "sz \<le> length ring"
  shows "ring_put sz idx entries n ring ! ((idx + j) mod sz) = entries ! j"
  using assms
proof (induction n)
  case (Suc n)
  have lt: "(idx + n) mod sz < length ring"
    using Suc.prems by (metis less_le_trans mod_less_divisor not_less_zero neq0_conv)
  show ?case
  proof (cases "j = n")
    case True
    with lt show ?thesis by (simp add: ring_put_Suc)
  next
    case False
    then have "(idx + j) mod sz \<noteq> (idx + n) mod sz"
      using Suc.prems mod_eq_near [of "idx + j" sz "idx + n"] by auto
    with False Suc show ?thesis by (simp add: ring_put_Suc)
  qed
qed simp

lemma ring_get_put:
  assumes "n \<le> sz" "sz \<le> length ring" "n \<le> length entries"
  shows "ring_get sz idx n (ring_put sz idx entries n ring) = take n entries"
  by (rule nth_equalityI) (use assms in \<open>auto simp: ring_get_def ring_put_nth\<close>)

lemma wrap_index:
  assumes "0 < sz" "sz \<le> len" "sz \<le> 4294967296"
  shows "unat (word_of_nat (p mod sz) :: u32) = p mod sz" "p mod sz < len"
proof -
  have "p mod sz < sz" using assms(1) by (rule mod_less_divisor)
  then have "p mod sz < 4294967296" and *: "p mod sz < len" using assms by linarith+
  then show "unat (word_of_nat (p mod sz) :: u32) = p mod sz" by (simp only: unat_of_nat_u32)
  show "p mod sz < len" by (rule *)
qed

lemma copy_seq_enqueue:
  assumes "0 < sz" "sz \<le> length ring" "n \<le> length entries" "sz \<le> 4294967296" "n < 4294967296"
  shows "copy_seq enqueue_unit (wrapped sz idx n) (ring, entries) =
    Inr (ring_put sz idx entries n ring, entries)"
  using assms
proof (induction n)
  case (Suc n)
  note wrap_index [OF Suc.prems(1,2,4), of "idx + n"]
  moreover have "unat (word_of_nat n :: u32) = n" using Suc.prems by (simp add: unat_of_nat_u32)
  ultimately show ?case using Suc
    by (simp add: wrapped_def copy_seq_append enqueue_unit_def ring_put_Suc)
qed (simp add: wrapped_def)

lemma copy_seq_dequeue:
  assumes "0 < sz" "sz \<le> length ring" "n \<le> length entries" "sz \<le> 4294967296" "n < 4294967296"
  shows "copy_seq dequeue_unit (wrapped sz idx n) (ring, entries) =
    Inr (ring, ring_get sz idx n ring @ drop n entries)"
  using assms
proof (induction n)
  case (Suc n)
  note wrap_index [OF Suc.prems(1,2,4), of "idx + n"]
  moreover have "unat (word_of_nat n :: u32) = n" using Suc.prems by (simp add: unat_of_nat_u32)
  moreover have "(ring_get sz idx n ring @ drop n entries)[n := v] =
      ring_get sz idx n ring @ [v] @ drop (Suc n) entries" for v
    using Suc.prems by (simp add: ring_get_def list_update_append upd_conv_take_nth_drop
        Cons_nth_drop_Suc [symmetric])
  ultimately show ?case using Suc
    by (simp add: wrapped_def copy_seq_append dequeue_unit_def ring_get_def)
qed (simp add: wrapped_def ring_get_def)

text \<open>Each routine equals its reference, whatever the unrolling.\<close>

lemma enqueue_elems_32_eq:
  assumes "unat idx < unat sz" "unat n \<le> unat sz" "unat idx + unat n < 4294967296"
    "unat sz \<le> length ring" "unat n \<le> length entries"
  shows "enqueue_elems_32 ring sz idx entries n =
    Inr (ring_put (unat sz) (unat idx) entries (unat n) ring)"
  unfolding enqueue_elems_32_def
  by (subst elems_wrapped [where w = 8 and k = 3]) (use assms in \<open>auto simp: copy_seq_enqueue less_imp_le\<close>)

lemma dequeue_elems_32_eq:
  assumes "unat idx < unat sz" "unat n \<le> unat sz" "unat idx + unat n < 4294967296"
    "unat sz \<le> length ring" "unat n \<le> length entries"
  shows "dequeue_elems_32 ring sz idx entries n =
    Inr (ring_get (unat sz) (unat idx) (unat n) ring @ drop (unat n) entries)"
  unfolding dequeue_elems_32_def
  by (subst elems_wrapped [where w = 8 and k = 3]) (use assms in \<open>auto simp: copy_seq_dequeue less_imp_le\<close>)

text \<open>
  The layout of a ring of \<open>2 ^ k\<close> slots of \<open>scale\<close> units: the mask selects the slot of a
  position, and the element area holds every slot.
\<close>

definition ring_layout :: "nat \<Rightarrow> nat \<Rightarrow> 'w Ring \<Rightarrow> bool" where
  "ring_layout k scale r \<longleftrightarrow>
     k < 32 \<and> 0 < scale \<and> unat (ring_size r) = 2 ^ k \<and> unat (ring_mask r) = 2 ^ k - 1 \<and>
     2 ^ k * scale < 4294967296 \<and> 2 ^ k * scale \<le> length (elems r)"

lemma ring_layout_index:
  assumes "ring_layout k scale r"
  shows "unat (h AND ring_mask r) = unat h mod 2 ^ k" "unat h mod 2 ^ k < 2 ^ k"
  using assms by (simp_all add: ring_layout_def unat_and_mask)

lemma enqueue_elems_64_eq:
  assumes "ring_layout k 1 r" "unat n \<le> 2 ^ k" "unat n \<le> length entries"
    "unat h mod 2 ^ k + unat n < 4294967296"
  shows "enqueue_elems_64 r h entries n =
    Inr (ring_put (2 ^ k) (unat h mod 2 ^ k) entries (unat n) (elems r))"
  unfolding enqueue_elems_64_def Let_def
  by (subst elems_wrapped [where w = 4 and k = 2])
    (use assms ring_layout_index [OF assms(1)] in
      \<open>auto simp: copy_seq_enqueue less_imp_le ring_layout_def\<close>)

lemma enqueue_elems_128_eq:
  assumes "ring_layout k 1 r" "unat n \<le> 2 ^ k" "unat n \<le> length entries"
    "unat h mod 2 ^ k + unat n < 4294967296"
  shows "enqueue_elems_128 r h entries n =
    Inr (ring_put (2 ^ k) (unat h mod 2 ^ k) entries (unat n) (elems r))"
  unfolding enqueue_elems_128_def Let_def
  by (subst elems_wrapped [where w = 2 and k = 1])
    (use assms ring_layout_index [OF assms(1)] in
      \<open>auto simp: copy_seq_enqueue less_imp_le ring_layout_def\<close>)

lemma dequeue_elems_64_eq:
  assumes "ring_layout k 1 r" "unat n \<le> 2 ^ k" "unat n \<le> length entries"
    "unat h mod 2 ^ k + unat n < 4294967296"
  shows "dequeue_elems_64 r h entries n =
    Inr (ring_get (2 ^ k) (unat h mod 2 ^ k) (unat n) (elems r) @ drop (unat n) entries)"
  unfolding dequeue_elems_64_def Let_def
  by (subst elems_wrapped [where w = 4 and k = 2])
    (use assms ring_layout_index [OF assms(1)] in
      \<open>auto simp: copy_seq_dequeue less_imp_le ring_layout_def\<close>)

lemma dequeue_elems_128_eq:
  assumes "ring_layout k 1 r" "unat n \<le> 2 ^ k" "unat n \<le> length entries"
    "unat h mod 2 ^ k + unat n < 4294967296"
  shows "dequeue_elems_128 r h entries n =
    Inr (ring_get (2 ^ k) (unat h mod 2 ^ k) (unat n) (elems r) @ drop (unat n) entries)"
  unfolding dequeue_elems_128_def Let_def
  by (subst elems_wrapped [where w = 2 and k = 1])
    (use assms ring_layout_index [OF assms(1)] in
      \<open>auto simp: copy_seq_dequeue less_imp_le ring_layout_def\<close>)

subsection \<open>Elements and slots\<close>

text \<open>The number of units of a \<^verbatim>\<open>T\<close>, in the unit its routine copies.\<close>

definition unit_scale :: "u32 \<Rightarrow> nat" where
  "unit_scale esize = (if esize = 8 \<or> esize = 16 then 1 else unat (esize div 4))"

lemma scaled_index:
  assumes "ring_layout k scale r" "unat w = scale" "unat n \<le> 2 ^ k"
    "(unat h mod 2 ^ k + unat n) * scale < 4294967296"
  shows "unat (ring_size r * w) = 2 ^ k * scale"
    and "unat ((h AND ring_mask r) * w) = unat h mod 2 ^ k * scale"
    and "unat (n * w) = unat n * scale"
    and "unat h mod 2 ^ k * scale < 2 ^ k * scale"
    and "unat n * scale \<le> 2 ^ k * scale"
    and "unat h mod 2 ^ k * scale + unat n * scale < 4294967296"
proof -
  have *: "2 ^ k * scale < 4294967296" "0 < scale" using assms(1) by (simp_all add: ring_layout_def)
  note ix = ring_layout_index [OF assms(1), of h]
  show "unat (ring_size r * w) = 2 ^ k * scale"
    using assms(1,2) * by (subst unat_mult_u32) (simp_all add: ring_layout_def)
  show lt: "unat h mod 2 ^ k * scale < 2 ^ k * scale" using ix(2) *(2) by simp
  have "unat h mod 2 ^ k * scale < 4294967296" using lt *(1) by (rule less_trans)
  then show "unat ((h AND ring_mask r) * w) = unat h mod 2 ^ k * scale"
    by (subst unat_mult_u32) (simp_all add: ix(1) assms(2))
  show le: "unat n * scale \<le> 2 ^ k * scale" using assms(3) by simp
  have "unat n * scale < 4294967296" using le *(1) by (rule le_less_trans)
  then show "unat (n * w) = unat n * scale" by (subst unat_mult_u32) (simp_all add: assms(2))
  show "unat h mod 2 ^ k * scale + unat n * scale < 4294967296"
    using assms(4) by (simp add: add_mult_distrib)
qed

lemma enqueue_elements_eq:
  assumes "ring_layout k (unit_scale esize) r" "unat n \<le> 2 ^ k"
    "unat n * unit_scale esize \<le> length entries"
    "(unat h mod 2 ^ k + unat n) * unit_scale esize < 4294967296"
  shows "enqueue_elements esize r h entries n =
    Inr (ring_put (2 ^ k * unit_scale esize) (unat h mod 2 ^ k * unit_scale esize) entries
          (unat n * unit_scale esize) (elems r))"
proof (cases "esize = 8 \<or> esize = 16")
  case True
  then have "unit_scale esize = 1" by (simp add: unit_scale_def)
  with True assms show ?thesis
    by (auto simp: enqueue_elements_def enqueue_elems_64_eq enqueue_elems_128_eq)
next
  case False
  then have w: "unat (esize div 4) = unit_scale esize" by (simp add: unit_scale_def)
  note ix = scaled_index [OF assms(1) w assms(2,4)]
  show ?thesis using False assms ix
    by (simp add: enqueue_elements_def Let_def enqueue_elems_32_eq ring_layout_def)
qed

lemma dequeue_elements_eq:
  assumes "ring_layout k (unit_scale esize) r" "unat n \<le> 2 ^ k"
    "unat n * unit_scale esize \<le> length entries"
    "(unat h mod 2 ^ k + unat n) * unit_scale esize < 4294967296"
  shows "dequeue_elements esize r h entries n =
    Inr (ring_get (2 ^ k * unit_scale esize) (unat h mod 2 ^ k * unit_scale esize)
          (unat n * unit_scale esize) (elems r) @ drop (unat n * unit_scale esize) entries)"
proof (cases "esize = 8 \<or> esize = 16")
  case True
  then have "unit_scale esize = 1" by (simp add: unit_scale_def)
  with True assms show ?thesis
    by (auto simp: dequeue_elements_def dequeue_elems_64_eq dequeue_elems_128_eq)
next
  case False
  then have w: "unat (esize div 4) = unit_scale esize" by (simp add: unit_scale_def)
  note ix = scaled_index [OF assms(1) w assms(2,4)]
  show ?thesis using False assms ix
    by (simp add: dequeue_elements_def Let_def dequeue_elems_32_eq ring_layout_def)
qed

text \<open>A slot's content, and the update of one slot.\<close>

definition slot :: "nat \<Rightarrow> nat \<Rightarrow> 'w list \<Rightarrow> 'w list" where
  "slot scale s xs = take scale (drop (s * scale) xs)"

lemma slot_nth:
  assumes "j < scale" "(s + 1) * scale \<le> length xs"
  shows "slot scale s xs ! j = xs ! (s * scale + j)"
  using assms by (simp add: slot_def)

lemma length_slot: "(s + 1) * scale \<le> length xs \<Longrightarrow> length (slot scale s xs) = scale"
  by (simp add: slot_def)

lemma slot_index:
  assumes "s < (sz::nat)" "j < scale"
  shows "(s * scale + j) mod (sz * scale) = s * scale + j" "s * scale + j < sz * scale"
proof -
  have "s * scale + j < (s + 1) * scale" using assms(2) by simp
  also have "\<dots> \<le> sz * scale" using assms(1) by (intro mult_le_mono1) simp
  finally show "s * scale + j < sz * scale" .
  then show "(s * scale + j) mod (sz * scale) = s * scale + j" by (rule mod_less)
qed

lemma slot_bound: "s < (sz::nat) \<Longrightarrow> sz * scale \<le> len \<Longrightarrow> (s + 1) * scale \<le> len"
  using mult_le_mono1 [of "s + 1" sz scale] by linarith

lemma slot_ring_put:
  assumes "s < sz" "t < sz" "sz * scale \<le> length xs" "length x = scale"
  shows "slot scale t (ring_put (sz * scale) (s * scale) x scale xs) = (if t = s then x else slot scale t xs)"
proof (rule nth_equalityI)
  have len: "(t + 1) * scale \<le> length xs" by (rule slot_bound [OF assms(2,3)])
  then show "length (slot scale t (ring_put (sz * scale) (s * scale) x scale xs)) =
      length (if t = s then x else slot scale t xs)"
    using length_slot [of t scale xs] length_slot [of t scale "ring_put (sz * scale) (s * scale) x scale xs"]
    by (simp add: assms(4))
  fix j assume "j < length (slot scale t (ring_put (sz * scale) (s * scale) x scale xs))"
  then have j: "j < scale" by (simp add: slot_def)
  have le: "scale \<le> sz * scale" using assms(1) by (cases sz) simp_all
  have "ring_put (sz * scale) (s * scale) x scale xs ! (t * scale + j) =
      (if t = s then x ! j else xs ! (t * scale + j))"
  proof (cases "t = s")
    case True
    then show ?thesis
      using ring_put_nth [OF j le assms(3), of "s * scale" x] slot_index(1) [OF assms(1) j] by simp
  next
    case False
    have "(s * scale + i) mod (sz * scale) \<noteq> t * scale + j" if "i < scale" for i
    proof
      assume "(s * scale + i) mod (sz * scale) = t * scale + j"
      then have "s * scale + i = t * scale + j" using slot_index(1) [OF assms(1) that] by simp
      then have "(s * scale + i) div scale = (t * scale + j) div scale" by simp
      then show False using False that j by simp
    qed
    then show ?thesis using False by (simp add: ring_put_nth_other)
  qed
  then show "slot scale t (ring_put (sz * scale) (s * scale) x scale xs) ! j =
      (if t = s then x else slot scale t xs) ! j"
    using j len by (simp add: slot_nth)
qed

lemma ring_get_slot:
  assumes "s < sz" "sz * scale \<le> length xs"
  shows "ring_get (sz * scale) (s * scale) scale xs = slot scale s xs"
  by (rule nth_equalityI)
    (use slot_bound [OF assms] slot_index(1) [OF assms(1)] in
      \<open>simp_all add: ring_get_def slot_nth length_slot del: mult_Suc\<close>)

end
