(* ===== verification/Ring.thy ===== *)
theory Ring
  imports Ring_Elems
begin

text \<open>
  The operations of \<^verbatim>\<open>Ring<T, ...>\<close> (\<^verbatim>\<open>src/common/include/ring.hpp\<close>) as one thread
  executes them without interruption: creation (\<^verbatim>\<open>of\<close>, \<^verbatim>\<open>init\<close>), the moves of the
  producer and consumer heads for the three synchronisation modes the code implements,
  the tail updates, \<^verbatim>\<open>enqueue\<close> and \<^verbatim>\<open>dequeue\<close>. Loops that wait for another thread
  are \<open>partial_function (option)\<close>: \<open>None\<close> is a wait that never ends. The ring refines
  a bounded first-in first-out queue, stated as the locale \<open>bounded_fifo\<close> and
  interpreted on these definitions; interleaved executions are the subject of the theory
  \<open>Ring_Concurrent\<close>.
\<close>

subsection \<open>Configuration and errors\<close>

text \<open>The template arguments of \<^verbatim>\<open>Ring\<close>; \<open>elem_size\<close> is \<^verbatim>\<open>sizeof(T)\<close>.\<close>

record RingCfg =
  prod_sync_type :: RingSyncType
  cons_sync_type :: RingSyncType
  transactional_prod :: bool
  transactional_cons :: bool
  elem_size :: u32

datatype ring_error = EINVAL | Bad_alloc | Assert_failed | Memory mem_error

subsection \<open>Creation\<close>

definition HTD_MAX_DEF :: u32 where
  "HTD_MAX_DEF = 8"

definition zero_ht :: RingHeadTail where
  "zero_ht = \<lparr>ht_head = 0, ht_tail = 0\<rparr>"

definition init :: "u32 \<Rightarrow> 'w list \<Rightarrow> 'w Ring" where
  "init sz area =
     \<lparr>ring_size = sz,
      ring_mask = sz - 1,
      capacity = sz - 1,
      htd_max = (sz - 1) div HTD_MAX_DEF,
      memzone_size = 0,
      prod_ht = zero_ht,
      cons_ht = zero_ht,
      elems = area\<rparr>"

text \<open>
  \<open>sizeof(Ring)\<close>: three members aligned to the cache line follow the 32 bytes of sizes and
  of the memory zone, so the header takes four cache lines (of at least 32 bytes). The unit
  of the element area is the one the copy routines use.
\<close>

definition sizeof_Ring :: "u64 \<Rightarrow> u64" where
  "sizeof_Ring cache_linesize = 4 * cache_linesize"

definition unit_bytes :: "u32 \<Rightarrow> nat" where
  "unit_bytes esize = (if esize = 8 then 8 else if esize = 16 then 16 else 4)"

text \<open>
  \<^verbatim>\<open>Ring::of\<close>. The allocator is a parameter: \<open>alloc_ok sz\<close> says whether it returns
  memory for \<open>sz\<close> bytes (it throws \<^verbatim>\<open>std::bad_alloc\<close> otherwise), and \<open>mem\<close> is the
  content of that memory. The product \<^verbatim>\<open>count * esize\<close> is computed in 32 bits.
\<close>

definition Ring_of ::
  "(u64 \<Rightarrow> bool) \<Rightarrow> (nat \<Rightarrow> 'w) \<Rightarrow> u64 \<Rightarrow> u32 \<Rightarrow> u32 \<Rightarrow> ring_error + 'w Ring" where
  "Ring_of alloc_ok mem cache_linesize esize cnt =
     (let count = sqk_align32pow2 (cnt + 1) in
      if \<not> POWEROF2 count \<or> count > SQK_RING_SZ_MASK then Inl EINVAL
      else
        let sz = sizeof_Ring cache_linesize + ucast (count * esize);
            sz = SQK_ALIGN sz cache_linesize
        in if \<not> alloc_ok sz then Inl Bad_alloc
           else
             let area = map mem [0..<(unat sz - unat (sizeof_Ring cache_linesize)) div unit_bytes esize]
             in Inr ((init cnt area)\<lparr>memzone_size := sz\<rparr>))"

subsection \<open>Atomic operations on a head and a tail\<close>

text \<open>
  \<^verbatim>\<open>atomic_compare_exchange_strong\<close> on the head alone, and on the 64 bit union of head and
  tail: the result is the success flag, the object's new value and the new value of
  \<^verbatim>\<open>expected\<close>.
\<close>

definition cas_head :: "RingHeadTail \<Rightarrow> u32 \<Rightarrow> u32 \<Rightarrow> bool \<times> RingHeadTail \<times> u32" where
  "cas_head ht expected desired =
     (if ht_head ht = expected then (True, ht\<lparr>ht_head := desired\<rparr>, expected)
      else (False, ht, ht_head ht))"

definition cas_raw ::
  "RingHeadTail \<Rightarrow> RingHeadTail \<Rightarrow> RingHeadTail \<Rightarrow> bool \<times> RingHeadTail \<times> RingHeadTail" where
  "cas_raw ht expected desired =
     (if ht = expected then (True, desired, expected) else (False, ht, ht))"

partial_function (option) sqk_wait_until_equal_32 :: "RingHeadTail \<Rightarrow> u32 \<Rightarrow> unit option" where
  "sqk_wait_until_equal_32 ht expected =
     (if ht_tail ht \<noteq> expected then sqk_wait_until_equal_32 ht expected else Some ())"

partial_function (option) hts_head_wait :: "RingHeadTail \<Rightarrow> RingHeadTail \<Rightarrow> RingHeadTail option" where
  "hts_head_wait ht p = (if ht_head p \<noteq> ht_tail p then hts_head_wait ht ht else Some p)"

subsection \<open>Moving the heads\<close>

text \<open>The number of entries a request for \<open>n\<close> gets when \<open>avail\<close> are there.\<close>

definition clamp_request :: "bool \<Rightarrow> u32 \<Rightarrow> u32 \<Rightarrow> u32" where
  "clamp_request transactional n avail =
     (if n > avail then if transactional then 0 else avail else n)"

text \<open>The unsigned subtractions of the source, modulo \<open>2 ^ 32\<close>.\<close>

definition free_entries :: "u32 \<Rightarrow> u32 \<Rightarrow> u32 \<Rightarrow> u32" where
  "free_entries cap cons_tail old_head = cap + cons_tail - old_head"

definition used_entries :: "u32 \<Rightarrow> u32 \<Rightarrow> u32" where
  "used_entries prod_tail old_head = prod_tail - old_head"

text \<open>
  The result of a move is the number of entries, the old head, the new head, the free (or
  used) entries and the ring. The new head is an output argument that stays as the caller
  passed it when no entry is available.
\<close>

partial_function (option) move_prod_head_loop ::
  "RingCfg \<Rightarrow> u32 \<Rightarrow> u32 \<Rightarrow> u32 \<Rightarrow> 'w Ring \<Rightarrow> (u32 \<times> u32 \<times> u32 \<times> u32 \<times> 'w Ring) option" where
  "move_prod_head_loop cfg max_n old_head new_head r =
     (let cons_tail = ht_tail (cons_ht r);
          free = free_entries (capacity r) cons_tail old_head;
          n = clamp_request (transactional_prod cfg) max_n free
      in if n = 0 then Some (0, old_head, new_head, free, r)
         else
           let new_head = old_head + n in
           if prod_sync_type cfg = SQK_RING_SYNC_MT then
             case cas_head (prod_ht r) old_head new_head of (success, ht, seen) \<Rightarrow>
               if success then Some (n, old_head, new_head, free, r\<lparr>prod_ht := ht\<rparr>)
               else move_prod_head_loop cfg max_n seen new_head (r\<lparr>prod_ht := ht\<rparr>)
           else Some (n, old_head, new_head, free, r\<lparr>prod_ht := (prod_ht r)\<lparr>ht_head := new_head\<rparr>\<rparr>))"

definition move_prod_head ::
  "RingCfg \<Rightarrow> u32 \<Rightarrow> u32 \<Rightarrow> 'w Ring \<Rightarrow> (u32 \<times> u32 \<times> u32 \<times> u32 \<times> 'w Ring) option" where
  "move_prod_head cfg n new_head r =
     move_prod_head_loop cfg n (ht_head (prod_ht r)) new_head r"

partial_function (option) move_prod_head_hts_loop ::
  "RingCfg \<Rightarrow> u32 \<Rightarrow> RingHeadTail \<Rightarrow> 'w Ring \<Rightarrow> (u32 \<times> u32 \<times> u32 \<times> 'w Ring) option" where
  "move_prod_head_hts_loop cfg num opos r =
     Option.bind (hts_head_wait (prod_ht r) opos) (\<lambda>opos.
       let free = free_entries (capacity r) (ht_tail (cons_ht r)) (ht_head opos);
           n = clamp_request (transactional_prod cfg) num free
       in if n = 0 then Some (n, ht_head opos, free, r)
          else
            let npos = \<lparr>ht_head = ht_head opos + n, ht_tail = ht_tail opos\<rparr> in
            case cas_raw (prod_ht r) opos npos of (success, ht, seen) \<Rightarrow>
              if success then Some (n, ht_head opos, free, r\<lparr>prod_ht := ht\<rparr>)
              else move_prod_head_hts_loop cfg num seen (r\<lparr>prod_ht := ht\<rparr>))"

definition move_prod_head_hts ::
  "RingCfg \<Rightarrow> u32 \<Rightarrow> 'w Ring \<Rightarrow> (u32 \<times> u32 \<times> u32 \<times> 'w Ring) option" where
  "move_prod_head_hts cfg num r = move_prod_head_hts_loop cfg num (prod_ht r) r"

partial_function (option) move_cons_head_loop ::
  "RingCfg \<Rightarrow> u32 \<Rightarrow> u32 \<Rightarrow> 'w Ring \<Rightarrow> (u32 \<times> u32 \<times> u32 \<times> u32 \<times> 'w Ring) option" where
  "move_cons_head_loop cfg max_n new_head r =
     (let old_head = ht_head (cons_ht r);
          prod_tail = ht_tail (prod_ht r);
          entries = used_entries prod_tail old_head;
          n = clamp_request (transactional_cons cfg) max_n entries
      in if n = 0 then Some (0, old_head, new_head, entries, r)
         else
           let new_head = old_head + n in
           if cons_sync_type cfg = SQK_RING_SYNC_ST then
             Some (n, old_head, new_head, entries, r\<lparr>cons_ht := (cons_ht r)\<lparr>ht_head := new_head\<rparr>\<rparr>)
           else
             case cas_head (cons_ht r) old_head new_head of (success, ht, seen) \<Rightarrow>
               if success then Some (n, old_head, new_head, entries, r\<lparr>cons_ht := ht\<rparr>)
               else move_cons_head_loop cfg max_n new_head (r\<lparr>cons_ht := ht\<rparr>))"

definition move_cons_head ::
  "RingCfg \<Rightarrow> u32 \<Rightarrow> u32 \<Rightarrow> 'w Ring \<Rightarrow> (u32 \<times> u32 \<times> u32 \<times> u32 \<times> 'w Ring) option" where
  "move_cons_head cfg n new_head r = move_cons_head_loop cfg n new_head r"

partial_function (option) move_cons_head_hts_loop ::
  "RingCfg \<Rightarrow> u32 \<Rightarrow> RingHeadTail \<Rightarrow> 'w Ring \<Rightarrow> (u32 \<times> u32 \<times> u32 \<times> 'w Ring) option" where
  "move_cons_head_hts_loop cfg num opos r =
     Option.bind (hts_head_wait (cons_ht r) opos) (\<lambda>opos.
       let entries = used_entries (ht_tail (prod_ht r)) (ht_head opos);
           n = clamp_request (transactional_cons cfg) num entries
       in if n = 0 then Some (n, ht_head opos, entries, r)
          else
            let npos = \<lparr>ht_head = ht_head opos + n, ht_tail = ht_tail opos\<rparr> in
            case cas_raw (cons_ht r) opos npos of (success, ht, seen) \<Rightarrow>
              if success then Some (n, ht_head opos, entries, r\<lparr>cons_ht := ht\<rparr>)
              else move_cons_head_hts_loop cfg num seen (r\<lparr>cons_ht := ht\<rparr>))"

definition move_cons_head_hts ::
  "RingCfg \<Rightarrow> u32 \<Rightarrow> 'w Ring \<Rightarrow> (u32 \<times> u32 \<times> u32 \<times> 'w Ring) option" where
  "move_cons_head_hts cfg num r = move_cons_head_hts_loop cfg num (cons_ht r) r"

subsection \<open>Updating the tails\<close>

definition update_tail :: "RingHeadTail \<Rightarrow> u32 \<Rightarrow> u32 \<Rightarrow> bool \<Rightarrow> RingHeadTail option" where
  "update_tail ht old_val new_val single =
     (if \<not> single then
        Option.bind (sqk_wait_until_equal_32 ht old_val) (\<lambda>_. Some (ht\<lparr>ht_tail := new_val\<rparr>))
      else Some (ht\<lparr>ht_tail := new_val\<rparr>))"

definition update_tail_hts :: "RingHeadTail \<Rightarrow> u32 \<Rightarrow> u32 \<Rightarrow> RingHeadTail" where
  "update_tail_hts ht old_tail num = (let tail = old_tail + num in ht\<lparr>ht_tail := tail\<rparr>)"

subsection \<open>The public operations\<close>

definition enqueue ::
  "RingCfg \<Rightarrow> 'w list \<Rightarrow> 'w Ring \<Rightarrow> (ring_error + u32 \<times> 'w Ring) option" where
  "enqueue cfg entry r =
     (case prod_sync_type cfg of
        SQK_RING_SYNC_MT_RTS \<Rightarrow> Some (Inl Assert_failed)
      | SQK_RING_SYNC_MT_HTS \<Rightarrow>
          Option.bind (move_prod_head_hts cfg 1 r) (\<lambda>(n, head, free, r).
            if n \<noteq> 0 then
              case enqueue_elements (elem_size cfg) r head entry n of
                Inl e \<Rightarrow> Some (Inl (Memory e))
              | Inr es \<Rightarrow> Some (Inr (n, r\<lparr>elems := es, prod_ht := update_tail_hts (prod_ht r) head n\<rparr>))
            else Some (Inr (n, r)))
      | _ \<Rightarrow>
          Option.bind (move_prod_head cfg 1 0 r) (\<lambda>(n, prod_head, prod_next, free, r).
            if n = 0 then Some (Inr (0, r))
            else
              case enqueue_elements (elem_size cfg) r prod_head entry n of
                Inl e \<Rightarrow> Some (Inl (Memory e))
              | Inr es \<Rightarrow>
                  Option.bind (update_tail (prod_ht r) prod_head prod_next
                      (prod_sync_type cfg = SQK_RING_SYNC_ST)) (\<lambda>ht.
                    Some (Inr (n, r\<lparr>elems := es, prod_ht := ht\<rparr>)))))"

definition dequeue ::
  "RingCfg \<Rightarrow> 'w list \<Rightarrow> 'w Ring \<Rightarrow> (ring_error + u32 \<times> 'w list \<times> 'w Ring) option" where
  "dequeue cfg entry r =
     (case cons_sync_type cfg of
        SQK_RING_SYNC_MT_RTS \<Rightarrow> Some (Inl Assert_failed)
      | SQK_RING_SYNC_MT_HTS \<Rightarrow>
          Option.bind (move_cons_head_hts cfg 1 r) (\<lambda>(n, head, entries, r).
            if n \<noteq> 0 then
              case dequeue_elements (elem_size cfg) r head entry n of
                Inl e \<Rightarrow> Some (Inl (Memory e))
              | Inr entry \<Rightarrow> Some (Inr (n, entry, r\<lparr>cons_ht := update_tail_hts (cons_ht r) head n\<rparr>))
            else Some (Inr (n, entry, r)))
      | _ \<Rightarrow>
          Option.bind (move_cons_head cfg 1 0 r) (\<lambda>(n, cons_head, cons_next, entries, r).
            if n = 0 then Some (Inr (0, entry, r))
            else
              case dequeue_elements (elem_size cfg) r cons_head entry n of
                Inl e \<Rightarrow> Some (Inl (Memory e))
              | Inr entry \<Rightarrow>
                  Option.bind (update_tail (cons_ht r) cons_head cons_next
                      (cons_sync_type cfg = SQK_RING_SYNC_ST)) (\<lambda>ht.
                    Some (Inr (n, entry, r\<lparr>cons_ht := ht\<rparr>)))))"

text \<open>The size \<^verbatim>\<open>Ring::free\<close> hands back to the allocator.\<close>

definition Ring_free :: "'w Ring \<Rightarrow> u64" where
  "Ring_free r = memzone_size r"

declare sqk_wait_until_equal_32.simps [code] hts_head_wait.simps [code]
declare move_prod_head_loop.simps [code] move_prod_head_hts_loop.simps [code]
declare move_cons_head_loop.simps [code] move_cons_head_hts_loop.simps [code]

end
