(* ===== verification/Queue_Interface.thy ===== *)
theory Queue_Interface
  imports Prelude
begin

text \<open>
  What a bounded queue promises its clients, as a locale: an invariant, an abstraction to
  the list of stored entries (oldest first), a capacity, and the laws of \<open>enq\<close> and
  \<open>deq\<close> on a queue with room, a full queue, a queue with entries and an empty queue.
  Inside the locale, every sequence of operations is shown to give the results of the
  list specification (\<open>spec_run\<close>).
\<close>

datatype 'a qop = Enq 'a | Deq

datatype 'a qres = Stored | Full | Taken 'a | Empty

fun spec_step :: "nat \<Rightarrow> 'a qop \<Rightarrow> 'a list \<Rightarrow> 'a qres \<times> 'a list" where
  "spec_step cap (Enq x) xs = (if length xs < cap then (Stored, xs @ [x]) else (Full, xs))"
| "spec_step cap Deq [] = (Empty, [])"
| "spec_step cap Deq (x # xs) = (Taken x, xs)"

fun spec_run :: "nat \<Rightarrow> 'a qop list \<Rightarrow> 'a list \<Rightarrow> 'a qres list \<times> 'a list" where
  "spec_run cap [] xs = ([], xs)"
| "spec_run cap (op # ops) xs =
     (case spec_step cap op xs of (res, ys) \<Rightarrow>
      case spec_run cap ops ys of (ress, zs) \<Rightarrow> (res # ress, zs))"

text \<open>An implementation: both operations may fail to return (\<open>None\<close>).\<close>

fun queue_step ::
  "('a \<Rightarrow> 'q \<Rightarrow> (bool \<times> 'q) option) \<Rightarrow> ('q \<Rightarrow> ('a option \<times> 'q) option) \<Rightarrow> 'a qop \<Rightarrow> 'q \<Rightarrow>
     ('a qres \<times> 'q) option" where
  "queue_step enq deq (Enq x) q =
     (case enq x q of None \<Rightarrow> None
      | Some (ok, q') \<Rightarrow> Some (if ok then Stored else Full, q'))"
| "queue_step enq deq Deq q =
     (case deq q of None \<Rightarrow> None
      | Some (None, q') \<Rightarrow> Some (Empty, q')
      | Some (Some x, q') \<Rightarrow> Some (Taken x, q'))"

fun queue_run ::
  "('a \<Rightarrow> 'q \<Rightarrow> (bool \<times> 'q) option) \<Rightarrow> ('q \<Rightarrow> ('a option \<times> 'q) option) \<Rightarrow> 'a qop list \<Rightarrow> 'q \<Rightarrow>
     ('a qres list \<times> 'q) option" where
  "queue_run enq deq [] q = Some ([], q)"
| "queue_run enq deq (op # ops) q =
     (case queue_step enq deq op q of None \<Rightarrow> None
      | Some (res, q') \<Rightarrow>
          (case queue_run enq deq ops q' of None \<Rightarrow> None
           | Some (ress, q'') \<Rightarrow> Some (res # ress, q'')))"

fun valid_op :: "('a \<Rightarrow> bool) \<Rightarrow> 'a qop \<Rightarrow> bool" where
  "valid_op valid (Enq x) = valid x"
| "valid_op valid Deq = True"

locale bounded_fifo =
  fixes inv :: "'q \<Rightarrow> bool"
    and contents :: "'q \<Rightarrow> 'a list"
    and cap :: "'q \<Rightarrow> nat"
    and valid :: "'a \<Rightarrow> bool"
    and enq :: "'a \<Rightarrow> 'q \<Rightarrow> (bool \<times> 'q) option"
    and deq :: "'q \<Rightarrow> ('a option \<times> 'q) option"
  assumes bounded: "inv q \<Longrightarrow> length (contents q) \<le> cap q"
    and enq_room: "inv q \<Longrightarrow> valid x \<Longrightarrow> length (contents q) < cap q \<Longrightarrow>
      \<exists>q'. enq x q = Some (True, q') \<and> inv q' \<and> contents q' = contents q @ [x] \<and> cap q' = cap q"
    and enq_full: "inv q \<Longrightarrow> valid x \<Longrightarrow> \<not> length (contents q) < cap q \<Longrightarrow> enq x q = Some (False, q)"
    and deq_some: "inv q \<Longrightarrow> contents q = x # xs \<Longrightarrow>
      \<exists>q'. deq q = Some (Some x, q') \<and> inv q' \<and> contents q' = xs \<and> cap q' = cap q"
    and deq_empty: "inv q \<Longrightarrow> contents q = [] \<Longrightarrow> deq q = Some (None, q)"
begin

lemma step_refines:
  assumes "inv q" "valid_op valid op"
  shows "\<exists>q'. queue_step enq deq op q = Some (fst (spec_step (cap q) op (contents q)), q') \<and>
     inv q' \<and> contents q' = snd (spec_step (cap q) op (contents q)) \<and> cap q' = cap q"
proof (cases op)
  case (Enq x)
  show ?thesis
  proof (cases "length (contents q) < cap q")
    case True
    then show ?thesis using enq_room [OF assms(1), of x] assms(2) Enq by auto
  next
    case False
    then show ?thesis using enq_full [OF assms(1), of x] assms Enq by auto
  qed
next
  case Deq
  then show ?thesis
    using deq_some [OF assms(1)] deq_empty [OF assms(1)] assms(1) by (cases "contents q") fastforce+
qed

lemma run_refines:
  assumes "inv q" "list_all (valid_op valid) ops"
  shows "\<exists>q'. queue_run enq deq ops q = Some (fst (spec_run (cap q) ops (contents q)), q') \<and>
     inv q' \<and> contents q' = snd (spec_run (cap q) ops (contents q)) \<and> cap q' = cap q"
  using assms
proof (induction ops arbitrary: q)
  case (Cons op ops)
  then have valid: "valid_op valid op" "list_all (valid_op valid) ops" by simp_all
  obtain q' where step: "queue_step enq deq op q = Some (fst (spec_step (cap q) op (contents q)), q')"
      "inv q'" "contents q' = snd (spec_step (cap q) op (contents q))" "cap q' = cap q"
    using step_refines [OF Cons.prems(1) valid(1)] by blast
  then show ?case using Cons.IH [OF step(2) valid(2)] by (auto split: prod.splits)
qed simp

end

end
