(* ===== verification/Ring_Queue.thy ===== *)
theory Ring_Queue
  imports Ring Queue_Interface
begin

text \<open>
  An uninterrupted ring is a bounded first-in first-out queue. The invariant \<open>ring_inv\<close>
  states the layout of a ring whose size is a power of two and that its four indices agree;
  \<open>ring_contents\<close> reads the stored entries off the element area. Every operation keeps
  the invariant and acts on the contents as the list specification says, for each
  synchronisation mode, for every entry size and across the wrap-around of the 32 bit
  indices; \<open>Ring_of\<close> establishes the invariant when its argument is a power of two.
\<close>

definition sync_supported :: "RingSyncType \<Rightarrow> bool" where
  "sync_supported s \<longleftrightarrow> s \<noteq> SQK_RING_SYNC_MT_RTS"

definition ring_inv :: "RingCfg \<Rightarrow> nat \<Rightarrow> 'w Ring \<Rightarrow> bool" where
  "ring_inv cfg k r \<longleftrightarrow>
     sync_supported (prod_sync_type cfg) \<and> sync_supported (cons_sync_type cfg) \<and>
     ring_layout k (unit_scale (elem_size cfg)) r \<and>
     capacity r = ring_mask r \<and>
     ht_head (prod_ht r) = ht_tail (prod_ht r) \<and>
     ht_head (cons_ht r) = ht_tail (cons_ht r) \<and>
     ht_tail (prod_ht r) - ht_tail (cons_ht r) \<le> capacity r"

definition ring_count :: "'w Ring \<Rightarrow> nat" where
  "ring_count r = unat (ht_tail (prod_ht r) - ht_tail (cons_ht r))"

definition ring_contents :: "RingCfg \<Rightarrow> nat \<Rightarrow> 'w Ring \<Rightarrow> 'w list list" where
  "ring_contents cfg k r =
     map (\<lambda>j. slot (unit_scale (elem_size cfg)) ((unat (ht_tail (cons_ht r)) + j) mod 2 ^ k) (elems r))
       [0..<ring_count r]"

lemma length_ring_contents [simp]: "length (ring_contents cfg k r) = ring_count r"
  by (simp add: ring_contents_def)

subsection \<open>Index arithmetic modulo the ring size\<close>

lemma unat_add_mod_pow:
  fixes a b :: u32
  assumes "k \<le> 32"
  shows "unat (a + b) mod 2 ^ k = (unat a + unat b) mod 2 ^ k"
proof -
  have "(2::nat) ^ k dvd 2 ^ 32" using assms by (rule le_imp_power_dvd)
  then have "(2::nat) ^ k dvd 4294967296" by simp
  then show ?thesis by (simp add: unat_word_ariths mod_mod_cancel)
qed

lemma free_entries_eq: "free_entries cap ct oh = cap - (oh - ct)"
  by (simp add: free_entries_def)

lemma unat_free_entries:
  assumes "oh - ct \<le> cap"
  shows "unat (free_entries cap ct oh) = unat cap - unat (oh - ct)"
  using assms by (simp add: free_entries_eq unat_sub_word word_le_nat_alt)

lemma clamp_request_1: "clamp_request tr 1 avail = (if avail = 0 then 0 else 1)"
  by (auto simp: clamp_request_def word_less_1)

text \<open>What a bulk request gets: at most what it asks for and what there is.\<close>

lemma clamp_request_bounds:
  "clamp_request tr n avail \<le> n" "clamp_request tr n avail \<le> avail"
  "tr \<Longrightarrow> clamp_request tr n avail = n \<or> clamp_request tr n avail = 0"
  "n \<le> avail \<Longrightarrow> clamp_request tr n avail = n"
  by (auto simp: clamp_request_def not_less)

subsection \<open>Uninterrupted head moves take one iteration\<close>

lemma hts_head_wait_ready: "ht_head p = ht_tail p \<Longrightarrow> hts_head_wait ht p = Some p"
  by (simp add: hts_head_wait.simps)

lemma wait_ready: "ht_tail ht = e \<Longrightarrow> sqk_wait_until_equal_32 ht e = Some ()"
  by (simp add: sqk_wait_until_equal_32.simps)

lemma move_prod_head_eq:
  "move_prod_head cfg m nh r =
     (let oh = ht_head (prod_ht r);
          free = free_entries (capacity r) (ht_tail (cons_ht r)) oh;
          n = clamp_request (transactional_prod cfg) m free
      in Some (n, oh, if n = 0 then nh else oh + n, free,
           if n = 0 then r else r\<lparr>prod_ht := (prod_ht r)\<lparr>ht_head := oh + n\<rparr>\<rparr>))"
  by (simp add: move_prod_head_def move_prod_head_loop.simps cas_head_def Let_def)

lemma move_cons_head_eq:
  "move_cons_head cfg m nh r =
     (let oh = ht_head (cons_ht r);
          used = used_entries (ht_tail (prod_ht r)) oh;
          n = clamp_request (transactional_cons cfg) m used
      in Some (n, oh, if n = 0 then nh else oh + n, used,
           if n = 0 then r else r\<lparr>cons_ht := (cons_ht r)\<lparr>ht_head := oh + n\<rparr>\<rparr>))"
  by (simp add: move_cons_head_def move_cons_head_loop.simps cas_head_def Let_def)

lemma move_prod_head_hts_eq:
  assumes "ht_head (prod_ht r) = ht_tail (prod_ht r)"
  shows "move_prod_head_hts cfg m r =
     (let oh = ht_head (prod_ht r);
          free = free_entries (capacity r) (ht_tail (cons_ht r)) oh;
          n = clamp_request (transactional_prod cfg) m free
      in Some (n, oh, free, if n = 0 then r else r\<lparr>prod_ht := (prod_ht r)\<lparr>ht_head := oh + n\<rparr>\<rparr>))"
  using assms
  by (cases "prod_ht r")
    (simp add: move_prod_head_hts_def move_prod_head_hts_loop.simps hts_head_wait_ready cas_raw_def Let_def)

lemma move_cons_head_hts_eq:
  assumes "ht_head (cons_ht r) = ht_tail (cons_ht r)"
  shows "move_cons_head_hts cfg m r =
     (let oh = ht_head (cons_ht r);
          used = used_entries (ht_tail (prod_ht r)) oh;
          n = clamp_request (transactional_cons cfg) m used
      in Some (n, oh, used, if n = 0 then r else r\<lparr>cons_ht := (cons_ht r)\<lparr>ht_head := oh + n\<rparr>\<rparr>))"
  using assms
  by (cases "cons_ht r")
    (simp add: move_cons_head_hts_def move_cons_head_hts_loop.simps hts_head_wait_ready cas_raw_def Let_def)

lemmas move_eqs = move_prod_head_eq move_cons_head_eq move_prod_head_hts_eq move_cons_head_hts_eq

subsection \<open>The public operations in one step\<close>

lemma ring_layout_upd [simp]:
  "ring_layout k sc (r\<lparr>prod_ht := x\<rparr>) = ring_layout k sc r"
  "ring_layout k sc (r\<lparr>cons_ht := x\<rparr>) = ring_layout k sc r"
  "length es = length (elems r) \<Longrightarrow> ring_layout k sc (r\<lparr>elems := es\<rparr>) = ring_layout k sc r"
  by (simp_all add: ring_layout_def)

lemma one_element:
  assumes "ring_layout k sc r"
  shows "(unat h mod 2 ^ k + 1) * sc < 4294967296"
proof -
  have "(unat h mod 2 ^ k + 1) * sc \<le> 2 ^ k * sc" by (rule slot_bound [of _ "2 ^ k"]) simp_all
  then show ?thesis using assms by (simp add: ring_layout_def)
qed

definition put_entry :: "nat \<Rightarrow> 'w list \<Rightarrow> 'w Ring \<Rightarrow> 'w Ring" where
  "put_entry k x r =
     (let t = ht_tail (prod_ht r) in
      r\<lparr>elems := ring_put (2 ^ k * length x) (unat t mod 2 ^ k * length x) x (length x) (elems r),
        prod_ht := \<lparr>ht_head = t + 1, ht_tail = t + 1\<rparr>\<rparr>)"

definition take_entry :: "'w Ring \<Rightarrow> 'w Ring" where
  "take_entry r =
     (let t = ht_tail (cons_ht r) in r\<lparr>cons_ht := \<lparr>ht_head = t + 1, ht_tail = t + 1\<rparr>\<rparr>)"

lemma enqueue_elements_one:
  assumes "ring_layout k (unit_scale e) r" "length x = unit_scale e"
  shows "enqueue_elements e r h x 1 =
    Inr (ring_put (2 ^ k * length x) (unat h mod 2 ^ k * length x) x (length x) (elems r))"
  using assms one_element [OF assms(1), of h] by (subst enqueue_elements_eq) auto

lemma dequeue_elements_one:
  assumes "ring_layout k (unit_scale e) r" "length x = unit_scale e"
  shows "dequeue_elements e r h x 1 = Inr (slot (unit_scale e) (unat h mod 2 ^ k) (elems r))"
  using assms one_element [OF assms(1), of h]
  by (subst dequeue_elements_eq) (auto simp: ring_get_slot ring_layout_def)

lemma enqueue_eq:
  assumes "ring_inv cfg k r" "length x = unit_scale (elem_size cfg)"
  shows "enqueue cfg x r =
    (if ring_count r < unat (capacity r) then Some (Inr (1, put_entry k x r)) else Some (Inr (0, r)))"
proof -
  let ?t = "ht_tail (prod_ht r)"
  have h: "ht_head (prod_ht r) = ?t" "?t - ht_tail (cons_ht r) \<le> capacity r"
    using assms(1) by (auto simp: ring_inv_def)
  have layout: "ring_layout k (unit_scale (elem_size cfg)) r" using assms(1) by (simp add: ring_inv_def)
  have free: "free_entries (capacity r) (ht_tail (cons_ht r)) ?t = 0 \<longleftrightarrow> \<not> ring_count r < unat (capacity r)"
    using h(2) by (simp add: ring_count_def unat_free_entries unat_eq_zero [symmetric] not_less)
  show ?thesis
  proof (cases "prod_sync_type cfg")
    case SQK_RING_SYNC_MT_RTS
    then show ?thesis using assms(1) by (simp add: ring_inv_def sync_supported_def)
  qed (use h(1) free layout assms(2) in
        \<open>simp_all add: enqueue_def move_eqs clamp_request_1 enqueue_elements_one update_tail_def
          update_tail_hts_def wait_ready put_entry_def Let_def\<close>)
qed

lemma dequeue_eq:
  assumes "ring_inv cfg k r" "length x = unit_scale (elem_size cfg)"
  shows "dequeue cfg x r =
    (if ring_count r = 0 then Some (Inr (0, x, r))
     else Some (Inr (1, slot (unit_scale (elem_size cfg)) (unat (ht_tail (cons_ht r)) mod 2 ^ k) (elems r),
                take_entry r)))"
proof -
  let ?t = "ht_tail (cons_ht r)"
  have h: "ht_head (cons_ht r) = ?t" using assms(1) by (simp add: ring_inv_def)
  have layout: "ring_layout k (unit_scale (elem_size cfg)) r" using assms(1) by (simp add: ring_inv_def)
  have used: "used_entries (ht_tail (prod_ht r)) ?t = 0 \<longleftrightarrow> ring_count r = 0"
    by (simp add: ring_count_def used_entries_def unat_eq_zero)
  show ?thesis
  proof (cases "cons_sync_type cfg")
    case SQK_RING_SYNC_MT_RTS
    then show ?thesis using assms(1) by (simp add: ring_inv_def sync_supported_def)
  qed (use h used layout assms(2) in
        \<open>simp_all add: dequeue_def move_eqs clamp_request_1 dequeue_elements_one update_tail_def
          update_tail_hts_def wait_ready take_entry_def Let_def\<close>)
qed

subsection \<open>Effect on the contents\<close>

lemma ring_count_put:
  assumes "ring_inv cfg k r" "ring_count r < unat (capacity r)"
  shows "ring_count (put_entry k x r) = Suc (ring_count r)"
proof -
  have "ring_count (put_entry k x r) = unat (ht_tail (prod_ht r) - ht_tail (cons_ht r) + 1)"
    by (simp add: ring_count_def put_entry_def Let_def algebra_simps)
  also have "\<dots> = Suc (ring_count r)"
    unfolding ring_count_def
    by (rule u32_less_Suc [of _ "capacity r"]) (use assms(2) in \<open>simp add: ring_count_def word_less_nat_alt\<close>)
  finally show ?thesis .
qed

lemma ring_count_le:
  assumes "ring_inv cfg k r"
  shows "ring_count r \<le> unat (capacity r)" "unat (capacity r) = 2 ^ k - 1"
proof -
  show "ring_count r \<le> unat (capacity r)"
    using assms by (auto simp: ring_inv_def ring_count_def word_le_nat_alt)
  show "unat (capacity r) = 2 ^ k - 1" using assms by (simp add: ring_inv_def ring_layout_def)
qed

lemma put_entry_inv:
  assumes "ring_inv cfg k r" "ring_count r < unat (capacity r)" "length x = unit_scale (elem_size cfg)"
  shows "ring_inv cfg k (put_entry k x r)"
proof -
  have "unat (ht_tail (prod_ht r) + 1 - ht_tail (cons_ht r)) \<le> unat (capacity r)"
    using ring_count_put [OF assms(1,2), of x] assms(2)
    by (simp add: ring_count_def put_entry_def Let_def)
  then show ?thesis using assms(1)
    by (auto simp: ring_inv_def put_entry_def Let_def word_le_nat_alt ring_layout_def)
qed

lemma prod_position:
  assumes "ring_layout k sc r"
  shows "(unat (ht_tail (cons_ht r)) + ring_count r) mod 2 ^ k = unat (ht_tail (prod_ht r)) mod 2 ^ k"
  using unat_add_mod_pow [of k "ht_tail (cons_ht r)" "ht_tail (prod_ht r) - ht_tail (cons_ht r)"] assms
  by (simp add: ring_count_def ring_layout_def)

lemma put_entry_contents:
  assumes "ring_inv cfg k r" "ring_count r < unat (capacity r)" "length x = unit_scale (elem_size cfg)"
  shows "ring_contents cfg k (put_entry k x r) = ring_contents cfg k r @ [x]"
proof -
  let ?sc = "unit_scale (elem_size cfg)" and ?c = "unat (ht_tail (cons_ht r))"
  let ?es = "elems (put_entry k x r)"
  have layout: "ring_layout k ?sc r" using assms(1) by (simp add: ring_inv_def)
  have count: "ring_count r < 2 ^ k" using assms(2) ring_count_le [OF assms(1)] by simp
  have slot_at: "slot ?sc (p mod 2 ^ k) ?es =
      (if p mod 2 ^ k = unat (ht_tail (prod_ht r)) mod 2 ^ k then x else slot ?sc (p mod 2 ^ k) (elems r))" for p
    using layout assms(3)
    by (simp add: put_entry_def Let_def ring_layout_def slot_ring_put)
  have other: "(?c + j) mod 2 ^ k \<noteq> unat (ht_tail (prod_ht r)) mod 2 ^ k" if "j < ring_count r" for j
    using that count mod_eq_near [of "?c + j" "2 ^ k" "?c + ring_count r"]
    unfolding prod_position [OF layout, symmetric] by auto
  have "ring_contents cfg k (put_entry k x r) =
      map (\<lambda>j. slot ?sc ((?c + j) mod 2 ^ k) ?es) [0..<Suc (ring_count r)]"
    by (simp add: ring_contents_def ring_count_put [OF assms(1,2)] del: upt_Suc)
      (simp add: put_entry_def Let_def)
  also have "\<dots> = map (\<lambda>j. slot ?sc ((?c + j) mod 2 ^ k) (elems r)) [0..<ring_count r] @ [x]"
    by (simp add: slot_at other prod_position [OF layout])
  finally show ?thesis by (simp add: ring_contents_def)
qed

lemma ring_count_take:
  assumes "ring_count r \<noteq> 0"
  shows "ring_count (take_entry r) = ring_count r - 1"
proof -
  have "ring_count (take_entry r) = unat (ht_tail (prod_ht r) - ht_tail (cons_ht r) - 1)"
    by (simp add: ring_count_def take_entry_def Let_def algebra_simps)
  then show ?thesis using assms by (simp add: ring_count_def unat_sub_word)
qed

lemma take_entry_inv:
  assumes "ring_inv cfg k r" "ring_count r \<noteq> 0"
  shows "ring_inv cfg k (take_entry r)"
proof -
  have "ring_count (take_entry r) \<le> unat (capacity r)"
    using ring_count_take [OF assms(2)] ring_count_le [OF assms(1)] by simp
  then show ?thesis using assms(1)
    by (auto simp: ring_inv_def take_entry_def Let_def word_le_nat_alt ring_count_def ring_layout_def)
qed

lemma take_entry_contents:
  assumes "ring_inv cfg k r" "ring_count r \<noteq> 0"
  shows "ring_contents cfg k r =
    slot (unit_scale (elem_size cfg)) (unat (ht_tail (cons_ht r)) mod 2 ^ k) (elems r) #
    ring_contents cfg k (take_entry r)"
proof -
  obtain n where n: "ring_count r = Suc n" using assms(2) by (cases "ring_count r") auto
  have k: "k \<le> 32" using assms(1) by (simp add: ring_inv_def ring_layout_def)
  have "[0..<Suc n] = 0 # map Suc [0..<n]" by (simp add: map_Suc_upt upt_conv_Cons del: upt_Suc)
  moreover have "(unat (ht_tail (cons_ht r) + 1) + j) mod 2 ^ k =
      (unat (ht_tail (cons_ht r)) + Suc j) mod 2 ^ k" for j
    using mod_add_left_eq [of "unat (ht_tail (cons_ht r) + 1)" "2 ^ k" j]
      mod_add_left_eq [of "unat (ht_tail (cons_ht r)) + 1" "2 ^ k" j]
      unat_add_mod_pow [OF k, of "ht_tail (cons_ht r)" 1] by simp
  ultimately show ?thesis
    by (simp add: ring_contents_def ring_count_take [OF assms(2)] n del: upt_Suc)
      (simp add: take_entry_def Let_def)
qed

subsection \<open>The ring as a bounded queue\<close>

text \<open>
  The interface's view of the two operations: whether the entry was stored, and the entry
  taken. The caller's variable for the entry is a buffer of the entry's size.
\<close>

definition enq_entry :: "RingCfg \<Rightarrow> 'w list \<Rightarrow> 'w Ring \<Rightarrow> (bool \<times> 'w Ring) option" where
  "enq_entry cfg x r =
     (case enqueue cfg x r of Some (Inr (n, r')) \<Rightarrow> Some (n \<noteq> 0, r') | _ \<Rightarrow> None)"

definition deq_entry :: "RingCfg \<Rightarrow> 'w \<Rightarrow> 'w Ring \<Rightarrow> ('w list option \<times> 'w Ring) option" where
  "deq_entry cfg blank r =
     (case dequeue cfg (replicate (unit_scale (elem_size cfg)) blank) r of
        Some (Inr (n, x, r')) \<Rightarrow> Some (if n = 0 then None else Some x, r')
      | _ \<Rightarrow> None)"

lemma capacity_upd [simp]:
  "capacity (put_entry k x r) = capacity r" "capacity (take_entry r) = capacity r"
  by (simp_all add: put_entry_def take_entry_def Let_def)

interpretation ring_fifo: bounded_fifo "ring_inv cfg k" "ring_contents cfg k" "\<lambda>r. unat (capacity r)"
  "\<lambda>x. length x = unit_scale (elem_size cfg)" "enq_entry cfg" "deq_entry cfg blank"
  for cfg :: RingCfg and k :: nat and blank :: 'w
proof
  fix q :: "'w Ring" and x :: "'w list"
  assume inv: "ring_inv cfg k q"
  show "length (ring_contents cfg k q) \<le> unat (capacity q)" using ring_count_le [OF inv] by simp
  show "deq_entry cfg blank q = Some (None, q)" if "ring_contents cfg k q = []"
    using that dequeue_eq [OF inv] length_ring_contents [of cfg k q]
    by (simp add: deq_entry_def del: length_ring_contents)
  show "\<exists>q'. deq_entry cfg blank q = Some (Some y, q') \<and> ring_inv cfg k q' \<and>
      ring_contents cfg k q' = ys \<and> unat (capacity q') = unat (capacity q)"
    if "ring_contents cfg k q = y # ys" for y ys
  proof -
    have count: "ring_count q \<noteq> 0" using that length_ring_contents [of cfg k q] by auto
    show ?thesis
      using that take_entry_contents [OF inv count] take_entry_inv [OF inv count] dequeue_eq [OF inv] count
      by (auto simp: deq_entry_def)
  qed
  assume x: "length x = unit_scale (elem_size cfg)"
  show "\<exists>q'. enq_entry cfg x q = Some (True, q') \<and> ring_inv cfg k q' \<and>
      ring_contents cfg k q' = ring_contents cfg k q @ [x] \<and> unat (capacity q') = unat (capacity q)"
    if "length (ring_contents cfg k q) < unat (capacity q)"
    using that put_entry_contents [OF inv _ x] put_entry_inv [OF inv _ x] enqueue_eq [OF inv x]
    by (auto simp: enq_entry_def)
  show "enq_entry cfg x q = Some (False, q)" if "\<not> length (ring_contents cfg k q) < unat (capacity q)"
    using that enqueue_eq [OF inv x] by (simp add: enq_entry_def)
qed

subsection \<open>Creation\<close>

lemma sqk_align32pow2_succ_pow2:
  assumes "unat cnt = 2 ^ k" "k < 31"
  shows "unat (sqk_align32pow2 (cnt + 1)) = 2 ^ Suc k"
proof -
  have "(2::nat) ^ k \<le> 2 ^ 30" using assms(2) by (intro power_increasing) auto
  then have "unat (cnt + 1) = 2 ^ k + 1" using assms(1) by (subst unat_add_u32) auto
  then show ?thesis using assms(2) by (intro sqk_align32pow2_bracket) auto
qed

lemma unit_bytes_scale:
  assumes "4 dvd unat esize" "0 < unat esize"
  shows "unit_scale esize * unit_bytes esize = unat esize" "0 < unit_scale esize"
proof -
  have "unat (esize div 4) * 4 = unat esize" using assms(1) by (simp add: unat_div)
  moreover have "unat (8::u32) = 8" "unat (16::u32) = 16" by simp_all
  ultimately show "unit_scale esize * unit_bytes esize = unat esize"
    by (auto simp: unit_scale_def unit_bytes_def)
  then show "0 < unit_scale esize" using assms(2) by (metis mult_0 neq0_conv)
qed

lemma SQK_RING_SZ_MASK_less: "x > SQK_RING_SZ_MASK \<longleftrightarrow> 2 ^ 31 \<le> unat x"
  by (auto simp: SQK_RING_SZ_MASK_def word_less_nat_alt)

text \<open>The bytes \<^const>\<open>Ring_of\<close> asks the allocator for.\<close>

definition ring_bytes :: "u64 \<Rightarrow> u32 \<Rightarrow> u32 \<Rightarrow> u64" where
  "ring_bytes cl esize count = SQK_ALIGN (sizeof_Ring cl + ucast (count * esize)) cl"

lemma ring_bytes_enough:
  assumes "unat cl = 2 ^ c" "c \<le> 32" "unat count * unat esize < 4294967296"
  shows "unat (sizeof_Ring cl) + unat count * unat esize \<le> unat (ring_bytes cl esize count)"
    and "unat (ring_bytes cl esize count) < unat (sizeof_Ring cl) + unat count * unat esize + 2 ^ c"
proof -
  have c: "(2::nat) ^ c \<le> 2 ^ 32" using assms(2) by (intro power_increasing) auto
  have hdr: "unat (sizeof_Ring cl) = 4 * 2 ^ c"
    using c by (simp add: sizeof_Ring_def unat_word_ariths assms(1))
  have prod: "unat (ucast (count * esize) :: u64) = unat count * unat esize"
    using assms(3) by (simp add: unsigned_ucast_eq unat_mult_u32 take_bit_nat_eq_self)
  have sum: "unat (sizeof_Ring cl + ucast (count * esize)) = unat (sizeof_Ring cl) + unat count * unat esize"
    using c assms(3) by (simp add: unat_word_ariths prod hdr)
  have "unat (sizeof_Ring cl + ucast (count * esize)) + 2 ^ c \<le> 2 ^ 64"
    using c assms(3) by (simp add: sum hdr)
  from SQK_ALIGN_props [OF assms(1) this]
  show "unat (sizeof_Ring cl) + unat count * unat esize \<le> unat (ring_bytes cl esize count)"
    and "unat (ring_bytes cl esize count) < unat (sizeof_Ring cl) + unat count * unat esize + 2 ^ c"
    by (simp_all add: ring_bytes_def sum)
qed

text \<open>With no element at all the header fills its cache lines exactly.\<close>

lemma ring_bytes_exact:
  assumes "unat cl = 2 ^ c" "c \<le> 32"
  shows "ring_bytes cl esize 0 = sizeof_Ring cl"
proof -
  have c: "(2::nat) ^ c \<le> 2 ^ 32" using assms(2) by (intro power_increasing) auto
  have hdr: "unat (sizeof_Ring cl) = 4 * 2 ^ c"
    using c by (simp add: sizeof_Ring_def unat_word_ariths assms(1))
  have "unat (sizeof_Ring cl) + 2 ^ c \<le> 2 ^ 64" using c by (simp add: hdr)
  note al = SQK_ALIGN_props [OF assms(1) this]
  obtain q where q: "unat (SQK_ALIGN (sizeof_Ring cl) cl) = 2 ^ c * q" using al(1) by auto
  then have "2 ^ c * 4 \<le> 2 ^ c * q" "2 ^ c * q < 2 ^ c * 5" using al(2,3) by (simp_all add: hdr)
  then have "q = 4" by simp
  then show ?thesis using q hdr by (simp add: ring_bytes_def word_unat_eq_iff)
qed

lemma ring_area_enough:
  assumes "unat cl = 2 ^ c" "c \<le> 32" "unat count * unat esize < 4294967296"
    "4 dvd unat esize" "0 < unat esize"
  shows "unat count * unit_scale esize \<le>
    (unat (ring_bytes cl esize count) - unat (sizeof_Ring cl)) div unit_bytes esize"
proof -
  have "0 < unit_bytes esize" by (simp add: unit_bytes_def)
  then have "unat count * unit_scale esize = unat count * unat esize div unit_bytes esize"
    unfolding unit_bytes_scale(1) [OF assms(4,5), symmetric] mult.assoc [symmetric] by simp
  also have "\<dots> \<le> (unat (ring_bytes cl esize count) - unat (sizeof_Ring cl)) div unit_bytes esize"
    using ring_bytes_enough(1) [OF assms(1-3)] by (intro div_le_mono) simp
  finally show ?thesis .
qed

lemma Ring_of_pow2:
  assumes cnt: "unat cnt = 2 ^ k" "k < 30"
    and esize: "4 dvd unat (elem_size cfg)" "0 < unat (elem_size cfg)"
      "2 ^ Suc k * unat (elem_size cfg) < 4294967296"
    and cl: "unat cl = 2 ^ c" "c \<le> 32"
    and sync: "sync_supported (prod_sync_type cfg)" "sync_supported (cons_sync_type cfg)"
    and alloc: "alloc_ok (ring_bytes cl (elem_size cfg) (sqk_align32pow2 (cnt + 1)))"
  shows "\<exists>r. Ring_of alloc_ok mem cl (elem_size cfg) cnt = Inr r \<and> ring_inv cfg k r \<and>
    ring_contents cfg k r = [] \<and> unat (capacity r) = 2 ^ k - 1 \<and>
    memzone_size r = ring_bytes cl (elem_size cfg) (sqk_align32pow2 (cnt + 1))"
proof -
  let ?count = "sqk_align32pow2 (cnt + 1)"
  let ?sc = "unit_scale (elem_size cfg)"
  have count: "unat ?count = 2 ^ Suc k" using cnt by (intro sqk_align32pow2_succ_pow2) auto
  have "(2::nat) ^ Suc k \<le> 2 ^ 30" using cnt(2) by (intro power_increasing) auto
  then have guard: "POWEROF2 ?count" "\<not> ?count > SQK_RING_SZ_MASK"
    using POWEROF2_pow2 [OF count] by (simp_all add: SQK_RING_SZ_MASK_less count)
  have area: "2 ^ Suc k * ?sc \<le>
      (unat (ring_bytes cl (elem_size cfg) ?count) - unat (sizeof_Ring cl)) div unit_bytes (elem_size cfg)"
    using ring_area_enough [OF cl, of ?count "elem_size cfg"] esize by (simp add: count)
  have "?sc \<le> unat (elem_size cfg)"
    using unit_bytes_scale(1) [OF esize(1,2)] by (metis le_add1 mult.commute mult_le_mono1 mult_1
        unit_bytes_def zero_less_numeral one_le_numeral)
  then have "2 ^ Suc k * ?sc \<le> 2 ^ Suc k * unat (elem_size cfg)" by (rule mult_le_mono2)
  moreover have "2 ^ k * ?sc \<le> 2 ^ Suc k * ?sc" by simp
  ultimately have small: "2 ^ k * ?sc < 4294967296" using esize(3) by linarith
  have mask: "unat (cnt - 1) = 2 ^ k - 1" using cnt(1) by (subst unat_sub_word) auto
  show ?thesis
    using cnt guard sync area small mask alloc unit_bytes_scale(2) [OF esize(1,2)]
    by (auto simp: Ring_of_def Let_def ring_bytes_def [symmetric] init_def ring_inv_def ring_layout_def
        zero_ht_def ring_contents_def ring_count_def)
qed

subsection \<open>Properties\<close>

text \<open>A configuration for the examples: \<^verbatim>\<open>MpscRing<T>\<close> with the given \<^verbatim>\<open>sizeof(T)\<close>.\<close>

definition mpsc_cfg :: "u32 \<Rightarrow> RingCfg" where
  "mpsc_cfg esize =
     \<lparr>prod_sync_type = SQK_RING_SYNC_MT, cons_sync_type = SQK_RING_SYNC_ST,
      transactional_prod = False, transactional_cons = False, elem_size = esize\<rparr>"

lemma mpsc_cfg_simps [simp]:
  "elem_size (mpsc_cfg e) = e" "prod_sync_type (mpsc_cfg e) = SQK_RING_SYNC_MT"
  "cons_sync_type (mpsc_cfg e) = SQK_RING_SYNC_ST"
  by (simp_all add: mpsc_cfg_def)

text \<open>
  C4. A ring made by \<^const>\<open>Ring_of\<close> for a power of two answers every sequence of enqueue
  and dequeue operations as a first-in first-out list of at most \<open>cnt - 1\<close> entries does,
  and no operation of the sequence spins or touches memory out of bounds.
\<close>

theorem ring_is_bounded_fifo:
  assumes "unat cnt = 2 ^ k" "k < 30"
    and "4 dvd unat (elem_size cfg)" "0 < unat (elem_size cfg)" "2 ^ Suc k * unat (elem_size cfg) < 4294967296"
    and "unat cl = 2 ^ c" "c \<le> 32"
    and "sync_supported (prod_sync_type cfg)" "sync_supported (cons_sync_type cfg)"
    and "alloc_ok (ring_bytes cl (elem_size cfg) (sqk_align32pow2 (cnt + 1)))"
    and "list_all (valid_op (\<lambda>x. length x = unit_scale (elem_size cfg))) ops"
  shows "\<exists>r r'. Ring_of alloc_ok mem cl (elem_size cfg) cnt = Inr r \<and>
    queue_run (enq_entry cfg) (deq_entry cfg blank) ops r = Some (fst (spec_run (2 ^ k - 1) ops []), r') \<and>
    ring_contents cfg k r' = snd (spec_run (2 ^ k - 1) ops [])"
proof -
  obtain r where r: "Ring_of alloc_ok mem cl (elem_size cfg) cnt = Inr r" "ring_inv cfg k r"
      "ring_contents cfg k r = []" "unat (capacity r) = 2 ^ k - 1"
    using Ring_of_pow2 [where alloc_ok = alloc_ok and mem = mem, OF assms(1-10)] by blast
  then show ?thesis using ring_fifo.run_refines [OF r(2) assms(11), of blank] by auto
qed

theorem ring_is_bounded_fifo_witness:
  "\<exists>r r'. Ring_of (\<lambda>_. True) (\<lambda>_. 0) 64 8 4 = Inr r \<and>
    queue_run (enq_entry (mpsc_cfg 8)) (deq_entry (mpsc_cfg 8) 0)
      [Enq [10], Enq [20], Enq [30], Enq [40], Deq, Enq [50], Deq, Deq, Deq, Deq] (r :: u64 Ring) =
      Some ([Stored, Stored, Stored, Full, Taken [10], Stored, Taken [20], Taken [30], Taken [50], Empty], r') \<and>
    ring_contents (mpsc_cfg 8) 2 r' = []"
  using ring_is_bounded_fifo [of 4 2 "mpsc_cfg 8" 64 6 "\<lambda>_. True"
      "[Enq [10], Enq [20], Enq [30], Enq [40], Deq, Enq [50], Deq, Deq, Deq, Deq]" "\<lambda>_. 0" "0 :: u64"]
  by (simp add: sync_supported_def unit_scale_def)

text \<open>
  \<^const>\<open>enqueue\<close> on a ring with the invariant stores the entry behind the others and
  returns 1 when there is room, and returns 0 and leaves the ring as it is when there is
  none; it always returns and stays within the ring's memory.
\<close>

lemma ring_enqueue_correct:
  assumes "ring_inv cfg k r" "length x = unit_scale (elem_size cfg)"
  shows "if length (ring_contents cfg k r) < 2 ^ k - 1
    then \<exists>r'. enqueue cfg x r = Some (Inr (1, r')) \<and> ring_inv cfg k r' \<and>
      ring_contents cfg k r' = ring_contents cfg k r @ [x]
    else enqueue cfg x r = Some (Inr (0, r))"
  using enqueue_eq [OF assms] put_entry_inv [OF assms(1) _ assms(2)] put_entry_contents [OF assms(1) _ assms(2)]
    ring_count_le [OF assms(1)] by auto

text \<open>A ring about to wrap: its indices are at the last 32 bit value.\<close>

definition wrap_ring :: "u32 Ring" where
  "wrap_ring = \<lparr>ring_size = 4, ring_mask = 3, capacity = 3, htd_max = 0, memzone_size = 0,
     prod_ht = \<lparr>ht_head = 0xffffffff, ht_tail = 0xffffffff\<rparr>,
     cons_ht = \<lparr>ht_head = 0xfffffffe, ht_tail = 0xfffffffe\<rparr>, elems = [0, 1, 2, 3]\<rparr>"

lemma wrap_ring_inv: "ring_inv (mpsc_cfg 4) 2 wrap_ring"
  by (simp add: ring_inv_def sync_supported_def ring_layout_def wrap_ring_def unit_scale_def)

text \<open>
  \<^const>\<open>dequeue\<close> on a ring with the invariant hands out the oldest entry and returns 1
  when there is one, and returns 0 and changes neither the ring nor the caller's variable
  when there is none.
\<close>

lemma ring_dequeue_correct:
  assumes "ring_inv cfg k r" "length buf = unit_scale (elem_size cfg)"
  shows "case ring_contents cfg k r of
      [] \<Rightarrow> dequeue cfg buf r = Some (Inr (0, buf, r))
    | x # xs \<Rightarrow> \<exists>r'. dequeue cfg buf r = Some (Inr (1, x, r')) \<and> ring_inv cfg k r' \<and>
        ring_contents cfg k r' = xs"
proof (cases "ring_count r = 0")
  case True
  then show ?thesis using dequeue_eq [OF assms] by (simp add: ring_contents_def)
next
  case False
  then show ?thesis
    using dequeue_eq [OF assms] take_entry_contents [OF assms(1) False] take_entry_inv [OF assms(1) False] by auto
qed

text \<open>
  C31. The bulk copy routines are inverse to each other: for every entry size, every starting
  position and every number of entries up to the ring's size, whether or not the run wraps
  around the end of the element area, copying entries in and copying as many out again from
  the same position gives the entries back.
\<close>

theorem elements_roundtrip:
  assumes "ring_layout k (unit_scale esize) r" "unat n \<le> 2 ^ k"
    and "length xs = unat n * unit_scale esize" "length buf = unat n * unit_scale esize"
    and "(unat h mod 2 ^ k + unat n) * unit_scale esize < 4294967296"
  shows "\<exists>es. enqueue_elements esize r h xs n = Inr es \<and>
    dequeue_elements esize (r\<lparr>elems := es\<rparr>) h buf n = Inr xs"
proof -
  let ?sc = "unit_scale esize"
  let ?es = "ring_put (2 ^ k * ?sc) (unat h mod 2 ^ k * ?sc) xs (unat n * ?sc) (elems r)"
  have le: "unat n * ?sc \<le> 2 ^ k * ?sc" "2 ^ k * ?sc \<le> length (elems r)"
    using assms(1,2) by (simp_all add: ring_layout_def)
  have "enqueue_elements esize r h xs n = Inr ?es"
    by (rule enqueue_elements_eq [OF assms(1,2) _ assms(5)]) (simp add: assms(3))
  moreover have "dequeue_elements esize (r\<lparr>elems := ?es\<rparr>) h buf n =
      Inr (ring_get (2 ^ k * ?sc) (unat h mod 2 ^ k * ?sc) (unat n * ?sc) ?es)"
    using assms by (subst dequeue_elements_eq) auto
  ultimately show ?thesis using ring_get_put [OF le, of xs] assms(3) by simp
qed

theorem elements_roundtrip_witness:
  "\<exists>es. enqueue_elements 12 (init 4 (replicate 12 0)) 3 [1, 2, 3, 4, 5, 6] 2 = Inr es \<and>
    dequeue_elements 12 ((init 4 (replicate 12 0))\<lparr>elems := es\<rparr>) 3 [0, 0, 0, 0, 0, 0] 2 =
      Inr [1, 2, 3, 4, 5, 6 :: u32]"
proof (rule elements_roundtrip [where k = 2])
  show "ring_layout 2 (unit_scale 12) (init 4 (replicate 12 0 :: u32 list))"
    by (simp add: ring_layout_def unit_scale_def init_def unat_div)
qed (simp_all add: unit_scale_def unat_div)

text \<open>
  C33. A bulk request on the producer side moves the head by at most the number asked for
  and at most the free entries (by all or nothing when transactional), and reports the
  free entries, which are the capacity less the entries in use.
\<close>

theorem move_prod_head_bulk:
  assumes "ring_inv cfg k r"
  shows "\<exists>n nh' r'. move_prod_head cfg m nh r = Some (n, ht_head (prod_ht r), nh', word_of_nat (2 ^ k - 1 - ring_count r), r') \<and>
    unat n \<le> unat m \<and> unat n \<le> 2 ^ k - 1 - ring_count r \<and>
    (transactional_prod cfg \<longrightarrow> n = 0 \<or> n = m) \<and>
    (unat m \<le> 2 ^ k - 1 - ring_count r \<longrightarrow> n = m) \<and>
    ht_head (prod_ht r') = ht_head (prod_ht r) + n \<and> ht_tail (prod_ht r') = ht_tail (prod_ht r) \<and>
    elems r' = elems r \<and> cons_ht r' = cons_ht r"
proof -
  let ?free = "free_entries (capacity r) (ht_tail (cons_ht r)) (ht_head (prod_ht r))"
  have "ht_head (prod_ht r) - ht_tail (cons_ht r) \<le> capacity r" using assms by (auto simp: ring_inv_def)
  then have free: "unat ?free = 2 ^ k - 1 - ring_count r"
    using assms ring_count_le(2) [OF assms] by (simp add: unat_free_entries ring_count_def ring_inv_def)
  have "?free = word_of_nat (2 ^ k - 1 - ring_count r)" unfolding free [symmetric] by simp
  then show ?thesis
    using clamp_request_bounds [where tr = "transactional_prod cfg" and n = m and avail = ?free] free
    by (auto simp: move_prod_head_eq Let_def word_le_nat_alt)
qed

theorem move_prod_head_bulk_witness:
  "\<exists>n nh' r'. move_prod_head (mpsc_cfg 4) 5 0 wrap_ring = Some (n, 0xffffffff, nh', 2, r') \<and>
    ht_head (prod_ht r') = 0xffffffff + n \<and> unat n \<le> 2"
  using move_prod_head_bulk [OF wrap_ring_inv, of 5 0]
  by (auto simp: wrap_ring_def ring_count_def)

text \<open>
  \<^const>\<open>Ring_of\<close> rejects exactly the counts from \<open>2 ^ 30\<close> to \<open>2 ^ 31 - 1\<close>; in particular
  a count of \<open>2 ^ 31\<close> or more is accepted, since rounding it up to a power of two wraps to 0.
\<close>

lemma Ring_of_EINVAL_iff:
  "Ring_of alloc_ok mem cl esize cnt = Inl EINVAL \<longleftrightarrow> 2 ^ 30 \<le> unat cnt \<and> unat cnt < 2 ^ 31"
proof -
  let ?count = "sqk_align32pow2 (cnt + 1)"
  have "POWEROF2 ?count \<and> (2 ^ 31 \<le> unat ?count \<longleftrightarrow> 2 ^ 30 \<le> unat cnt \<and> unat cnt < 2 ^ 31)"
  proof (cases "unat cnt < 2 ^ 31")
    case True
    then have succ: "unat (cnt + 1) = unat cnt + 1" by (subst unat_add_u32) auto
    then obtain k where k: "k \<le> 31" "unat ?count = 2 ^ k" "unat cnt + 1 \<le> 2 ^ k" "2 ^ k < 2 * (unat cnt + 1)"
      using sqk_align32pow2_pow2 [of "cnt + 1"] True by auto
    have "2 ^ 31 \<le> (2::nat) ^ k \<longleftrightarrow> 2 ^ 30 \<le> unat cnt"
    proof
      assume "2 ^ 30 \<le> unat cnt"
      then have "(2::nat) ^ 30 < 2 ^ k" using k(3) by linarith
      then have "30 < k" by (simp only: power_strict_increasing_iff)
      then show "2 ^ 31 \<le> (2::nat) ^ k" by (intro power_increasing) simp_all
    qed (use k in simp)
    then show ?thesis using True POWEROF2_pow2 [OF k(2)] by (simp add: k(2))
  next
    case False
    have "?count = 0"
    proof (cases "cnt = 0xffffffff")
      case False
      then have "unat cnt \<noteq> unat (0xffffffff :: u32)" by (simp only: word_unat_eq_iff [symmetric] not_False_eq_True)
      then have "unat cnt + 1 < 4294967296" using unat_u32_lt [of cnt] by (simp del: unat_u32_lt)
      then have "unat (cnt + 1) = unat cnt + 1" by (subst unat_add_u32) auto
      then show ?thesis using \<open>\<not> unat cnt < 2 ^ 31\<close> by (intro sqk_align32pow2_large) simp
    qed (simp add: sqk_align32pow2_def sqk_combine32ms1b_def)
    then show ?thesis using False by (simp add: POWEROF2_def)
  qed
  then show ?thesis by (auto simp: Ring_of_def Let_def SQK_RING_SZ_MASK_less)
qed

text \<open>
  C38. A count that is no power of two gives a ring whose slots collide within its capacity:
  there is a position below the capacity whose slot is the slot of position 0.
\<close>

theorem Ring_of_non_pow2_collides:
  assumes "Ring_of alloc_ok mem cl esize cnt = Inr r" "3 \<le> unat cnt" "\<not> POWEROF2 cnt"
  shows "\<exists>p. 0 < p \<and> p < capacity r \<and> p AND ring_mask r = 0 AND ring_mask r"
proof -
  let ?m = "cnt - 1"
  have r: "capacity r = ?m" "ring_mask r = ?m"
    using assms(1) by (auto simp: Ring_of_def Let_def init_def split: if_splits)
  have m: "unat ?m = unat cnt - 1" using assms(2) by (subst unat_sub_word) auto
  then obtain b where b: "2 ^ b \<le> unat ?m" "unat ?m < 2 ^ Suc b"
    using nat_power2_bracket [of "unat ?m"] assms(2) by auto
  have ne: "unat ?m \<noteq> 2 ^ Suc b - 1"
  proof
    assume "unat ?m = 2 ^ Suc b - 1"
    then have "unat cnt = 2 ^ Suc b" using m assms(2) by simp
    then show False using assms(3) POWEROF2_pow2 by blast
  qed
  have b32: "b < 32" by (rule u32_power_le [OF b(1)])
  have "\<exists>j<b. \<not> bit ?m j" using low_bits_full [OF b] ne by blast
  then obtain j where j: "j < b" "\<not> bit ?m j" by blast
  have "(2::nat) ^ j < 2 ^ b" using j(1) by simp
  then have "2 ^ j < unat ?m" using b(1) by (rule less_le_trans)
  then have lt: "unat (2 ^ j :: u32) < unat ?m" and pos: "(2 ^ j :: u32) \<noteq> 0"
    using b32 j(1) by (simp_all add: unat_exp)
  have "2 ^ j AND ?m = 0"
    by (rule bit_word_eqI) (use j in \<open>auto simp: bit_and_iff bit_exp_iff\<close>)
  moreover have "0 < (2 ^ j :: u32)" using pos by (simp only: word_neq_0_conv)
  moreover have "2 ^ j < ?m" using lt by (simp only: word_less_nat_alt)
  ultimately show ?thesis by (intro exI [of _ "2 ^ j"]) (simp add: r)
qed

theorem Ring_of_non_pow2_collides_witness:
  "\<exists>r p. Ring_of (\<lambda>_. True) (\<lambda>_. 0 :: u32) 64 4 10 = Inr r \<and> 0 < p \<and> p < capacity r \<and>
    p AND ring_mask r = 0 AND ring_mask r"
proof -
  obtain r where r: "Ring_of (\<lambda>_. True) (\<lambda>_. 0 :: u32) 64 4 10 = Inr r"
    by (simp add: Ring_of_def Let_def POWEROF2_def SQK_RING_SZ_MASK_def sqk_align32pow2_def sqk_combine32ms1b_def)
  then show ?thesis
    using Ring_of_non_pow2_collides [OF r] by (simp add: POWEROF2_def)
qed

text \<open>
  The ring of the repository's own test, \<^verbatim>\<open>of(10)\<close>, is not first-in first-out: after
  three entries are stored, with room for nine, the first entry taken is the third one and
  the first is lost.
\<close>

lemma ring_of_10_loses_an_entry:
  "(case Ring_of (\<lambda>_. True) (\<lambda>_. 0 :: u32) 64 4 10 of Inl e \<Rightarrow> None
    | Inr r \<Rightarrow> map_option fst (queue_run (enq_entry (mpsc_cfg 4)) (deq_entry (mpsc_cfg 4) 0)
        [Enq [11], Enq [22], Enq [33], Deq] r)) =
   Some [Stored, Stored, Stored, Taken [33]]"
  by code_simp

text \<open>
  A count of \<open>2 ^ 31\<close> or more makes a ring without any element storage, and the first
  enqueue on it writes out of bounds.
\<close>

lemma Ring_of_huge_overflows:
  assumes "2 ^ 31 \<le> unat cnt" "unat cnt < 4294967295" "unat cl = 2 ^ c" "c \<le> 32"
  shows "\<exists>r. Ring_of (\<lambda>_. True) mem cl 8 cnt = Inr r \<and> elems r = [] \<and>
    enqueue (mpsc_cfg 8) [x] r = Some (Inl (Memory Out_of_bounds))"
proof -
  have "unat (cnt + 1) = unat cnt + 1" using assms(2) by (subst unat_add_u32) auto
  then have count: "sqk_align32pow2 (cnt + 1) = 0" using assms(1) by (intro sqk_align32pow2_large) simp
  let ?sz = "ring_bytes cl 8 0"
  have "unat ?sz - unat (sizeof_Ring cl) = 0"
    using ring_bytes_exact [OF assms(3,4)] by simp
  then have area: "Ring_of (\<lambda>_. True) mem cl 8 cnt = Inr ((init cnt [])\<lparr>memzone_size := ?sz\<rparr>)"
    by (simp add: Ring_of_def count POWEROF2_def SQK_RING_SZ_MASK_def ring_bytes_def Let_def)
  have cap: "cnt - 1 \<noteq> 0" and two: "1 < cnt"
    using assms(1) by (auto simp: word_less_nat_alt)
  have "enqueue (mpsc_cfg 8) [x] ((init cnt [])\<lparr>memzone_size := ?sz\<rparr>) = Some (Inl (Memory Out_of_bounds))"
    using cap two
    by (simp add: enqueue_def move_prod_head_eq Let_def clamp_request_1 init_def zero_ht_def free_entries_def
        enqueue_elements_def enqueue_elems_64_def copy_blocks.simps enqueue_unit_def array_set_def)
  then show ?thesis using area by (simp add: init_def)
qed

lemma Ring_of_huge_overflows_witness:
  "\<exists>r. Ring_of (\<lambda>_. True) (\<lambda>_. 0 :: u64) 64 8 0x80000000 = Inr r \<and> elems r = [] \<and>
    enqueue (mpsc_cfg 8) [5] r = Some (Inl (Memory Out_of_bounds))"
  by (rule Ring_of_huge_overflows [where c = 6]) simp_all

end
