(* ===== verification/Ring_Concurrent.thy ===== *)
theory Ring_Concurrent
  imports Ring_Queue
begin

text \<open>
  Interleaved execution of the ring's \<^verbatim>\<open>enqueue\<close> and \<^verbatim>\<open>dequeue\<close>
  (\<^verbatim>\<open>src/common/include/ring.hpp\<close>) by any number of threads. A thread's step is one
  access to the shared ring: a load or compare-exchange of a head, a load of the opposite
  tail, the copy of the element, the wait on the own tail, the store of the own tail. The
  program counters \<open>prod_pc\<close> and \<open>cons_pc\<close> hold the local variables of
  \<^verbatim>\<open>move_prod_head\<close>, \<^verbatim>\<open>enqueue\<close> and their consumer twins at each of these points.
  Steps are sequentially consistent: the acquire and release orderings of the source are
  not modelled.

  History variables record what the unbounded indices are: \<open>hist\<close> the entries in the order
  their positions were claimed, \<open>n_pub\<close> the number published by tail stores, \<open>n_take\<close>
  the number claimed by consumers, \<open>got\<close> the entries handed out, in the order of the
  consumers' tail stores. No guard reads them.

  The results: the invariant \<open>cring_inv\<close> holds in every reachable state for the single
  threaded, the multi-thread and the head/tail-synchronised mode of either side; entries
  come out in the order they went in, without loss or duplication; element copies never
  race; an operation fails only on a full or empty ring; some waiting thread can always
  proceed.
\<close>

subsection \<open>State\<close>

text \<open>
  In a \<open>P_Head\<close> the arguments are the entry, \<^verbatim>\<open>old_head\<close> (and the tail read with it in
  the head/tail-synchronised mode) and the position \<open>old_head\<close> stands for; \<open>P_Tail\<close> adds
  the loaded \<^verbatim>\<open>cons_tail\<close> and the two positions (claimed and released) at that load.
\<close>

datatype 'a prod_pc =
    P_Idle
  | P_Head 'a u32 u32 nat
  | P_Tail 'a u32 u32 u32 nat nat nat
  | P_Write 'a u32 nat
  | P_Wait u32 nat
  | P_Store u32 nat

datatype 'a cons_pc =
    C_Idle
  | C_Loop
  | C_Head u32 u32 nat
  | C_Tail u32 u32 u32 nat nat nat
  | C_Read u32 nat
  | C_Wait 'a u32 nat
  | C_Store 'a u32 nat

record 'a cring =
  p_head :: u32
  p_tail :: u32
  c_head :: u32
  c_tail :: u32
  cell :: "u32 \<Rightarrow> 'a"
  ppc :: "nat \<Rightarrow> 'a prod_pc"
  cpc :: "nat \<Rightarrow> 'a cons_pc"
  hist :: "'a list"
  n_pub :: nat
  n_take :: nat
  got :: "'a list"

definition set_ppc :: "nat \<Rightarrow> 'a prod_pc \<Rightarrow> 'a cring \<Rightarrow> 'a cring" where
  "set_ppc t pc s = s\<lparr>ppc := (ppc s)(t := pc)\<rparr>"

definition set_cpc :: "nat \<Rightarrow> 'a cons_pc \<Rightarrow> 'a cring \<Rightarrow> 'a cring" where
  "set_cpc t pc s = s\<lparr>cpc := (cpc s)(t := pc)\<rparr>"

subsection \<open>Steps of a producer\<close>

definition claim_prod :: "nat \<Rightarrow> 'a \<Rightarrow> u32 \<Rightarrow> 'a cring \<Rightarrow> 'a cring" where
  "claim_prod t x h s =
     (set_ppc t (P_Write x h (length (hist s))) s)\<lparr>p_head := h + 1, hist := hist s @ [x]\<rparr>"

text \<open>
  \<open>prod_exec ps cap t x s\<close>: the next step of thread \<open>t\<close> in \<^verbatim>\<open>enqueue(x)\<close> (\<open>x\<close> matters
  when the call starts). Single-thread mode is for one thread, number 0, by contract; the
  relaxed tail mode is an \<^verbatim>\<open>assert(0)\<close> in the source.
\<close>

fun prod_exec :: "RingSyncType \<Rightarrow> u32 \<Rightarrow> nat \<Rightarrow> 'a \<Rightarrow> 'a cring \<Rightarrow> 'a cring option" where
  "prod_exec ps cap t x s =
     (case ppc s t of
        P_Idle \<Rightarrow>
          if ps = SQK_RING_SYNC_MT_RTS \<or> ps = SQK_RING_SYNC_ST \<and> t \<noteq> 0 then None
          else Some (set_ppc t (P_Head x (p_head s) (p_tail s) (length (hist s))) s)
      | P_Head x h ot g \<Rightarrow>
          if ps = SQK_RING_SYNC_MT_HTS \<and> h \<noteq> ot
          then Some (set_ppc t (P_Head x (p_head s) (p_tail s) (length (hist s))) s)
          else Some (set_ppc t (P_Tail x h ot (c_tail s) g (length (hist s)) (length (got s))) s)
      | P_Tail x h ot ct g gh gc \<Rightarrow>
          if free_entries cap ct h = 0 then Some (set_ppc t P_Idle s)
          else (case ps of
              SQK_RING_SYNC_ST \<Rightarrow> Some (claim_prod t x h s)
            | SQK_RING_SYNC_MT \<Rightarrow>
                if p_head s = h then Some (claim_prod t x h s)
                else Some (set_ppc t (P_Head x (p_head s) ot (length (hist s))) s)
            | SQK_RING_SYNC_MT_HTS \<Rightarrow>
                if p_head s = h \<and> p_tail s = ot then Some ((claim_prod t x h s)\<lparr>p_tail := ot\<rparr>)
                else Some (set_ppc t (P_Head x (p_head s) (p_tail s) (length (hist s))) s)
            | SQK_RING_SYNC_MT_RTS \<Rightarrow> None)
      | P_Write x h pos \<Rightarrow>
          Some ((set_ppc t (P_Wait h pos) s)\<lparr>cell := (cell s)(h AND cap := x)\<rparr>)
      | P_Wait h pos \<Rightarrow>
          if ps = SQK_RING_SYNC_MT \<and> p_tail s \<noteq> h then Some s
          else Some (set_ppc t (P_Store h pos) s)
      | P_Store h pos \<Rightarrow>
          Some ((set_ppc t P_Idle s)\<lparr>p_tail := h + 1, n_pub := Suc (n_pub s)\<rparr>))"

subsection \<open>Steps of a consumer\<close>

definition claim_cons :: "nat \<Rightarrow> u32 \<Rightarrow> 'a cring \<Rightarrow> 'a cring" where
  "claim_cons t h s = (set_cpc t (C_Read h (n_take s)) s)\<lparr>c_head := h + 1, n_take := Suc (n_take s)\<rparr>"

text \<open>
  The single and multi-thread modes load the head once before the loop and again at the
  start of each iteration (\<open>C_Loop\<close>), so a failed compare-exchange goes back to the load.
\<close>

fun cons_exec :: "RingSyncType \<Rightarrow> u32 \<Rightarrow> nat \<Rightarrow> 'a cring \<Rightarrow> 'a cring option" where
  "cons_exec cs cap t s =
     (case cpc s t of
        C_Idle \<Rightarrow>
          if cs = SQK_RING_SYNC_MT_RTS \<or> cs = SQK_RING_SYNC_ST \<and> t \<noteq> 0 then None
          else if cs = SQK_RING_SYNC_MT_HTS
          then Some (set_cpc t (C_Head (c_head s) (c_tail s) (n_take s)) s)
          else Some (set_cpc t C_Loop s)
      | C_Loop \<Rightarrow> Some (set_cpc t (C_Head (c_head s) (c_tail s) (n_take s)) s)
      | C_Head h ot g \<Rightarrow>
          if cs = SQK_RING_SYNC_MT_HTS \<and> h \<noteq> ot
          then Some (set_cpc t (C_Head (c_head s) (c_tail s) (n_take s)) s)
          else Some (set_cpc t (C_Tail h ot (p_tail s) g (n_take s) (n_pub s)) s)
      | C_Tail h ot pt g gt gp \<Rightarrow>
          if used_entries pt h = 0 then Some (set_cpc t C_Idle s)
          else (case cs of
              SQK_RING_SYNC_ST \<Rightarrow> Some (claim_cons t h s)
            | SQK_RING_SYNC_MT \<Rightarrow>
                if c_head s = h then Some (claim_cons t h s) else Some (set_cpc t C_Loop s)
            | SQK_RING_SYNC_MT_HTS \<Rightarrow>
                if c_head s = h \<and> c_tail s = ot then Some ((claim_cons t h s)\<lparr>c_tail := ot\<rparr>)
                else Some (set_cpc t (C_Head (c_head s) (c_tail s) (n_take s)) s)
            | SQK_RING_SYNC_MT_RTS \<Rightarrow> None)
      | C_Read h pos \<Rightarrow> Some (set_cpc t (C_Wait (cell s (h AND cap)) h pos) s)
      | C_Wait v h pos \<Rightarrow>
          if cs = SQK_RING_SYNC_MT \<and> c_tail s \<noteq> h then Some s
          else Some (set_cpc t (C_Store v h pos) s)
      | C_Store v h pos \<Rightarrow>
          Some ((set_cpc t C_Idle s)\<lparr>c_tail := h + 1, got := got s @ [v]\<rparr>))"

subsection \<open>Runs\<close>

datatype 'a action = Prod nat 'a | Cons nat

fun ring_exec :: "RingSyncType \<Rightarrow> RingSyncType \<Rightarrow> u32 \<Rightarrow> 'a action \<Rightarrow> 'a cring \<Rightarrow> 'a cring option" where
  "ring_exec ps cs cap (Prod t x) s = prod_exec ps cap t x s"
| "ring_exec ps cs cap (Cons t) s = cons_exec cs cap t s"

fun ring_schedule ::
  "RingSyncType \<Rightarrow> RingSyncType \<Rightarrow> u32 \<Rightarrow> 'a action list \<Rightarrow> 'a cring \<Rightarrow> 'a cring option" where
  "ring_schedule ps cs cap [] s = Some s"
| "ring_schedule ps cs cap (a # as) s =
     Option.bind (ring_exec ps cs cap a s) (ring_schedule ps cs cap as)"

definition cring_init :: "'a cring \<Rightarrow> bool" where
  "cring_init s \<longleftrightarrow>
     p_head s = 0 \<and> p_tail s = 0 \<and> c_head s = 0 \<and> c_tail s = 0 \<and>
     (\<forall>t. ppc s t = P_Idle) \<and> (\<forall>t. cpc s t = C_Idle) \<and>
     hist s = [] \<and> n_pub s = 0 \<and> n_take s = 0 \<and> got s = []"

text \<open>
  A head is 32 bits wide, so a compare-exchange cannot tell a head from one that has moved
  on by \<open>2 ^ 32\<close>. \<open>fresh\<close> says that no thread sleeps between loading a head and its
  compare-exchange while the head moves by half that range; a run is one whose states are
  fresh.
\<close>

fun prod_pending :: "'a prod_pc \<Rightarrow> nat option" where
  "prod_pending (P_Head x h ot g) = Some g"
| "prod_pending (P_Tail x h ot ct g gh gc) = Some g"
| "prod_pending _ = None"

fun cons_pending :: "'a cons_pc \<Rightarrow> nat option" where
  "cons_pending (C_Head h ot g) = Some g"
| "cons_pending (C_Tail h ot pt g gt gp) = Some g"
| "cons_pending _ = None"

definition fresh :: "'a cring \<Rightarrow> bool" where
  "fresh s \<longleftrightarrow>
     (\<forall>t g. prod_pending (ppc s t) = Some g \<longrightarrow> length (hist s) < g + 2 ^ 31) \<and>
     (\<forall>t g. cons_pending (cpc s t) = Some g \<longrightarrow> n_take s < g + 2 ^ 31)"

lemma freshD:
  "fresh s \<Longrightarrow> prod_pending (ppc s t) = Some g \<Longrightarrow> length (hist s) < g + 2147483648"
  "fresh s \<Longrightarrow> cons_pending (cpc s t) = Some g \<Longrightarrow> n_take s < g + 2147483648"
  unfolding fresh_def by simp_all

inductive ring_step :: "RingSyncType \<Rightarrow> RingSyncType \<Rightarrow> u32 \<Rightarrow> 'a cring \<Rightarrow> 'a cring \<Rightarrow> bool"
  for ps :: RingSyncType and cs :: RingSyncType and cap :: u32 where
  prod: "fresh s \<Longrightarrow> prod_exec ps cap t x s = Some s' \<Longrightarrow> ring_step ps cs cap s s'"
| cons: "fresh s \<Longrightarrow> cons_exec cs cap t s = Some s' \<Longrightarrow> ring_step ps cs cap s s'"

subsection \<open>Ownership of positions\<close>

text \<open>
  \<open>owns f lo hi\<close>: the threads that hold a position hold exactly the positions from \<open>lo\<close>
  to \<open>hi\<close>, each by one thread. Both sides of the ring keep it: a claim adds \<open>hi\<close>, a tail
  store removes \<open>lo\<close>.
\<close>

definition owns :: "(nat \<Rightarrow> nat option) \<Rightarrow> nat \<Rightarrow> nat \<Rightarrow> bool" where
  "owns f lo hi \<longleftrightarrow>
     (\<forall>t p. f t = Some p \<longrightarrow> lo \<le> p \<and> p < hi) \<and>
     (\<forall>t u p. f t = Some p \<and> f u = Some p \<longrightarrow> t = u) \<and>
     (\<forall>p. lo \<le> p \<and> p < hi \<longrightarrow> (\<exists>t. f t = Some p))"

lemma ownsD:
  assumes "owns f lo hi" "f t = Some p"
  shows "lo \<le> p" "p < hi" "f u = Some p \<Longrightarrow> u = t"
  using assms by (auto simp: owns_def)

lemma owns_ex: "owns f lo hi \<Longrightarrow> lo \<le> p \<Longrightarrow> p < hi \<Longrightarrow> \<exists>t. f t = Some p"
  by (simp add: owns_def)

lemma owns_claim:
  assumes "owns f lo hi" "f t = None" "lo \<le> hi"
  shows "owns (f(t := Some hi)) lo (Suc hi)"
proof -
  have "\<exists>u. (f(t := Some hi)) u = Some p" if p: "lo \<le> p" "p < Suc hi" for p
  proof (cases "p = hi")
    case False
    then obtain u where u: "f u = Some p" using owns_ex [OF assms(1), of p] p by auto
    then have "u \<noteq> t" using assms(2) by auto
    then show ?thesis using u by auto
  qed auto
  moreover have "f u \<noteq> Some hi" for u using assms(1) by (auto simp: owns_def)
  moreover have "f u = Some p \<Longrightarrow> p < Suc hi" for u p using assms(1) by (auto simp: owns_def less_Suc_eq)
  ultimately show ?thesis using assms by (auto simp: owns_def)
qed

lemma owns_release:
  assumes "owns f lo hi" "f t = Some lo"
  shows "owns (f(t := None)) (Suc lo) hi"
proof -
  have "\<exists>u. (f(t := None)) u = Some p" if p: "Suc lo \<le> p" "p < hi" for p
  proof -
    obtain u where u: "f u = Some p" using owns_ex [OF assms(1), of p] p by auto
    then have "u \<noteq> t" using assms(2) p by auto
    then show ?thesis using u by auto
  qed
  moreover have "Suc lo \<le> p \<and> p < hi" if "u \<noteq> t" "f u = Some p" for u p
  proof -
    have "lo \<le> p" "p < hi" using assms(1) that by (auto simp: owns_def)
    moreover have "p \<noteq> lo" using assms that by (auto simp: owns_def)
    ultimately show ?thesis by simp
  qed
  ultimately show ?thesis using assms(1) by (auto simp: owns_def)
qed

lemma owns_none:
  assumes "owns f lo hi" "\<And>t. f t = None" "lo \<le> hi"
  shows "hi = lo"
  using owns_ex [OF assms(1), of lo] assms(2,3) by fastforce

lemma comp_upd: "(\<lambda>u. f (if u = t then x else g u)) = (\<lambda>u. f (g u))(t := f x)"
  by auto

subsection \<open>Positions as 32 bit words\<close>

lemma word_of_nat_near:
  assumes "(word_of_nat a :: u32) = word_of_nat b" "a < b + 4294967296" "b < a + 4294967296"
  shows "a = b"
proof -
  have "a mod 4294967296 = b mod 4294967296"
    using assms(1) by (simp add: word_of_nat_eq_iff take_bit_eq_mod)
  then show ?thesis using assms(2,3) by (rule mod_eq_near)
qed

lemma slot_near:
  assumes "unat cap = 2 ^ k - 1" "k \<le> 32" "(word_of_nat a :: u32) AND cap = word_of_nat b AND cap"
    "a \<le> b + unat cap" "b \<le> a + unat cap"
  shows "a = b"
proof -
  have dvd: "(2::nat) ^ k dvd 2 ^ 32" using assms(2) by (rule le_imp_power_dvd)
  have eq: "unat (word_of_nat n AND cap) = n mod 2 ^ k" for n
    using dvd by (simp add: unat_and_mask [OF assms(1)] unat_of_nat mod_mod_cancel)
  have "a mod 2 ^ k = b mod 2 ^ k" using assms(3) eq [of a] eq [of b] by simp
  moreover have "unat cap < 2 ^ k" using assms(1) by simp
  ultimately show ?thesis using assms(4,5) by (intro mod_eq_near [of a "2 ^ k" b]) auto
qed

subsection \<open>The invariant\<close>

fun p_own :: "'a prod_pc \<Rightarrow> nat option" where
  "p_own (P_Write x h pos) = Some pos"
| "p_own (P_Wait h pos) = Some pos"
| "p_own (P_Store h pos) = Some pos"
| "p_own _ = None"

fun c_own :: "'a cons_pc \<Rightarrow> nat option" where
  "c_own (C_Read h pos) = Some pos"
| "c_own (C_Wait v h pos) = Some pos"
| "c_own (C_Store v h pos) = Some pos"
| "c_own _ = None"

fun prod_ok :: "RingSyncType \<Rightarrow> u32 \<Rightarrow> 'a cring \<Rightarrow> 'a prod_pc \<Rightarrow> bool" where
  "prod_ok ps cap s P_Idle = True"
| "prod_ok ps cap s (P_Head x h ot g) \<longleftrightarrow>
     h = word_of_nat g \<and> g \<le> length (hist s) \<and> (ps = SQK_RING_SYNC_ST \<longrightarrow> g = length (hist s))"
| "prod_ok ps cap s (P_Tail x h ot ct g gh gc) \<longleftrightarrow>
     h = word_of_nat g \<and> ct = word_of_nat gc \<and> g \<le> gh \<and> gh \<le> length (hist s) \<and>
     gc \<le> length (got s) \<and> gh \<le> gc + unat cap \<and>
     (ps = SQK_RING_SYNC_ST \<longrightarrow> g = length (hist s)) \<and> (ps = SQK_RING_SYNC_MT_HTS \<longrightarrow> h = ot)"
| "prod_ok ps cap s (P_Write x h pos) \<longleftrightarrow> h = word_of_nat pos \<and> hist s ! pos = x"
| "prod_ok ps cap s (P_Wait h pos) \<longleftrightarrow> h = word_of_nat pos \<and> cell s (h AND cap) = hist s ! pos"
| "prod_ok ps cap s (P_Store h pos) \<longleftrightarrow>
     h = word_of_nat pos \<and> cell s (h AND cap) = hist s ! pos \<and> pos = n_pub s"

fun cons_ok :: "RingSyncType \<Rightarrow> 'a cring \<Rightarrow> 'a cons_pc \<Rightarrow> bool" where
  "cons_ok cs s C_Idle = True"
| "cons_ok cs s C_Loop = True"
| "cons_ok cs s (C_Head h ot g) \<longleftrightarrow>
     h = word_of_nat g \<and> g \<le> n_take s \<and> (cs = SQK_RING_SYNC_ST \<longrightarrow> g = n_take s)"
| "cons_ok cs s (C_Tail h ot pt g gt gp) \<longleftrightarrow>
     h = word_of_nat g \<and> pt = word_of_nat gp \<and> g \<le> gt \<and> gt \<le> n_take s \<and> gt \<le> gp \<and> gp \<le> n_pub s \<and>
     (cs = SQK_RING_SYNC_ST \<longrightarrow> g = n_take s) \<and> (cs = SQK_RING_SYNC_MT_HTS \<longrightarrow> h = ot)"
| "cons_ok cs s (C_Read h pos) \<longleftrightarrow> h = word_of_nat pos"
| "cons_ok cs s (C_Wait v h pos) \<longleftrightarrow> h = word_of_nat pos \<and> v = hist s ! pos"
| "cons_ok cs s (C_Store v h pos) \<longleftrightarrow> h = word_of_nat pos \<and> v = hist s ! pos \<and> pos = length (got s)"

definition counters :: "u32 \<Rightarrow> 'a cring \<Rightarrow> bool" where
  "counters cap s \<longleftrightarrow>
     length (got s) \<le> n_take s \<and> n_take s \<le> n_pub s \<and> n_pub s \<le> length (hist s) \<and>
     length (hist s) \<le> length (got s) + unat cap \<and>
     p_head s = word_of_nat (length (hist s)) \<and> p_tail s = word_of_nat (n_pub s) \<and>
     c_head s = word_of_nat (n_take s) \<and> c_tail s = word_of_nat (length (got s))"

definition stored :: "u32 \<Rightarrow> 'a cring \<Rightarrow> bool" where
  "stored cap s \<longleftrightarrow>
     (\<forall>p. length (got s) \<le> p \<and> p < n_pub s \<longrightarrow> cell s (word_of_nat p AND cap) = hist s ! p) \<and>
     got s = take (length (got s)) (hist s)"

definition prod_side :: "RingSyncType \<Rightarrow> u32 \<Rightarrow> 'a cring \<Rightarrow> bool" where
  "prod_side ps cap s \<longleftrightarrow>
     owns (\<lambda>t. p_own (ppc s t)) (n_pub s) (length (hist s)) \<and>
     (\<forall>t. prod_ok ps cap s (ppc s t)) \<and>
     (ps \<noteq> SQK_RING_SYNC_MT \<longrightarrow> length (hist s) \<le> Suc (n_pub s)) \<and>
     (ps = SQK_RING_SYNC_ST \<longrightarrow> (\<forall>t. t \<noteq> 0 \<longrightarrow> ppc s t = P_Idle))"

definition cons_side :: "RingSyncType \<Rightarrow> 'a cring \<Rightarrow> bool" where
  "cons_side cs s \<longleftrightarrow>
     owns (\<lambda>t. c_own (cpc s t)) (length (got s)) (n_take s) \<and>
     (\<forall>t. cons_ok cs s (cpc s t)) \<and>
     (cs \<noteq> SQK_RING_SYNC_MT \<longrightarrow> n_take s \<le> Suc (length (got s))) \<and>
     (cs = SQK_RING_SYNC_ST \<longrightarrow> (\<forall>t. t \<noteq> 0 \<longrightarrow> cpc s t = C_Idle))"

definition cring_inv :: "RingSyncType \<Rightarrow> RingSyncType \<Rightarrow> u32 \<Rightarrow> 'a cring \<Rightarrow> bool" where
  "cring_inv ps cs cap s \<longleftrightarrow> counters cap s \<and> stored cap s \<and> prod_side ps cap s \<and> cons_side cs s"

lemma cring_inv_init: "cring_init s \<Longrightarrow> cring_inv ps cs cap s"
  by (simp add: cring_init_def cring_inv_def counters_def stored_def prod_side_def cons_side_def owns_def)

text \<open>Updates that leave a predicate's fields alone.\<close>

lemma prod_ok_frame:
  "hist s' = hist s \<Longrightarrow> cell s' = cell s \<Longrightarrow> n_pub s' = n_pub s \<Longrightarrow> length (got s) \<le> length (got s') \<Longrightarrow>
   prod_ok ps cap s pc \<Longrightarrow> prod_ok ps cap s' pc"
  by (cases pc) auto

lemma cons_ok_frame:
  "n_take s' = n_take s \<Longrightarrow> got s' = got s \<Longrightarrow> n_pub s \<le> n_pub s' \<Longrightarrow>
   (\<And>p. c_own pc = Some p \<Longrightarrow> hist s' ! p = hist s ! p) \<Longrightarrow> cons_ok cs s pc \<Longrightarrow> cons_ok cs s' pc"
  by (cases pc) auto

subsection \<open>Steps of a producer keep the invariant\<close>

lemma set_ppc_simps [simp]:
  "p_head (set_ppc t pc s) = p_head s" "p_tail (set_ppc t pc s) = p_tail s"
  "c_head (set_ppc t pc s) = c_head s" "c_tail (set_ppc t pc s) = c_tail s"
  "cell (set_ppc t pc s) = cell s" "ppc (set_ppc t pc s) = (ppc s)(t := pc)" "cpc (set_ppc t pc s) = cpc s"
  "hist (set_ppc t pc s) = hist s" "n_pub (set_ppc t pc s) = n_pub s" "n_take (set_ppc t pc s) = n_take s"
  "got (set_ppc t pc s) = got s"
  by (simp_all add: set_ppc_def)

lemma inv_set_ppc:
  assumes "cring_inv ps cs cap s" "p_own pc = p_own (ppc s t)" "prod_ok ps cap s pc"
    "ps = SQK_RING_SYNC_ST \<Longrightarrow> t \<noteq> 0 \<Longrightarrow> pc = P_Idle"
  shows "cring_inv ps cs cap (set_ppc t pc s)"
proof -
  have own: "(\<lambda>u. p_own (((ppc s)(t := pc)) u)) = (\<lambda>u. p_own (ppc s u))" using assms(2) by auto
  have "prod_ok ps cap (set_ppc t pc s) = prod_ok ps cap s"
    by (rule ext) (auto intro: prod_ok_frame [of s "set_ppc t pc s"] prod_ok_frame [of "set_ppc t pc s" s])
  moreover have "cons_ok cs (set_ppc t pc s) = cons_ok cs s"
    by (rule ext) (auto intro: cons_ok_frame [of s "set_ppc t pc s"] cons_ok_frame [of "set_ppc t pc s" s])
  ultimately show ?thesis using assms(1,3,4) own
    by (auto simp: cring_inv_def counters_def stored_def prod_side_def cons_side_def)
qed

lemma claim_prod_simps:
  "hist (claim_prod t x h s) = hist s @ [x]" "p_head (claim_prod t x h s) = h + 1"
  "p_tail (claim_prod t x h s) = p_tail s" "c_head (claim_prod t x h s) = c_head s"
  "c_tail (claim_prod t x h s) = c_tail s" "cell (claim_prod t x h s) = cell s"
  "ppc (claim_prod t x h s) = (ppc s)(t := P_Write x h (length (hist s)))"
  "cpc (claim_prod t x h s) = cpc s" "n_pub (claim_prod t x h s) = n_pub s"
  "n_take (claim_prod t x h s) = n_take s" "got (claim_prod t x h s) = got s"
  by (simp_all add: claim_prod_def)

lemma inv_claim_prod:
  assumes inv: "cring_inv ps cs cap s" and t: "p_own (ppc s t) = None"
    and h: "h = word_of_nat (length (hist s))" and room: "length (hist s) < length (got s) + unat cap"
    and one: "ps \<noteq> SQK_RING_SYNC_MT \<Longrightarrow> length (hist s) = n_pub s"
    and st: "ps = SQK_RING_SYNC_ST \<Longrightarrow> t = 0"
  shows "cring_inv ps cs cap (claim_prod t x h s)"
proof -
  let ?s = "claim_prod t x h s" and ?H = "length (hist s)"
  note upd = claim_prod_simps
  have c: "counters cap s" "stored cap s" "prod_side ps cap s" "cons_side cs s"
    using inv by (simp_all add: cring_inv_def)
  have le: "length (got s) \<le> n_take s" "n_take s \<le> n_pub s" "n_pub s \<le> ?H" using c(1) by (simp_all add: counters_def)
  have own: "owns (\<lambda>u. p_own (ppc s u)) (n_pub s) ?H" using c(3) by (simp add: prod_side_def)
  have "counters cap ?s" using c(1) room h by (simp add: counters_def upd add.commute)
  moreover have "stored cap ?s" using c(2) le by (auto simp: stored_def upd nth_append)
  moreover have "prod_side ps cap ?s"
  proof -
    have "prod_ok ps cap ?s (ppc ?s u)" for u
    proof (cases "u = t")
      case False
      have "prod_ok ps cap s (ppc s u)" using c(3) by (simp add: prod_side_def)
      moreover have "pos < ?H" if "p_own (ppc s u) = Some pos" for pos using ownsD(2) [OF own that] .
      moreover have "ppc s u = P_Idle" if "ps = SQK_RING_SYNC_ST"
        using c(3) st that False by (auto simp: prod_side_def)
      ultimately show ?thesis using False
        by (cases "ppc s u") (auto simp: upd nth_append)
    qed (simp add: upd h)
    moreover have "owns (\<lambda>u. p_own (ppc ?s u)) (n_pub ?s) (length (hist ?s))"
      using owns_claim [OF own t le(3)] by (simp add: upd comp_upd fun_upd_def)
    ultimately show ?thesis using c(3) one st by (auto simp: prod_side_def upd)
  qed
  moreover have "cons_side cs ?s"
  proof -
    have "cons_ok cs ?s (cpc s u)" for u
    proof (rule cons_ok_frame [of _ s])
      show "cons_ok cs s (cpc s u)" using c(4) by (simp add: cons_side_def)
      fix p assume "c_own (cpc s u) = Some p"
      then have "p < n_take s" using c(4) ownsD(2) [of "\<lambda>u. c_own (cpc s u)"] by (auto simp: cons_side_def)
      then show "hist ?s ! p = hist s ! p" using le by (simp add: upd nth_append)
    qed (simp_all add: upd)
    then show ?thesis using c(4) by (simp add: cons_side_def upd)
  qed
  ultimately show ?thesis by (simp add: cring_inv_def)
qed

lemma inv_write:
  assumes inv: "cring_inv ps cs cap s" and cap: "unat cap = 2 ^ k - 1" "k \<le> 32"
    and t: "ppc s t = P_Write x h pos"
  shows "cring_inv ps cs cap ((set_ppc t (P_Wait h pos) s)\<lparr>cell := (cell s)(h AND cap := x)\<rparr>)"
    (is "cring_inv ps cs cap ?s")
proof -
  have c: "counters cap s" "stored cap s" "prod_side ps cap s" "cons_side cs s"
    using inv by (simp_all add: cring_inv_def)
  have own: "owns (\<lambda>u. p_own (ppc s u)) (n_pub s) (length (hist s))"
    and ok: "\<And>u. prod_ok ps cap s (ppc s u)" using c(3) by (simp_all add: prod_side_def)
  have pos: "h = word_of_nat pos" "hist s ! pos = x" using ok [of t] t by simp_all
  have range: "n_pub s \<le> pos" "pos < length (hist s)" using ownsD(1,2) [OF own, of t pos] t by simp_all
  have le: "length (got s) \<le> n_pub s" "length (hist s) \<le> length (got s) + unat cap"
    using c(1) by (simp_all add: counters_def)
  have other: "cell ?s (word_of_nat p AND cap) = cell s (word_of_nat p AND cap)"
    if "length (got s) \<le> p" "p < length (hist s)" "p \<noteq> pos" for p
    using slot_near [OF cap, of p pos] that range le pos(1) by auto
  have "counters cap ?s" using c(1) by (simp add: counters_def)
  moreover have "stored cap ?s" using c(2) other range by (auto simp: stored_def)
  moreover have "prod_side ps cap ?s"
  proof -
    have "prod_ok ps cap ?s (ppc ?s u)" for u
    proof (cases "u = t")
      case False
      have "word_of_nat p AND cap \<noteq> h AND cap" if "p_own (ppc s u) = Some p" for p
      proof -
        have "p \<noteq> pos" using ownsD(3) [OF own, of t pos u] t that False by auto
        then show ?thesis using slot_near [OF cap, of p pos] ownsD(1,2) [OF own that] range le pos(1) by auto
      qed
      then show ?thesis using False ok [of u] by (cases "ppc s u") auto
    qed (simp add: pos)
    moreover have "(\<lambda>u. p_own (ppc ?s u)) = (\<lambda>u. p_own (ppc s u))" using t by auto
    ultimately show ?thesis using c(3) t by (auto simp: prod_side_def)
  qed
  moreover have "cons_side cs ?s"
    using c(4) cons_ok_frame [of ?s s] by (simp add: cons_side_def)
  ultimately show ?thesis by (simp add: cring_inv_def)
qed

lemma inv_publish:
  assumes inv: "cring_inv ps cs cap s" and t: "ppc s t = P_Store h pos"
  shows "cring_inv ps cs cap ((set_ppc t P_Idle s)\<lparr>p_tail := h + 1, n_pub := Suc (n_pub s)\<rparr>)"
    (is "cring_inv ps cs cap ?s")
proof -
  have c: "counters cap s" "stored cap s" "prod_side ps cap s" "cons_side cs s"
    using inv by (simp_all add: cring_inv_def)
  have own: "owns (\<lambda>u. p_own (ppc s u)) (n_pub s) (length (hist s))"
    and ok: "\<And>u. prod_ok ps cap s (ppc s u)" using c(3) by (simp_all add: prod_side_def)
  have pos: "h = word_of_nat pos" "pos = n_pub s" "cell s (h AND cap) = hist s ! pos"
    using ok [of t] t by auto
  have lt: "n_pub s < length (hist s)" using ownsD(2) [OF own, of t pos] t pos(2) by simp
  have "counters cap ?s" using c(1) lt pos by (simp add: counters_def add.commute)
  moreover have "stored cap ?s" using c(2) pos by (auto simp: stored_def less_Suc_eq)
  moreover have "prod_side ps cap ?s"
  proof -
    have "prod_ok ps cap ?s (ppc ?s u)" for u
    proof (cases "u = t")
      case False
      have "p_own (ppc s u) \<noteq> Some pos" using ownsD(3) [OF own, of t pos u] t False by auto
      then show ?thesis using False ok [of u] pos(2) by (cases "ppc s u") auto
    qed simp
    moreover have "owns (\<lambda>u. p_own (ppc ?s u)) (n_pub ?s) (length (hist ?s))"
      using owns_release [OF own, of t] t pos(2) by (simp add: comp_upd fun_upd_def)
    ultimately show ?thesis using c(3) lt by (auto simp: prod_side_def)
  qed
  moreover have "cons_side cs ?s"
    using c(4) cons_ok_frame [of ?s s] by (simp add: cons_side_def)
  ultimately show ?thesis by (simp add: cring_inv_def)
qed

text \<open>The facts about a thread that a step of it needs.\<close>

lemma cring_invD:
  assumes "cring_inv ps cs cap s"
  shows "length (got s) \<le> n_take s" "n_take s \<le> n_pub s" "n_pub s \<le> length (hist s)"
    "length (hist s) \<le> length (got s) + unat cap"
    "p_head s = word_of_nat (length (hist s))" "p_tail s = word_of_nat (n_pub s)"
    "c_head s = word_of_nat (n_take s)" "c_tail s = word_of_nat (length (got s))"
    "prod_ok ps cap s (ppc s t)" "cons_ok cs s (cpc s t)"
    "owns (\<lambda>t. p_own (ppc s t)) (n_pub s) (length (hist s))"
    "owns (\<lambda>t. c_own (cpc s t)) (length (got s)) (n_take s)"
    "ps \<noteq> SQK_RING_SYNC_MT \<Longrightarrow> length (hist s) \<le> Suc (n_pub s)"
    "cs \<noteq> SQK_RING_SYNC_MT \<Longrightarrow> n_take s \<le> Suc (length (got s))"
    "ps = SQK_RING_SYNC_ST \<Longrightarrow> t \<noteq> 0 \<Longrightarrow> ppc s t = P_Idle"
    "cs = SQK_RING_SYNC_ST \<Longrightarrow> t \<noteq> 0 \<Longrightarrow> cpc s t = C_Idle"
    "length (got s) \<le> p \<Longrightarrow> p < n_pub s \<Longrightarrow> cell s (word_of_nat p AND cap) = hist s ! p"
    "got s = take (length (got s)) (hist s)"
  using assms by (auto simp: cring_inv_def counters_def prod_side_def cons_side_def stored_def)

lemma prod_single_claim:
  assumes "cring_inv ps cs cap s" "ps = SQK_RING_SYNC_ST" "p_own (ppc s t) = None" "t = 0"
  shows "length (hist s) = n_pub s"
proof (rule owns_none)
  show "owns (\<lambda>t. p_own (ppc s t)) (n_pub s) (length (hist s))" by (rule cring_invD(11) [OF assms(1)])
  show "p_own (ppc s u) = None" for u
    using cring_invD(15) [OF assms(1,2), of u] assms(3,4) by (cases "u = 0") auto
  show "n_pub s \<le> length (hist s)" by (rule cring_invD(3) [OF assms(1)])
qed

text \<open>
  At a successful compare-exchange (or, in single-thread mode, the plain store) the loaded
  head stands for the current one, so the free entries computed from the older tail are
  really free.
\<close>

lemma prod_tail_current:
  assumes inv: "cring_inv ps cs cap s" and fresh: "fresh s"
    and t: "ppc s t = P_Tail x h ot ct g gh gc" and free: "free_entries cap ct h \<noteq> 0"
    and cur: "ps = SQK_RING_SYNC_ST \<or> p_head s = h"
  shows "h = word_of_nat (length (hist s))" "length (hist s) < length (got s) + unat cap"
proof -
  note d = cring_invD [OF inv]
  have ok: "h = word_of_nat g" "ct = word_of_nat gc" "g \<le> gh" "gh \<le> length (hist s)" "gc \<le> length (got s)"
    "gh \<le> gc + unat cap" "ps = SQK_RING_SYNC_ST \<longrightarrow> g = length (hist s)"
    using d(9) [of t] t by auto
  have "length (hist s) < g + 2147483648" using freshD(1) [OF fresh, of t g] t by simp
  then have g: "g = length (hist s)"
    using cur ok d(5) word_of_nat_near [of "length (hist s)" g] by auto
  then show "h = word_of_nat (length (hist s))" using ok(1) by simp
  have "free_entries cap ct h = word_of_nat (unat cap + gc - g)"
    using ok by (simp add: free_entries_def of_nat_diff)
  then have "unat cap + gc - g \<noteq> 0" using free by auto
  then show "length (hist s) < length (got s) + unat cap" using g ok(5) by linarith
qed

lemma inv_prod_claim:
  assumes inv: "cring_inv ps cs cap s" and fresh: "fresh s" and st: "ps = SQK_RING_SYNC_ST \<Longrightarrow> t = 0"
    and t: "ppc s t = P_Tail y h ot ct g gh gc" and free: "free_entries cap ct h \<noteq> 0"
    and cur: "ps = SQK_RING_SYNC_ST \<or> p_head s = h"
    and hts: "ps = SQK_RING_SYNC_MT_HTS \<Longrightarrow> p_tail s = ot" and rts: "ps \<noteq> SQK_RING_SYNC_MT_RTS"
  shows "cring_inv ps cs cap (claim_prod t y h s)"
proof (rule inv_claim_prod [OF inv])
  note d = cring_invD [OF inv]
  show "h = word_of_nat (length (hist s))" "length (hist s) < length (got s) + unat cap"
    by (rule prod_tail_current [OF inv fresh t free cur])+
  show "p_own (ppc s t) = None" by (simp add: t)
  show "ps = SQK_RING_SYNC_ST \<Longrightarrow> t = 0" by (rule st)
  assume "ps \<noteq> SQK_RING_SYNC_MT"
  then consider "ps = SQK_RING_SYNC_ST" | "ps = SQK_RING_SYNC_MT_HTS" using rts by (cases ps) auto
  then show "length (hist s) = n_pub s"
  proof cases
    case 2
    then have "p_head s = p_tail s" using cur hts d(9) [of t] t by auto
    then show ?thesis using d(1-6) unat_u32_lt [of cap]
      by (intro word_of_nat_near) (auto simp del: unat_u32_lt)
  qed (use prod_single_claim [OF inv] t st in auto)
qed

lemma inv_prod_wait:
  assumes inv: "cring_inv ps cs cap s" and st: "ps = SQK_RING_SYNC_ST \<Longrightarrow> t = 0"
    and t: "ppc s t = P_Wait h pos" and go: "\<not> (ps = SQK_RING_SYNC_MT \<and> p_tail s \<noteq> h)"
  shows "cring_inv ps cs cap (set_ppc t (P_Store h pos) s)"
proof -
  note d = cring_invD [OF inv]
  have "n_pub s \<le> pos" "pos < length (hist s)" using ownsD [OF d(11), of t pos] t by auto
  then have "pos = n_pub s"
    using go d(9) [of t] t d(1,2,4,6) d(13) unat_u32_lt [of cap]
    by (cases "ps = SQK_RING_SYNC_MT") (auto intro!: word_of_nat_near simp del: unat_u32_lt)
  then show ?thesis using d(9) [of t] t st by (intro inv_set_ppc [OF inv]) auto
qed

lemma prod_exec_inv:
  assumes inv: "cring_inv ps cs cap s" and fresh: "fresh s" and cap: "unat cap = 2 ^ k - 1" "k \<le> 32"
    and step: "prod_exec ps cap t x s = Some s'"
  shows "cring_inv ps cs cap s'"
proof -
  note d = cring_invD [OF inv]
  have st: "ps = SQK_RING_SYNC_ST \<Longrightarrow> t = 0" using d(15) [of t] step by (cases "t = 0") auto
  have load: "cring_inv ps cs cap (set_ppc t (P_Head y (p_head s) ot (length (hist s))) s)"
    if "p_own (ppc s t) = None" for y ot
    using that st d(5) by (intro inv_set_ppc [OF inv]) auto
  show ?thesis
  proof (cases "ppc s t")
    case P_Idle
    then show ?thesis using step load by (auto split: if_splits)
  next
    case (P_Head y h ot g)
    then have "cring_inv ps cs cap (set_ppc t (P_Tail y h ot (c_tail s) g (length (hist s)) (length (got s))) s)"
      if "\<not> (ps = SQK_RING_SYNC_MT_HTS \<and> h \<noteq> ot)"
      using d(4,8) d(9) [of t] st that by (intro inv_set_ppc [OF inv]) auto
    then show ?thesis using step load P_Head by (auto split: if_splits)
  next
    case (P_Tail y h ot ct g gh gc)
    have "(claim_prod t y h s)\<lparr>p_tail := ot\<rparr> = claim_prod t y h s" if "p_tail s = ot"
      using that by (simp add: claim_prod_def set_ppc_def)
    moreover have "cring_inv ps cs cap (set_ppc t P_Idle s)"
      using P_Tail by (intro inv_set_ppc [OF inv]) auto
    ultimately show ?thesis using step load inv_prod_claim [OF inv fresh st P_Tail] P_Tail
      by (auto split: if_splits RingSyncType.splits)
  next
    case (P_Wait h pos)
    then show ?thesis using step inv inv_prod_wait [OF inv st P_Wait] by (auto split: if_splits)
  qed (use step inv_write [OF inv cap] inv_publish [OF inv] in auto)
qed

subsection \<open>Steps of a consumer keep the invariant\<close>

lemma set_cpc_simps [simp]:
  "p_head (set_cpc t pc s) = p_head s" "p_tail (set_cpc t pc s) = p_tail s"
  "c_head (set_cpc t pc s) = c_head s" "c_tail (set_cpc t pc s) = c_tail s"
  "cell (set_cpc t pc s) = cell s" "cpc (set_cpc t pc s) = (cpc s)(t := pc)" "ppc (set_cpc t pc s) = ppc s"
  "hist (set_cpc t pc s) = hist s" "n_pub (set_cpc t pc s) = n_pub s" "n_take (set_cpc t pc s) = n_take s"
  "got (set_cpc t pc s) = got s"
  by (simp_all add: set_cpc_def)

lemma inv_set_cpc:
  assumes "cring_inv ps cs cap s" "c_own pc = c_own (cpc s t)" "cons_ok cs s pc"
    "cs = SQK_RING_SYNC_ST \<Longrightarrow> t \<noteq> 0 \<Longrightarrow> pc = C_Idle"
  shows "cring_inv ps cs cap (set_cpc t pc s)"
proof -
  have own: "(\<lambda>u. c_own (((cpc s)(t := pc)) u)) = (\<lambda>u. c_own (cpc s u))" using assms(2) by auto
  have "prod_ok ps cap (set_cpc t pc s) = prod_ok ps cap s"
    by (rule ext) (auto intro: prod_ok_frame [of s "set_cpc t pc s"] prod_ok_frame [of "set_cpc t pc s" s])
  moreover have "cons_ok cs (set_cpc t pc s) = cons_ok cs s"
    by (rule ext) (auto intro: cons_ok_frame [of s "set_cpc t pc s"] cons_ok_frame [of "set_cpc t pc s" s])
  ultimately show ?thesis using assms(1,3,4) own
    by (auto simp: cring_inv_def counters_def stored_def prod_side_def cons_side_def)
qed

lemma claim_cons_simps:
  "hist (claim_cons t h s) = hist s" "p_head (claim_cons t h s) = p_head s"
  "p_tail (claim_cons t h s) = p_tail s" "c_head (claim_cons t h s) = h + 1"
  "c_tail (claim_cons t h s) = c_tail s" "cell (claim_cons t h s) = cell s"
  "cpc (claim_cons t h s) = (cpc s)(t := C_Read h (n_take s))"
  "ppc (claim_cons t h s) = ppc s" "n_pub (claim_cons t h s) = n_pub s"
  "n_take (claim_cons t h s) = Suc (n_take s)" "got (claim_cons t h s) = got s"
  by (simp_all add: claim_cons_def)

lemma inv_claim_cons:
  assumes inv: "cring_inv ps cs cap s" and t: "c_own (cpc s t) = None"
    and h: "h = word_of_nat (n_take s)" and avail: "n_take s < n_pub s"
    and one: "cs \<noteq> SQK_RING_SYNC_MT \<Longrightarrow> n_take s = length (got s)"
    and st: "cs = SQK_RING_SYNC_ST \<Longrightarrow> t = 0"
  shows "cring_inv ps cs cap (claim_cons t h s)"
proof -
  let ?s = "claim_cons t h s"
  note upd = claim_cons_simps and d = cring_invD [OF inv]
  have c: "counters cap s" "stored cap s" "prod_side ps cap s" "cons_side cs s"
    using inv by (simp_all add: cring_inv_def)
  have "counters cap ?s" using c(1) avail h by (simp add: counters_def upd add.commute)
  moreover have "stored cap ?s" using c(2) by (simp add: stored_def upd)
  moreover have "prod_side ps cap ?s"
    using c(3) prod_ok_frame [of ?s s] by (simp add: prod_side_def upd)
  moreover have "cons_side cs ?s"
  proof -
    have "cons_ok cs ?s (cpc ?s u)" for u
    proof (cases "u = t")
      case False
      then show ?thesis using d(10) [of u] d(16) [of u] st
        by (cases "cpc s u") (auto simp: upd)
    qed (simp add: upd h)
    moreover have "owns (\<lambda>u. c_own (cpc ?s u)) (length (got ?s)) (n_take ?s)"
      using owns_claim [OF d(12) t d(1)] by (simp add: upd comp_upd fun_upd_def)
    ultimately show ?thesis using c(4) one st by (auto simp: cons_side_def upd)
  qed
  ultimately show ?thesis by (simp add: cring_inv_def)
qed

lemma inv_release:
  assumes inv: "cring_inv ps cs cap s" and t: "cpc s t = C_Store v h pos"
  shows "cring_inv ps cs cap ((set_cpc t C_Idle s)\<lparr>c_tail := h + 1, got := got s @ [v]\<rparr>)"
    (is "cring_inv ps cs cap ?s")
proof -
  note d = cring_invD [OF inv]
  have c: "counters cap s" "stored cap s" "prod_side ps cap s" "cons_side cs s"
    using inv by (simp_all add: cring_inv_def)
  have pos: "h = word_of_nat pos" "pos = length (got s)" "v = hist s ! pos"
    using d(10) [of t] t by auto
  have lt: "length (got s) < n_take s" using ownsD(2) [OF d(12), of t pos] t pos(2) by simp
  have "counters cap ?s" using c(1) lt pos by (simp add: counters_def add.commute)
  moreover have "stored cap ?s"
    using c(2) pos lt d(2,3) by (auto simp: stored_def take_Suc_conv_app_nth)
  moreover have "prod_side ps cap ?s"
    using c(3) prod_ok_frame [of ?s s] by (simp add: prod_side_def)
  moreover have "cons_side cs ?s"
  proof -
    have "cons_ok cs ?s (cpc ?s u)" for u
    proof (cases "u = t")
      case False
      have "c_own (cpc s u) \<noteq> Some pos" using ownsD(3) [OF d(12), of t pos u] t False by auto
      then show ?thesis using False d(10) [of u] pos(2) by (cases "cpc s u") auto
    qed simp
    moreover have "owns (\<lambda>u. c_own (cpc ?s u)) (length (got ?s)) (n_take ?s)"
      using owns_release [OF d(12), of t] t pos(2) by (simp add: comp_upd fun_upd_def)
    ultimately show ?thesis using c(4) lt by (auto simp: cons_side_def)
  qed
  ultimately show ?thesis by (simp add: cring_inv_def)
qed

lemma cons_single_claim:
  assumes "cring_inv ps cs cap s" "cs = SQK_RING_SYNC_ST" "c_own (cpc s t) = None" "t = 0"
  shows "n_take s = length (got s)"
proof (rule owns_none)
  show "owns (\<lambda>t. c_own (cpc s t)) (length (got s)) (n_take s)" by (rule cring_invD(12) [OF assms(1)])
  show "c_own (cpc s u) = None" for u
    using cring_invD(16) [OF assms(1,2), of u] assms(3,4) by (cases "u = 0") auto
  show "length (got s) \<le> n_take s" by (rule cring_invD(1) [OF assms(1)])
qed

lemma cons_tail_current:
  assumes inv: "cring_inv ps cs cap s" and fresh: "fresh s"
    and t: "cpc s t = C_Tail h ot pt g gt gp" and used: "used_entries pt h \<noteq> 0"
    and cur: "cs = SQK_RING_SYNC_ST \<or> c_head s = h"
  shows "h = word_of_nat (n_take s)" "n_take s < n_pub s"
proof -
  note d = cring_invD [OF inv]
  have ok: "h = word_of_nat g" "pt = word_of_nat gp" "g \<le> gt" "gt \<le> n_take s" "gt \<le> gp" "gp \<le> n_pub s"
    "cs = SQK_RING_SYNC_ST \<longrightarrow> g = n_take s"
    using d(10) [of t] t by auto
  have "n_take s < g + 2147483648" using freshD(2) [OF fresh, of t g] t by simp
  then have g: "g = n_take s"
    using cur ok d(7) word_of_nat_near [of "n_take s" g] by auto
  then show "h = word_of_nat (n_take s)" using ok(1) by simp
  have "used_entries pt h = word_of_nat (gp - g)" using ok by (simp add: used_entries_def of_nat_diff)
  then have "gp - g \<noteq> 0" using used by auto
  then show "n_take s < n_pub s" using g ok(6) by linarith
qed

lemma inv_cons_claim:
  assumes inv: "cring_inv ps cs cap s" and fresh: "fresh s" and st: "cs = SQK_RING_SYNC_ST \<Longrightarrow> t = 0"
    and t: "cpc s t = C_Tail h ot pt g gt gp" and used: "used_entries pt h \<noteq> 0"
    and cur: "cs = SQK_RING_SYNC_ST \<or> c_head s = h"
    and hts: "cs = SQK_RING_SYNC_MT_HTS \<Longrightarrow> c_tail s = ot" and rts: "cs \<noteq> SQK_RING_SYNC_MT_RTS"
  shows "cring_inv ps cs cap (claim_cons t h s)"
proof (rule inv_claim_cons [OF inv])
  note d = cring_invD [OF inv]
  show "h = word_of_nat (n_take s)" "n_take s < n_pub s"
    by (rule cons_tail_current [OF inv fresh t used cur])+
  show "c_own (cpc s t) = None" by (simp add: t)
  show "cs = SQK_RING_SYNC_ST \<Longrightarrow> t = 0" by (rule st)
  assume "cs \<noteq> SQK_RING_SYNC_MT"
  then consider "cs = SQK_RING_SYNC_ST" | "cs = SQK_RING_SYNC_MT_HTS" using rts by (cases cs) auto
  then show "n_take s = length (got s)"
  proof cases
    case 2
    then have "c_head s = c_tail s" using cur hts d(10) [of t] t by auto
    then show ?thesis using d(1-4) d(7,8) unat_u32_lt [of cap]
      by (intro word_of_nat_near) (auto simp del: unat_u32_lt)
  qed (use cons_single_claim [OF inv] t st in auto)
qed

lemma inv_cons_wait:
  assumes inv: "cring_inv ps cs cap s" and st: "cs = SQK_RING_SYNC_ST \<Longrightarrow> t = 0"
    and t: "cpc s t = C_Wait v h pos" and go: "\<not> (cs = SQK_RING_SYNC_MT \<and> c_tail s \<noteq> h)"
  shows "cring_inv ps cs cap (set_cpc t (C_Store v h pos) s)"
proof -
  note d = cring_invD [OF inv]
  have "length (got s) \<le> pos" "pos < n_take s" using ownsD [OF d(12), of t pos] t by auto
  then have "pos = length (got s)"
    using go d(10) [of t] t d(2,3,4,8) d(14) unat_u32_lt [of cap]
    by (cases "cs = SQK_RING_SYNC_MT") (auto intro!: word_of_nat_near simp del: unat_u32_lt)
  then show ?thesis using d(10) [of t] t st by (intro inv_set_cpc [OF inv]) auto
qed

lemma inv_cons_read:
  assumes inv: "cring_inv ps cs cap s" and st: "cs = SQK_RING_SYNC_ST \<Longrightarrow> t = 0"
    and t: "cpc s t = C_Read h pos"
  shows "cring_inv ps cs cap (set_cpc t (C_Wait (cell s (h AND cap)) h pos) s)"
proof -
  note d = cring_invD [OF inv]
  have "length (got s) \<le> pos" "pos < n_take s" using ownsD [OF d(12), of t pos] t by auto
  then have "cell s (h AND cap) = hist s ! pos" using d(10) [of t] t d(2) d(17) [of pos] by simp
  then show ?thesis using d(10) [of t] t st by (intro inv_set_cpc [OF inv]) auto
qed

lemma cons_exec_inv:
  assumes inv: "cring_inv ps cs cap s" and fresh: "fresh s" and step: "cons_exec cs cap t s = Some s'"
  shows "cring_inv ps cs cap s'"
proof -
  note d = cring_invD [OF inv]
  have st: "cs = SQK_RING_SYNC_ST \<Longrightarrow> t = 0" using d(16) [of t] step by (cases "t = 0") auto
  have idle: "cring_inv ps cs cap (set_cpc t pc s)"
    if "c_own (cpc s t) = None" "pc = C_Idle \<or> pc = C_Loop" for pc
    using that st by (intro inv_set_cpc [OF inv]) auto
  have load: "cring_inv ps cs cap (set_cpc t (C_Head (c_head s) ot (n_take s)) s)"
    if "c_own (cpc s t) = None" for ot
    using that st d(7) by (intro inv_set_cpc [OF inv]) auto
  show ?thesis
  proof (cases "cpc s t")
    case (C_Head h ot g)
    then have "cring_inv ps cs cap (set_cpc t (C_Tail h ot (p_tail s) g (n_take s) (n_pub s)) s)"
      if "\<not> (cs = SQK_RING_SYNC_MT_HTS \<and> h \<noteq> ot)"
      using d(2,6) d(10) [of t] st that by (intro inv_set_cpc [OF inv]) auto
    then show ?thesis using step load C_Head by (auto split: if_splits)
  next
    case (C_Tail h ot pt g gt gp)
    have "(claim_cons t h s)\<lparr>c_tail := ot\<rparr> = claim_cons t h s" if "c_tail s = ot"
      using that by (simp add: claim_cons_def set_cpc_def)
    then show ?thesis using step load idle inv_cons_claim [OF inv fresh st C_Tail] C_Tail
      by (auto split: if_splits RingSyncType.splits)
  next
    case (C_Wait v h pos)
    then show ?thesis using step inv inv_cons_wait [OF inv st C_Wait] by (auto split: if_splits)
  qed (use step idle load inv_cons_read [OF inv st] inv_release [OF inv] in \<open>auto split: if_splits\<close>)
qed

text \<open>The invariant is inductive for a ring of \<open>2 ^ k\<close> slots, in every mode.\<close>

lemma ring_step_inv:
  assumes "cring_inv ps cs cap s" "ring_step ps cs cap s s'" "unat cap = 2 ^ k - 1" "k < 32"
  shows "cring_inv ps cs cap s'"
  using assms(2)
proof cases
  case (prod t x)
  then show ?thesis using prod_exec_inv [OF assms(1) prod(1) assms(3) _ prod(2)] assms(4) by simp
next
  case (cons t)
  then show ?thesis using cons_exec_inv [OF assms(1) cons] by simp
qed

definition pow2_cap :: "u32 \<Rightarrow> bool" where
  "pow2_cap cap \<longleftrightarrow> (\<exists>k<32. unat cap = 2 ^ k - 1)"

lemma pow2_cap_less: "pow2_cap cap \<Longrightarrow> unat cap < 2147483648"
proof -
  assume "pow2_cap cap"
  then obtain k where k: "k < 32" "unat cap = 2 ^ k - 1" unfolding pow2_cap_def by blast
  have "(2::nat) ^ k \<le> 2 ^ 31" using k(1) by (intro power_increasing) auto
  moreover have "(0::nat) < 2 ^ k" by simp
  ultimately show ?thesis using k(2) by simp
qed

interpretation cring: inductive_invariant cring_init "ring_step ps cs cap"
  "\<lambda>s. pow2_cap cap \<longrightarrow> cring_inv ps cs cap s"
  for ps cs :: RingSyncType and cap :: u32
  by unfold_locales (auto simp: pow2_cap_def intro: cring_inv_init ring_step_inv)

lemma reach_cring_inv:
  "reach cring_init (ring_step ps cs cap) s \<Longrightarrow> pow2_cap cap \<Longrightarrow> cring_inv ps cs cap s"
  using cring.reach_inv by blast

text \<open>Short runs are fresh, so a schedule's states are reachable.\<close>

lemma ring_exec_grows:
  "ring_exec ps cs cap a s = Some s' \<Longrightarrow>
     length (hist s') \<le> Suc (length (hist s)) \<and> n_take s' \<le> Suc (n_take s)"
  by (cases a)
    (auto simp: claim_prod_simps claim_cons_simps
      split: prod_pc.splits cons_pc.splits if_splits RingSyncType.splits)

lemma short_fresh: "length (hist s) < 2147483648 \<Longrightarrow> n_take s < 2147483648 \<Longrightarrow> fresh s"
  by (auto simp: fresh_def)

lemma schedule_reach:
  assumes "reach cring_init (ring_step ps cs cap) s" "ring_schedule ps cs cap as s = Some s'"
    "length (hist s) + length as < 2147483648" "n_take s + length as < 2147483648"
  shows "reach cring_init (ring_step ps cs cap) s'"
  using assms
proof (induction "as" arbitrary: s)
  case (Cons a as)
  then obtain t where t: "ring_exec ps cs cap a s = Some t" "ring_schedule ps cs cap as t = Some s'"
    by (auto simp: bind_eq_Some_conv)
  have "fresh s" using Cons.prems by (intro short_fresh) auto
  then have "ring_step ps cs cap s t" using t(1) by (cases a) (auto intro: ring_step.intros)
  then have "reach cring_init (ring_step ps cs cap) t" using Cons.prems(1) by (rule reach_step [rotated])
  then show ?case using Cons.IH [OF _ t(2)] ring_exec_grows [OF t(1)] Cons.prems by auto
qed simp

definition start :: "'a \<Rightarrow> 'a cring" where
  "start x = \<lparr>p_head = 0, p_tail = 0, c_head = 0, c_tail = 0, cell = (\<lambda>_. x),
     ppc = (\<lambda>_. P_Idle), cpc = (\<lambda>_. C_Idle), hist = [], n_pub = 0, n_take = 0, got = []\<rparr>"

lemma schedule_from_start:
  "ring_schedule ps cs cap as (start x) = Some s \<Longrightarrow> length as < 2147483648 \<Longrightarrow>
     reach cring_init (ring_step ps cs cap) s"
  by (rule schedule_reach [of _ _ _ "start x"]) (auto simp: start_def cring_init_def intro: reach_init)

subsection \<open>Properties\<close>

text \<open>
  C1. Every step of the interleaved ring is a step of a bounded first-in first-out queue or
  leaves that queue as it is: seen as the list of entries claimed and not yet handed out, it
  gains an entry at its end only with room for it, loses one only at its front, and the entry
  lost is the one the consumer returns. This holds for any number of threads in each of the
  three implemented synchronisation modes of either side.
\<close>

theorem concurrent_ring_refines_fifo:
  assumes "reach cring_init (ring_step ps cs cap) s" "pow2_cap cap" "ring_step ps cs cap s s'"
  shows "let q = drop (length (got s)) (hist s); q' = drop (length (got s')) (hist s') in
    (q' = q \<and> got s' = got s) \<or>
    (\<exists>x. q' = q @ [x] \<and> length q < unat cap \<and> got s' = got s) \<or>
    (\<exists>v. q = v # q' \<and> got s' = got s @ [v])"
proof -
  have inv: "cring_inv ps cs cap s" by (rule reach_cring_inv [OF assms(1,2)])
  note d = cring_invD [OF inv]
  show ?thesis using assms(3)
  proof cases
    case (prod t x)
    have room: "length (hist s) < length (got s) + unat cap"
      if "ppc s t = P_Tail y h ot ct g gh gc" "free_entries cap ct h \<noteq> 0" "ps = SQK_RING_SYNC_ST \<or> p_head s = h"
      for y h ot ct g gh gc by (rule prod_tail_current(2) [OF inv prod(1) that])
    have "length (got s) \<le> length (hist s)" using d(1-3) by simp
    then show ?thesis using prod(2) room
      by (auto simp: Let_def claim_prod_simps less_diff_conv split: prod_pc.splits if_splits RingSyncType.splits)
  next
    case (cons t)
    have "v = hist s ! length (got s)" "length (got s) < length (hist s)"
      if "cpc s t = C_Store v h pos" for v h pos
      using d(10) [of t] ownsD [OF d(12), of t pos] d(2,3) that by auto
    then show ?thesis using cons(2)
      by (auto simp: Let_def claim_cons_simps Cons_nth_drop_Suc
          split: cons_pc.splits if_splits RingSyncType.splits)
  qed
qed

text \<open>
  The examples run two producers and one consumer on a ring of four slots in the default
  modes. In \<open>contended\<close> both producers load the same head, the second claims it, the first
  fails its compare-exchange, claims the next position and writes it first.
\<close>

definition contended :: "nat action list" where
  "contended =
     [Prod 0 7, Prod 1 8, Prod 0 7, Prod 1 8, Prod 1 8, Prod 0 7, Prod 0 7, Prod 0 7, Prod 0 7,
      Prod 0 7, Prod 1 8, Prod 1 8, Prod 1 8]"

definition consume :: "nat \<Rightarrow> nat action list" where
  "consume n = replicate n (Cons 0)"

lemma consume_simps [simp]:
  "consume (numeral k) = Cons 0 # consume (pred_numeral k)"
  "consume (Suc n) = Cons 0 # consume n" "consume 0 = []"
  by (simp_all add: consume_def numeral_eq_Suc)

definition run_mpsc :: "nat action list \<Rightarrow> nat cring option" where
  "run_mpsc as = ring_schedule SQK_RING_SYNC_MT SQK_RING_SYNC_ST 3 as (start 0)"

lemma pow2_cap_3: "pow2_cap 3"
  unfolding pow2_cap_def by (rule exI [of _ 2]) simp

lemmas run_simps = run_mpsc_def contended_def start_def set_ppc_def claim_prod_def set_cpc_def claim_cons_def
  free_entries_def used_entries_def

lemma run_mpsc_reach:
  "run_mpsc as = Some s \<Longrightarrow> length as < 2147483648 \<Longrightarrow>
     reach cring_init (ring_step SQK_RING_SYNC_MT SQK_RING_SYNC_ST 3) s"
  unfolding run_mpsc_def by (rule schedule_from_start)

theorem concurrent_ring_refines_fifo_witness:
  "\<exists>s s'. run_mpsc (contended @ [Prod 0 7, Prod 0 7] @ consume 6) = Some s \<and>
    ring_step SQK_RING_SYNC_MT SQK_RING_SYNC_ST 3 s s' \<and>
    drop (length (got s)) (hist s) = 8 # drop (length (got s')) (hist s') \<and> got s' = [8]"
proof -
  let ?as = "contended @ [Prod 0 7, Prod 0 7] @ consume 6"
  obtain s where s: "run_mpsc ?as = Some s" and h: "hist s = [8, 7]" "got s = []" "n_take s = 1"
      "cpc s 0 = C_Store 8 0 0"
    by (simp add: run_simps)
  obtain s' where s': "cons_exec SQK_RING_SYNC_ST 3 0 s = Some s'" "got s' = [8]" using h by simp
  have "fresh s" using h by (intro short_fresh) simp_all
  then have step: "ring_step SQK_RING_SYNC_MT SQK_RING_SYNC_ST 3 s s'" using s'(1) by (rule ring_step.cons)
  have "reach cring_init (ring_step SQK_RING_SYNC_MT SQK_RING_SYNC_ST 3) s"
    using s by (rule run_mpsc_reach) (simp add: contended_def)
  then show ?thesis
    using concurrent_ring_refines_fifo [OF _ pow2_cap_3 step] s step s'(2) h
    by (auto simp: Let_def)
qed

text \<open>
  C16. In every reachable state the entries handed out are the first entries claimed, in
  order: nothing is lost, duplicated or reordered, and at most the ring's capacity is in
  flight.
\<close>

theorem concurrent_ring_fifo:
  assumes "reach cring_init (ring_step ps cs cap) s" "pow2_cap cap"
  shows "got s = take (length (got s)) (hist s) \<and> length (got s) \<le> length (hist s) \<and>
    length (hist s) - length (got s) \<le> unat cap"
  using cring_invD(1-4,18) [OF reach_cring_inv [OF assms]] by linarith

theorem concurrent_ring_fifo_witness:
  "\<exists>s. run_mpsc (contended @ [Prod 0 7, Prod 0 7] @ consume 14) = Some s \<and>
    got s = [8, 7] \<and> got s = take (length (got s)) (hist s)"
proof -
  let ?as = "contended @ [Prod 0 7, Prod 0 7] @ consume 14"
  obtain s where s: "run_mpsc ?as = Some s" "got s = [8, 7]"
    by (simp add: run_simps)
  have "reach cring_init (ring_step SQK_RING_SYNC_MT SQK_RING_SYNC_ST 3) s"
    using s(1) by (rule run_mpsc_reach) (simp add: contended_def)
  then show ?thesis using concurrent_ring_fifo [OF _ pow2_cap_3] s by blast
qed

text \<open>
  C25. Element copies do not race: while a producer copies its entry into a slot, no other
  producer writes that slot and no consumer reads it.
\<close>

theorem element_copies_race_free:
  assumes "reach cring_init (ring_step ps cs cap) s" "pow2_cap cap" "ppc s t = P_Write x h pos"
  shows "(ppc s u = P_Write x' h' pos' \<and> u \<noteq> t \<longrightarrow> h' AND cap \<noteq> h AND cap) \<and>
    (cpc s v = C_Read h'' pos'' \<longrightarrow> h'' AND cap \<noteq> h AND cap)"
proof -
  obtain k where k: "k < 32" "unat cap = 2 ^ k - 1" using assms(2) unfolding pow2_cap_def by blast
  then have k': "k \<le> 32" by simp
  note d = cring_invD [OF reach_cring_inv [OF assms(1,2)]]
  have t: "h = word_of_nat pos" "n_pub s \<le> pos" "pos < length (hist s)"
    using d(9) [of t] ownsD [OF d(11), of t pos] assms(3) by auto
  have "h' AND cap \<noteq> h AND cap" if "ppc s u = P_Write x' h' pos'" "u \<noteq> t"
  proof -
    have "h' = word_of_nat pos'" "n_pub s \<le> pos'" "pos' < length (hist s)" "pos' \<noteq> pos"
      using d(9) [of u] ownsD [OF d(11), of u pos'] ownsD(3) [OF d(11), of t pos u] that assms(3) by auto
    then show ?thesis using slot_near [OF k(2) k', of pos' pos] t d(1,2,4) by auto
  qed
  moreover have "h'' AND cap \<noteq> h AND cap" if "cpc s v = C_Read h'' pos''"
  proof -
    have "h'' = word_of_nat pos''" "length (got s) \<le> pos''" "pos'' < n_take s"
      using d(10) [of v] ownsD [OF d(12), of v pos''] that by auto
    then show ?thesis using slot_near [OF k(2) k', of pos'' pos] t d(1,2,4) by auto
  qed
  ultimately show ?thesis by blast
qed

theorem element_copies_race_free_witness:
  "\<exists>s. run_mpsc (contended @ [Prod 1 9, Prod 1 9, Prod 1 9] @ consume 4) = Some s \<and>
    ppc s 1 = P_Write 9 2 2 \<and> cpc s 0 = C_Read 0 0 \<and> (0 :: u32) AND 3 \<noteq> 2 AND 3"
proof -
  let ?as = "contended @ [Prod 1 9, Prod 1 9, Prod 1 9] @ consume 4"
  obtain s where s: "run_mpsc ?as = Some s" "ppc s 1 = P_Write 9 2 2" "cpc s 0 = C_Read 0 0"
    by (simp add: run_simps)
  have "reach cring_init (ring_step SQK_RING_SYNC_MT SQK_RING_SYNC_ST 3) s"
    using s(1) by (rule run_mpsc_reach) (simp add: contended_def)
  then show ?thesis using element_copies_race_free [OF _ pow2_cap_3 s(2)] s by blast
qed

text \<open>
  C26. An enqueue fails only on a full ring: when a producer gives up after loading a head
  and the consumers' tail, then at that load the entries claimed and not yet released
  filled the ring's capacity. In particular a stale head never makes the unsigned difference
  \<open>capacity + cons_tail - old_head\<close> come out as zero.
\<close>

theorem enqueue_fails_only_when_full:
  assumes "reach cring_init (ring_step ps cs cap) s" "pow2_cap cap" "fresh s"
    "ppc s t = P_Tail x h ot ct g gh gc" "prod_exec ps cap t y s = Some s'" "ppc s' t = P_Idle"
  shows "gh = gc + unat cap"
proof -
  note d = cring_invD [OF reach_cring_inv [OF assms(1,2)]]
  have ok: "h = word_of_nat g" "ct = word_of_nat gc" "g \<le> gh" "gh \<le> length (hist s)" "gc \<le> length (got s)"
    "gh \<le> gc + unat cap" using d(9) [of t] assms(4) by auto
  have "free_entries cap ct h = 0"
    using assms(4-6) by (auto simp: claim_prod_simps split: if_splits RingSyncType.splits)
  then have z: "(word_of_nat (unat cap + gc - g) :: u32) = word_of_nat 0"
    using ok by (simp add: free_entries_def of_nat_diff)
  have "length (hist s) < g + 2147483648" using freshD(1) [OF assms(3), of t g] assms(4) by simp
  then have "unat cap + gc - g < 4294967296"
    using ok(5) d(1-3) pow2_cap_less [OF assms(2)] by linarith
  then have "unat cap + gc - g = 0" using word_of_nat_near [OF z] by simp
  then show ?thesis using ok(3,6) by linarith
qed

text \<open>The ring is full after three entries; the fourth enqueue gives up.\<close>

definition fill :: "nat action list" where
  "fill = [Prod 0 1, Prod 0 1, Prod 0 1, Prod 0 1, Prod 0 1, Prod 0 1,
     Prod 0 2, Prod 0 2, Prod 0 2, Prod 0 2, Prod 0 2, Prod 0 2,
     Prod 0 3, Prod 0 3, Prod 0 3, Prod 0 3, Prod 0 3, Prod 0 3, Prod 0 4, Prod 0 4]"

theorem enqueue_fails_only_when_full_witness:
  "\<exists>s s'. run_mpsc fill = Some s \<and> prod_exec SQK_RING_SYNC_MT 3 0 4 s = Some s' \<and>
    ppc s 0 = P_Tail 4 3 3 0 3 3 0 \<and> ppc s' 0 = P_Idle \<and> 3 = 0 + unat (3 :: u32)"
proof -
  obtain s where s: "run_mpsc fill = Some s" and h: "ppc s 0 = P_Tail 4 3 3 0 3 3 0" "length (hist s) = 3" "n_take s = 0"
    by (simp add: run_simps fill_def)
  obtain s' where s': "prod_exec SQK_RING_SYNC_MT 3 0 4 s = Some s'" "ppc s' 0 = P_Idle"
    using h by (simp add: free_entries_def)
  have "reach cring_init (ring_step SQK_RING_SYNC_MT SQK_RING_SYNC_ST 3) s"
    using s by (rule run_mpsc_reach) (simp add: fill_def)
  moreover have "fresh s" using h by (intro short_fresh) simp_all
  ultimately show ?thesis
    using enqueue_fails_only_when_full [OF _ pow2_cap_3 _ h(1) s'] s s' h(1) by blast
qed

text \<open>
  A dequeue fails only on an empty ring: when a consumer gives up after loading a head
  and the producers' tail, then at that load every published entry had been claimed.
\<close>

lemma dequeue_fails_only_when_empty:
  assumes "reach cring_init (ring_step ps cs cap) s" "pow2_cap cap" "fresh s"
    "cpc s t = C_Tail h ot pt g gt gp" "cons_exec cs cap t s = Some s'" "cpc s' t = C_Idle"
  shows "gt = gp"
proof -
  note d = cring_invD [OF reach_cring_inv [OF assms(1,2)]]
  have ok: "h = word_of_nat g" "pt = word_of_nat gp" "g \<le> gt" "gt \<le> n_take s" "gt \<le> gp" "gp \<le> n_pub s"
    using d(10) [of t] assms(4) by auto
  have "used_entries pt h = 0"
    using assms(4-6) by (auto simp: claim_cons_simps split: if_splits RingSyncType.splits)
  then have z: "(word_of_nat (gp - g) :: u32) = word_of_nat 0"
    using ok by (simp add: used_entries_def of_nat_diff)
  have "n_take s < g + 2147483648" using freshD(2) [OF assms(3), of t g] assms(4) by simp
  then have "gp - g < 4294967296" using ok d(1-4) pow2_cap_less [OF assms(2)] by linarith
  then have "gp - g = 0" using word_of_nat_near [OF z] by simp
  then show ?thesis using ok(3,5) by linarith
qed

lemma dequeue_fails_only_when_empty_witness:
  "\<exists>s s'. run_mpsc (consume 3) = Some s \<and> cons_exec SQK_RING_SYNC_ST 3 0 s = Some s' \<and>
    cpc s 0 = C_Tail 0 0 0 0 0 0 \<and> cpc s' 0 = C_Idle"
proof -
  obtain s where s: "run_mpsc (consume 3) = Some s" and h: "cpc s 0 = C_Tail 0 0 0 0 0 0" "hist s = []" "n_take s = 0"
    by (simp add: run_simps)
  obtain s' where s': "cons_exec SQK_RING_SYNC_ST 3 0 s = Some s'" "cpc s' 0 = C_Idle"
    using h by (simp add: used_entries_def)
  have "reach cring_init (ring_step SQK_RING_SYNC_MT SQK_RING_SYNC_ST 3) s"
    using s by (rule run_mpsc_reach) simp
  moreover have "fresh s" using h by (intro short_fresh) simp_all
  ultimately show ?thesis
    using dequeue_fails_only_when_empty [OF _ pow2_cap_3 _ h(1) s'] s s' h(1) by blast
qed

text \<open>The holder of the oldest position of a side needs no other thread to finish.\<close>

lemma prod_solo:
  assumes "p_own (ppc s t) = Some p" "prod_ok ps cap s (ppc s t)" "p_tail s = word_of_nat p"
  shows "\<exists>n\<le>3. \<exists>s'. ring_schedule ps cs cap (replicate n (Prod t x)) s = Some s' \<and> n_pub s' = Suc (n_pub s)"
proof (cases "ppc s t")
  case P_Write
  then show ?thesis using assms by (intro exI [of _ 3]) (auto simp: numeral_eq_Suc)
next
  case P_Wait
  then show ?thesis using assms by (intro exI [of _ 2]) (auto simp: numeral_eq_Suc)
next
  case P_Store
  then show ?thesis using assms by (intro exI [of _ 1]) auto
qed (use assms in auto)

lemma cons_solo:
  assumes "c_own (cpc s t) = Some p" "cons_ok cs s (cpc s t)" "c_tail s = word_of_nat p"
  shows "\<exists>n\<le>3. \<exists>s'. ring_schedule ps cs cap (replicate n (Cons t)) s = Some s' \<and>
    length (got s') = Suc (length (got s))"
proof (cases "cpc s t")
  case C_Read
  then show ?thesis using assms by (intro exI [of _ 3]) (auto simp: numeral_eq_Suc)
next
  case C_Wait
  then show ?thesis using assms by (intro exI [of _ 2]) (auto simp: numeral_eq_Suc)
next
  case C_Store
  then show ?thesis using assms by (intro exI [of _ 1]) auto
qed (use assms in auto)

text \<open>
  C27. The waits on a tail never deadlock: whenever claimed entries are unpublished, the
  thread that holds the oldest of them publishes it within three steps of its own, whatever
  the other threads wait for; and likewise the consumer that holds the oldest unreleased
  position.
\<close>

theorem ring_never_deadlocks:
  assumes "reach cring_init (ring_step ps cs cap) s" "pow2_cap cap"
  shows "(n_pub s < length (hist s) \<longrightarrow> (\<exists>t. \<exists>n\<le>3. \<exists>s'.
      ring_schedule ps cs cap (replicate n (Prod t x)) s = Some s' \<and> n_pub s' = Suc (n_pub s))) \<and>
    (length (got s) < n_take s \<longrightarrow> (\<exists>t. \<exists>n\<le>3. \<exists>s'.
      ring_schedule ps cs cap (replicate n (Cons t)) s = Some s' \<and>
      length (got s') = Suc (length (got s))))"
proof (intro conjI impI)
  note d = cring_invD [OF reach_cring_inv [OF assms]]
  {
    assume "n_pub s < length (hist s)"
    then obtain t where t: "p_own (ppc s t) = Some (n_pub s)" using owns_ex [OF d(11)] by auto
    show "\<exists>t. \<exists>n\<le>3. \<exists>s'.
        ring_schedule ps cs cap (replicate n (Prod t x)) s = Some s' \<and> n_pub s' = Suc (n_pub s)"
      using prod_solo [OF t d(9) d(6)] by (rule exI)
  }
  assume "length (got s) < n_take s"
  then obtain t where t: "c_own (cpc s t) = Some (length (got s))" using owns_ex [OF d(12)] by auto
  show "\<exists>t. \<exists>n\<le>3. \<exists>s'. ring_schedule ps cs cap (replicate n (Cons t)) s = Some s' \<and>
      length (got s') = Suc (length (got s))"
    using cons_solo [OF t d(10) d(8)] by (rule exI)
qed

text \<open>Producer 0 waits for producer 1, which has claimed the position before it.\<close>

theorem ring_never_deadlocks_witness:
  "\<exists>s. run_mpsc (take 10 contended) = Some s \<and> n_pub s = 0 \<and> length (hist s) = 2 \<and>
    prod_exec SQK_RING_SYNC_MT 3 0 7 s = Some s \<and>
    (\<exists>t. \<exists>n\<le>3. \<exists>s'. ring_schedule SQK_RING_SYNC_MT SQK_RING_SYNC_ST 3 (replicate n (Prod t 7)) s = Some s' \<and>
      n_pub s' = 1)"
proof -
  obtain s where s: "run_mpsc (take 10 contended) = Some s" "n_pub s = 0" "length (hist s) = 2"
      "prod_exec SQK_RING_SYNC_MT 3 0 7 s = Some s"
    by (simp add: run_simps)
  have "reach cring_init (ring_step SQK_RING_SYNC_MT SQK_RING_SYNC_ST 3) s"
    using s(1) by (rule run_mpsc_reach) (simp add: contended_def)
  from ring_never_deadlocks [OF this pow2_cap_3, of 7] show ?thesis using s by auto
qed

end
