(* ===== verification/Core.thy ===== *)
theory Core
  imports Ring_Queue
begin

text \<open>
  The coroutine runtime of \<^verbatim>\<open>src/core/core.hpp\<close>: \<^verbatim>\<open>SQKScheduler\<close> with its ring of handles,
  \<^verbatim>\<open>Awaker\<close> and \<^verbatim>\<open>CheckableAwaker\<close>, \<^verbatim>\<open>PromiseBase\<close> with \<^verbatim>\<open>await_transform\<close> and
  \<^verbatim>\<open>final_suspend\<close>, \<^verbatim>\<open>MaybeSuspend\<close>, \<^verbatim>\<open>FinalSuspend\<close> and \<^verbatim>\<open>SuspendYield\<close>.

  A coroutine's body is client code. What the runtime sees of it is the sequence of its
  suspension points and calls into the runtime, the datatype \<open>body\<close>; values flow into a
  body through its continuations. \<^verbatim>\<open>resume()\<close> is a nested native call, so the state holds the
  native call stack of the thread that runs the scheduler: \<open>A_Loop\<close> and \<open>A_Resumed\<close> are
  \<^verbatim>\<open>SQKScheduler::run\<close> before the dequeue and after the resume, \<open>A_Body\<close> a coroutine that
  executes its body, \<open>A_Transform\<close> one inside \<^verbatim>\<open>await_transform\<close> during \<^verbatim>\<open>task.resume()\<close>,
  \<open>A_Final\<close> one inside \<^verbatim>\<open>final_suspend\<close> during \<^verbatim>\<open>caller_.resume()\<close>.

  What C++ leaves undefined is an error value: resuming or reading a destroyed frame, or
  resuming a coroutine that is not suspended.
\<close>

subsection \<open>State\<close>

type_synonym handle = u64

text \<open>\<^verbatim>\<open>std::noop_coroutine()\<close>; its address is no frame's.\<close>

definition noop_coroutine :: handle where "noop_coroutine = 1"

datatype ('v, 'e) body =
    Co_return 'v
  | Throw 'e
  | Co_yield "('v, 'e) body"
  | Co_await nat "'v \<Rightarrow> ('v, 'e) body"
  | Co_await_task handle "'e + 'v \<Rightarrow> ('v, 'e) body"
  | Create bool "('v, 'e) body" "handle \<Rightarrow> ('v, 'e) body"
  | Submit handle "('v, 'e) body"
  | Wake nat 'v "('v, 'e) body"
  | Stop "('v, 'e) body"

datatype ('v, 'e) susp =
    Running
  | S_Initial "('v, 'e) body"
  | S_Yield "('v, 'e) body"
  | S_Awaker nat "'v \<Rightarrow> ('v, 'e) body"
  | S_Task handle "'e + 'v \<Rightarrow> ('v, 'e) body"
  | S_Final

text \<open>
  \<^verbatim>\<open>Promise<T>\<close>: \<open>is_void\<close> is \<^verbatim>\<open>std::is_void_v<T>\<close>. A fresh \<open>result\<close> holds a default
  constructed value, the parameter \<open>default_value\<close> of the state.
\<close>

record ('v, 'e) frame =
  susp :: "('v, 'e) susp"
  caller :: handle
  result :: "'e + 'v"
  is_void :: bool

record 'v awaker =
  aw_handle :: handle
  aw_ret :: 'v
  checkable :: bool
  awaked :: bool

datatype ('v, 'e) activation =
    A_Loop
  | A_Resumed
  | A_Body handle "('v, 'e) body"
  | A_Transform handle handle "'e + 'v \<Rightarrow> ('v, 'e) body"
  | A_Final handle

text \<open>
  \<open>dropped\<close> records the handles an enqueue on a full ring lost, \<open>dangling\<close> the tasks whose
  result is read through a reference into their destroyed frame. Neither is read by the code.
\<close>

record ('v, 'e) core =
  frames :: "handle \<rightharpoonup> ('v, 'e) frame"
  awakers :: "nat \<Rightarrow> 'v awaker"
  queue :: "u64 Ring"
  stopped :: bool
  stack :: "('v, 'e) activation list"
  dropped :: "handle list"
  dangling :: "handle list"
  default_value :: 'v

datatype core_error = Use_after_free | Not_suspended | Assertion | Queue_failed | Bad_address

type_synonym ('v, 'e) res = "core_error + ('v, 'e) core"

definition upd_frame :: "handle \<Rightarrow> (('v, 'e) frame \<Rightarrow> ('v, 'e) frame) \<Rightarrow> ('v, 'e) core \<Rightarrow> ('v, 'e) core" where
  "upd_frame h u s = s\<lparr>frames := (frames s)(h := map_option u (frames s h))\<rparr>"

definition upd_awaker :: "nat \<Rightarrow> ('v awaker \<Rightarrow> 'v awaker) \<Rightarrow> ('v, 'e) core \<Rightarrow> ('v, 'e) core" where
  "upd_awaker a u s = s\<lparr>awakers := (awakers s)(a := u (awakers s a))\<rparr>"

definition destroy :: "handle \<Rightarrow> ('v, 'e) core \<Rightarrow> ('v, 'e) core" where
  "destroy h s = s\<lparr>frames := (frames s)(h := None)\<rparr>"

definition suspend :: "handle \<Rightarrow> ('v, 'e) susp \<Rightarrow> ('v, 'e) core \<Rightarrow> ('v, 'e) core" where
  "suspend h p s = upd_frame h (\<lambda>f. f\<lparr>susp := p\<rparr>) (s\<lparr>stack := tl (stack s)\<rparr>)"

definition run_body :: "handle \<Rightarrow> ('v, 'e) body \<Rightarrow> ('v, 'e) core \<Rightarrow> ('v, 'e) core" where
  "run_body h b s = s\<lparr>stack := A_Body h b # tl (stack s)\<rparr>"

definition enter :: "handle \<Rightarrow> ('v, 'e) body \<Rightarrow> ('v, 'e) core \<Rightarrow> ('v, 'e) core" where
  "enter h b s = upd_frame h (\<lambda>f. f\<lparr>susp := Running\<rparr>) (s\<lparr>stack := A_Body h b # stack s\<rparr>)"

subsection \<open>Scheduler\<close>

text \<open>
  \<^verbatim>\<open>SQKScheduler::enqueue\<close> ignores what the ring's \<^verbatim>\<open>enqueue\<close> returns; the overload for a
  \<^verbatim>\<open>Task\<close> then sets its \<^verbatim>\<open>caller_\<close>.
\<close>

definition sched_enqueue :: "handle \<Rightarrow> ('v, 'e) core \<Rightarrow> ('v, 'e) res" where
  "sched_enqueue h s =
     (case enq_entry (mpsc_cfg 8) [h] (queue s) of
        Some (stored, r) \<Rightarrow> Inr (s\<lparr>queue := r, dropped := (if stored then dropped s else dropped s @ [h])\<rparr>)
      | None \<Rightarrow> Inl Queue_failed)"

definition sched_enqueue_task :: "handle \<Rightarrow> ('v, 'e) core \<Rightarrow> ('v, 'e) res" where
  "sched_enqueue_task h s =
     bind_err (sched_enqueue h s) (\<lambda>s'.
       case frames s' h of None \<Rightarrow> Inl Use_after_free
       | Some f \<Rightarrow> Inr (upd_frame h (\<lambda>f. f\<lparr>caller := noop_coroutine\<rparr>) s'))"

definition sched_stop :: "('v, 'e) core \<Rightarrow> ('v, 'e) core" where
  "sched_stop s = s\<lparr>stopped := True\<rparr>"

subsection \<open>Awakers\<close>

definition aw_await_ready :: "'v awaker \<Rightarrow> bool" where
  "aw_await_ready w = (checkable w \<and> awaked w)"

definition aw_await_suspend :: "handle \<Rightarrow> 'v awaker \<Rightarrow> 'v awaker" where
  "aw_await_suspend h w =
     (let w = w\<lparr>aw_handle := h\<rparr> in if checkable w then w\<lparr>awaked := False\<rparr> else w)"

definition aw_await_resume :: "'v awaker \<Rightarrow> 'v \<times> 'v awaker" where
  "aw_await_resume w = (aw_ret w, w\<lparr>aw_handle := 0\<rparr>)"

definition aw_wake :: "nat \<Rightarrow> 'v \<Rightarrow> ('v, 'e) core \<Rightarrow> ('v, 'e) res" where
  "aw_wake a v s =
     bind_err (if aw_handle (awakers s a) \<noteq> 0 then sched_enqueue (aw_handle (awakers s a)) s else Inr s)
       (\<lambda>s. Inr (upd_awaker a (\<lambda>w. if checkable w then w\<lparr>aw_ret := v, awaked := True\<rparr> else w\<lparr>aw_ret := v\<rparr>) s))"

subsection \<open>Tasks\<close>

text \<open>A coroutine is created suspended at its initial suspension point, with no caller.\<close>

definition create_task :: "handle \<Rightarrow> bool \<Rightarrow> ('v, 'e) body \<Rightarrow> ('v, 'e) core \<Rightarrow> ('v, 'e) res" where
  "create_task a void b s =
     (if a = 0 \<or> a = noop_coroutine \<or> frames s a \<noteq> None then Inl Bad_address
      else Inr (s\<lparr>frames := (frames s)(a \<mapsto> \<lparr>susp = S_Initial b, caller = 0, result = Inr (default_value s), is_void = void\<rparr>)\<rparr>))"

text \<open>
  \<^verbatim>\<open>MaybeSuspend::await_resume\<close>: the exception is copied out of the promise, the value is
  returned as a reference into it; the frame is destroyed here if it has no caller.
\<close>

definition ms_await_resume :: "handle \<Rightarrow> ('v, 'e) core \<Rightarrow> core_error + ('e + 'v) \<times> ('v, 'e) core" where
  "ms_await_resume t s =
     (case frames s t of
        None \<Rightarrow> Inl Use_after_free
      | Some f \<Rightarrow>
          if caller f = 0 then
            Inr (result f, (destroy t s)\<lparr>dangling :=
              (if is_void f \<or> isl (result f) then dangling s else dangling s @ [t])\<rparr>)
          else Inr (result f, s))"

text \<open>\<^verbatim>\<open>coroutine_handle::resume\<close>, up to the point where the body goes on.\<close>

definition resume :: "handle \<Rightarrow> ('v, 'e) core \<Rightarrow> ('v, 'e) res" where
  "resume h s =
     (if h = noop_coroutine then Inr s
      else case frames s h of
        None \<Rightarrow> Inl Use_after_free
      | Some f \<Rightarrow>
          (case susp f of
             S_Initial b \<Rightarrow> Inr (enter h b s)
           | S_Yield b \<Rightarrow> Inr (enter h b s)
           | S_Awaker a k \<Rightarrow>
               (case aw_await_resume (awakers s a) of (v, w) \<Rightarrow> Inr (enter h (k v) (upd_awaker a (\<lambda>_. w) s)))
           | S_Task t k \<Rightarrow>
               bind_err (ms_await_resume t s) (\<lambda>(r, s). Inr (enter h (k r) s))
           | Running \<Rightarrow> Inl Not_suspended
           | S_Final \<Rightarrow> Inl Not_suspended))"

definition task_done :: "('v, 'e) frame \<Rightarrow> bool" where
  "task_done f \<longleftrightarrow> (case susp f of S_Final \<Rightarrow> True | _ \<Rightarrow> False)"

text \<open>
  \<^verbatim>\<open>return_value\<close> or \<^verbatim>\<open>unhandled_exception\<close>, then \<^verbatim>\<open>final_suspend\<close> with \<^verbatim>\<open>resume_caller\<close>:
  without a caller the coroutine stays suspended at its final point.
\<close>

definition finish :: "handle \<Rightarrow> 'e + 'v \<Rightarrow> ('v, 'e) core \<Rightarrow> ('v, 'e) res" where
  "finish h r s =
     (case frames s h of
        None \<Rightarrow> Inl Use_after_free
      | Some f \<Rightarrow>
          let s = upd_frame h (\<lambda>f. f\<lparr>result := r\<rparr>) s in
          if caller f \<noteq> 0 then resume (caller f) (s\<lparr>stack := A_Final h # tl (stack s)\<rparr>)
          else Inr (suspend h S_Final s))"

subsection \<open>Steps\<close>

text \<open>\<^verbatim>\<open>await_transform(Task<T2>)\<close> up to the nested resume, and after it.\<close>

definition transform_begin ::
  "handle \<Rightarrow> handle \<Rightarrow> ('e + 'v \<Rightarrow> ('v, 'e) body) \<Rightarrow> ('v, 'e) core \<Rightarrow> ('v, 'e) res" where
  "transform_begin h t k s =
     (case frames s t of
        None \<Rightarrow> Inl Use_after_free
      | Some f \<Rightarrow> if caller f \<noteq> 0 then Inl Assertion
          else resume t (s\<lparr>stack := A_Transform h t k # tl (stack s)\<rparr>))"

definition transform_end ::
  "handle \<Rightarrow> handle \<Rightarrow> ('e + 'v \<Rightarrow> ('v, 'e) body) \<Rightarrow> ('v, 'e) core \<Rightarrow> ('v, 'e) res" where
  "transform_end h t k s =
     (case frames s t of
        None \<Rightarrow> Inl Use_after_free
      | Some f \<Rightarrow>
          if task_done f then bind_err (ms_await_resume t s) (\<lambda>(r, s). Inr (run_body h (k r) s))
          else Inr (suspend h (S_Task t k) (upd_frame t (\<lambda>f. f\<lparr>caller := h\<rparr>) s)))"

definition await_awaker :: "handle \<Rightarrow> nat \<Rightarrow> ('v \<Rightarrow> ('v, 'e) body) \<Rightarrow> ('v, 'e) core \<Rightarrow> ('v, 'e) core" where
  "await_awaker h a k s =
     (if aw_await_ready (awakers s a) then
        (case aw_await_resume (awakers s a) of (v, w) \<Rightarrow> run_body h (k v) (upd_awaker a (\<lambda>_. w) s))
      else suspend h (S_Awaker a k) (upd_awaker a (aw_await_suspend h) s))"

fun body_step :: "handle \<Rightarrow> handle \<Rightarrow> ('v, 'e) body \<Rightarrow> ('v, 'e) core \<Rightarrow> ('v, 'e) res" where
  "body_step addr h (Co_return v) s = finish h (Inr v) s"
| "body_step addr h (Throw e) s = finish h (Inl e) s"
| "body_step addr h (Co_yield b) s = sched_enqueue h (suspend h (S_Yield b) s)"
| "body_step addr h (Co_await a k) s = Inr (await_awaker h a k s)"
| "body_step addr h (Co_await_task t k) s = transform_begin h t k s"
| "body_step addr h (Create void b k) s = bind_err (create_task addr void b s) (\<lambda>s. Inr (run_body h (k addr) s))"
| "body_step addr h (Submit t b) s = bind_err (sched_enqueue_task t s) (\<lambda>s. Inr (run_body h b s))"
| "body_step addr h (Wake a v b) s = bind_err (aw_wake a v s) (\<lambda>s. Inr (run_body h b s))"
| "body_step addr h (Stop b) s = Inr (run_body h b (sched_stop s))"

text \<open>
  The loop of \<^verbatim>\<open>SQKScheduler::run\<close>: an empty ring leaves the loop where it is, a stop is
  noticed only after a resume.
\<close>

definition loop_step :: "('v, 'e) core \<Rightarrow> ('v, 'e) res" where
  "loop_step s =
     (case deq_entry (mpsc_cfg 8) 0 (queue s) of
        Some (Some entry, r) \<Rightarrow> resume (hd entry) (s\<lparr>queue := r, stack := [A_Resumed]\<rparr>)
      | Some (None, r) \<Rightarrow> Inr (s\<lparr>queue := r\<rparr>)
      | None \<Rightarrow> Inl Queue_failed)"

text \<open>
  One step of the scheduler's thread; \<open>addr\<close> is the address the allocator picks if the step
  creates a coroutine. An empty stack means that \<^verbatim>\<open>run\<close> has returned.
\<close>

definition exec :: "handle \<Rightarrow> ('v, 'e) core \<Rightarrow> ('v, 'e) res" where
  "exec addr s =
     (case stack s of
        [] \<Rightarrow> Inr s
      | A_Loop # st \<Rightarrow> loop_step s
      | A_Resumed # st \<Rightarrow> Inr (s\<lparr>stack := (if stopped s then [] else [A_Loop])\<rparr>)
      | A_Body h b # st \<Rightarrow> body_step addr h b s
      | A_Transform h t k # st \<Rightarrow> transform_end h t k s
      | A_Final h # st \<Rightarrow> Inr ((destroy h s)\<lparr>stack := st\<rparr>))"

text \<open>Calls from outside the scheduler's thread.\<close>

datatype ('v, 'e) call = Tick handle | X_Create handle bool "('v, 'e) body" | X_Submit handle | X_Wake nat 'v | X_Stop

fun core_exec :: "('v, 'e) call \<Rightarrow> ('v, 'e) core \<Rightarrow> ('v, 'e) res" where
  "core_exec (Tick addr) s = exec addr s"
| "core_exec (X_Create a void b) s = create_task a void b s"
| "core_exec (X_Submit t) s = sched_enqueue_task t s"
| "core_exec (X_Wake a v) s = aw_wake a v s"
| "core_exec X_Stop s = Inr (sched_stop s)"

fun core_run :: "('v, 'e) call list \<Rightarrow> ('v, 'e) core \<Rightarrow> ('v, 'e) res" where
  "core_run [] s = Inr s"
| "core_run (c # cs) s = bind_err (core_exec c s) (core_run cs)"

end
