(* ===== verification/Core_Safety.thy ===== *)
theory Core_Safety
  imports Core
begin

text \<open>
  Safety of the coroutine runtime: the invariant of its data structures and the proof that
  a client that follows the rules of \<open>legal\<close> never makes the runtime touch a destroyed
  frame, resume a coroutine that is not suspended, or fail an assertion.
\<close>

subsection \<open>Invariant\<close>

text \<open>
  The invariant speaks of a view of the frames, suspension point and caller, of the stack,
  of the handles in the awakers and of the handles in the scheduler's ring.
\<close>

type_synonym ('v, 'e) view = "handle \<rightharpoonup> ('v, 'e) susp \<times> handle"

fun act_handle :: "('v, 'e) activation \<Rightarrow> handle option" where
  "act_handle (A_Body h b) = Some h"
| "act_handle (A_Transform h t k) = Some h"
| "act_handle (A_Final h) = Some h"
| "act_handle _ = None"

definition on_stack :: "('v, 'e) activation list \<Rightarrow> handle list" where
  "on_stack st = List.map_filter act_handle st"

lemma on_stack_simps [simp]:
  "on_stack [] = []"
  "on_stack (A_Loop # st) = on_stack st" "on_stack (A_Resumed # st) = on_stack st"
  "on_stack (A_Body h b # st) = h # on_stack st" "on_stack (A_Transform h t k # st) = h # on_stack st"
  "on_stack (A_Final h # st) = h # on_stack st"
  by (simp_all add: on_stack_def List.map_filter_def)

text \<open>Who is called by whom: the activation above \<open>await_transform\<close> is the awaited task's.\<close>

fun above :: "('v, 'e) view \<Rightarrow> handle option \<Rightarrow> ('v, 'e) activation \<Rightarrow> bool" where
  "above V x (A_Transform h t k) \<longleftrightarrow> x = Some t \<and> (\<exists>p. V t = Some (p, 0))"
| "above V x (A_Final t) \<longleftrightarrow> (\<exists>h p c. x = Some h \<and> V h = Some (p, c) \<and> c \<noteq> 0)"
| "above V x A_Resumed \<longleftrightarrow> (\<exists>h p c. x = Some h \<and> V h = Some (p, c) \<and> c \<noteq> 0)"
| "above V x _ \<longleftrightarrow> False"

fun chain :: "('v, 'e) view \<Rightarrow> ('v, 'e) activation list \<Rightarrow> bool" where
  "chain V [] = True"
| "chain V [a] \<longleftrightarrow> act_handle a = None"
| "chain V (a # b # st) \<longleftrightarrow> above V (act_handle a) b \<and> chain V (b # st)"

definition top_transform :: "('v, 'e) activation list \<Rightarrow> handle \<Rightarrow> bool" where
  "top_transform st t \<longleftrightarrow> (\<exists>h k st'. st = A_Transform h t k # st')"

definition stack_ok :: "('v, 'e) view \<Rightarrow> ('v, 'e) activation list \<Rightarrow> bool" where
  "stack_ok V st \<longleftrightarrow>
     distinct (on_stack st) \<and> (\<forall>h. h \<in> set (on_stack st) \<longleftrightarrow> (\<exists>c. V h = Some (Running, c))) \<and>
     chain V st \<and>
     (\<forall>t. top_transform st t \<longrightarrow> (\<exists>p. V t = Some (p, 0) \<and> p \<noteq> Running \<and> (\<forall>b. p \<noteq> S_Initial b))) \<and>
     (\<forall>t p c. A_Final t \<in> set st \<and> V t = Some (p, c) \<longrightarrow> c \<noteq> 0)"

fun susp_ok :: "('v, 'e) view \<Rightarrow> ('v, 'e) activation list \<Rightarrow> (nat \<Rightarrow> handle) \<Rightarrow> handle \<Rightarrow> ('v, 'e) susp \<Rightarrow> handle \<Rightarrow> bool" where
  "susp_ok V st W h Running c = True"
| "susp_ok V st W h (S_Initial b) c \<longleftrightarrow> c = 0 \<or> c = noop_coroutine"
| "susp_ok V st W h (S_Yield b) c \<longleftrightarrow> c \<noteq> 0 \<or> top_transform st h"
| "susp_ok V st W h (S_Awaker a k) c \<longleftrightarrow> W a = h \<and> (c \<noteq> 0 \<or> top_transform st h)"
| "susp_ok V st W h (S_Task t k) c \<longleftrightarrow>
     (\<exists>p. V t = Some (p, h)) \<and> A_Final t \<notin> set st \<and> (c \<noteq> 0 \<or> top_transform st h)"
| "susp_ok V st W h S_Final c \<longleftrightarrow> c = 0 \<and> top_transform st h"

definition caller_ok :: "('v, 'e) view \<Rightarrow> ('v, 'e) activation list \<Rightarrow> handle \<Rightarrow> handle \<Rightarrow> bool" where
  "caller_ok V st h c \<longleftrightarrow> c = 0 \<or> c = noop_coroutine \<or> A_Final h \<in> set st \<or> (\<exists>k d. V c = Some (S_Task h k, d))"

fun queued_ok :: "('v, 'e) susp \<Rightarrow> handle \<Rightarrow> bool" where
  "queued_ok (S_Initial b) c \<longleftrightarrow> c = noop_coroutine"
| "queued_ok (S_Yield b) c \<longleftrightarrow> True"
| "queued_ok (S_Awaker a k) c \<longleftrightarrow> True"
| "queued_ok _ c \<longleftrightarrow> False"

text \<open>The coroutines that only the scheduler can resume.\<close>

fun needs_queue :: "('v, 'e) susp \<Rightarrow> handle \<Rightarrow> bool" where
  "needs_queue (S_Initial b) c \<longleftrightarrow> c = noop_coroutine"
| "needs_queue (S_Yield b) c \<longleftrightarrow> True"
| "needs_queue _ c \<longleftrightarrow> False"

definition rt_ok ::
  "('v, 'e) view \<Rightarrow> ('v, 'e) activation list \<Rightarrow> (nat \<Rightarrow> handle) \<Rightarrow> handle list \<Rightarrow> handle set \<Rightarrow> bool" where
  "rt_ok V st W P D \<longleftrightarrow>
     (\<forall>h p c. V h = Some (p, c) \<and> needs_queue p c \<longrightarrow> h \<in> set P \<union> D) \<and>
     V 0 = None \<and> V noop_coroutine = None \<and> stack_ok V st \<and>
     (\<forall>h p c. V h = Some (p, c) \<longrightarrow> susp_ok V st W h p c \<and> caller_ok V st h c) \<and>
     distinct P \<and> (\<forall>h\<in>set P. \<exists>p c. V h = Some (p, c) \<and> queued_ok p c) \<and>
     (\<forall>a. W a \<noteq> 0 \<longrightarrow> (\<exists>k c. V (W a) = Some (S_Awaker a k, c)))"

lemma rt_okD:
  assumes "rt_ok V st W P D"
  shows "V 0 = None" "V noop_coroutine = None" "distinct (on_stack st)"
    "h \<in> set (on_stack st) \<longleftrightarrow> (\<exists>c. V h = Some (Running, c))" "chain V st"
    "top_transform st t \<Longrightarrow> \<exists>p. V t = Some (p, 0) \<and> p \<noteq> Running \<and> (\<forall>b. p \<noteq> S_Initial b)"
    "A_Final t \<in> set st \<Longrightarrow> V t = Some (p, c) \<Longrightarrow> c \<noteq> 0"
    "V h = Some (p, c) \<Longrightarrow> susp_ok V st W h p c" "V h = Some (p, c) \<Longrightarrow> caller_ok V st h c"
    "distinct P" "h \<in> set P \<Longrightarrow> \<exists>p c. V h = Some (p, c) \<and> queued_ok p c"
    "W a \<noteq> 0 \<Longrightarrow> \<exists>k c. V (W a) = Some (S_Awaker a k, c)"
    "V h = Some (p, c) \<Longrightarrow> needs_queue p c \<Longrightarrow> h \<in> set P \<union> D"
  using assms by (auto simp: rt_ok_def stack_ok_def)

lemma noop_neq_0 [simp]: "noop_coroutine \<noteq> 0" "0 \<noteq> noop_coroutine"
  by (simp_all add: noop_coroutine_def)

lemma top_transform_Cons [simp]:
  "top_transform (A_Transform h t k # st) u \<longleftrightarrow> u = t" "\<not> top_transform (A_Body h b # st) u"
  "\<not> top_transform (A_Final h # st) u" "\<not> top_transform (A_Loop # st) u" "\<not> top_transform (A_Resumed # st) u"
  "\<not> top_transform [] u"
  by (auto simp: top_transform_def)

subsection \<open>Transitions of the view\<close>

lemma above_mono:
  "(\<And>h p c. x = Some h \<Longrightarrow> V h = Some (p, c) \<Longrightarrow> \<exists>p'. V' h = Some (p', c)) \<Longrightarrow> above V x a \<Longrightarrow> above V' x a"
  by (cases a) fastforce+

lemma act_handle_on_stack: "act_handle a = Some h \<Longrightarrow> on_stack (a # st) = h # on_stack st"
  by (cases a) auto

lemma chain_mono:
  "chain V st \<Longrightarrow> (\<And>h p c. h \<in> set (on_stack st) \<Longrightarrow> V h = Some (p, c) \<Longrightarrow> \<exists>p'. V' h = Some (p', c)) \<Longrightarrow> chain V' st"
proof (induction V st rule: chain.induct)
  case (3 V a b st)
  have "set (on_stack (b # st)) \<subseteq> set (on_stack (a # b # st))" by (cases a) auto
  moreover have "act_handle a = Some h \<Longrightarrow> h \<in> set (on_stack (a # b # st))" for h
    by (simp add: act_handle_on_stack)
  ultimately show ?case using 3 above_mono [of "act_handle a" V V' b] by (simp add: subset_iff)
qed auto

lemma final_on_stack: "A_Final h \<in> set st \<Longrightarrow> h \<in> set (on_stack st)"
  by (force simp: on_stack_def List.map_filter_def)

lemma chain_tl: "chain V (a # st) \<Longrightarrow> chain V st"
  by (cases st) auto

text \<open>What is below an activation that returns.\<close>

lemma below_top:
  assumes "rt_ok V (x # st) W P D" "act_handle x = Some h" "V h = Some (p, c)"
  shows "top_transform st t \<longleftrightarrow> c = 0 \<and> t = h"
proof -
  have ch: "chain V (x # st)" by (rule rt_okD(5) [OF assms(1)])
  show ?thesis
  proof (cases st)
    case Nil
    then show ?thesis using ch assms(2) by simp
  next
    case (Cons b st')
    then show ?thesis using ch assms(2,3) by (cases b) auto
  qed
qed

lemma rt_create:
  assumes w: "rt_ok V st W P D" and a: "V a = None" "a \<noteq> 0" "a \<noteq> noop_coroutine"
  shows "rt_ok (V(a \<mapsto> (S_Initial b, 0))) st W P D"
proof -
  note d = rt_okD [OF w]
  have "chain (V(a \<mapsto> (S_Initial b, 0))) st" using d(5) by (rule chain_mono) (use a in auto)
  moreover have n: "a \<notin> set (on_stack st)" using d(4) [of a] a(1) by simp
  moreover have "A_Final a \<notin> set st" using n final_on_stack by blast
  moreover have "susp_ok (V(a \<mapsto> (S_Initial b, 0))) st W h p c" if "V h = Some (p, c)" for h p c
    using d(8) [OF that] a(1) by (cases p) auto
  moreover have "caller_ok (V(a \<mapsto> (S_Initial b, 0))) st h c" if "V h = Some (p, c)" for h p c
    using d(9) [OF that] a(1) by (auto simp: caller_ok_def)
  ultimately show ?thesis using w a
    by (auto simp: rt_ok_def stack_ok_def caller_ok_def)
qed

lemma rt_submit:
  assumes w: "rt_ok V st W P D" and t: "V t = Some (S_Initial b, 0)" and P: "P' = P \<and> t \<in> D' \<or> P' = P @ [t]" "D \<subseteq> D'"
  shows "rt_ok (V(t \<mapsto> (S_Initial b, noop_coroutine))) st W P' D'"
proof -
  note d = rt_okD [OF w]
  let ?V = "V(t \<mapsto> (S_Initial b, noop_coroutine))"
  have n: "t \<notin> set (on_stack st)" using d(4) [of t] t by simp
  have nf: "A_Final t \<notin> set st" using n final_on_stack by blast
  have nt: "\<not> top_transform st t" using d(6) [of t] t by auto
  have nP: "t \<notin> set P" using d(11) [of t] t by auto
  have z: "h \<noteq> 0" if "V h = Some (p, c)" for h p c using that d(1) by auto
  have "chain ?V st" using d(5) by (rule chain_mono) (use n in auto)
  moreover have "susp_ok ?V st W h p c" if "V h = Some (p, c)" for h p c
    using d(8) [OF that] t z [OF that] by (cases p) auto
  moreover have "caller_ok ?V st h c" if "V h = Some (p, c)" for h p c
    using d(9) [OF that] t by (auto simp: caller_ok_def)
  moreover have "?V 0 = None" "?V noop_coroutine = None" using d(1,2) t by auto
  moreover have "\<exists>k c. ?V (W a) = Some (S_Awaker a k, c)" if "W a \<noteq> 0" for a using d(12) [OF that] t by auto
  moreover have "\<exists>p c. ?V h = Some (p, c) \<and> queued_ok p c" if "h \<in> set P'" for h
    using d(11) [of h] P t that nP by auto
  moreover have "distinct P'" using d(10) P nP by auto
  moreover have "h \<in> set P' \<union> D'" if "?V h = Some (p, c)" "needs_queue p c" for h p c
    using d(13) [of h p c] P that by (auto split: if_splits)
  ultimately show ?thesis using w n nf nt t
    by (auto simp: rt_ok_def stack_ok_def caller_ok_def)
qed

lemma rt_wake:
  assumes w: "rt_ok V st W P D" and a: "W a \<noteq> 0" "W a \<notin> set P" and P: "P' = P \<or> P' = P @ [W a]" "D \<subseteq> D'"
  shows "rt_ok V st W P' D'"
proof -
  have "\<exists>k c. V (W a) = Some (S_Awaker a k, c)" using rt_okD(12) [OF w a(1)] .
  moreover have "h \<in> set P' \<union> D'" if "V h = Some (p, c)" "needs_queue p c" for h p c
    using rt_okD(13) [OF w that] P by auto
  ultimately show ?thesis using w a(2) P(1) unfolding rt_ok_def by auto
qed

lemma rt_body:
  assumes "rt_ok V (A_Body h b # st) W P D"
  shows "rt_ok V (A_Body h b' # st) W P D"
proof -
  have c: "chain V (A_Body h b' # st)" using rt_okD(5) [OF assms] by (cases st) auto
  have s: "susp_ok V (A_Body h b' # st) W x p c \<longleftrightarrow> susp_ok V (A_Body h b # st) W x p c" for x p c
    by (cases p) auto
  show ?thesis using assms c unfolding rt_ok_def stack_ok_def s by (auto simp: caller_ok_def)
qed


text \<open>The running coroutine suspends at a yield, an awaker or its final point.\<close>

lemma rt_suspend:
  assumes w: "rt_ok V (A_Body h b # st) W P D" and h: "V h = Some (Running, c)"
    and D: "D \<subseteq> D'"
    and p: "(\<exists>b'. p = S_Yield b') \<and> W' = W \<and> (P' = P \<and> h \<in> D' \<or> P' = P @ [h]) \<or>
      (\<exists>a k. p = S_Awaker a k \<and> W a = 0 \<and> W' = W(a := h)) \<and> P' = P \<or>
      p = S_Final \<and> c = 0 \<and> W' = W \<and> P' = P"
  shows "rt_ok (V(h \<mapsto> (p, c))) st W' P' D'"
proof -
  note d = rt_okD [OF w] and bt = below_top [OF w _ h]
  let ?V = "V(h \<mapsto> (p, c))"
  have p': "p \<noteq> Running" "\<And>b. p \<noteq> S_Initial b" "\<And>t k. p \<noteq> S_Task t k" using p by auto
  have n: "h \<notin> set (on_stack st)" using d(3) by simp
  have nP: "h \<notin> set P" using d(11) [of h] h by auto
  have "chain ?V st" using chain_tl [OF d(5)] by (rule chain_mono) (use n in auto)
  moreover have "(x \<in> set (on_stack st)) = (\<exists>c. ?V x = Some (Running, c))" for x
    using d(4) [of x] n p' by auto
  moreover have "\<exists>q. ?V t = Some (q, 0) \<and> q \<noteq> Running \<and> (\<forall>b. q \<noteq> S_Initial b)" if "top_transform st t" for t
    using bt that p' by auto
  moreover have "susp_ok ?V st W' x q e" if x: "?V x = Some (q, e)" for x q e
  proof (cases "x = h")
    case True
    then show ?thesis using x p bt by auto
  next
    case False
    then have "V x = Some (q, e)" using x by simp
    moreover from this have "x \<noteq> 0" using d(1) by auto
    ultimately show ?thesis using d(8) [of x q e] False p h by (cases q) auto
  qed
  moreover have "caller_ok ?V st x e" if x: "?V x = Some (q, e)" for x q e
  proof -
    have "\<exists>q. V x = Some (q, e)" using x h by (auto split: if_splits)
    then show ?thesis using d(9) [of x _ e] h by (auto simp: caller_ok_def)
  qed
  moreover have "c \<noteq> 0" if "A_Final t \<in> set st" "?V t = Some (q, c)" for t q c
    using d(7) [of t] that n final_on_stack [of t st] by (auto split: if_splits)
  moreover have "\<exists>k c. ?V (W' a) = Some (S_Awaker a k, c)" if "W' a \<noteq> 0" for a
    using d(12) [of a] that h p by (auto split: if_splits)
  moreover have "\<exists>q e. ?V x = Some (q, e) \<and> queued_ok q e" if "x \<in> set P'" for x
    using d(11) [of x] p that nP by auto
  moreover have "?V 0 = None" "?V noop_coroutine = None" using d(1,2) h by auto
  moreover have "distinct P'" using d(10) p nP by auto
  moreover have "x \<in> set P' \<union> D'" if "?V x = Some (q, e)" "needs_queue q e" for x q e
    using d(13) [of x q e] p that D by (auto split: if_splits)
  moreover have "distinct (on_stack st)" using d(3) by simp
  ultimately show ?thesis unfolding rt_ok_def stack_ok_def by blast
qed

text \<open>A coroutine suspends in \<^verbatim>\<open>co_await\<close> of a task that has not finished.\<close>

lemma rt_await:
  assumes w: "rt_ok V (A_Transform h t k # st) W P D" and h: "V h = Some (Running, c)"
    and t: "V t = Some (p, e)" "p \<noteq> S_Final"
  shows "rt_ok (V(t \<mapsto> (p, h), h \<mapsto> (S_Task t k, c))) st W P D"
proof -
  note d = rt_okD [OF w] and bt = below_top [OF w _ h]
  let ?V = "V(t \<mapsto> (p, h), h \<mapsto> (S_Task t k, c))"
  have p': "e = 0" "p \<noteq> Running" "\<And>b. p \<noteq> S_Initial b" using d(6) [of t] t by auto
  have th: "t \<noteq> h" using h t(1) p'(2) by auto
  have n: "h \<notin> set (on_stack st)" "t \<notin> set (on_stack st)" using d(3) d(4) [of t] t p' by auto
  have h0: "h \<noteq> 0" using h d(1) by auto
  have "chain ?V st" using chain_tl [OF d(5)] by (rule chain_mono) (use n in auto)
  moreover have "(x \<in> set (on_stack st)) = (\<exists>c. ?V x = Some (Running, c))" for x
    using d(4) [of x] n p' by auto
  moreover have "\<exists>q. ?V u = Some (q, 0) \<and> q \<noteq> Running \<and> (\<forall>b. q \<noteq> S_Initial b)" if "top_transform st u" for u
    using bt that by auto
  moreover have "susp_ok ?V st W x q d" if x: "?V x = Some (q, d)" for x q d
  proof (cases "x = h \<or> x = t")
    case True
    then show ?thesis
    proof
      assume "x = h"
      then show ?thesis using x bt th n(2) final_on_stack [of t st] by auto
    next
      assume "x = t"
      then have "q = p" "d = h" using x th by auto
      then show ?thesis using rt_okD(1) [OF w] rt_okD(8) [OF w t(1)] t p' h0 \<open>x = t\<close> th h by (cases p) auto
    qed
  next
    case False
    then have V: "V x = Some (q, d)" using x by simp
    have "x \<noteq> 0" using V rt_okD(1) [OF w] by auto
    then show ?thesis using rt_okD(8) [OF w V] False t(1) h p'(1) by (cases q) auto
  qed
  moreover have "caller_ok ?V st x d" if x: "?V x = Some (q, d)" for x q d
  proof (cases "x = t")
    case True
    then show ?thesis using x th by (auto simp: caller_ok_def)
  next
    case False
    then have "\<exists>q. V x = Some (q, d)" using x h by (auto split: if_splits)
    then show ?thesis using rt_okD(9) [OF w, of x _ d] h t False p' th by (auto simp: caller_ok_def)
  qed
  moreover have "c \<noteq> 0" if "A_Final u \<in> set st" "?V u = Some (q, c)" for u q c
    using d(7) [of u] that n final_on_stack [of u st] by (auto split: if_splits)
  moreover have "\<exists>k c. ?V (W a) = Some (S_Awaker a k, c)" if "W a \<noteq> 0" for a
    using d(12) [OF that] t h by (auto split: if_splits)
  moreover have "\<exists>q e. ?V x = Some (q, e) \<and> queued_ok q e" if "x \<in> set P" for x
    using d(11) [OF that] h t p' by (cases p) auto
  moreover have "?V 0 = None" "?V noop_coroutine = None" using d(1,2) h t by auto
  moreover have "distinct P" by (rule d(10))
  moreover have "x \<in> set P \<union> D" if "?V x = Some (q, e)" "needs_queue q e" for x q e
    using d(13) [of x] that t p' by (cases q) (auto split: if_splits)
  moreover have "distinct (on_stack st)" using d(3) by simp
  ultimately show ?thesis unfolding rt_ok_def stack_ok_def by blast
qed


text \<open>
  A suspended coroutine is resumed. \<open>st'\<close> is the stack below it: the resumer may have turned
  its activation into one that waits, an \<open>A_Final\<close> if the coroutine awaited the resumer.
\<close>

lemma rt_enter:
  assumes w: "rt_ok V st W P D" and h: "V h = Some (p, c)" "p \<noteq> Running" "p \<noteq> S_Final"
    and st: "\<And>u. \<not> top_transform st u" "on_stack st' = on_stack st"
      "\<And>u. A_Final u \<in> set st' \<longleftrightarrow> A_Final u \<in> set st \<or> (\<exists>k. p = S_Task u k)"
      "chain (V(h \<mapsto> (Running, c))) (A_Body h b # st')"
    and W: "W' = (case p of S_Awaker a k \<Rightarrow> W(a := 0) | _ \<Rightarrow> W)"
    and P: "distinct P'" "set P' \<subseteq> set P" "h \<notin> set P'" "set P \<subseteq> insert h (set P')"
  shows "rt_ok (V(h \<mapsto> (Running, c))) (A_Body h b # st') W' P' D"
proof -
  note d = rt_okD [OF w]
  let ?V = "V(h \<mapsto> (Running, c))" and ?st = "A_Body h b # st'"
  have n: "h \<notin> set (on_stack st)" using d(4) [of h] h by auto
  have h0: "h \<noteq> 0" using h(1) d(1) by auto
  have "(x \<in> set (on_stack ?st)) = (\<exists>c. ?V x = Some (Running, c))" for x using d(4) [of x] st(2) by auto
  moreover have "susp_ok ?V ?st W' x q e" if x: "?V x = Some (q, e)" for x q e
  proof (cases "x = h")
    case False
    then have V: "V x = Some (q, e)" using x by simp
    have "q \<noteq> S_Final" using d(8) [OF V] st(1) by auto
    moreover have "W' a = x" if "W a = x" "q = S_Awaker a k" for a k
      using that d(8) [OF h(1)] False W by (cases p) auto
    moreover have "A_Final t \<notin> set st'" if "A_Final t \<notin> set st" "V t = Some (q', x)" for t q'
      using that d(8) [OF h(1)] False st(3) [of t] by auto
    ultimately show ?thesis using d(8) [OF V] False st(1) h by (cases q) auto
  qed (use x in auto)
  moreover have "caller_ok ?V ?st x e" if x: "?V x = Some (q, e)" for x q e
  proof -
    have "\<exists>q. V x = Some (q, e)" using x h(1) by (auto split: if_splits)
    then show ?thesis using d(9) [of x _ e] h st(3) [of x] by (auto simp: caller_ok_def)
  qed
  moreover have "e \<noteq> 0" if u: "A_Final u \<in> set ?st" "?V u = Some (q, e)" for u q e
  proof (cases "A_Final u \<in> set st")
    case True
    then have "u \<noteq> h" using n final_on_stack by blast
    then show ?thesis using d(7) [OF True] u(2) by auto
  next
    case False
    then obtain k where "p = S_Task u k" using st(3) [of u] u(1) by auto
    then obtain q' where "V u = Some (q', h)" using d(8) [OF h(1)] by auto
    then show ?thesis using u(2) h0 h(1) by (auto split: if_splits)
  qed
  moreover have "\<exists>k c. ?V (W' a) = Some (S_Awaker a k, c)" if "W' a \<noteq> 0" for a
  proof -
    have a: "W a \<noteq> 0" "W' a = W a" using that W by (cases p; auto split: if_splits)+
    obtain k e where k: "V (W a) = Some (S_Awaker a k, e)" using d(12) [OF a(1)] by blast
    have "W a \<noteq> h"
    proof
      assume "W a = h"
      then have "p = S_Awaker a k" using k h(1) by simp
      then show False using that W by simp
    qed
    then show ?thesis using k a by simp
  qed
  moreover have "\<exists>q e. ?V x = Some (q, e) \<and> queued_ok q e" if "x \<in> set P'" for x
    using d(11) [of x] P that by auto
  moreover have "?V 0 = None" "?V noop_coroutine = None" using d(1,2) h by auto
  moreover have "distinct (on_stack ?st)" using d(3) st(2) n by simp
  moreover have "x \<in> set P' \<union> D" if "?V x = Some (q, e)" "needs_queue q e" for x q e
    using d(13) [of x q e] that P(4) by (auto split: if_splits)
  moreover have "\<not> top_transform ?st t" for t by simp
  ultimately show ?thesis using st(4) P(1) unfolding rt_ok_def stack_ok_def by blast
qed

lemma rt_loop_resume:
  assumes w: "rt_ok V [A_Loop] W (h # P) D" and h: "V h = Some (p, c)"
    and W: "W' = (case p of S_Awaker a k \<Rightarrow> W(a := 0) | _ \<Rightarrow> W)"
  shows "rt_ok (V(h \<mapsto> (Running, c))) [A_Body h b, A_Resumed] W' P D"
proof (rule rt_enter [OF w h])
  have q: "queued_ok p c" using rt_okD(11) [OF w, of h] h by simp
  then show "p \<noteq> Running" "p \<noteq> S_Final" by auto
  have "c \<noteq> 0" using q rt_okD(8) [OF w h] by (cases p) auto
  then show "chain (V(h \<mapsto> (Running, c))) [A_Body h b, A_Resumed]" by simp
  show "A_Final u \<in> set [A_Resumed] \<longleftrightarrow> A_Final u \<in> set [A_Loop] \<or> (\<exists>k. p = S_Task u k)" for u using q by auto
qed (use rt_okD(10) [OF w] W in auto)

lemma rt_call_task:
  assumes w: "rt_ok V (A_Body h b # st) W P D" and t: "V t = Some (S_Initial b0, 0)"
  shows "rt_ok (V(t \<mapsto> (Running, 0))) (A_Body t b' # A_Transform h t k # st) W P D"
proof (rule rt_enter [OF w t])
  have "t \<noteq> h" using rt_okD(4) [OF w, of h] t by auto
  moreover have "t \<notin> set (on_stack st)" using rt_okD(4) [OF w, of t] t by auto
  moreover have "chain V (A_Transform h t k # st)" using rt_okD(5) [OF w] by (cases st) auto
  then have "chain (V(t \<mapsto> (Running, 0))) (A_Transform h t k # st)"
    by (rule chain_mono) (use calculation in auto)
  then show "chain (V(t \<mapsto> (Running, 0))) (A_Body t b' # A_Transform h t k # st)" by simp
  show "t \<notin> set P" using rt_okD(11) [OF w, of t] t by auto
qed (use rt_okD(10) [OF w] in auto)

lemma rt_resume_caller:
  assumes w: "rt_ok V (A_Body t b # st) W P D" and t: "V t = Some (Running, h)" and h: "V h = Some (S_Task t k, c)"
  shows "rt_ok (V(h \<mapsto> (Running, c))) (A_Body h b' # A_Final t # st) W P D"
proof (rule rt_enter [OF w h])
  have c: "c \<noteq> 0" using rt_okD(8) [OF w h] by auto
  have "h \<noteq> t" using h t by auto
  moreover have "h \<notin> set (on_stack st)" using rt_okD(4) [OF w, of h] h by auto
  moreover have "chain V (A_Final t # st)" using rt_okD(5) [OF w] by (cases st) auto
  then have "chain (V(h \<mapsto> (Running, c))) (A_Final t # st)"
    by (rule chain_mono) (use calculation in auto)
  then show "chain (V(h \<mapsto> (Running, c))) (A_Body h b' # A_Final t # st)" using c by simp
  show "h \<notin> set P" using rt_okD(11) [OF w, of h] h by auto
qed (use rt_okD(10) [OF w] in auto)


text \<open>A frame is destroyed: by its awaiter, or after its caller has run.\<close>

lemma rt_destroy:
  assumes w: "rt_ok V (x # st) W P D" and t: "V t = Some (p, e)"
    and x: "(\<exists>h k. x = A_Transform h t k \<and> p = S_Final \<and> st' = A_Body h b # st) \<or> x = A_Final t \<and> st' = st"
  shows "rt_ok (V(t := None)) st' W P D"
proof -
  note d = rt_okD [OF w]
  let ?V = "V(t := None)"
  have p: "p = S_Final \<and> e = 0 \<and> x \<noteq> A_Final t \<or> p = Running \<and> e \<noteq> 0 \<and> x = A_Final t"
    using x t d(6) [of t] d(4) [of t] d(7) [of t p e] by auto
  have n: "t \<notin> set (on_stack st')" using x d(3) d(4) [of t] t p by auto
  have top: "\<not> top_transform st' u" for u
    using x below_top [OF w _ t, of u] p by auto
  have fin: "A_Final u \<in> set st' \<longleftrightarrow> A_Final u \<in> set (x # st) \<and> u \<noteq> t" for u
    using x n final_on_stack [of t st'] by auto
  have "chain V st'" using d(5) x by (cases st) auto
  then have "chain ?V st'" by (rule chain_mono) (use n in auto)
  moreover have "(u \<in> set (on_stack st')) = (\<exists>c. ?V u = Some (Running, c))" for u
    using d(4) [of u] n x t by auto
  moreover have "distinct (on_stack st')" using d(3) x by auto
  moreover have "susp_ok ?V st' W u q c" if u: "?V u = Some (q, c)" for u q c
  proof -
    have V: "V u = Some (q, c)" "u \<noteq> t" using u by (auto split: if_splits)
    have u0: "u \<noteq> 0" using V d(1) by auto
    have "\<not> top_transform (x # st) u" using x V(2) by auto
    moreover have "s \<noteq> t" if "V s = Some (q', u)" "A_Final s \<notin> set (x # st)" for s q' using that t p u0 by auto
    moreover have "A_Final s \<notin> set st'" if "A_Final s \<notin> set (x # st)" for s using fin that by blast
    ultimately show ?thesis using d(8) [OF V(1)] by (cases q) (auto simp del: list.set)
  qed
  moreover have "caller_ok ?V st' u c" if u: "?V u = Some (q, c)" for u q c
  proof -
    have V: "V u = Some (q, c)" "u \<noteq> t" using u by (auto split: if_splits)
    have "V t \<noteq> Some (S_Task u k, d)" for k d using t p by auto
    then have "?V c = Some (S_Task u k, d)" if "V c = Some (S_Task u k, d)" for k d using that by auto
    then show ?thesis using d(9) [OF V(1)] fin [of u] V(2) unfolding caller_ok_def by blast
  qed
  moreover have "c \<noteq> 0" if "A_Final u \<in> set st'" "?V u = Some (q, c)" for u q c
    using d(7) [of u q c] fin [of u] that by (auto split: if_splits simp del: list.set)
  moreover have "\<exists>k c. ?V (W a) = Some (S_Awaker a k, c)" if "W a \<noteq> 0" for a
    using d(12) [OF that] t p by auto
  moreover have "\<exists>q e. ?V u = Some (q, e) \<and> queued_ok q e" if "u \<in> set P" for u
    using d(11) [OF that] t p by auto
  moreover have "?V 0 = None" "?V noop_coroutine = None" using d(1,2) by auto
  moreover have "u \<in> set P \<union> D" if "?V u = Some (q, c)" "needs_queue q c" for u q c
    using d(13) [of u q c] that by (auto split: if_splits)
  ultimately show ?thesis using d(10) top unfolding rt_ok_def stack_ok_def by blast
qed

text \<open>A coroutine submitted to the scheduler finishes: its caller does nothing.\<close>

lemma rt_finish_noop:
  assumes w: "rt_ok V (A_Body h b # st) W P D" and h: "V h = Some (Running, noop_coroutine)"
  shows "rt_ok V (A_Final h # st) W P D"
proof -
  note d = rt_okD [OF w]
  have "chain V (A_Final h # st)" using d(5) by (cases st) auto
  moreover have "susp_ok V (A_Final h # st) W x q e" if x: "V x = Some (q, e)" for x q e
    using d(8) [OF x] x h d(2) by (cases q) auto
  moreover have "caller_ok V (A_Final h # st) x e" if x: "V x = Some (q, e)" for x q e
    using d(9) [OF x] by (auto simp: caller_ok_def)
  moreover have "e \<noteq> 0" if "A_Final u \<in> set (A_Final h # st)" "V u = Some (q, e)" for u q e
    using d(7) [of u q e] h that by auto
  moreover have "distinct (on_stack (A_Final h # st))" using d(3) by simp
  moreover have "x \<in> set (on_stack (A_Final h # st)) \<longleftrightarrow> (\<exists>c. V x = Some (Running, c))" for x
    using d(4) [of x] by simp
  moreover have "\<not> top_transform (A_Final h # st) u" for u by simp
  ultimately show ?thesis using d(1,2,10-13) unfolding rt_ok_def stack_ok_def by blast
qed

lemma rt_loop:
  assumes w: "rt_ok V [A_Resumed] W P D" and st: "st = [] \<or> st = [A_Loop]"
  shows "rt_ok V st W P D"
proof -
  note d = rt_okD [OF w]
  have s: "on_stack st = []" "chain V st" "\<And>u. \<not> top_transform st u" "\<And>u. A_Final u \<notin> set st" using st by auto
  have "susp_ok V st W x q e" if x: "V x = Some (q, e)" for x q e
    using d(8) [OF x] s by (cases q) auto
  moreover have "caller_ok V st x e" if x: "V x = Some (q, e)" for x q e
    using d(9) [OF x] by (auto simp: caller_ok_def)
  ultimately show ?thesis using w s unfolding rt_ok_def stack_ok_def by simp
qed


subsection \<open>The invariant of the runtime\<close>

definition view :: "('v, 'e) core \<Rightarrow> ('v, 'e) view" where
  "view s h = map_option (\<lambda>f. (susp f, caller f)) (frames s h)"

definition handles :: "('v, 'e) core \<Rightarrow> nat \<Rightarrow> handle" where
  "handles s a = aw_handle (awakers s a)"

definition pending :: "nat \<Rightarrow> ('v, 'e) core \<Rightarrow> handle list" where
  "pending k s = map hd (ring_contents (mpsc_cfg 8) k (queue s))"

definition core_inv :: "nat \<Rightarrow> ('v, 'e) core \<Rightarrow> bool" where
  "core_inv k s \<longleftrightarrow>
     ring_inv (mpsc_cfg 8) k (queue s) \<and> rt_ok (view s) (stack s) (handles s) (pending k s) (set (dropped s))"

text \<open>
  The client's obligations at a step: a task is awaited or submitted once, and before it
  has started; one coroutine waits on an awaker at a time; an awaker whose coroutine is
  already in the ring is not woken again; the allocator returns a fresh address.
\<close>

definition fresh_task :: "('v, 'e) core \<Rightarrow> handle \<Rightarrow> bool" where
  "fresh_task s t \<longleftrightarrow>
     (case view s t of Some (S_Initial b, c) \<Rightarrow> c = 0 | _ \<Rightarrow> False)"

definition fresh_addr :: "('v, 'e) core \<Rightarrow> handle \<Rightarrow> bool" where
  "fresh_addr s a \<longleftrightarrow> frames s a = None \<and> a \<noteq> 0 \<and> a \<noteq> noop_coroutine"

fun body_legal :: "nat \<Rightarrow> handle \<Rightarrow> ('v, 'e) body \<Rightarrow> ('v, 'e) core \<Rightarrow> bool" where
  "body_legal k addr (Co_await a f) s \<longleftrightarrow> handles s a = 0"
| "body_legal k addr (Co_await_task t f) s \<longleftrightarrow> fresh_task s t"
| "body_legal k addr (Create void b f) s \<longleftrightarrow> fresh_addr s addr"
| "body_legal k addr (Submit t b) s \<longleftrightarrow> fresh_task s t"
| "body_legal k addr (Wake a v b) s \<longleftrightarrow> handles s a \<notin> set (pending k s)"
| "body_legal k addr _ s \<longleftrightarrow> True"

fun legal :: "nat \<Rightarrow> ('v, 'e) call \<Rightarrow> ('v, 'e) core \<Rightarrow> bool" where
  "legal k (Tick addr) s \<longleftrightarrow> (case stack s of A_Body h b # st \<Rightarrow> body_legal k addr b s | _ \<Rightarrow> True)"
| "legal k (X_Create a void b) s \<longleftrightarrow> fresh_addr s a"
| "legal k (X_Submit t) s \<longleftrightarrow> fresh_task s t"
| "legal k (X_Wake a v) s \<longleftrightarrow> handles s a \<notin> set (pending k s)"
| "legal k X_Stop s \<longleftrightarrow> True"

subsection \<open>Every legal step succeeds and keeps the invariant\<close>

lemma view_simps [simp]:
  "view (s\<lparr>queue := r\<rparr>) = view s" "view (s\<lparr>dropped := d\<rparr>) = view s" "view (s\<lparr>stack := st\<rparr>) = view s"
  "view (s\<lparr>stopped := b\<rparr>) = view s" "view (s\<lparr>dangling := d\<rparr>) = view s" "view (upd_awaker a u s) = view s"
  "view (destroy h s) = (view s)(h := None)"
  by (auto simp: view_def fun_eq_iff upd_awaker_def destroy_def)

lemma handles_simps [simp]:
  "handles (s\<lparr>queue := r\<rparr>) = handles s" "handles (s\<lparr>dropped := d\<rparr>) = handles s" "handles (s\<lparr>stack := st\<rparr>) = handles s"
  "handles (s\<lparr>stopped := b\<rparr>) = handles s" "handles (s\<lparr>dangling := d\<rparr>) = handles s" "handles (upd_frame h g s) = handles s"
  "handles (destroy h s) = handles s" "handles (s\<lparr>frames := F\<rparr>) = handles s"
  "handles (upd_awaker a u s) = (handles s)(a := aw_handle (u (awakers s a)))"
  by (auto simp: handles_def fun_eq_iff upd_awaker_def upd_frame_def destroy_def)

lemma pending_simps [simp]:
  "pending k (s\<lparr>dropped := d\<rparr>) = pending k s" "pending k (s\<lparr>stack := st\<rparr>) = pending k s"
  "pending k (s\<lparr>stopped := b\<rparr>) = pending k s" "pending k (s\<lparr>dangling := d\<rparr>) = pending k s"
  "pending k (upd_frame h g s) = pending k s" "pending k (destroy h s) = pending k s"
  "pending k (upd_awaker a u s) = pending k s" "pending k (s\<lparr>frames := F\<rparr>) = pending k s"
  by (simp_all add: pending_def upd_awaker_def upd_frame_def destroy_def)

lemma core_field_simps [simp]:
  "stack (upd_frame h g s) = stack s" "stack (upd_awaker a u s) = stack s" "stack (destroy h s) = stack s"
  "queue (upd_frame h g s) = queue s" "queue (upd_awaker a u s) = queue s" "queue (destroy h s) = queue s"
  "awakers (upd_frame h g s) = awakers s" "awakers (destroy h s) = awakers s"
  "frames (upd_awaker a u s) = frames s"
  "dropped (upd_frame h g s) = dropped s" "dropped (upd_awaker a u s) = dropped s" "dropped (destroy h s) = dropped s"
  by (simp_all add: upd_awaker_def upd_frame_def destroy_def)

lemma view_upd_frame:
  "frames s h = Some f \<Longrightarrow> view (upd_frame h u s) = (view s)(h \<mapsto> (susp (u f), caller (u f)))"
  by (auto simp: view_def upd_frame_def)

lemma core_run_inv:
  assumes "core_inv k s"
  shows "ring_inv (mpsc_cfg 8) k (queue s)" "rt_ok (view s) (stack s) (handles s) (pending k s) (set (dropped s))"
  using assms by (simp_all add: core_inv_def)

lemma sched_enqueue_spec:
  assumes "ring_inv (mpsc_cfg 8) k (queue s)"
  shows "\<exists>r d. sched_enqueue h s = Inr (s\<lparr>queue := r, dropped := d\<rparr>) \<and> ring_inv (mpsc_cfg 8) k r \<and>
    (if length (pending k s) < unat (capacity (queue s))
     then pending k (s\<lparr>queue := r\<rparr>) = pending k s @ [h] \<and> d = dropped s
     else r = queue s \<and> d = dropped s @ [h])"
proof (cases "length (pending k s) < unat (capacity (queue s))")
  case True
  then show ?thesis
    using ring_fifo.enq_room [OF assms, of "[h]"]
    by (auto simp: sched_enqueue_def pending_def unit_scale_def)
next
  case False
  then show ?thesis
    using ring_fifo.enq_full [OF assms, of "[h]"] assms
    by (auto simp: sched_enqueue_def pending_def unit_scale_def)
qed


lemma enqueue_inv:
  assumes "ring_inv (mpsc_cfg 8) k (queue s)"
    and "\<And>P' D'. P' = pending k s \<and> h \<in> D' \<or> P' = pending k s @ [h] \<Longrightarrow> set (dropped s) \<subseteq> D' \<Longrightarrow>
      rt_ok (view s) (stack s) (handles s) P' D'"
  shows "\<exists>s'. sched_enqueue h s = Inr s' \<and> core_inv k s' \<and> view s' = view s \<and> stack s' = stack s \<and>
    frames s' = frames s \<and> handles s' = handles s \<and> awakers s' = awakers s"
proof -
  obtain r d where r: "sched_enqueue h s = Inr (s\<lparr>queue := r, dropped := d\<rparr>)" "ring_inv (mpsc_cfg 8) k r"
      "if length (pending k s) < unat (capacity (queue s))
       then pending k (s\<lparr>queue := r\<rparr>) = pending k s @ [h] \<and> d = dropped s
       else r = queue s \<and> d = dropped s @ [h]"
    using sched_enqueue_spec [OF assms(1), of h] by blast
  have "pending k (s\<lparr>queue := r\<rparr>) = pending k s \<and> h \<in> set d \<or> pending k (s\<lparr>queue := r\<rparr>) = pending k s @ [h]"
      "set (dropped s) \<subseteq> set d"
    using r(3) by (auto split: if_splits)
  then show ?thesis using assms(2) r by (simp add: core_inv_def)
qed

text \<open>\<^verbatim>\<open>resume\<close> of a coroutine that is suspended and not finished.\<close>

lemma resume_enter:
  assumes h: "view s h = Some (p, c)" "p \<noteq> Running" "p \<noteq> S_Final" "h \<noteq> 0" "h \<noteq> noop_coroutine"
    and t: "\<And>t g. p = S_Task t g \<Longrightarrow> \<exists>q. view s t = Some (q, h)"
  shows "\<exists>s' b. resume h s = Inr s' \<and> view s' = (view s)(h \<mapsto> (Running, c)) \<and> stack s' = A_Body h b # stack s \<and>
    queue s' = queue s \<and> dropped s' = dropped s \<and> handles s' = (case p of S_Awaker a g \<Rightarrow> (handles s)(a := 0) | _ \<Rightarrow> handles s)"
proof -
  obtain f where f: "frames s h = Some f" "susp f = p" "caller f = c" using h(1) by (auto simp: view_def)
  have e: "view (enter h b s') = (view s)(h \<mapsto> (Running, c))" "stack (enter h b s') = A_Body h b # stack s"
      "queue (enter h b s') = queue s" "handles (enter h b s') = handles s'" "dropped (enter h b s') = dropped s"
    if "frames s' = frames s" "stack s' = stack s" "queue s' = queue s" "dropped s' = dropped s" for s' b
  proof -
    show "view (enter h b s') = (view s)(h \<mapsto> (Running, c))"
      using that f by (auto simp: enter_def view_def upd_frame_def fun_eq_iff)
  qed (use that in \<open>auto simp: enter_def\<close>)
  show ?thesis
  proof (cases p)
    case (S_Task t g)
    then obtain q where "frames s t = Some q" "caller q = h" using t by (auto simp: view_def)
    then show ?thesis using S_Task f h(4,5) e [of s] by (simp add: resume_def ms_await_resume_def)
  next
    case (S_Awaker a g)
    then show ?thesis using f h(5) e [of "upd_awaker a (\<lambda>_. snd (aw_await_resume (awakers s a))) s"]
      by (simp add: resume_def aw_await_resume_def)
  qed (use f h e [of s] in \<open>auto simp: resume_def\<close>)
qed

lemma loop_step_resumes:
  assumes inv: "core_inv k s" and st: "stack s = [A_Loop]" and P: "pending k s = h # P"
  shows "\<exists>s' b. loop_step s = Inr s' \<and> core_inv k s' \<and> stack s' = [A_Body h b, A_Resumed] \<and> pending k s' = P"
proof -
  note r = core_run_inv(1) [OF inv] and w = core_run_inv(2) [OF inv, unfolded st]
  obtain x xs where x: "ring_contents (mpsc_cfg 8) k (queue s) = x # xs" "h = hd x" "P = map hd xs"
    using P by (auto simp: pending_def)
  then obtain q where q: "deq_entry (mpsc_cfg 8) 0 (queue s) = Some (Some x, q)" "ring_inv (mpsc_cfg 8) k q"
      "ring_contents (mpsc_cfg 8) k q = xs"
    using ring_fifo.deq_some [OF r x(1), of 0] by auto
  let ?s = "s\<lparr>queue := q, stack := [A_Resumed]\<rparr>"
  obtain p c where h: "view s h = Some (p, c)" "queued_ok p c" using rt_okD(11) [OF w, of h] P by auto
  have nz: "h \<noteq> 0" "h \<noteq> noop_coroutine" using h rt_okD(1,2) [OF w] by auto
  have p: "p \<noteq> Running" "p \<noteq> S_Final" "\<And>t g. p \<noteq> S_Task t g" using h(2) by auto
  have hs: "handles ?s = handles s" "view ?s = view s" "stack ?s = [A_Resumed]" "queue ?s = q" "dropped ?s = dropped s"
    by simp_all
  obtain s' b where s': "resume h ?s = Inr s'" "view s' = (view s)(h \<mapsto> (Running, c))"
      "stack s' = [A_Body h b, A_Resumed]" "queue s' = q" "dropped s' = dropped s"
      "handles s' = (case p of S_Awaker a g \<Rightarrow> (handles s)(a := 0) | _ \<Rightarrow> handles s)"
    using resume_enter [of ?s h p c, unfolded hs] h(1) nz p by blast
  have P': "pending k s' = P" using q(3) s'(4) x(3) by (simp add: pending_def)
  have "rt_ok (view s') (stack s') (handles s') (pending k s') (set (dropped s'))"
    using rt_loop_resume [OF w [unfolded P] h(1) s'(6)] unfolding P' by (simp add: s'(2,3,5))
  then show ?thesis using q s' x P' by (simp add: loop_step_def core_inv_def)
qed

lemma loop_step_empty:
  assumes "core_inv k s" "pending k s = []"
  shows "loop_step s = Inr s"
  using ring_fifo.deq_empty [OF core_run_inv(1) [OF assms(1)], of 0] assms(2)
  by (simp add: loop_step_def pending_def)

lemma loop_step_inv:
  assumes "core_inv k s" "stack s = [A_Loop]"
  shows "\<exists>s'. loop_step s = Inr s' \<and> core_inv k s'"
  using loop_step_resumes [OF assms] loop_step_empty [OF assms(1)] assms(1) by (cases "pending k s") auto

lemma running_frame:
  assumes "core_inv k s" "h \<in> set (on_stack (stack s))"
  shows "\<exists>f. frames s h = Some f \<and> susp f = Running \<and> view s h = Some (Running, caller f)"
  using rt_okD(4) [OF core_run_inv(2) [OF assms(1)], of h] assms(2) by (auto simp: view_def)

lemma finish_inv:
  assumes inv: "core_inv k s" and st: "stack s = A_Body h b # st"
  shows "\<exists>s'. finish h r s = Inr s' \<and> core_inv k s'"
proof -
  note w = core_run_inv(2) [OF inv, unfolded st]
  obtain f where f: "frames s h = Some f" "view s h = Some (Running, caller f)"
    using running_frame [OF inv] st by force
  define s1 where "s1 = upd_frame h (\<lambda>f. f\<lparr>result := r\<rparr>) s"
  have s1: "view s1 = view s" "stack s1 = A_Body h b # st" "handles s1 = handles s" "queue s1 = queue s"
      "pending k s1 = pending k s" "dropped s1 = dropped s" "frames s1 h = Some (f\<lparr>result := r\<rparr>)"
    using f st by (auto simp: s1_def view_def upd_frame_def pending_def handles_def fun_eq_iff)
  have fin: "finish h r s = (if caller f \<noteq> 0 then resume (caller f) (s1\<lparr>stack := A_Final h # st\<rparr>)
      else Inr (suspend h S_Final s1))"
    using f st s1(2) by (simp add: finish_def s1_def [symmetric] Let_def)
  consider "caller f = 0" | "caller f = noop_coroutine" | g c where "view s (caller f) = Some (S_Task h g, c)" "caller f \<noteq> 0" "caller f \<noteq> noop_coroutine"
    using rt_okD(9) [OF w f(2)] rt_okD(3) [OF w] final_on_stack [of h st] by (auto simp: caller_ok_def)
  then show ?thesis
  proof cases
    case 1
    then have "rt_ok ((view s)(h \<mapsto> (S_Final, caller f))) st (handles s) (pending k s) (set (dropped s))"
      by (intro rt_suspend [OF w f(2)]) simp_all
    then show ?thesis using 1 fin s1 inv
      by (simp add: core_inv_def suspend_def view_upd_frame)
  next
    case 2
    then have "rt_ok (view s) (A_Final h # st) (handles s) (pending k s) (set (dropped s))"
      using rt_finish_noop [OF w] f(2) by simp
    then show ?thesis using 2 fin s1 inv by (simp add: core_inv_def resume_def)
  next
    case 3
    let ?s = "s1\<lparr>stack := A_Final h # st\<rparr>"
    have e: "view ?s = view s" "stack ?s = A_Final h # st" "queue ?s = queue s" "handles ?s = handles s" "dropped ?s = dropped s"
      using s1 by simp_all
    have "\<exists>q. view s h = Some (q, caller f)" using f(2) by simp
    then obtain s' b' where s': "resume (caller f) ?s = Inr s'" "view s' = (view s)(caller f \<mapsto> (Running, c))"
        "stack s' = A_Body (caller f) b' # A_Final h # st" "queue s' = queue s" "handles s' = handles s" "dropped s' = dropped s"
      using resume_enter [of ?s "caller f" "S_Task h g" c, unfolded e] 3 by auto
    have "rt_ok (view s') (stack s') (handles s') (pending k s) (set (dropped s))"
      unfolding s' by (rule rt_resume_caller [OF w f(2) 3(1)])
    then show ?thesis using 3 fin s' core_run_inv(1) [OF inv] by (simp add: core_inv_def pending_def)
  qed
qed

lemma fresh_taskD: "fresh_task s t \<Longrightarrow> \<exists>b. view s t = Some (S_Initial b, 0)"
proof (cases "view s t")
  case (Some x)
  moreover assume "fresh_task s t"
  ultimately show ?thesis by (cases x, cases "fst x") (auto simp: fresh_task_def)
qed (simp add: fresh_task_def)

lemma transform_begin_inv:
  assumes inv: "core_inv k s" and st: "stack s = A_Body h b # st" and t: "fresh_task s t"
  shows "\<exists>s'. transform_begin h t g s = Inr s' \<and> core_inv k s'"
proof -
  note w = core_run_inv(2) [OF inv, unfolded st]
  obtain b0 where b0: "view s t = Some (S_Initial b0, 0)" using fresh_taskD [OF t] by blast
  let ?s = "s\<lparr>stack := A_Transform h t g # st\<rparr>"
  have e: "view ?s = view s" "stack ?s = A_Transform h t g # st" "queue ?s = queue s" "handles ?s = handles s" "dropped ?s = dropped s"
    by simp_all
  have nz: "t \<noteq> 0" "t \<noteq> noop_coroutine" using b0 rt_okD(1,2) [OF w] by auto
  obtain s' b' where s': "resume t ?s = Inr s'" "view s' = (view s)(t \<mapsto> (Running, 0))"
      "stack s' = A_Body t b' # A_Transform h t g # st" "queue s' = queue s" "handles s' = handles s" "dropped s' = dropped s"
    using resume_enter [of ?s t "S_Initial b0" 0, unfolded e] b0 nz by auto
  have "rt_ok (view s') (stack s') (handles s') (pending k s) (set (dropped s))"
    unfolding s' by (rule rt_call_task [OF w b0])
  moreover obtain f where "frames s t = Some f" "caller f = 0" using b0 by (auto simp: view_def)
  then have "transform_begin h t g s = resume t ?s" using st by (simp add: transform_begin_def)
  ultimately show ?thesis using s' core_run_inv(1) [OF inv] by (simp add: core_inv_def pending_def)
qed

lemma transform_end_inv:
  assumes inv: "core_inv k s" and st: "stack s = A_Transform h t g # st"
  shows "\<exists>s'. transform_end h t g s = Inr s' \<and> core_inv k s'"
proof -
  note w = core_run_inv(2) [OF inv, unfolded st]
  obtain f where f: "frames s h = Some f" "view s h = Some (Running, caller f)"
    using running_frame [OF inv] st by force
  obtain p where t: "view s t = Some (p, 0)" "p \<noteq> Running" using rt_okD(6) [OF w, of t] by auto
  then obtain q where q: "frames s t = Some q" "susp q = p" "caller q = 0" by (auto simp: view_def)
  have th: "h \<noteq> t" using f t by auto
  show ?thesis
  proof (cases "p = S_Final")
    case True
    then have "rt_ok ((view s)(t := None)) (A_Body h (g (result q)) # st) (handles s) (pending k s) (set (dropped s))"
      by (intro rt_destroy [OF w t(1)]) auto
    then show ?thesis using True q st core_run_inv(1) [OF inv]
      by (simp add: transform_end_def task_done_def ms_await_resume_def run_body_def core_inv_def)
  next
    case False
    then have "rt_ok ((view s)(t \<mapsto> (p, h), h \<mapsto> (S_Task t g, caller f))) st (handles s) (pending k s) (set (dropped s))"
      by (intro rt_await [OF w f(2) t(1)])
    moreover have "view (suspend h (S_Task t g) (upd_frame t (\<lambda>f. f\<lparr>caller := h\<rparr>) s)) =
        (view s)(t \<mapsto> (p, h), h \<mapsto> (S_Task t g, caller f))"
      using q f th by (auto simp: suspend_def view_def upd_frame_def fun_eq_iff)
    moreover have "\<not> task_done q" using False q(2) by (simp add: task_done_def split: susp.split)
    ultimately show ?thesis using q st core_run_inv(1) [OF inv]
      by (simp add: transform_end_def core_inv_def) (simp add: suspend_def)
  qed
qed


lemma create_inv:
  assumes "core_inv k s" "fresh_addr s a"
  shows "\<exists>s'. create_task a void b s = Inr s' \<and> core_inv k s' \<and> stack s' = stack s"
proof -
  have a: "frames s a = None" "a \<noteq> 0" "a \<noteq> noop_coroutine" using assms(2) by (auto simp: fresh_addr_def)
  then have "rt_ok ((view s)(a \<mapsto> (S_Initial b, 0))) (stack s) (handles s) (pending k s) (set (dropped s))"
    by (intro rt_create [OF core_run_inv(2) [OF assms(1)]]) (simp_all add: view_def)
  moreover have "view (s\<lparr>frames := (frames s)(a \<mapsto> f)\<rparr>) = (view s)(a \<mapsto> (susp f, caller f))" for f
    by (auto simp: view_def)
  ultimately show ?thesis using a core_run_inv(1) [OF assms(1)]
    by (simp add: create_task_def core_inv_def)
qed

lemma submit_inv:
  assumes inv: "core_inv k s" and t: "fresh_task s t"
  shows "\<exists>s'. sched_enqueue_task t s = Inr s' \<and> core_inv k s' \<and> stack s' = stack s"
proof -
  obtain b where b: "view s t = Some (S_Initial b, 0)" using fresh_taskD [OF t] by blast
  then obtain f where f: "frames s t = Some f" "susp f = S_Initial b" by (auto simp: view_def)
  let ?u = "upd_frame t (\<lambda>f. f\<lparr>caller := noop_coroutine\<rparr>)"
  obtain r d where r: "sched_enqueue t s = Inr (s\<lparr>queue := r, dropped := d\<rparr>)" "ring_inv (mpsc_cfg 8) k r"
      "if length (pending k s) < unat (capacity (queue s))
       then pending k (s\<lparr>queue := r\<rparr>) = pending k s @ [t] \<and> d = dropped s
       else r = queue s \<and> d = dropped s @ [t]"
    using sched_enqueue_spec [OF core_run_inv(1) [OF inv], of t] by blast
  have "pending k (s\<lparr>queue := r\<rparr>) = pending k s \<and> t \<in> set d \<or> pending k (s\<lparr>queue := r\<rparr>) = pending k s @ [t]"
      "set (dropped s) \<subseteq> set d"
    using r(3) by (auto split: if_splits)
  then have "rt_ok ((view s)(t \<mapsto> (S_Initial b, noop_coroutine))) (stack s) (handles s) (pending k (s\<lparr>queue := r\<rparr>)) (set d)"
    by (rule rt_submit [OF core_run_inv(2) [OF inv] b])
  moreover have "view (?u (s\<lparr>queue := r, dropped := d\<rparr>)) = (view s)(t \<mapsto> (S_Initial b, noop_coroutine))"
    using f by (subst view_upd_frame) auto
  ultimately show ?thesis using r f by (simp add: sched_enqueue_task_def core_inv_def)
qed

lemma wake_inv:
  assumes inv: "core_inv k s" and a: "handles s a \<notin> set (pending k s)"
  shows "\<exists>s'. aw_wake a v s = Inr s' \<and> core_inv k s' \<and> stack s' = stack s"
proof -
  let ?u = "upd_awaker a (\<lambda>w. if checkable w then w\<lparr>aw_ret := v, awaked := True\<rparr> else w\<lparr>aw_ret := v\<rparr>)"
  have keep: "core_inv k (?u s') \<and> stack (?u s') = stack s'" if "core_inv k s'" for s'
  proof -
    have "handles (?u s') = handles s'" by (auto simp: handles_def upd_awaker_def)
    then show ?thesis using that by (simp add: core_inv_def)
  qed
  show ?thesis
  proof (cases "handles s a = 0")
    case True
    then show ?thesis using keep [OF inv] by (simp add: aw_wake_def handles_def)
  next
    case False
    obtain s' where "sched_enqueue (handles s a) s = Inr s'" "core_inv k s'" "stack s' = stack s"
      using enqueue_inv [OF core_run_inv(1) [OF inv], of "handles s a"]
        rt_wake [where W = "handles s", OF core_run_inv(2) [OF inv] False a] by blast
    then show ?thesis using keep False by (simp add: aw_wake_def handles_def)
  qed
qed

lemma run_body_inv:
  assumes "core_inv k s" "stack s = A_Body h b # st"
  shows "core_inv k (run_body h b' s)"
  using assms rt_body [of "view s" h b st "handles s" "pending k s" "set (dropped s)" b']
  by (simp add: core_inv_def run_body_def)

lemma await_awaker_inv:
  assumes inv: "core_inv k s" and st: "stack s = A_Body h b # st" and a: "handles s a = 0"
  shows "core_inv k (await_awaker h a g s)"
proof (cases "aw_await_ready (awakers s a)")
  case True
  let ?s = "upd_awaker a (\<lambda>_. snd (aw_await_resume (awakers s a))) s"
  have "handles ?s = handles s" using a by (auto simp: aw_await_resume_def)
  then have "core_inv k ?s" using inv by (simp add: core_inv_def)
  then show ?thesis using run_body_inv [of k ?s h b st] st True
    by (simp add: await_awaker_def aw_await_resume_def)
next
  case False
  obtain f where f: "frames s h = Some f" "view s h = Some (Running, caller f)"
    using running_frame [OF inv] st by force
  have "rt_ok ((view s)(h \<mapsto> (S_Awaker a g, caller f))) st ((handles s)(a := h)) (pending k s) (set (dropped s))"
    using a by (intro rt_suspend [OF core_run_inv(2) [OF inv, unfolded st] f(2)]) auto
  moreover have "view (suspend h (S_Awaker a g) (upd_awaker a (aw_await_suspend h) s)) = (view s)(h \<mapsto> (S_Awaker a g, caller f))"
    unfolding suspend_def using f by (subst view_upd_frame) auto
  ultimately show ?thesis using False st core_run_inv(1) [OF inv]
    by (simp add: await_awaker_def core_inv_def) (simp add: suspend_def aw_await_suspend_def Let_def if_distrib)
qed

lemma yield_inv:
  assumes inv: "core_inv k s" and st: "stack s = A_Body h b # st"
  shows "\<exists>s'. sched_enqueue h (suspend h (S_Yield b') s) = Inr s' \<and> core_inv k s'"
proof -
  obtain f where f: "frames s h = Some f" "view s h = Some (Running, caller f)"
    using running_frame [OF inv] st by force
  let ?s = "suspend h (S_Yield b') s"
  have e: "view ?s = (view s)(h \<mapsto> (S_Yield b', caller f))" "stack ?s = st" "handles ?s = handles s"
      "pending k ?s = pending k s" "queue ?s = queue s" "dropped ?s = dropped s"
    unfolding suspend_def using f st by (simp_all add: view_upd_frame)
  have "rt_ok (view ?s) (stack ?s) (handles ?s) P' D'"
    if "P' = pending k ?s \<and> h \<in> D' \<or> P' = pending k ?s @ [h]" "set (dropped ?s) \<subseteq> D'" for P' D'
    unfolding e using that e(4,6) by (intro rt_suspend [OF core_run_inv(2) [OF inv, unfolded st] f(2)]) auto
  moreover have "ring_inv (mpsc_cfg 8) k (queue ?s)" using core_run_inv(1) [OF inv] e(5) by simp
  ultimately show ?thesis using enqueue_inv [of k ?s h] by blast
qed

lemma body_step_inv:
  assumes inv: "core_inv k s" and st: "stack s = A_Body h b # st" and legal: "body_legal k addr b s"
  shows "\<exists>s'. body_step addr h b s = Inr s' \<and> core_inv k s'"
proof (cases b)
  case (Create void b' g)
  then obtain s' where "create_task addr void b' s = Inr s'" "core_inv k s'" "stack s' = A_Body h b # st"
    using create_inv [OF inv, of addr] legal st by auto
  then show ?thesis using Create run_body_inv [of k s' h b st] by simp
next
  case (Submit t b')
  then obtain s' where "sched_enqueue_task t s = Inr s'" "core_inv k s'" "stack s' = A_Body h b # st"
    using submit_inv [OF inv, of t] legal st by auto
  then show ?thesis using Submit run_body_inv [of k s' h b st] by simp
next
  case (Wake a v b')
  then obtain s' where "aw_wake a v s = Inr s'" "core_inv k s'" "stack s' = A_Body h b # st"
    using wake_inv [OF inv, of a v] legal st by auto
  then show ?thesis using Wake run_body_inv [of k s' h b st] by simp
next
  case (Stop b')
  have "core_inv k (sched_stop s)" using inv by (simp add: core_inv_def sched_stop_def pending_def)
  then show ?thesis using Stop run_body_inv [of k "sched_stop s" h b st] st by (simp add: sched_stop_def)
qed (use finish_inv [OF inv st] yield_inv [OF inv st] await_awaker_inv [OF inv st] transform_begin_inv [OF inv st]
    legal in auto)

lemma exec_inv:
  assumes inv: "core_inv k s" and legal: "legal k (Tick addr) s"
  shows "\<exists>s'. exec addr s = Inr s' \<and> core_inv k s'"
proof (cases "stack s")
  case (Cons x st)
  note w = core_run_inv(2) [OF inv, unfolded Cons]
  have alone: "st = []" if "act_handle x = None"
    using rt_okD(5) [OF w] that by (cases st; cases "hd st") auto
  show ?thesis
  proof (cases x)
    case A_Loop
    then show ?thesis using loop_step_inv [OF inv] alone Cons by (simp add: exec_def)
  next
    case A_Resumed
    then have "rt_ok (view s) [A_Resumed] (handles s) (pending k s) (set (dropped s))" using w alone by simp
    then have "rt_ok (view s) (if stopped s then [] else [A_Loop]) (handles s) (pending k s) (set (dropped s))"
      by (rule rt_loop) simp
    then show ?thesis using A_Resumed Cons inv by (simp add: exec_def core_inv_def)
  next
    case (A_Final h)
    then have "rt_ok ((view s)(h := None)) st (handles s) (pending k s) (set (dropped s))"
      using running_frame [OF inv, of h] Cons rt_destroy [OF w [unfolded A_Final], of h] by auto
    then show ?thesis using A_Final Cons inv by (simp add: exec_def core_inv_def)
  qed (use body_step_inv [OF inv] transform_end_inv [OF inv] legal Cons in \<open>auto simp: exec_def\<close>)
qed (use inv in \<open>simp add: exec_def\<close>)

lemma core_exec_inv:
  assumes "core_inv k s" "legal k c s"
  shows "\<exists>s'. core_exec c s = Inr s' \<and> core_inv k s'"
proof (cases c)
  case (Tick addr)
  then show ?thesis using exec_inv [OF assms(1)] assms(2) by simp
next
  case (X_Create a void b)
  then show ?thesis using create_inv [OF assms(1), of a void b] assms(2) by auto
next
  case (X_Submit t)
  then show ?thesis using submit_inv [OF assms(1), of t] assms(2) by auto
next
  case (X_Wake a v)
  then show ?thesis using wake_inv [OF assms(1), of a v] assms(2) by auto
next
  case X_Stop
  then show ?thesis using assms(1) by (simp add: core_inv_def sched_stop_def pending_def)
qed

end
