(* ===== verification/Runtime.thy ===== *)
theory Runtime
  imports Core_Safety
begin

text \<open>
  Properties of the coroutine runtime (\<^verbatim>\<open>src/core/core.hpp\<close>) in every state that legal
  calls reach: safety, the order of resumption, delivery of results and the life time of
  frames, and what goes wrong when the ring is full, a coroutine is woken twice or a task
  finishes without suspending.
\<close>

subsection \<open>Reachable states\<close>

definition core_init :: "nat \<Rightarrow> ('v, 'e) core \<Rightarrow> bool" where
  "core_init k s \<longleftrightarrow>
     ring_inv (mpsc_cfg 8) k (queue s) \<and> ring_contents (mpsc_cfg 8) k (queue s) = [] \<and>
     frames s = Map.empty \<and> (\<forall>a. aw_handle (awakers s a) = 0) \<and> stack s = [A_Loop]"

inductive core_step :: "nat \<Rightarrow> ('v, 'e) core \<Rightarrow> ('v, 'e) core \<Rightarrow> bool" for k :: nat where
  step: "legal k c s \<Longrightarrow> core_exec c s = Inr s' \<Longrightarrow> core_step k s s'"

lemma core_init_inv: "core_init k s \<Longrightarrow> core_inv k s"
  by (auto simp: core_init_def core_inv_def rt_ok_def stack_ok_def view_def handles_def pending_def)

interpretation rt: inductive_invariant "core_init k" "core_step k" "core_inv k" for k
proof
  show "core_inv k t" if "core_inv k s" "core_step k s t" for s t :: "('v, 'e) core"
    using that(2) core_exec_inv [OF that(1)] by cases fastforce
qed (rule core_init_inv)

abbreviation runtime_reach :: "nat \<Rightarrow> ('v, 'e) core \<Rightarrow> bool" where
  "runtime_reach k \<equiv> reach (core_init k) (core_step k)"

lemma reach_rt:
  assumes "runtime_reach k s"
  shows "core_inv k s" "rt_ok (view s) (stack s) (handles s) (pending k s) (set (dropped s))"
  using rt.reach_inv [OF assms] core_run_inv(2) by blast+

text \<open>A schedule whose calls are legal reaches its final state.\<close>

fun legal_run :: "nat \<Rightarrow> ('v, 'e) call list \<Rightarrow> ('v, 'e) core \<Rightarrow> bool" where
  "legal_run k [] s = True"
| "legal_run k (c # cs) s \<longleftrightarrow> legal k c s \<and>
     (case core_exec c s of Inl e \<Rightarrow> True | Inr s' \<Rightarrow> legal_run k cs s')"

lemma legal_run_reach:
  "runtime_reach k s \<Longrightarrow> legal_run k cs s \<Longrightarrow> core_run cs s = Inr s' \<Longrightarrow> runtime_reach k s'"
proof (induction cs arbitrary: s)
  case (Cons c cs)
  then obtain t where t: "core_exec c s = Inr t" "core_run cs t = Inr s'" by (auto simp: bind_err_Inr_iff)
  then have "core_step k s t" using Cons.prems(2) by (auto intro: core_step.step)
  then have "runtime_reach k t" using Cons.prems(1) by (rule reach_step [rotated])
  then show ?case using Cons.IH t Cons.prems(2) by simp
qed simp

subsection \<open>An example\<close>

text \<open>
  A scheduler with a ring of four slots. \<open>parent\<close> creates and awaits a child; the child waits
  on awaker 0 and returns one more than it gets; the parent forwards the result to awaker 1.
\<close>

definition blank_core :: "(nat, nat) core" where
  "blank_core = \<lparr>frames = Map.empty,
     awakers = (\<lambda>a. \<lparr>aw_handle = 0, aw_ret = 0, checkable = (a = 1), awaked = False\<rparr>),
     queue = init 4 (replicate 4 0), stopped = False, stack = [A_Loop], dropped = [], dangling = [],
     default_value = 0\<rparr>"

definition child :: "(nat, nat) body" where
  "child = Co_await 0 (\<lambda>v. Co_return (v + 1))"

definition parent :: "(nat, nat) body" where
  "parent = Create False child (\<lambda>t. Co_await_task t (\<lambda>r.
     case r of Inr v \<Rightarrow> Wake 1 v (Co_return v) | Inl e \<Rightarrow> Throw e))"

definition ticks :: "nat \<Rightarrow> (nat, nat) call list" where
  "ticks n = replicate n (Tick 512)"

definition demo :: "(nat, nat) call list" where
  "demo = [X_Create 256 True parent, X_Submit 256] @ ticks 6 @ [X_Wake 0 4] @ ticks 1"

lemma blank_core_init: "core_init 2 blank_core"
  by (simp add: core_init_def blank_core_def ring_inv_def sync_supported_def ring_layout_def unit_scale_def
      init_def ring_contents_def ring_count_def zero_ht_def)

lemma blank_core_reach:
  "legal_run 2 cs blank_core \<Longrightarrow> core_run cs blank_core = Inr s \<Longrightarrow> runtime_reach 2 s"
  by (rule legal_run_reach [OF reach_init [of "core_init 2", OF blank_core_init]])

text \<open>A final state and a test of it, for concrete runs.\<close>

definition run_test :: "(nat, nat) call list \<Rightarrow> ((nat, nat) core \<Rightarrow> bool) \<Rightarrow> bool" where
  "run_test cs p \<longleftrightarrow> legal_run 2 cs blank_core \<and> (case core_run cs blank_core of Inl e \<Rightarrow> False | Inr s \<Rightarrow> p s)"

lemma run_testD: "run_test cs p \<Longrightarrow> \<exists>s. core_run cs blank_core = Inr s \<and> runtime_reach 2 s \<and> p s"
  using blank_core_reach by (auto simp: run_test_def split: sum.splits)

definition run_error :: "(nat, nat) call list \<Rightarrow> core_error option" where
  "run_error cs = (case core_run cs blank_core of Inl e \<Rightarrow> Some e | Inr s \<Rightarrow> None)"

text \<open>A submitted coroutine that has run up to its await of awaker 0.\<close>

definition waiting :: "(nat, nat) call list" where
  "waiting = [X_Create 256 True (Co_await 0 Co_return), X_Submit 256] @ ticks 3"

subsection \<open>Properties\<close>

text \<open>
  C2. The runtime is safe: in every state that legal calls reach, every legal call succeeds.
  No step resumes a destroyed, running or finished coroutine, reads the promise of a
  destroyed frame, fails the assertion of \<^verbatim>\<open>await_transform\<close>, or gets stuck on the ring.
\<close>

theorem runtime_safe:
  assumes "runtime_reach k s" "legal k c s"
  shows "\<exists>s'. core_exec c s = Inr s' \<and> runtime_reach k s'"
proof -
  obtain s' where "core_exec c s = Inr s'" using core_exec_inv [OF reach_rt(1) [OF assms(1)] assms(2)] by blast
  moreover from this have "core_step k s s'" using assms(2) by (rule core_step.step [rotated])
  ultimately show ?thesis using reach_step [OF assms(1)] by blast
qed

theorem runtime_safe_witness:
  "\<exists>s s'. core_run (demo @ ticks 1) blank_core = Inr s \<and> core_exec (Tick 0) s = Inr s' \<and> runtime_reach 2 s'"
proof -
  have "run_test (demo @ ticks 1) (legal 2 (Tick 0))" by code_simp
  then obtain s where s: "core_run (demo @ ticks 1) blank_core = Inr s" "runtime_reach 2 s" "legal 2 (Tick 0) s"
    using run_testD by blast
  show ?thesis using runtime_safe [OF s(2,3)] s(1) by blast
qed

text \<open>
  C30. The scheduler's ring holds each coroutine at most once, and only coroutines that are
  alive, suspended at their start, at a yield or on an awaker, and not on the native call
  stack.
\<close>

theorem ring_holds_suspended_coroutines:
  assumes "runtime_reach k s"
  shows "distinct (pending k s) \<and> (\<forall>h\<in>set (pending k s). h \<notin> set (on_stack (stack s)) \<and>
    (\<exists>f. frames s h = Some f \<and> (case susp f of S_Initial b \<Rightarrow> caller f = noop_coroutine
       | S_Yield b \<Rightarrow> True | S_Awaker a g \<Rightarrow> aw_handle (awakers s a) = h | _ \<Rightarrow> False)))"
proof -
  note d = rt_okD [OF reach_rt(2) [OF assms]]
  have "h \<notin> set (on_stack (stack s)) \<and> (\<exists>f. frames s h = Some f \<and> (case susp f of S_Initial b \<Rightarrow> caller f = noop_coroutine
       | S_Yield b \<Rightarrow> True | S_Awaker a g \<Rightarrow> aw_handle (awakers s a) = h | _ \<Rightarrow> False))"
    if h: "h \<in> set (pending k s)" for h
  proof -
    obtain p c where p: "view s h = Some (p, c)" "queued_ok p c" using d(11) [OF h] by blast
    then obtain f where "frames s h = Some f" "susp f = p" "caller f = c" by (auto simp: view_def)
    moreover have "p \<noteq> Running" using p(2) by auto
    ultimately show ?thesis using p d(4) [of h] d(8) [OF p(1)] by (cases p) (auto simp: handles_def)
  qed
  then show ?thesis using d(10) by blast
qed

theorem ring_holds_suspended_coroutines_witness:
  "\<exists>s. core_run (take 9 demo) blank_core = Inr s \<and> pending 2 s = [512] \<and>
    512 \<notin> set (on_stack (stack s)) \<and> frames s 512 \<noteq> None"
proof -
  have "run_test (take 9 demo) (\<lambda>s. pending 2 s = [512])" by code_simp
  then obtain s where s: "core_run (take 9 demo) blank_core = Inr s" "runtime_reach 2 s" "pending 2 s = [512]"
    using run_testD by blast
  then show ?thesis using ring_holds_suspended_coroutines [OF s(2)] by auto
qed

text \<open>
  C29. Frames do not leak: whenever control is back in the scheduler's loop, no frame is of a
  finished coroutine and none is marked as running; every frame that waits for a task waits
  for one that is alive and will resume it.
\<close>

theorem finished_frames_destroyed:
  assumes "runtime_reach k s" "stack s = [A_Loop] \<or> stack s = [A_Resumed] \<or> stack s = []" "frames s h = Some f"
  shows "susp f \<noteq> S_Final \<and> susp f \<noteq> Running \<and>
    (\<forall>t g. susp f = S_Task t g \<longrightarrow> (\<exists>q. frames s t = Some q \<and> caller q = h))"
proof -
  note d = rt_okD [OF reach_rt(2) [OF assms(1)]]
  have v: "view s h = Some (susp f, caller f)" using assms(3) by (simp add: view_def)
  have "\<not> top_transform (stack s) h" "h \<notin> set (on_stack (stack s))" using assms(2) by auto
  then show ?thesis using d(8) [OF v] d(4) [of h] v by (auto simp: view_def)
qed

theorem finished_frames_destroyed_witness:
  "\<exists>s f. core_run (take 8 demo) blank_core = Inr s \<and> stack s = [A_Loop] \<and> frames s 256 = Some f \<and>
    susp f \<noteq> S_Final \<and> susp f \<noteq> Running"
proof -
  have "run_test (take 8 demo) (\<lambda>s. (case stack s of [A_Loop] \<Rightarrow> True | _ \<Rightarrow> False) \<and> \<not> Option.is_none (frames s 256))"
    by code_simp
  from run_testD [OF this] obtain s where s: "core_run (take 8 demo) blank_core = Inr s" "runtime_reach 2 s"
      "(case stack s of [A_Loop] \<Rightarrow> True | _ \<Rightarrow> False) \<and> \<not> Option.is_none (frames s 256)" by blast
  have st: "stack s = [A_Loop]" using s(3) by (auto split: list.splits activation.splits)
  obtain f where "frames s 256 = Some f" using s(3) by (auto simp: Option.is_none_def)
  then show ?thesis using finished_frames_destroyed [OF s(2) disjI1 [OF st]] s(1) st by blast
qed

text \<open>
  C28. As long as no enqueue has met a full ring, no coroutine is forgotten: each one that was
  submitted and not started, or has yielded, is in the scheduler's ring.
\<close>

theorem no_coroutine_forgotten:
  assumes "runtime_reach k s" "dropped s = []" "frames s h = Some f"
    "(\<exists>b. susp f = S_Yield b) \<or> (\<exists>b. susp f = S_Initial b) \<and> caller f = noop_coroutine"
  shows "h \<in> set (pending k s)"
proof -
  have "view s h = Some (susp f, caller f)" using assms(3) by (simp add: view_def)
  moreover have "needs_queue (susp f) (caller f)" using assms(4) by auto
  ultimately show ?thesis using rt_okD(13) [OF reach_rt(2) [OF assms(1)]] assms(2) by auto
qed

theorem no_coroutine_forgotten_witness:
  "\<exists>s. core_run [X_Create 256 True (Co_yield (Co_return 1)), X_Submit 256, Tick 0, Tick 0] blank_core = Inr s \<and>
    256 \<in> set (pending 2 s)"
proof -
  let ?cs = "[X_Create 256 True (Co_yield (Co_return 1)), X_Submit 256, Tick 0, Tick 0]"
  have "run_test ?cs (\<lambda>s. dropped s = [] \<and>
      (case frames s 256 of Some f \<Rightarrow> (case susp f of S_Yield b \<Rightarrow> True | _ \<Rightarrow> False) | _ \<Rightarrow> False))"
    by code_simp
  from run_testD [OF this] obtain s where s: "core_run ?cs blank_core = Inr s" "runtime_reach 2 s" "dropped s = []"
      "case frames s 256 of Some f \<Rightarrow> (case susp f of S_Yield b \<Rightarrow> True | _ \<Rightarrow> False) | _ \<Rightarrow> False" by blast
  then obtain f where f: "frames s 256 = Some f" "\<exists>b. susp f = S_Yield b"
    by (auto split: option.splits susp.splits)
  show ?thesis using no_coroutine_forgotten [OF s(2,3) f(1) disjI1 [OF f(2)]] s(1) by blast
qed

text \<open>
  The loop of \<^verbatim>\<open>SQKScheduler::run\<close> resumes coroutines in the order in which they were
  enqueued: with a coroutine at the front of the ring, the loop takes it out and runs it.
\<close>

lemma scheduler_resumes_in_order:
  assumes "runtime_reach k s" "stack s = [A_Loop]" "pending k s = h # P"
  shows "\<exists>s' b. exec addr s = Inr s' \<and> stack s' = [A_Body h b, A_Resumed] \<and> pending k s' = P"
  using loop_step_resumes [OF reach_rt(1) [OF assms(1)] assms(2,3)] assms(2) by (auto simp: exec_def)

text \<open>
  C24. The result of a task reaches the coroutine that awaits it: when a task with a caller
  returns a value or ends with an exception, its caller runs next, with exactly that result,
  and the task's frame is still alive while the caller reads it.
\<close>

theorem result_reaches_caller:
  assumes "runtime_reach k s" "stack s = A_Body t b # st" "frames s t = Some f"
    "caller f \<noteq> 0" "caller f \<noteq> noop_coroutine"
    "(\<exists>v. b = Co_return v \<and> r = Inr v) \<or> (\<exists>e. b = Throw e \<and> r = Inl e)"
  shows "\<exists>g q s'. frames s (caller f) = Some q \<and> susp q = S_Task t g \<and> exec addr s = Inr s' \<and>
    stack s' = A_Body (caller f) (g r) # A_Final t # st \<and> frames s' t \<noteq> None"
proof -
  note d = rt_okD [OF reach_rt(2) [OF assms(1), unfolded assms(2)]]
  have v: "view s t = Some (susp f, caller f)" using assms(3) by (simp add: view_def)
  have "A_Final t \<notin> set st" using d(3) final_on_stack by fastforce
  then obtain g c where "view s (caller f) = Some (S_Task t g, c)"
    using d(9) [OF v] assms(4,5) by (auto simp: caller_ok_def)
  then obtain q where q: "frames s (caller f) = Some q" "susp q = S_Task t g" by (auto simp: view_def)
  have "susp f = Running" using d(4) [of t] v by auto
  then have ne: "caller f \<noteq> t" using q assms(3) by auto
  have "exec addr s = finish t r s" using assms(2,6) by (auto simp: exec_def)
  then show ?thesis using q assms ne
    by (auto simp: finish_def Let_def resume_def ms_await_resume_def upd_frame_def enter_def)
qed

theorem result_reaches_caller_witness:
  "\<exists>s s' b st. core_run demo blank_core = Inr s \<and> exec 0 s = Inr s' \<and> stack s' = A_Body 256 b # A_Final 512 # st"
proof -
  have "run_test demo (\<lambda>s. (case stack s of A_Body t (Co_return v) # st \<Rightarrow> t = 512 \<and> v = 5 | _ \<Rightarrow> False) \<and>
      (case frames s 512 of Some f \<Rightarrow> caller f = 256 | None \<Rightarrow> False))"
    by code_simp
  from run_testD [OF this] obtain s where s: "core_run demo blank_core = Inr s" "runtime_reach 2 s"
      "case stack s of A_Body t (Co_return v) # st \<Rightarrow> t = 512 \<and> v = 5 | _ \<Rightarrow> False"
      "case frames s 512 of Some f \<Rightarrow> caller f = 256 | None \<Rightarrow> False" by blast
  obtain st where st: "stack s = A_Body 512 (Co_return 5) # st"
    using s(3) by (auto split: list.splits activation.splits body.splits)
  obtain f where f: "frames s 512 = Some f" "caller f = 256" using s(4) by (auto split: option.splits)
  show ?thesis
    using result_reaches_caller [OF s(2) st f(1), of "Inr 5" 0] f(2) s(1) by (auto simp: noop_coroutine_def)
qed

text \<open>
  C34. A task that finishes without suspending is destroyed by the coroutine that awaits it,
  which goes on with the task's result at once. A result that is a value (not \<^verbatim>\<open>void\<close>, not an
  exception) is then read through a reference into the frame that was just destroyed.
\<close>

theorem inline_result_dangles:
  assumes "runtime_reach k s" "stack s = A_Transform h t g # st" "frames s t = Some f" "susp f = S_Final"
  shows "\<exists>s'. exec addr s = Inr s' \<and> stack s' = A_Body h (g (result f)) # st \<and> frames s' t = None \<and>
    dangling s' = dangling s @ (if is_void f \<or> isl (result f) then [] else [t])"
proof -
  have v: "view s t = Some (S_Final, caller f)" using assms(3,4) by (simp add: view_def)
  then have "caller f = 0" using rt_okD(8) [OF reach_rt(2) [OF assms(1)] v] by simp
  then show ?thesis using assms(2-4)
    by (simp add: exec_def transform_end_def task_done_def ms_await_resume_def run_body_def destroy_def)
qed

text \<open>\<open>caller_of_value\<close> awaits a task that returns 7 at once.\<close>

definition caller_of_value :: "(nat, nat) body" where
  "caller_of_value = Create False (Co_return 7) (\<lambda>t. Co_await_task t (\<lambda>r. Co_return 0))"

theorem inline_result_dangles_witness:
  "\<exists>s s' b st. core_run ([X_Create 256 True caller_of_value, X_Submit 256] @ ticks 4) blank_core = Inr s \<and>
    exec 0 s = Inr s' \<and> stack s' = A_Body 256 b # st \<and> frames s' 512 = None \<and> dangling s' = dangling s @ [512]"
proof -
  let ?cs = "[X_Create 256 True caller_of_value, X_Submit 256] @ ticks 4"
  have "run_test ?cs (\<lambda>s. (case stack s of A_Transform h t g # st \<Rightarrow> h = 256 \<and> t = 512 | _ \<Rightarrow> False) \<and>
      (case frames s 512 of Some f \<Rightarrow> (case susp f of S_Final \<Rightarrow> True | _ \<Rightarrow> False) \<and> result f = Inr 7 \<and> \<not> is_void f
       | None \<Rightarrow> False))"
    by code_simp
  from run_testD [OF this] obtain s where s: "core_run ?cs blank_core = Inr s" "runtime_reach 2 s"
      "case stack s of A_Transform h t g # st \<Rightarrow> h = 256 \<and> t = 512 | _ \<Rightarrow> False"
      "case frames s 512 of Some f \<Rightarrow> (case susp f of S_Final \<Rightarrow> True | _ \<Rightarrow> False) \<and> result f = Inr 7 \<and> \<not> is_void f
       | None \<Rightarrow> False" by blast
  obtain g st where st: "stack s = A_Transform 256 512 g # st" using s(3) by (auto split: list.splits activation.splits)
  obtain f where f: "frames s 512 = Some f" "susp f = S_Final" "result f = Inr 7" "\<not> is_void f"
    using s(4) by (auto split: option.splits susp.splits)
  show ?thesis using inline_result_dangles [OF s(2) st f(1,2), of 0] f(3,4) s(1) by auto
qed

text \<open>
  C37. Submitting a task to a scheduler whose ring is full reports success and loses the task:
  the result of the ring's \<^verbatim>\<open>enqueue\<close> is ignored, the task is not in the ring and stays
  suspended at its start, with the caller of a submitted task.
\<close>

theorem submit_to_full_ring_loses_task:
  assumes "runtime_reach k s" "fresh_task s t" "length (pending k s) = unat (capacity (queue s))"
  shows "\<exists>s'. sched_enqueue_task t s = Inr s' \<and> pending k s' = pending k s \<and> t \<notin> set (pending k s') \<and>
    dropped s' = dropped s @ [t] \<and> (\<exists>f b. frames s' t = Some f \<and> susp f = S_Initial b \<and> caller f = noop_coroutine)"
proof -
  obtain b where b: "view s t = Some (S_Initial b, 0)" using fresh_taskD [OF assms(2)] by blast
  then obtain f where f: "frames s t = Some f" "susp f = S_Initial b" by (auto simp: view_def)
  have "t \<notin> set (pending k s)" using rt_okD(11) [OF reach_rt(2) [OF assms(1)], of t] b by auto
  moreover have "sched_enqueue t s = Inr (s\<lparr>queue := queue s, dropped := dropped s @ [t]\<rparr>)"
    using sched_enqueue_spec [OF core_run_inv(1) [OF reach_rt(1) [OF assms(1)]], of t] assms(3) by auto
  ultimately show ?thesis using f by (simp add: sched_enqueue_task_def) (simp add: upd_frame_def)
qed

theorem submit_to_full_ring_loses_task_witness:
  "\<exists>s s'. core_run [X_Create 256 True (Co_return 0), X_Create 512 True (Co_return 0), X_Create 768 True (Co_return 0),
      X_Create 1024 True (Co_return 0), X_Submit 256, X_Submit 512, X_Submit 768] blank_core = Inr s \<and>
    sched_enqueue_task 1024 s = Inr s' \<and> pending 2 s' = [256, 512, 768] \<and> dropped s' = dropped s @ [1024]"
proof -
  let ?cs = "[X_Create 256 True (Co_return 0), X_Create 512 True (Co_return 0), X_Create 768 True (Co_return 0),
      X_Create 1024 True (Co_return 0), X_Submit 256, X_Submit 512, X_Submit 768]"
  have "run_test ?cs (\<lambda>s. pending 2 s = [256, 512, 768] \<and> capacity (queue s) = 3 \<and> fresh_task s 1024)"
    by code_simp
  from run_testD [OF this] obtain s where s: "core_run ?cs blank_core = Inr s" "runtime_reach 2 s"
      "pending 2 s = [256, 512, 768]" "capacity (queue s) = 3" "fresh_task s 1024" by blast
  show ?thesis using submit_to_full_ring_loses_task [OF s(2,5)] s by auto
qed

text \<open>
  Waking an awaker twice before its coroutine has run breaks the runtime: \<^verbatim>\<open>wake\<close> leaves
  \<^verbatim>\<open>handle_\<close> set until the coroutine resumes, so the coroutine is in the ring twice and is
  resumed once more after it has finished and its frame is gone.
\<close>

lemma double_wake_resumes_destroyed_frame:
  "legal_run 2 (waiting @ [X_Wake 0 4]) blank_core \<and>
   run_error (waiting @ [X_Wake 0 4] @ ticks 5) = None \<and>
   run_error (waiting @ [X_Wake 0 4, X_Wake 0 5] @ ticks 5) = Some Use_after_free"
  by code_simp

text \<open>
  A \<^verbatim>\<open>CheckableAwaker\<close> remembers a wake that comes before the await: the await does not
  suspend and yields the value. A plain \<^verbatim>\<open>Awaker\<close> forgets it and suspends until the next wake.
\<close>

lemma wake_before_await:
  assumes "aw_handle (awakers s a) = 0" "stack s = A_Body h b # st"
  shows "\<exists>s'. aw_wake a v s = Inr s' \<and>
    stack (await_awaker h a g s') = (if checkable (awakers s a) then A_Body h (g v) # st else st) \<and>
    aw_handle (awakers (await_awaker h a g s') a) = (if checkable (awakers s a) then 0 else h)"
  using assms
  by (auto simp: aw_wake_def await_awaker_def aw_await_ready_def aw_await_resume_def aw_await_suspend_def
      run_body_def suspend_def upd_awaker_def upd_frame_def Let_def)

lemma wake_before_await_witness:
  "\<exists>s'. aw_wake 1 9 (blank_core\<lparr>stack := [A_Body 256 (Co_return 0), A_Resumed]\<rparr>) = Inr s' \<and>
    stack (await_awaker 256 1 Co_return s') = [A_Body 256 (Co_return 9), A_Resumed]"
  using wake_before_await [of "blank_core\<lparr>stack := [A_Body 256 (Co_return 0), A_Resumed]\<rparr>" 1 256 "Co_return 0" "[A_Resumed]" 9 Co_return]
  by (auto simp: blank_core_def)

text \<open>
  \<^verbatim>\<open>stop\<close> ends \<^verbatim>\<open>run\<close> only after a resume: a loop on an empty ring keeps polling whether
  or not it was stopped, and a stopped scheduler returns as soon as the coroutine it resumed
  hands control back.
\<close>

lemma stop_takes_effect_after_a_resume:
  assumes "runtime_reach k s"
  shows "(stack s = [A_Loop] \<and> pending k s = [] \<longrightarrow> exec addr (sched_stop s) = Inr (sched_stop s)) \<and>
    (stack s = [A_Resumed] \<longrightarrow> exec addr (sched_stop s) = Inr ((sched_stop s)\<lparr>stack := []\<rparr>))"
proof -
  have "core_inv k (sched_stop s)" "pending k (sched_stop s) = pending k s"
    using reach_rt(1) [OF assms] by (simp_all add: core_inv_def sched_stop_def)
  then show ?thesis using loop_step_empty [of k "sched_stop s"] by (auto simp: exec_def sched_stop_def)
qed

end
