(* ===== verification/Pool_Interface.thy ===== *)
theory Pool_Interface
  imports Prelude
begin

text \<open>
  The contract that \<^verbatim>\<open>PoolAllocatable<T>\<close> (\<^verbatim>\<open>src/common/include/allocator.hpp\<close>)
  expects of the pool \<open>T\<close> it forwards to: \<^verbatim>\<open>operator new\<close> hands out a block that holds the
  request and overlaps no block still held, \<^verbatim>\<open>operator delete\<close> of a held block succeeds and
  gives up exactly that block. A pool may depend on an environment, the answers of the
  underlying heap. The client lemmas follow from the laws alone.
\<close>

text \<open>
  \<open>held\<close> maps a block's pointer to the bytes the client may use; \<open>addr\<close> gives the address of a
  pointer.
\<close>

definition apart :: "('p \<Rightarrow> nat) \<Rightarrow> 'p \<Rightarrow> nat \<Rightarrow> 'p \<Rightarrow> nat \<Rightarrow> bool" where
  "apart addr p m q n \<longleftrightarrow> addr p + m \<le> addr q \<or> addr q + n \<le> addr p"

lemma apart_commute: "apart addr p m q n \<longleftrightarrow> apart addr q n p m"
  by (auto simp: apart_def)

definition held_disjoint :: "('p \<Rightarrow> nat) \<Rightarrow> ('p \<rightharpoonup> nat) \<Rightarrow> bool" where
  "held_disjoint addr h \<longleftrightarrow> (\<forall>p q m n. h p = Some m \<and> h q = Some n \<and> p \<noteq> q \<longrightarrow> apart addr p m q n)"

datatype ('p, 'e) pool_op = New nat u64 'e | Delete nat 'p

text \<open>
  A run of a client: it deletes only blocks it holds, and the environment answers validly.
  \<open>pool_run\<close> collects the blocks handed out.
\<close>

fun pool_step :: "(nat \<Rightarrow> u64 \<Rightarrow> 'e \<Rightarrow> 's \<Rightarrow> 'r + 'p \<times> 's) \<Rightarrow> (nat \<Rightarrow> 'p \<Rightarrow> 's \<Rightarrow> 'r + 's) \<Rightarrow>
    ('p, 'e) pool_op \<Rightarrow> 's \<Rightarrow> 'r + 'p option \<times> 's" where
  "pool_step alloc dealloc (New t n e) s = bind_err (alloc t n e s) (\<lambda>(p, s'). Inr (Some p, s'))"
| "pool_step alloc dealloc (Delete t p) s = bind_err (dealloc t p s) (\<lambda>s'. Inr (None, s'))"

fun pool_run :: "(nat \<Rightarrow> u64 \<Rightarrow> 'e \<Rightarrow> 's \<Rightarrow> 'r + 'p \<times> 's) \<Rightarrow> (nat \<Rightarrow> 'p \<Rightarrow> 's \<Rightarrow> 'r + 's) \<Rightarrow>
    ('p, 'e) pool_op list \<Rightarrow> 's \<Rightarrow> 'r + 'p option list \<times> 's" where
  "pool_run alloc dealloc [] s = Inr ([], s)"
| "pool_run alloc dealloc (a # as) s =
     bind_err (pool_step alloc dealloc a s)
       (\<lambda>(r, s'). bind_err (pool_run alloc dealloc as s') (\<lambda>(rs, s''). Inr (r # rs, s'')))"

fun client_ok :: "('s \<Rightarrow> 'p \<rightharpoonup> nat) \<Rightarrow> (u64 \<Rightarrow> 'e \<Rightarrow> 's \<Rightarrow> bool) \<Rightarrow> ('p, 'e) pool_op \<Rightarrow> 's \<Rightarrow> bool" where
  "client_ok held valid (New t n e) s \<longleftrightarrow> valid n e s"
| "client_ok held valid (Delete t p) s \<longleftrightarrow> held s p \<noteq> None"

fun pool_ok :: "('s \<Rightarrow> 'p \<rightharpoonup> nat) \<Rightarrow> (u64 \<Rightarrow> 'e \<Rightarrow> 's \<Rightarrow> bool) \<Rightarrow>
    (nat \<Rightarrow> u64 \<Rightarrow> 'e \<Rightarrow> 's \<Rightarrow> 'r + 'p \<times> 's) \<Rightarrow> (nat \<Rightarrow> 'p \<Rightarrow> 's \<Rightarrow> 'r + 's) \<Rightarrow>
    ('p, 'e) pool_op list \<Rightarrow> 's \<Rightarrow> bool" where
  "pool_ok held valid alloc dealloc [] s = True"
| "pool_ok held valid alloc dealloc (a # as) s \<longleftrightarrow> client_ok held valid a s \<and>
     (case pool_step alloc dealloc a s of
        Inl e \<Rightarrow> True | Inr (r, s') \<Rightarrow> pool_ok held valid alloc dealloc as s')"

locale pool_allocator =
  fixes addr :: "'p \<Rightarrow> nat"
    and inv :: "'s \<Rightarrow> bool"
    and held :: "'s \<Rightarrow> 'p \<rightharpoonup> nat"
    and valid :: "u64 \<Rightarrow> 'e \<Rightarrow> 's \<Rightarrow> bool"
    and alloc :: "nat \<Rightarrow> u64 \<Rightarrow> 'e \<Rightarrow> 's \<Rightarrow> 'r + 'p \<times> 's"
    and dealloc :: "nat \<Rightarrow> 'p \<Rightarrow> 's \<Rightarrow> 'r + 's"
  assumes alloc_law: "\<And>t n e s. inv s \<Longrightarrow> valid n e s \<Longrightarrow>
      \<exists>p s' c. alloc t n e s = Inr (p, s') \<and> inv s' \<and> held s p = None \<and> held s' = (held s)(p \<mapsto> c) \<and>
        unat n \<le> c \<and> (\<forall>q m. held s q = Some m \<longrightarrow> apart addr p c q m)"
    and dealloc_law: "\<And>t p c s. inv s \<Longrightarrow> held s p = Some c \<Longrightarrow>
      \<exists>s'. dealloc t p s = Inr s' \<and> inv s' \<and> held s' = (held s)(p := None)"
begin

lemma step_safe:
  assumes "inv s" "held_disjoint addr (held s)" "client_ok held valid a s"
  shows "\<exists>r s'. pool_step alloc dealloc a s = Inr (r, s') \<and> inv s' \<and> held_disjoint addr (held s')"
proof (cases a)
  case (New t n e)
  then obtain p s' c where "alloc t n e s = Inr (p, s')" "inv s'" "held s' = (held s)(p \<mapsto> c)"
      "\<forall>q m. held s q = Some m \<longrightarrow> apart addr p c q m"
    using alloc_law [of s n e t] assms(1,3) by auto
  moreover from this have "held_disjoint addr (held s')"
    using assms(2) unfolding held_disjoint_def by (auto simp: apart_commute)
  ultimately show ?thesis using New by auto
next
  case (Delete t p)
  then obtain c where "held s p = Some c" using assms(3) by auto
  from dealloc_law [OF assms(1) this, of t] show ?thesis
    using assms(2) Delete by (fastforce simp: held_disjoint_def split: if_splits)
qed

lemma run_safe:
  assumes "inv s" "held_disjoint addr (held s)" "pool_ok held valid alloc dealloc as s"
  shows "\<exists>rs s'. pool_run alloc dealloc as s = Inr (rs, s') \<and> inv s' \<and> held_disjoint addr (held s')"
  using assms
proof (induction "as" arbitrary: s)
  case (Cons a as)
  then obtain r s' where s': "pool_step alloc dealloc a s = Inr (r, s')" "inv s'" "held_disjoint addr (held s')"
    using step_safe [of s a] by auto
  moreover have "pool_ok held valid alloc dealloc as s'" using Cons.prems(3) s'(1) by auto
  ultimately obtain rs s'' where "pool_run alloc dealloc as s' = Inr (rs, s'')" "inv s''" "held_disjoint addr (held s'')"
    using Cons.IH [of s'] by auto
  then show ?case using s'(1) by auto
qed auto

end

end
