(* ===== verification/Slab.thy ===== *)
theory Slab
  imports Pool_Interface
begin

text \<open>
  \<^verbatim>\<open>SlabPoolAllocator\<close> (\<^verbatim>\<open>src/common/include/allocator.hpp\<close>), the allocator of coroutine
  frames: one stack of free blocks per thread and size class in front of \<^verbatim>\<open>::operator new\<close>,
  with an eight byte header before each block that records its class.

  The global heap behind it is the map \<open>live\<close> from the address of a block of
  \<^verbatim>\<open>::operator new\<close> to its size. Each allocation takes the answer of \<^verbatim>\<open>::operator new\<close> as
  an argument: an address, or \<open>None\<close> when it throws. The model is of the build with
  assertions (\<^verbatim>\<open>NDEBUG\<close> unset).
\<close>

subsection \<open>Size classes\<close>

definition MAX_CLASS_SHIFT :: nat where "MAX_CLASS_SHIFT = 9"
definition MAX_FRAME_SIZE :: u64 where "MAX_FRAME_SIZE = push_bit 10 4"
definition BASE_SHIFT :: nat where "BASE_SHIFT = 3"
definition BASE_SIZE :: u64 where "BASE_SIZE = push_bit BASE_SHIFT 1"
definition SLAB_OVERHEAD :: u64 where "SLAB_OVERHEAD = 8"
definition SLAB_MAGIC :: "16 word" where "SLAB_MAGIC = 0b1010101001010101"
definition LOOKUP_MAX_CLASS :: u32 where "LOOKUP_MAX_CLASS = ucast (drop_bit BASE_SHIFT MAX_FRAME_SIZE)"

definition ROUNDUP :: "u64 \<Rightarrow> u64 \<Rightarrow> u64" where
  "ROUNDUP x v = ((NOT x + 1) AND (v - 1)) + x"

definition roundup :: "u64 \<Rightarrow> u64" where
  "roundup sz = ROUNDUP sz BASE_SIZE"

definition size2ind :: "u64 \<Rightarrow> u32" where
  "size2ind sz = ucast (drop_bit BASE_SHIFT sz)"

lemma slab_constants [simp]:
  "LOOKUP_MAX_CLASS = 512" "BASE_SIZE = 8" "SLAB_OVERHEAD = 8"
  by (simp_all add: LOOKUP_MAX_CLASS_def BASE_SHIFT_def MAX_FRAME_SIZE_def BASE_SIZE_def SLAB_OVERHEAD_def)

text \<open>The two static assertions of the class.\<close>

lemma slab_static_asserts: "push_bit MAX_CLASS_SHIFT 1 = LOOKUP_MAX_CLASS"
  by (simp add: MAX_CLASS_SHIFT_def)

lemma up8: "n \<le> 8 * K \<Longrightarrow> (8 * K - n) mod 8 + n = 8 * ((n + 7) div 8)" for n K :: nat
proof -
  assume le: "n \<le> 8 * K"
  define q r where "q = n div 8" and "r = n mod 8"
  then have n: "n = 8 * q + r" "r < 8" by simp_all
  show ?thesis
  proof (cases "r = 0")
    case True
    then show ?thesis using n le by (simp flip: diff_mult_distrib2)
  next
    case False
    then have "Suc q \<le> K" using n le by linarith
    then have "8 * K - n = (8 - r) + (K - Suc q) * 8" using n by (simp add: diff_mult_distrib)
    then have "(8 * K - n) mod 8 = (8 - r) mod 8" by (simp only: mod_mult_self1)
    moreover have "(n + 7) div 8 = Suc q" using False n by (simp add: div_nat_eqI)
    ultimately show ?thesis using False n by simp
  qed
qed

lemma unat_roundup:
  assumes "unat n + 7 < 18446744073709551616"
  shows "unat (roundup n) = 8 * ((unat n + 7) div 8)"
proof -
  have seven: "unat (7 :: u64) = 2 ^ 3 - 1" by simp
  have m: "unat ((NOT n + 1) AND 7) = unat (- n) mod 8"
    by (simp add: minus_eq_not_plus_1 unat_and_mask [OF seven])
  have neg: "unat (- n) = (if unat n = 0 then 0 else 18446744073709551616 - unat n)"
    using unat_sub_if_size [of 0 n] by (simp add: word_size)
  have bound: "unat n < 18446744073709551616" by (rule unat_u64_lt)
  have sum: "unat (- n) mod 8 + unat n = 8 * ((unat n + 7) div 8)"
    using up8 [of "unat n" 2305843009213693952] bound by (simp add: neg del: unat_u64_lt)
  have "unat (roundup n) = (unat (- n) mod 8 + unat n) mod 18446744073709551616"
    by (simp add: roundup_def ROUNDUP_def unat_word_ariths m)
  moreover have "8 * ((unat n + 7) div 8) < 18446744073709551616" using assms by linarith
  ultimately show ?thesis unfolding sum by (simp only: mod_less)
qed

lemma unat_size2ind:
  "unat m < 34359738368 \<Longrightarrow> unat (size2ind m) = unat m div 8"
  by (simp add: size2ind_def BASE_SHIFT_def unat_drop_bit_eq drop_bit_eq_div unsigned_ucast_eq take_bit_eq_mod unat_div_distrib less_mult_imp_div_less)

subsection \<open>State\<close>

record SlabHeader =
  ind_field :: "10 word"
  magic_field :: "16 word"

record slab =
  tcache :: "nat \<Rightarrow> u64 list list"
  hdr :: "u64 \<rightharpoonup> SlabHeader"
  live :: "u64 \<rightharpoonup> u64"

text \<open>
  \<open>Terminate\<close> is \<^verbatim>\<open>std::terminate\<close>, reached when an exception leaves a \<^verbatim>\<open>noexcept\<close>
  function; \<open>Bad_header\<close> a read of a header that was never written.
\<close>

datatype slab_error = Terminate | Assert_failed | Bad_header | Bad_alloc

definition ptr2header :: "u64 \<Rightarrow> u64" where
  "ptr2header ptr = ptr - SLAB_OVERHEAD"

subsection \<open>Operations\<close>

definition slab_alloc :: "nat \<Rightarrow> u64 \<Rightarrow> u64 option \<Rightarrow> slab \<Rightarrow> slab_error + u64 \<times> slab" where
  "slab_alloc t sz raw s =
     (let rsize = roundup sz; ind = size2ind rsize in
      if ind < LOOKUP_MAX_CLASS \<and> tcache s t ! unat ind \<noteq> [] then
        let ptr = hd (tcache s t ! unat ind) in
        Inr (ptr, s\<lparr>tcache := (tcache s)(t := (tcache s t)[unat ind := tl (tcache s t ! unat ind)])\<rparr>)
      else
        (case raw of
           None \<Rightarrow> Inl Terminate
         | Some a \<Rightarrow>
             let ptr = a + SLAB_OVERHEAD;
                 header = \<lparr>ind_field = ucast (min ind LOOKUP_MAX_CLASS), magic_field = SLAB_MAGIC\<rparr>
             in Inr (ptr, s\<lparr>hdr := (hdr s)(ptr2header ptr \<mapsto> header),
                            live := (live s)(a \<mapsto> rsize + SLAB_OVERHEAD)\<rparr>)))"

definition slab_dealloc :: "nat \<Rightarrow> u64 \<Rightarrow> slab \<Rightarrow> slab_error + slab" where
  "slab_dealloc t ptr s =
     (case hdr s (ptr2header ptr) of
        None \<Rightarrow> Inl Bad_header
      | Some header \<Rightarrow>
          if magic_field header \<noteq> SLAB_MAGIC then Inl Assert_failed
          else let ind = ind_field header in
            if ucast ind < LOOKUP_MAX_CLASS then
              Inr (s\<lparr>tcache := (tcache s)(t := (tcache s t)[unat ind := ptr # tcache s t ! unat ind])\<rparr>)
            else
              Inr (s\<lparr>hdr := (hdr s)(ptr2header ptr := None), live := (live s)(ptr2header ptr := None)\<rparr>))"

text \<open>
  \<^verbatim>\<open>operator new\<close> checks for a null pointer and throws \<^verbatim>\<open>std::bad_alloc\<close>; the variant with
  \<^verbatim>\<open>std::nothrow\<close> returns what \<^verbatim>\<open>slab_alloc\<close> returns.
\<close>

definition slab_operator_new :: "nat \<Rightarrow> u64 \<Rightarrow> u64 option \<Rightarrow> slab \<Rightarrow> slab_error + u64 \<times> slab" where
  "slab_operator_new t sz raw s =
     bind_err (slab_alloc t sz raw s) (\<lambda>(ptr, s'). if ptr = 0 then Inl Bad_alloc else Inr (ptr, s'))"

definition slab_operator_new_nothrow :: "nat \<Rightarrow> u64 \<Rightarrow> u64 option \<Rightarrow> slab \<Rightarrow> slab_error + u64 \<times> slab" where
  "slab_operator_new_nothrow t sz raw s = slab_alloc t sz raw s"

definition slab_operator_delete :: "nat \<Rightarrow> u64 \<Rightarrow> slab \<Rightarrow> slab_error + slab" where
  "slab_operator_delete t ptr s = slab_dealloc t ptr s"

subsection \<open>Invariant\<close>

text \<open>
  A block of \<^verbatim>\<open>::operator new\<close> is not at address zero, does not wrap and overlaps no other.
  Every block has its header, and a cached block's header names the class it is cached in;
  a cached block is in one stack once.
\<close>

definition block_ok :: "u64 \<Rightarrow> u64 \<Rightarrow> bool" where
  "block_ok a n \<longleftrightarrow> a \<noteq> 0 \<and> 8 \<le> unat n \<and> unat a + unat n < 2 ^ 64"

definition heap_ok :: "(u64 \<rightharpoonup> u64) \<Rightarrow> bool" where
  "heap_ok l \<longleftrightarrow>
     (\<forall>a n. l a = Some n \<longrightarrow> block_ok a n) \<and>
     (\<forall>a b m n. l a = Some m \<and> l b = Some n \<and> a \<noteq> b \<longrightarrow> apart unat a (unat m) b (unat n))"

definition header_ok :: "u64 \<Rightarrow> SlabHeader \<Rightarrow> bool" where
  "header_ok n h \<longleftrightarrow>
     magic_field h = SLAB_MAGIC \<and> (unat (ind_field h) < 512 \<longrightarrow> 8 * unat (ind_field h) + 8 \<le> unat n)"

definition cached :: "slab \<Rightarrow> nat \<Rightarrow> nat \<Rightarrow> u64 \<Rightarrow> bool" where
  "cached s t i p \<longleftrightarrow> i < 512 \<and> p \<in> set (tcache s t ! i)"

definition slab_inv :: "slab \<Rightarrow> bool" where
  "slab_inv s \<longleftrightarrow>
     heap_ok (live s) \<and>
     (\<forall>a n. live s a = Some n \<longrightarrow> (\<exists>h. hdr s a = Some h \<and> header_ok n h)) \<and>
     (\<forall>t. length (tcache s t) = 512) \<and>
     (\<forall>t i. i < 512 \<longrightarrow> distinct (tcache s t ! i)) \<and>
     (\<forall>t i p. cached s t i p \<longrightarrow>
        live s (ptr2header p) \<noteq> None \<and> (\<exists>h. hdr s (ptr2header p) = Some h \<and> unat (ind_field h) = i)) \<and>
     (\<forall>t u i p. cached s t i p \<and> cached s u i p \<longrightarrow> t = u)"

text \<open>The client's view: the blocks of the heap that are in no stack, less their header.\<close>

definition held :: "slab \<Rightarrow> u64 \<rightharpoonup> nat" where
  "held s p =
     (if \<exists>t i. cached s t i p then None else map_option (\<lambda>n. unat n - 8) (live s (ptr2header p)))"

text \<open>
  What \<^verbatim>\<open>::operator new\<close> guarantees: a fresh block. The size must keep its class within 32
  bits.
\<close>

definition slab_valid :: "u64 \<Rightarrow> u64 option \<Rightarrow> slab \<Rightarrow> bool" where
  "slab_valid sz raw s \<longleftrightarrow> unat sz \<le> 34359738360 \<and>
     (\<exists>a. raw = Some a \<and> block_ok a (roundup sz + SLAB_OVERHEAD) \<and>
       (\<forall>b n. live s b = Some n \<longrightarrow> apart unat a (unat (roundup sz + SLAB_OVERHEAD)) b (unat n)))"

lemma ptr2header_inject [simp]: "ptr2header p = ptr2header q \<longleftrightarrow> p = q"
  by (simp add: ptr2header_def)

lemma ptr2header_add [simp]: "ptr2header (a + 8) = a"
  by (simp add: ptr2header_def)

lemma ptr2header_eq: "ptr2header p = a \<longleftrightarrow> p = a + 8"
  by (auto simp: ptr2header_def)

lemma unat_ptr:
  assumes "block_ok (ptr2header p) n"
  shows "unat p = unat (ptr2header p) + 8"
proof -
  have "unat (ptr2header p + 8) = unat (ptr2header p) + 8"
    using assms by (subst unat_word_ariths) (simp add: block_ok_def)
  then show ?thesis by (simp add: ptr2header_def)
qed

lemma apart_ptr:
  assumes "block_ok (ptr2header p) m" "block_ok (ptr2header q) n"
    "apart unat (ptr2header p) (unat m) (ptr2header q) (unat n)"
  shows "apart unat p (unat m - 8) q (unat n - 8)"
  using assms unat_ptr [OF assms(1)] unat_ptr [OF assms(2)] by (auto simp: apart_def block_ok_def)

lemma slab_invD:
  assumes "slab_inv s"
  shows "heap_ok (live s)" "live s a = Some n \<Longrightarrow> \<exists>h. hdr s a = Some h \<and> header_ok n h"
    "length (tcache s t) = 512" "i < 512 \<Longrightarrow> distinct (tcache s t ! i)"
    "cached s t i p \<Longrightarrow> \<exists>n. live s (ptr2header p) = Some n"
    "cached s t i p \<Longrightarrow> \<exists>h. hdr s (ptr2header p) = Some h \<and> unat (ind_field h) = i"
    "cached s t i p \<Longrightarrow> cached s u j p \<Longrightarrow> t = u \<and> i = j"
proof -
  have i: "i = j" if "cached s t i p" "cached s u j p"
    using assms that unfolding slab_inv_def by (metis option.inject)
  then show "cached s t i p \<Longrightarrow> cached s u j p \<Longrightarrow> t = u \<and> i = j"
    using assms unfolding slab_inv_def by blast
qed (use assms in \<open>auto simp: slab_inv_def\<close>)

lemma heap_okD:
  assumes "heap_ok l"
  shows "l a = Some n \<Longrightarrow> block_ok a n" "l a = Some m \<Longrightarrow> l b = Some n \<Longrightarrow> a \<noteq> b \<Longrightarrow> apart unat a (unat m) b (unat n)"
  using assms by (auto simp: heap_ok_def)

lemma held_Some: "held s p = Some c \<longleftrightarrow>
    (\<forall>t i. \<not> cached s t i p) \<and> (\<exists>n. live s (ptr2header p) = Some n \<and> c = unat n - 8)"
  by (auto simp: held_def)

lemma live_apart:
  assumes "heap_ok (live s)" "live s (ptr2header p) = Some n" "held s q = Some m" "p \<noteq> q"
  shows "apart unat p (unat n - 8) q m"
proof -
  obtain k where k: "live s (ptr2header q) = Some k" "m = unat k - 8" using assms(3) by (auto simp: held_Some)
  show ?thesis
    using heap_okD(1) [OF assms(1)] heap_okD(2) [OF assms(1,2) k(1)] assms(2,4) k
    by (auto intro: apart_ptr)
qed

text \<open>Popping a block moves it from the stack to the client.\<close>

definition pop :: "nat \<Rightarrow> nat \<Rightarrow> slab \<Rightarrow> slab" where
  "pop t i s = s\<lparr>tcache := (tcache s)(t := (tcache s t)[i := tl (tcache s t ! i)])\<rparr>"

definition push :: "nat \<Rightarrow> nat \<Rightarrow> u64 \<Rightarrow> slab \<Rightarrow> slab" where
  "push t i p s = s\<lparr>tcache := (tcache s)(t := (tcache s t)[i := p # tcache s t ! i])\<rparr>"

lemma cached_pop:
  assumes "slab_inv s" "i < 512" "tcache s t ! i = p # ps"
  shows "cached (pop t i s) u j q \<longleftrightarrow> cached s u j q \<and> q \<noteq> p"
proof -
  have p: "cached s t i p" using assms by (simp add: cached_def)
  have "distinct (p # ps)" using slab_invD(4) [OF assms(1,2), of t] assms(3) by simp
  then show ?thesis using assms slab_invD(3) [OF assms(1), of t] slab_invD(7) [OF assms(1) p, of u j]
    by (auto simp: pop_def cached_def nth_list_update split: if_splits)
qed

lemma pop_inv:
  assumes inv: "slab_inv s" and i: "i < 512" and c: "tcache s t ! i = p # ps"
  shows "slab_inv (pop t i s)"
    "\<exists>n. live s (ptr2header p) = Some n \<and> 8 * i \<le> unat n - 8 \<and> held (pop t i s) = (held s)(p \<mapsto> unat n - 8)"
proof -
  note d = slab_invD [OF inv] and cp = cached_pop [OF inv i c]
  have p: "cached s t i p" using i c by (simp add: cached_def)
  obtain n h where n: "live s (ptr2header p) = Some n" "hdr s (ptr2header p) = Some h"
      "unat (ind_field h) = i" "header_ok n h"
    using d(2,5,6) p by (metis option.inject)
  have "distinct ((tcache (pop t i s)) u ! j)" if "j < 512" for u j
    using d(3) [of t] d(4) [OF that, of u] i by (auto simp: pop_def nth_list_update distinct_tl)
  moreover have "length (tcache (pop t i s) u) = 512" for u using d(3) by (simp add: pop_def)
  moreover have "live (pop t i s) = live s" "hdr (pop t i s) = hdr s" by (simp_all add: pop_def)
  ultimately show "slab_inv (pop t i s)"
    unfolding slab_inv_def cp using d(1,2,5,6,7) by auto
  have "held (pop t i s) q = ((held s)(p \<mapsto> unat n - 8)) q" for q
    using cp n(1) by (auto simp: held_def pop_def)
  then show "\<exists>n. live s (ptr2header p) = Some n \<and> 8 * i \<le> unat n - 8 \<and> held (pop t i s) = (held s)(p \<mapsto> unat n - 8)"
    using n i by (auto simp: header_ok_def)
qed

lemma cached_push:
  "length (tcache s t) = 512 \<Longrightarrow> i < 512 \<Longrightarrow>
     cached (push t i p s) u j q \<longleftrightarrow> cached s u j q \<or> (u = t \<and> j = i \<and> q = p)"
  by (auto simp: push_def cached_def nth_list_update)

lemma push_inv:
  assumes inv: "slab_inv s" and p: "held s p = Some c"
    and h: "hdr s (ptr2header p) = Some h" "unat (ind_field h) = i" "i < 512"
  shows "slab_inv (push t i p s)" "held (push t i p s) = (held s)(p := None)"
proof -
  note d = slab_invD [OF inv] and cp = cached_push [OF slab_invD(3) [OF inv] h(3)]
  obtain n where n: "live s (ptr2header p) = Some n" "\<And>t i. \<not> cached s t i p" using p by (auto simp: held_Some)
  have "distinct (tcache (push t i p s) u ! j)" if "j < 512" for u j
    using d(3) [of t] d(4) [OF that, of u] n(2) [of t i] h(3)
    by (auto simp: push_def nth_list_update cached_def)
  moreover have "length (tcache (push t i p s) u) = 512" for u using d(3) by (simp add: push_def)
  moreover have "live (push t i p s) = live s" "hdr (push t i p s) = hdr s" by (simp_all add: push_def)
  ultimately show "slab_inv (push t i p s)"
    unfolding slab_inv_def cp using d(1,2,5,6,7) n h by auto
  have "held (push t i p s) q = ((held s)(p := None)) q" for q
    using cp by (auto simp: held_def push_def)
  then show "held (push t i p s) = (held s)(p := None)" by auto
qed

text \<open>Blocks of \<^verbatim>\<open>::operator new\<close> that enter and leave the heap.\<close>

definition add_block :: "u64 \<Rightarrow> u64 \<Rightarrow> SlabHeader \<Rightarrow> slab \<Rightarrow> slab" where
  "add_block a n h s = s\<lparr>hdr := (hdr s)(a \<mapsto> h), live := (live s)(a \<mapsto> n)\<rparr>"

definition drop_block :: "u64 \<Rightarrow> slab \<Rightarrow> slab" where
  "drop_block a s = s\<lparr>hdr := (hdr s)(a := None), live := (live s)(a := None)\<rparr>"

lemma cached_blocks [simp]:
  "cached (add_block a n h s) = cached s" "cached (drop_block a s) = cached s"
  "live (add_block a n h s) = (live s)(a \<mapsto> n)" "live (drop_block a s) = (live s)(a := None)"
  by (simp_all add: fun_eq_iff cached_def add_block_def drop_block_def)

lemma add_block_inv:
  assumes inv: "slab_inv s" and a: "block_ok a n" "\<And>b m. live s b = Some m \<Longrightarrow> apart unat a (unat n) b (unat m)"
    and h: "header_ok n h"
  shows "slab_inv (add_block a n h s)" "held s (a + 8) = None"
    "held (add_block a n h s) = (held s)(a + 8 \<mapsto> unat n - 8)"
proof -
  note d = slab_invD [OF inv]
  have new: "live s a = None"
  proof (cases "live s a")
    case (Some m)
    then show ?thesis using a heap_okD(1) [OF d(1) Some] by (auto simp: apart_def block_ok_def dest: a(2))
  qed
  then have nc: "\<not> cached s t i (a + 8)" for t i using d(5) [of t i "a + 8"] by auto
  then have ne: "ptr2header q \<noteq> a" if "cached s t i q" for t i q using that by (auto simp: ptr2header_eq)
  have "heap_ok ((live s)(a \<mapsto> n))"
    using d(1) a unfolding heap_ok_def by (auto simp: apart_commute)
  then show "slab_inv (add_block a n h s)"
    unfolding slab_inv_def cached_blocks using d h ne by (auto simp: add_block_def)
  show "held s (a + 8) = None" using new by (simp add: held_def)
  show "held (add_block a n h s) = (held s)(a + 8 \<mapsto> unat n - 8)"
    using nc by (intro ext) (auto simp: held_def ptr2header_eq)
qed

lemma drop_block_inv:
  assumes inv: "slab_inv s" and p: "held s p = Some c"
  shows "slab_inv (drop_block (ptr2header p) s)" "held (drop_block (ptr2header p) s) = (held s)(p := None)"
proof -
  note d = slab_invD [OF inv]
  have nc: "\<not> cached s t i p" for t i using p by (simp add: held_Some)
  then have ne: "ptr2header q \<noteq> ptr2header p" if "cached s t i q" for t i q using that by auto
  have "heap_ok ((live s)(ptr2header p := None))" using d(1) unfolding heap_ok_def by auto
  then show "slab_inv (drop_block (ptr2header p) s)"
    unfolding slab_inv_def cached_blocks using d ne by (auto simp: drop_block_def)
  show "held (drop_block (ptr2header p) s) = (held s)(p := None)"
    by (intro ext) (auto simp: held_def)
qed

subsection \<open>The pool contract\<close>

lemma slab_size:
  assumes "unat sz \<le> 34359738360"
  shows "unat sz \<le> unat (roundup sz)" "8 * unat (size2ind (roundup sz)) = unat (roundup sz)"
    "unat (roundup sz + 8) = unat (roundup sz) + 8"
proof -
  have r: "unat (roundup sz) = 8 * ((unat sz + 7) div 8)" using assms by (intro unat_roundup) simp
  have lt: "8 * ((unat sz + 7) div 8) < 34359738368" using assms by linarith
  show "unat sz \<le> unat (roundup sz)" unfolding r by linarith
  show "8 * unat (size2ind (roundup sz)) = unat (roundup sz)"
    using unat_size2ind [of "roundup sz"] lt by (simp add: r)
  show "unat (roundup sz + 8) = unat (roundup sz) + 8"
    using lt by (subst unat_word_ariths) (simp add: r)
qed

lemma unat_ind_field: "unat (ucast (min ind 512 :: u32) :: 10 word) = min (unat ind) 512"
proof -
  have "unat (min ind 512) = min (unat ind) 512" by (auto simp: min_def word_le_nat_alt)
  moreover have "min (unat ind) 512 < 1024" by simp
  ultimately show ?thesis by (simp add: unsigned_ucast_eq take_bit_eq_mod)
qed

lemma slab_alloc_hit:
  "unat (size2ind (roundup sz)) < 512 \<Longrightarrow> tcache s t ! unat (size2ind (roundup sz)) = p # ps \<Longrightarrow>
     slab_alloc t sz raw s = Inr (p, pop t (unat (size2ind (roundup sz))) s)"
  by (simp add: slab_alloc_def Let_def word_less_nat_alt pop_def)

lemma slab_alloc_miss:
  "\<not> (unat (size2ind (roundup sz)) < 512 \<and> tcache s t ! unat (size2ind (roundup sz)) \<noteq> []) \<Longrightarrow>
     slab_alloc t sz (Some a) s = Inr (a + 8, add_block a (roundup sz + 8)
       \<lparr>ind_field = ucast (min (size2ind (roundup sz)) 512), magic_field = SLAB_MAGIC\<rparr> s)"
  by (auto simp: slab_alloc_def Let_def word_less_nat_alt add_block_def)

lemma slab_dealloc_cases:
  assumes "hdr s (ptr2header p) = Some h" "magic_field h = SLAB_MAGIC"
  shows "slab_dealloc t p s = Inr (if unat (ind_field h) < 512 then push t (unat (ind_field h)) p s
    else drop_block (ptr2header p) s)"
proof -
  have "unat (ind_field h) < 1024" using unsigned_less [of "ind_field h"] by simp
  then have "(ucast (ind_field h) :: u32) < 512 \<longleftrightarrow> unat (ind_field h) < 512"
    by (simp add: word_less_nat_alt unsigned_ucast_eq take_bit_eq_mod)
  then show ?thesis using assms by (simp add: slab_dealloc_def Let_def push_def drop_block_def)
qed

interpretation slab_pool: pool_allocator unat slab_inv held slab_valid slab_alloc slab_dealloc
proof
  fix t sz raw s assume inv: "slab_inv s" and v: "slab_valid sz raw s"
  obtain a where a: "raw = Some a" "block_ok a (roundup sz + 8)" "unat sz \<le> 34359738360"
      "\<And>b n. live s b = Some n \<Longrightarrow> apart unat a (unat (roundup sz + 8)) b (unat n)"
    using v by (auto simp: slab_valid_def)
  note sz = slab_size [OF a(3)] and heap = slab_invD(1) [OF inv]
  let ?i = "unat (size2ind (roundup sz))"
  show "\<exists>p s' c. slab_alloc t sz raw s = Inr (p, s') \<and> slab_inv s' \<and> held s p = None \<and>
      held s' = (held s)(p \<mapsto> c) \<and> unat sz \<le> c \<and> (\<forall>q m. held s q = Some m \<longrightarrow> apart unat p c q m)"
  proof (cases "?i < 512 \<and> tcache s t ! ?i \<noteq> []")
    case True
    then obtain p ps where p: "tcache s t ! ?i = p # ps" by (auto simp: neq_Nil_conv)
    obtain n where n: "live s (ptr2header p) = Some n" "8 * ?i \<le> unat n - 8" "held (pop t ?i s) = (held s)(p \<mapsto> unat n - 8)"
      using pop_inv(2) [OF inv _ p] True by blast
    have "cached s t ?i p" using True p by (simp add: cached_def)
    then have none: "held s p = None" by (auto simp: held_def)
    then have "apart unat p (unat n - 8) q m" if "held s q = Some m" for q m
      using live_apart [OF heap n(1) that] that by force
    then show ?thesis
      using slab_alloc_hit [OF _ p, of raw] pop_inv(1) [OF inv _ p] n sz none True
      by (intro exI [of _ p] exI [of _ "pop t ?i s"] exI [of _ "unat n - 8"]) simp
  next
    case False
    let ?h = "\<lparr>ind_field = ucast (min (size2ind (roundup sz)) 512), magic_field = SLAB_MAGIC\<rparr>"
    let ?n = "roundup sz + 8"
    have "header_ok ?n ?h" using sz by (auto simp: header_ok_def unat_ind_field)
    note ab = add_block_inv [OF inv a(2,4) this]
    have "apart unat (a + 8) (unat ?n - 8) q m" if "held s q = Some m" for q m
    proof -
      have "held (add_block a ?n ?h s) q = Some m" using ab(2,3) that by auto
      then show ?thesis
        using live_apart [OF slab_invD(1) [OF ab(1)], of "a + 8" ?n q m] ab(2) that by fastforce
    qed
    then show ?thesis using slab_alloc_miss [OF False] ab sz a(1)
      by (intro exI [of _ "a + 8"] exI [of _ "add_block a ?n ?h s"] exI [of _ "unat ?n - 8"]) simp
  qed
next
  fix t p c s assume inv: "slab_inv s" and p: "held s p = Some c"
  then obtain n h where h: "hdr s (ptr2header p) = Some h" "header_ok n h"
    using slab_invD(2) [OF inv] by (auto simp: held_Some) blast
  then show "\<exists>s'. slab_dealloc t p s = Inr s' \<and> slab_inv s' \<and> held s' = (held s)(p := None)"
    using slab_dealloc_cases [OF h(1)] push_inv [OF inv p h(1)] drop_block_inv [OF inv p]
    by (simp add: header_ok_def)
qed

subsection \<open>Properties\<close>

definition slab_init :: slab where
  "slab_init = \<lparr>tcache = (\<lambda>_. replicate 512 []), hdr = Map.empty, live = Map.empty\<rparr>"

lemma slab_init_inv: "slab_inv slab_init" "held slab_init = Map.empty"
  by (auto simp: slab_init_def slab_inv_def heap_ok_def cached_def held_def fun_eq_iff)

text \<open>
  C5. Any sequence of allocations and deallocations by any number of threads succeeds and
  keeps the blocks the clients hold pairwise disjoint, as long as clients delete blocks they
  hold (in any thread), \<^verbatim>\<open>::operator new\<close> answers with fresh blocks and no request exceeds
  32 GiB.
\<close>

theorem slab_blocks_disjoint:
  assumes "pool_ok held slab_valid slab_alloc slab_dealloc as slab_init"
  shows "\<exists>rs s. pool_run slab_alloc slab_dealloc as slab_init = Inr (rs, s) \<and> slab_inv s \<and> held_disjoint unat (held s)"
  using slab_pool.run_safe [OF slab_init_inv(1) _ assms] by (simp add: slab_init_inv held_disjoint_def)

text \<open>Four requests by two threads, with a block passed from one thread to the other.\<close>

theorem slab_blocks_disjoint_witness:
  "\<exists>rs s. pool_run slab_alloc slab_dealloc
      [New 0 100 (Some 4096), New 1 20 (Some 8192), Delete 1 4104, New 1 97 (Some 12288)] slab_init = Inr (rs, s) \<and>
    rs = [Some 4104, Some 8200, None, Some 4104] \<and> held_disjoint unat (held s)"
proof -
  let ?as = "[New 0 100 (Some 4096), New 1 20 (Some 8192), Delete 1 4104, New 1 97 (Some 12288)]"
  have eq: "roundup 100 = 104" "roundup 20 = 24" "roundup 97 = 104"
      "size2ind 104 = 13" "size2ind 24 = 3"
    by (simp_all add: roundup_def ROUNDUP_def size2ind_def BASE_SHIFT_def)
  note defs = slab_init_def slab_alloc_def slab_dealloc_def ptr2header_def Let_def eq
  have "pool_ok held slab_valid slab_alloc slab_dealloc ?as slab_init"
    by (simp add: defs) (auto simp: slab_valid_def block_ok_def apart_def held_def cached_def defs split: if_splits)
  from slab_blocks_disjoint [OF this] show ?thesis by (simp add: defs)
qed

lemma slab_alloc_header:
  assumes "slab_inv s" "slab_alloc t sz raw s = Inr (p, s')" "unat (size2ind (roundup sz)) < 512"
  shows "\<exists>h. hdr s' (ptr2header p) = Some h \<and> ind_field h = ucast (size2ind (roundup sz)) \<and>
    magic_field h = SLAB_MAGIC \<and> (\<forall>t. length (tcache s' t) = 512)"
proof (cases "tcache s t ! unat (size2ind (roundup sz)) = []")
  case True
  then obtain a where "raw = Some a" using assms(2) by (cases raw) (auto simp: slab_alloc_def Let_def)
  then show ?thesis
    using slab_alloc_miss [of sz s t a] True assms slab_invD(3) [OF assms(1)]
    by (auto simp: add_block_def min_def word_le_nat_alt)
next
  case False
  let ?i = "unat (size2ind (roundup sz))"
  from False obtain q ps where ps: "tcache s t ! ?i = q # ps" by (auto simp: neq_Nil_conv)
  then have "p = q" and s': "s' = pop t ?i s" using assms(2) slab_alloc_hit [OF assms(3) ps, of raw] by simp_all
  then have c: "cached s t ?i p" using assms(3) ps by (simp add: cached_def)
  obtain n h where h: "hdr s (ptr2header p) = Some h" "unat (ind_field h) = ?i" "header_ok n h"
    using slab_invD(2,5,6) [OF assms(1)] c by (metis option.inject)
  have "ind_field h = ucast (size2ind (roundup sz))"
    using h(2) assms(3) by (simp add: word_unat_eq_iff unsigned_ucast_eq take_bit_eq_mod)
  then show ?thesis using h s' slab_invD(3) [OF assms(1)] by (auto simp: pop_def header_ok_def)
qed

text \<open>
  A deallocated block of a cached class comes back at the next allocation of the same
  class by the thread that deallocated it: the caches are last-in first-out and the fast
  path does not reach \<^verbatim>\<open>::operator new\<close> (its answer \<open>raw'\<close> is arbitrary).
\<close>

lemma slab_alloc_reuses:
  assumes "slab_inv s" "slab_alloc t sz raw s = Inr (p, s1)"
    "unat sz \<le> 4088" "roundup sz' = roundup sz"
  shows "\<exists>s2 s3. slab_dealloc u p s1 = Inr s2 \<and> slab_alloc u sz' raw' s2 = Inr (p, s3) \<and> tcache s3 = tcache s1"
proof -
  let ?i = "unat (size2ind (roundup sz))"
  have i: "?i < 512" using slab_size(2) [of sz] unat_roundup [of sz] assms(3) by simp
  obtain h where h: "hdr s1 (ptr2header p) = Some h" "ind_field h = ucast (size2ind (roundup sz))"
      "magic_field h = SLAB_MAGIC" "length (tcache s1 u) = 512"
    using slab_alloc_header [OF assms(1,2) i] by blast
  have "unat (ind_field h) = ?i" using h(2) i by (simp add: unsigned_ucast_eq take_bit_eq_mod)
  then have "slab_dealloc u p s1 = Inr (push u ?i p s1)" using slab_dealloc_cases [OF h(1,3)] i by simp
  moreover have "slab_alloc u sz' raw' (push u ?i p s1) = Inr (p, pop u ?i (push u ?i p s1))"
    using i h(4) assms(4) slab_alloc_hit [of sz' "push u ?i p s1" u p] by (simp add: push_def)
  moreover have "tcache (pop u ?i (push u ?i p s1)) = tcache s1"
    using i h(4) by (auto simp: pop_def push_def fun_eq_iff)
  ultimately show ?thesis by blast
qed

text \<open>
  Requests of 32 GiB and more are served from a small class: the class index is cut to
  32 bits, so after an eight byte block has been freed a request for 34359738376 bytes
  returns that block.
\<close>

lemma slab_huge_request_gets_small_block:
  "\<exists>s. pool_run slab_alloc slab_dealloc [New 0 8 (Some 4096), Delete 0 4104, New 0 34359738376 None] slab_init =
     Inr ([Some 4104, None, Some 4104], s) \<and> live s 4096 = Some 16"
proof -
  have eq: "roundup 8 = 8" "roundup 34359738376 = 34359738376" "size2ind 8 = 1" "size2ind 34359738376 = 1"
    by (simp_all add: roundup_def ROUNDUP_def size2ind_def BASE_SHIFT_def)
  show ?thesis by (simp add: slab_init_def slab_alloc_def slab_dealloc_def ptr2header_def Let_def eq)
qed

text \<open>
  Running out of memory never surfaces as \<^verbatim>\<open>std::bad_alloc\<close> or as a null pointer:
  \<^verbatim>\<open>slab_alloc\<close> is \<^verbatim>\<open>noexcept\<close> and calls the throwing \<^verbatim>\<open>::operator new\<close>, so both forms of
  \<^verbatim>\<open>operator new\<close> end the program exactly when no cached block fits, and the check for a null
  pointer never fires.
\<close>

lemma slab_out_of_memory_terminates:
  assumes "slab_inv s"
  shows "slab_operator_new t sz None s \<noteq> Inl Bad_alloc \<and>
    slab_operator_new t sz None s = slab_operator_new_nothrow t sz None s \<and>
    (slab_operator_new t sz None s = Inl Terminate \<longleftrightarrow>
      \<not> (size2ind (roundup sz) < LOOKUP_MAX_CLASS \<and> tcache s t ! unat (size2ind (roundup sz)) \<noteq> []))"
proof (cases "unat (size2ind (roundup sz)) < 512 \<and> tcache s t ! unat (size2ind (roundup sz)) \<noteq> []")
  case True
  let ?i = "unat (size2ind (roundup sz))"
  obtain p ps where p: "tcache s t ! ?i = p # ps" using True by (auto simp: neq_Nil_conv)
  then have c: "cached s t ?i p" using True by (simp add: cached_def)
  then obtain n where "live s (ptr2header p) = Some n" using slab_invD(5) [OF assms] by blast
  then have "unat p = unat (ptr2header p) + 8"
    using unat_ptr heap_okD(1) [OF slab_invD(1) [OF assms]] by blast
  then have "p \<noteq> 0" by auto
  then show ?thesis using slab_alloc_hit [OF _ p, of None] True
    by (simp add: slab_operator_new_def slab_operator_new_nothrow_def word_less_nat_alt)
next
  case False
  then have "slab_alloc t sz None s = Inl Terminate"
    by (auto simp: slab_alloc_def Let_def word_less_nat_alt)
  then show ?thesis using False
    by (simp add: slab_operator_new_def slab_operator_new_nothrow_def word_less_nat_alt)
qed

end
