(* ===== verification/Frames.thy ===== *)
theory Frames
  imports Runtime Slab
begin

text \<open>
  Coroutine frames in the pool. \<^verbatim>\<open>PromiseBase\<close> (\<^verbatim>\<open>src/core/core.hpp\<close>) derives from
  \<^verbatim>\<open>PoolAllocatable<SlabPoolAllocator>\<close> (\<^verbatim>\<open>src/common/include/allocator.hpp\<close>), so a coroutine's
  frame is a block of the slab allocator: it is allocated when the coroutine is created and
  given back when its handle is destroyed. The composition shows that the rule of \<open>Core_Safety\<close>
  for the address of a new coroutine is what the allocator promises, and that no frame's block
  is lost or given back twice. The lemmas are proved for every pool that keeps the contract of
  \<open>Pool_Interface\<close>.
\<close>

subsection \<open>PoolAllocatable\<close>

text \<open>The operators of the base class forward to those of the pool \<open>T\<close>; so do the array forms.\<close>

definition PoolAllocatable_new :: "(nat \<Rightarrow> u64 \<Rightarrow> 'e \<Rightarrow> 's \<Rightarrow> 'r) \<Rightarrow> nat \<Rightarrow> u64 \<Rightarrow> 'e \<Rightarrow> 's \<Rightarrow> 'r" where
  "PoolAllocatable_new T_new t size' e s = T_new t size' e s"

definition PoolAllocatable_new_nothrow :: "(nat \<Rightarrow> u64 \<Rightarrow> 'e \<Rightarrow> 's \<Rightarrow> 'r) \<Rightarrow> nat \<Rightarrow> u64 \<Rightarrow> 'e \<Rightarrow> 's \<Rightarrow> 'r" where
  "PoolAllocatable_new_nothrow T_new t size' e s = T_new t size' e s"

definition PoolAllocatable_delete :: "(nat \<Rightarrow> 'p \<Rightarrow> 's \<Rightarrow> 'r) \<Rightarrow> nat \<Rightarrow> 'p \<Rightarrow> 's \<Rightarrow> 'r" where
  "PoolAllocatable_delete T_delete t ptr s = T_delete t ptr s"

definition PoolAllocatable_delete_nothrow :: "(nat \<Rightarrow> 'p \<Rightarrow> 's \<Rightarrow> 'r) \<Rightarrow> nat \<Rightarrow> 'p \<Rightarrow> 's \<Rightarrow> 'r" where
  "PoolAllocatable_delete_nothrow T_delete t ptr s = T_delete t ptr s"

subsection \<open>Creation and destruction of frames\<close>

text \<open>A call that creates a coroutine, the address it uses, and the frames it destroys.\<close>

fun makes :: "('v, 'e) call \<Rightarrow> ('v, 'e) core \<Rightarrow> bool" where
  "makes (Tick a) s \<longleftrightarrow> (case stack s of A_Body h (Create void b f) # _ \<Rightarrow> True | _ \<Rightarrow> False)"
| "makes (X_Create a void b) s \<longleftrightarrow> True"
| "makes c s \<longleftrightarrow> False"

fun at_address :: "handle \<Rightarrow> ('v, 'e) call \<Rightarrow> ('v, 'e) call" where
  "at_address a (Tick _) = Tick a"
| "at_address a (X_Create _ void b) = X_Create a void b"
| "at_address a c = c"

definition released :: "('v, 'e) core \<Rightarrow> ('v, 'e) core \<Rightarrow> handle list" where
  "released s s' = filter (\<lambda>h. frames s h \<noteq> None \<and> frames s' h = None)
     (case stack s of A_Final h # _ \<Rightarrow> [h] | A_Transform h t f # _ \<Rightarrow> [t] | _ \<Rightarrow> [])"

datatype 'r frame_error = Core_failed core_error | Pool_failed 'r

fun delete_all :: "(nat \<Rightarrow> handle \<Rightarrow> 's \<Rightarrow> 'r + 's) \<Rightarrow> nat \<Rightarrow> handle list \<Rightarrow> 's \<Rightarrow> 'r + 's" where
  "delete_all dealloc t [] p = Inr p"
| "delete_all dealloc t (h # hs) p = bind_err (dealloc t h p) (delete_all dealloc t hs)"

definition frame_exec ::
  "(nat \<Rightarrow> u64 \<Rightarrow> 'x \<Rightarrow> 's \<Rightarrow> 'r + handle \<times> 's) \<Rightarrow> (nat \<Rightarrow> handle \<Rightarrow> 's \<Rightarrow> 'r + 's) \<Rightarrow> nat \<Rightarrow> u64 \<Rightarrow> 'x \<Rightarrow>
   ('v, 'e) call \<Rightarrow> ('v, 'e) core \<times> 's \<Rightarrow> 'r frame_error + ('v, 'e) core \<times> 's" where
  "frame_exec alloc dealloc t n x c = (\<lambda>(s, p).
     bind_err (if makes c s then map_sum Pool_failed (\<lambda>(a, p). (at_address a c, p)) (alloc t n x p) else Inr (c, p)) (\<lambda>(c, p).
     bind_err (map_sum Core_failed id (core_exec c s)) (\<lambda>s'.
     bind_err (map_sum Pool_failed id (delete_all dealloc t (released s s') p)) (\<lambda>p. Inr (s', p)))))"

text \<open>A client follows the rules of the runtime except for addresses, which the pool chooses.\<close>

definition frame_legal :: "(u64 \<Rightarrow> 'x \<Rightarrow> 's \<Rightarrow> bool) \<Rightarrow> nat \<Rightarrow> u64 \<Rightarrow> 'x \<Rightarrow> ('v, 'e) call \<Rightarrow> ('v, 'e) core \<times> 's \<Rightarrow> bool" where
  "frame_legal valid k n x c = (\<lambda>(s, p). if makes c s then valid n x p else legal k c s)"

subsection \<open>What a call does to the set of frames\<close>

definition alive :: "('v, 'e) core \<Rightarrow> handle set" where
  "alive s = dom (frames s)"

lemma alive_simps [simp]:
  "alive (upd_frame h u s) = alive s" "alive (suspend h p s) = alive s" "alive (enter h b s) = alive s" "alive (run_body h b s) = alive s"
  "alive (upd_awaker a w s) = alive s" "alive (sched_stop s) = alive s" "alive (destroy h s) = alive s - {h}"
  "alive (s\<lparr>stack := st\<rparr>) = alive s" "alive (s\<lparr>queue := q\<rparr>) = alive s" "alive (s\<lparr>dangling := d\<rparr>) = alive s" "alive (s\<lparr>dropped := d\<rparr>) = alive s"
  by (auto simp: alive_def upd_frame_def suspend_def enter_def run_body_def upd_awaker_def sched_stop_def destroy_def)

lemma enqueue_alive: "sched_enqueue h s = Inr s' \<Longrightarrow> alive s' = alive s"
  by (auto simp: sched_enqueue_def split: option.splits prod.splits)

lemma wake_alive: "aw_wake a v s = Inr s' \<Longrightarrow> alive s' = alive s"
proof -
  assume w: "aw_wake a v s = Inr s'"
  then obtain u x where u: "u = s \<or> sched_enqueue (handles s a) s = Inr u" "s' = upd_awaker a x u"
    by (auto simp: aw_wake_def bind_err_Inr_iff handles_def split: if_splits)
  then have "alive u = alive s" using enqueue_alive by blast
  then show ?thesis using u(2) by simp
qed

lemma submit_alive: "sched_enqueue_task h s = Inr s' \<Longrightarrow> alive s' = alive s"
proof -
  assume "sched_enqueue_task h s = Inr s'"
  then obtain u x where "sched_enqueue h s = Inr u" "s' = upd_frame h x u"
    by (auto simp: sched_enqueue_task_def bind_err_Inr_iff split: option.splits)
  then show ?thesis using enqueue_alive [of h s u] by simp
qed

lemma create_alive: "create_task a void b s = Inr s' \<Longrightarrow> alive s' = insert a (alive s)"
  by (auto simp: create_task_def alive_def split: if_splits)

lemma await_alive: "alive (await_awaker h a f s) = alive s"
  by (simp add: await_awaker_def split: prod.split)

text \<open>A coroutine that is resumed with the result of a task has been its caller, so it does not destroy it.\<close>

lemma resume_alive:
  assumes "rt_ok (view s) st W P D" "resume x s = Inr s'"
  shows "alive s' = alive s"
proof -
  have "caller q \<noteq> 0" if "frames s x = Some f" "susp f = S_Task t g" "frames s t = Some q" for f t g q
  proof -
    have "view s x = Some (S_Task t g, caller f)" using that(1,2) by (simp add: view_def)
    then have "\<exists>p. view s t = Some (p, x)" "x \<noteq> 0" using rt_okD(1,8) [OF assms(1)] by fastforce+
    then show ?thesis using that(3) by (auto simp: view_def)
  qed
  then show ?thesis using assms(2)
    by (auto simp: resume_def ms_await_resume_def bind_err_Inr_iff split: if_splits option.splits susp.splits prod.splits)
qed

lemma finish_alive:
  assumes "core_inv k s" "finish h r s = Inr s'"
  shows "alive s' = alive s"
proof -
  note w = core_run_inv(2) [OF assms(1)]
  let ?s = "upd_frame h (\<lambda>f. f\<lparr>result := r\<rparr>) s"
  have v: "view (?s\<lparr>stack := st\<rparr>) = view s" for st by (auto simp: view_def upd_frame_def fun_eq_iff option.map_comp comp_def)
  show ?thesis
    using assms(2) resume_alive [of "?s\<lparr>stack := A_Final h # tl (stack s)\<rparr>"] w unfolding v
    by (auto simp: finish_def Let_def split: option.splits if_splits)
qed

lemma body_step_alive:
  assumes inv: "core_inv k s" and f: "body_step addr h b s = Inr s'" and n: "\<And>void b' g. b \<noteq> Create void b' g"
  shows "alive s' = alive s"
proof (cases b)
  case (Co_yield b')
  then show ?thesis using f enqueue_alive [of h "suspend h (S_Yield b') s"] by auto
next
  case (Co_await_task t g)
  then have "resume t (s\<lparr>stack := A_Transform h t g # tl (stack s)\<rparr>) = Inr s'"
    using f by (auto simp: transform_begin_def split: option.splits if_splits)
  moreover have "view (s\<lparr>stack := st\<rparr>) = view s" for st by (simp add: view_def fun_eq_iff)
  ultimately show ?thesis using resume_alive [of "s\<lparr>stack := A_Transform h t g # tl (stack s)\<rparr>"] core_run_inv(2) [OF inv] by auto
next
  case (Submit t b')
  then obtain u where "sched_enqueue_task t s = Inr u" "s' = run_body h b' u" using f by (auto simp: bind_err_Inr_iff)
  then show ?thesis using submit_alive [of t s u] by simp
next
  case (Wake a v b')
  then obtain u where "aw_wake a v s = Inr u" "s' = run_body h b' u" using f by (auto simp: bind_err_Inr_iff)
  then show ?thesis using wake_alive [of a v s u] by simp
qed (use f n finish_alive [OF inv] in \<open>auto simp: await_alive\<close>)

text \<open>Frames appear at the given address, and disappear as \<open>released\<close> says.\<close>

lemma core_exec_alive:
  assumes inv: "core_inv k s" and f: "core_exec c s = Inr s'"
  shows "alive s' = (if makes c s then insert (case c of Tick a \<Rightarrow> a | X_Create a _ _ \<Rightarrow> a) (alive s) else alive s - set (released s s'))"
proof (cases c)
  case (Tick addr)
  have loop: "alive s' = alive s" if "loop_step s = Inr s'"
  proof -
    have "view (s\<lparr>queue := r, stack := [A_Resumed]\<rparr>) = view s" for r by (simp add: view_def fun_eq_iff)
    then show ?thesis using that resume_alive [of "s\<lparr>queue := r, stack := [A_Resumed]\<rparr>" for r] core_run_inv(2) [OF inv]
      by (auto simp: loop_step_def split: option.splits prod.splits)
  qed
  show ?thesis
  proof (cases "stack s")
    case (Cons a st)
    show ?thesis
    proof (cases a)
      case (A_Body h b)
      show ?thesis
      proof (cases "\<exists>void b' g. b = Create void b' g")
        case True
        then obtain void b' g u where b: "b = Create void b' g" "create_task addr void b' s = Inr u" "s' = run_body h (g addr) u"
          using f Tick Cons A_Body by (auto simp: exec_def bind_err_Inr_iff)
        then show ?thesis using Tick Cons A_Body create_alive [OF b(2)] by simp
      next
        case False
        then have "\<not> makes c s" using Tick Cons A_Body by (auto split: body.splits)
        moreover have "alive s' = alive s" using body_step_alive [OF inv, of addr h b s'] f Tick Cons A_Body False by (simp add: exec_def)
        ultimately show ?thesis by (auto simp: released_def alive_def)
      qed
    next
      case (A_Transform h t g)
      then have "transform_end h t g s = Inr s'" using f Tick Cons by (simp add: exec_def)
      then have "alive s' = alive s \<or> alive s' = alive s - {t}"
        by (auto simp: transform_end_def ms_await_resume_def bind_err_Inr_iff split: option.splits if_splits)
      then show ?thesis using Tick Cons A_Transform by (auto simp: released_def alive_def)
    next
      case (A_Final h)
      then have "alive s' = alive s - {h}" using f Tick Cons by (auto simp: exec_def)
      then show ?thesis using Tick Cons A_Final by (auto simp: released_def alive_def)
    qed (use f Tick Cons loop in \<open>auto simp: exec_def released_def alive_def\<close>)
  qed (use f Tick in \<open>auto simp: exec_def released_def\<close>)
next
  case (X_Submit t)
  then show ?thesis using f submit_alive [of t s s'] by (simp add: released_def) (auto simp: alive_def split: list.splits activation.splits)
next
  case (X_Wake a v)
  then show ?thesis using f wake_alive [of a v s s'] by (simp add: released_def) (auto simp: alive_def split: list.splits activation.splits)
next
  case X_Stop
  then have "alive s' = alive s" using f by auto
  then show ?thesis using X_Stop by (auto simp: released_def alive_def)
next
  case (X_Create a void b)
  then show ?thesis using f create_alive [of a void b s s'] by simp
qed

subsection \<open>Frames and blocks\<close>

text \<open>
  The frames are the blocks the runtime holds. A pool that the runtime can use hands out no
  address that the runtime takes for something else.
\<close>

definition frame_inv :: "('s \<Rightarrow> bool) \<Rightarrow> ('s \<Rightarrow> handle \<rightharpoonup> nat) \<Rightarrow> nat \<Rightarrow> ('v, 'e) core \<times> 's \<Rightarrow> bool" where
  "frame_inv I H k = (\<lambda>(s, p). core_inv k s \<and> I p \<and> held_disjoint unat (H p) \<and> dom (H p) = alive s)"

lemma released_simps: "distinct (released s s')" "set (released s s') \<subseteq> alive s" "alive s \<subseteq> alive s' \<Longrightarrow> released s s' = []"
proof -
  show "distinct (released s s')"
    unfolding released_def by (rule distinct_filter) (simp split: list.split activation.split)
qed (auto simp: released_def alive_def filter_empty_conv)

locale frame_pool = pool_allocator unat inv held valid alloc dealloc
  for inv :: "'s \<Rightarrow> bool" and held :: "'s \<Rightarrow> handle \<rightharpoonup> nat" and valid :: "u64 \<Rightarrow> 'x \<Rightarrow> 's \<Rightarrow> bool"
    and alloc :: "nat \<Rightarrow> u64 \<Rightarrow> 'x \<Rightarrow> 's \<Rightarrow> 'r + handle \<times> 's" and dealloc :: "nat \<Rightarrow> handle \<Rightarrow> 's \<Rightarrow> 'r + 's" +
  assumes usable: "\<And>p a c. inv p \<Longrightarrow> held p a = Some c \<Longrightarrow> a \<noteq> 0 \<and> a \<noteq> noop_coroutine"
begin

lemma delete_all_ok:
  "inv p \<Longrightarrow> held_disjoint unat (held p) \<Longrightarrow> distinct hs \<Longrightarrow> set hs \<subseteq> dom (held p) \<Longrightarrow>
    \<exists>p'. delete_all dealloc t hs p = Inr p' \<and> inv p' \<and> held_disjoint unat (held p') \<and> dom (held p') = dom (held p) - set hs"
proof (induction hs arbitrary: p)
  case (Cons h hs)
  then obtain c where "held p h = Some c" by auto
  from dealloc_law [OF Cons.prems(1) this, of t] obtain q where
    q: "dealloc t h p = Inr q" "inv q" "held q = (held p)(h := None)" by blast
  have d: "dom (held q) = dom (held p) - {h}" using q(3) by auto
  have "held_disjoint unat (held q)" using Cons.prems(2) q(3) by (simp add: held_disjoint_def)
  moreover have "set hs \<subseteq> dom (held q)" using Cons.prems(3,4) d by auto
  ultimately obtain p' where "delete_all dealloc t hs q = Inr p'" "inv p'" "held_disjoint unat (held p')" "dom (held p') = dom (held q) - set hs"
    using Cons.IH [OF q(2)] Cons.prems(3) by auto
  then show ?case using q(1) d by auto
qed simp

lemma frame_exec_ok:
  assumes inv: "frame_inv inv held k x" and legal: "frame_legal valid k n e c x"
  shows "\<exists>y. frame_exec alloc dealloc t n e c x = Inr y \<and> frame_inv inv held k y"
proof -
  obtain s p where x: "x = (s, p)" by fastforce
  have i: "core_inv k s" "inv p" "held_disjoint unat (held p)" "dom (held p) = alive s" using inv x by (simp_all add: frame_inv_def)
  show ?thesis
  proof (cases "makes c s")
    case True
    then obtain a q m where a: "alloc t n e p = Inr (a, q)" "inv q" "held p a = None" "held q = (held p)(a \<mapsto> m)"
        "\<forall>b l. held p b = Some l \<longrightarrow> apart unat a m b l"
      using alloc_law [of p n e t] i(2) legal x by (auto simp: frame_legal_def)
    have "a \<notin> alive s" using a(3) i(4) by (auto simp: domIff)
    moreover have "a \<noteq> 0 \<and> a \<noteq> noop_coroutine" using usable [OF a(2), of a m] a(4) by simp
    ultimately have "fresh_addr s a" by (simp add: fresh_addr_def alive_def domIff)
    then have "legal k (at_address a c) s" using True by (cases c) (auto split: list.splits activation.splits body.splits)
    then obtain s' where s': "core_exec (at_address a c) s = Inr s'" "core_inv k s'" using core_exec_inv [OF i(1)] by blast
    have "makes (at_address a c) s" using True by (cases c) simp_all
    then have al: "alive s' = insert a (alive s)"
      using core_exec_alive [OF i(1) s'(1)] True by (cases c) simp_all
    then have "released s s' = []" using released_simps(3) [of s s'] by auto
    moreover have "held_disjoint unat (held q)" using i(3) a(4,5) unfolding held_disjoint_def by (auto simp: apart_commute)
    moreover have "dom (held q) = alive s'" using a(4) i(4) al by simp
    ultimately show ?thesis using True a(1,2) s' x by (simp add: frame_exec_def frame_inv_def)
  next
    case False
    then obtain s' where s': "core_exec c s = Inr s'" "core_inv k s'" using core_exec_inv [OF i(1)] legal x by (auto simp: frame_legal_def)
    have al: "alive s' = alive s - set (released s s')" using core_exec_alive [OF i(1) s'(1)] False by simp
    obtain q where "delete_all dealloc t (released s s') p = Inr q" "inv q" "held_disjoint unat (held q)"
        "dom (held q) = dom (held p) - set (released s s')"
      using delete_all_ok [OF i(2,3) released_simps(1) [of s s']] released_simps(2) [of s s'] i(4) by blast
    then show ?thesis using False s' x al i(4) by (simp add: frame_exec_def frame_inv_def)
  qed
qed

end

subsection \<open>Frames in the slab allocator\<close>

lemma held_usable:
  assumes "slab_inv p" "held p a = Some c"
  shows "a \<noteq> 0 \<and> a \<noteq> noop_coroutine"
proof -
  obtain n where "live p (ptr2header a) = Some n" using assms(2) by (auto simp: held_def split: if_splits)
  then have b: "block_ok (ptr2header a) n" using slab_invD(1) [OF assms(1)] by (auto simp: heap_ok_def)
  have "unat a = unat (ptr2header a) + 8" by (rule unat_ptr [OF b])
  moreover have "unat (ptr2header a) \<noteq> 0" using b by (simp add: block_ok_def unat_eq_0)
  ultimately have "unat a > 8" by simp
  then show ?thesis by (auto simp: noop_coroutine_def)
qed

abbreviation frame_new :: "nat \<Rightarrow> u64 \<Rightarrow> u64 option \<Rightarrow> slab \<Rightarrow> slab_error + u64 \<times> slab" where
  "frame_new \<equiv> PoolAllocatable_new slab_operator_new"

abbreviation frame_delete :: "nat \<Rightarrow> u64 \<Rightarrow> slab \<Rightarrow> slab_error + slab" where
  "frame_delete \<equiv> PoolAllocatable_delete slab_operator_delete"

interpretation frame_slab: frame_pool slab_inv held slab_valid frame_new frame_delete
proof
  show "\<exists>p s' c. frame_new t n e s = Inr (p, s') \<and> slab_inv s' \<and> held s p = None \<and> held s' = (held s)(p \<mapsto> c) \<and>
      unat n \<le> c \<and> (\<forall>q m. held s q = Some m \<longrightarrow> apart unat p c q m)" if v: "slab_inv s" "slab_valid n e s" for t n e s
  proof -
    obtain p s' c where a: "slab_alloc t n e s = Inr (p, s')" "slab_inv s'" "held s p = None" "held s' = (held s)(p \<mapsto> c)"
        "unat n \<le> c" "\<forall>q m. held s q = Some m \<longrightarrow> apart unat p c q m"
      using slab_pool.alloc_law [OF v] by blast
    moreover have "p \<noteq> 0" using held_usable [OF a(2), of p c] a(4) by simp
    ultimately show ?thesis by (auto simp: PoolAllocatable_new_def slab_operator_new_def)
  qed
  show "\<exists>s'. frame_delete t p s = Inr s' \<and> slab_inv s' \<and> held s' = (held s)(p := None)"
    if "slab_inv s" "held s p = Some c" for t p c s
    using slab_pool.dealloc_law [OF that] by (simp add: PoolAllocatable_delete_def slab_operator_delete_def)
qed (rule held_usable)

definition frame_init :: "nat \<Rightarrow> ('v, 'e) core \<times> slab \<Rightarrow> bool" where
  "frame_init k x \<longleftrightarrow> core_init k (fst x) \<and> snd x = slab_init"

inductive frame_step :: "nat \<Rightarrow> ('v, 'e) core \<times> slab \<Rightarrow> ('v, 'e) core \<times> slab \<Rightarrow> bool" for k :: nat where
  step: "frame_legal slab_valid k n e c x \<Longrightarrow> frame_exec frame_new frame_delete t n e c x = Inr y \<Longrightarrow> frame_step k x y"

lemma frame_init_inv: "frame_init k x \<Longrightarrow> frame_inv slab_inv held k x"
  using core_init_inv [of k "fst x"] slab_init_inv
  by (cases x) (simp add: frame_init_def frame_inv_def held_disjoint_def alive_def core_init_def)

interpretation frames: inductive_invariant "frame_init k" "frame_step k" "frame_inv slab_inv held k" for k
proof
  show "frame_inv slab_inv held k y" if "frame_inv slab_inv held k x" "frame_step k x y" for x y :: "('v, 'e) core \<times> slab"
    using that(2)
  proof cases
    case (step n e c t)
    then show ?thesis using frame_slab.frame_exec_ok [OF that(1) step(1), of t] by auto
  qed
qed (rule frame_init_inv)

text \<open>
  C3. Coroutine frames live in the slab allocator: as long as \<^verbatim>\<open>::operator new\<close> answers with fresh
  blocks, every call that is legal for the runtime succeeds, whatever address the allocator
  picks for a new frame, and in every state that such calls reach the blocks that the runtime
  holds are exactly the frames of its coroutines, and are disjoint. So a destroyed coroutine's block is
  given back once, and none leaks.
\<close>

theorem frames_are_slab_blocks:
  assumes "reach (frame_init k) (frame_step k) x" "frame_legal slab_valid k n e c x"
  shows "\<exists>y. frame_exec frame_new frame_delete t n e c x = Inr y \<and> reach (frame_init k) (frame_step k) y \<and>
    dom (held (snd y)) = dom (frames (fst y)) \<and> held_disjoint unat (held (snd y))"
proof -
  obtain y where y: "frame_exec frame_new frame_delete t n e c x = Inr y" "frame_inv slab_inv held k y"
    using frame_slab.frame_exec_ok [OF frames.reach_inv [OF assms(1)] assms(2)] by blast
  have "reach (frame_init k) (frame_step k) y" using assms y(1) by (intro reach_step [OF assms(1)] frame_step.step)
  then show ?thesis using y by (intro exI [of _ y]) (cases y, simp add: frame_inv_def alive_def)
qed

text \<open>A coroutine whose frame has 100 bytes is created in a fresh pool, and another one in what is left.\<close>

theorem frames_are_slab_blocks_witness:
  "\<exists>y z. frame_exec frame_new frame_delete 0 100 (Some 4096) (X_Create 0 True (Co_return 7)) (blank_core, slab_init) = Inr y \<and>
     frame_exec frame_new frame_delete 1 20 (Some 8192) (X_Create 0 True (Co_return 8)) y = Inr z \<and>
     dom (held (snd z)) = dom (frames (fst z)) \<and> dom (frames (fst z)) = {4104, 8200}"
proof -
  have eq: "roundup 100 = 104" "roundup 20 = 24" "size2ind 104 = 13" "size2ind 24 = 3"
    by (simp_all add: roundup_def ROUNDUP_def size2ind_def BASE_SHIFT_def)
  note defs = slab_init_def slab_alloc_def ptr2header_def Let_def eq
  let ?c = "\<lambda>v. X_Create 0 True (Co_return v) :: (nat, nat) call"
  let ?x = "(blank_core, slab_init)"
  have v: "slab_valid 100 (Some 4096) slab_init" by (simp add: slab_valid_def block_ok_def defs)
  have r: "reach (frame_init 2) (frame_step 2) ?x" by (rule reach_init) (simp add: frame_init_def blank_core_init)
  obtain s p where y: "frame_exec frame_new frame_delete 0 100 (Some 4096) (?c 7) ?x = Inr (s, p)" "reach (frame_init 2) (frame_step 2) (s, p)"
    using frames_are_slab_blocks [OF r, of 100 "Some 4096" "?c 7" 0] v by (auto simp: frame_legal_def)
  have f: "dom (frames s) = {4104}" "frames s 4104 \<noteq> None" "live p = [4096 \<mapsto> 112]" "tcache p = (\<lambda>_. replicate 512 [])"
    using y(1) by (auto simp: frame_exec_def PoolAllocatable_new_def slab_operator_new_def defs create_task_def blank_core_def
        noop_coroutine_def released_def split: if_splits)
  have "slab_valid 20 (Some 8192) p" using f(3) by (simp add: slab_valid_def block_ok_def defs apart_def)
  then obtain z where z: "frame_exec frame_new frame_delete 1 20 (Some 8192) (?c 8) (s, p) = Inr z"
      "dom (held (snd z)) = dom (frames (fst z))"
    using frames_are_slab_blocks [OF y(2), of 20 "Some 8192" "?c 8" 1] by (auto simp: frame_legal_def)
  have "dom (frames (fst z)) = {4104, 8200}"
    using z(1) f by (auto simp: frame_exec_def PoolAllocatable_new_def slab_operator_new_def defs create_task_def noop_coroutine_def
        bind_err_Inr_iff split: if_splits)
  then show ?thesis using y(1) z by (intro exI [of _ "(s, p)"] exI [of _ z]) simp
qed

end
