(* ===== verification/Tlsf_Bits.thy ===== *)
theory Tlsf_Bits
  imports Prelude
begin

text \<open>
  The bit search and the size mapping of the two-level segregated fit allocator
  (\<^verbatim>\<open>src/common/tlsf/tlsf.c\<close>): \<^verbatim>\<open>ls_bit\<close> and \<^verbatim>\<open>ms_bit\<close> by table, \<^verbatim>\<open>set_bit\<close>,
  \<^verbatim>\<open>clear_bit\<close>, \<^verbatim>\<open>MAPPING_SEARCH\<close>, \<^verbatim>\<open>MAPPING_INSERT\<close> and \<^verbatim>\<open>FIND_SUITABLE_BLOCK\<close>.

  \<^verbatim>\<open>size_t\<close> is a 64 bit word, \<^verbatim>\<open>u32_t\<close> a 32 bit word. The C \<^verbatim>\<open>int\<close> results are integers; the
  argument of \<^verbatim>\<open>ms_bit\<close> is an \<^verbatim>\<open>int\<close>, so a size is cut to 32 bits first. A shift by a negative
  amount or by the width and more is undefined in C and has the value \<open>None\<close>.
\<close>

subsection \<open>Parameters\<close>

definition MAX_FLI :: int where "MAX_FLI = 30"
definition MAX_LOG2_SLI :: int where "MAX_LOG2_SLI = 5"
definition MAX_SLI :: int where "MAX_SLI = push_bit (nat MAX_LOG2_SLI) 1"
definition FLI_OFFSET :: int where "FLI_OFFSET = 6"
definition SMALL_BLOCK :: u64 where "SMALL_BLOCK = 128"
definition REAL_FLI :: int where "REAL_FLI = MAX_FLI - FLI_OFFSET"
definition BLOCK_ALIGN :: u64 where "BLOCK_ALIGN = 8 * 2"
definition MEM_ALIGN :: u64 where "MEM_ALIGN = BLOCK_ALIGN - 1"
definition PTR_MASK :: u64 where "PTR_MASK = 8 - 1"
definition BLOCK_SIZE :: u64 where "BLOCK_SIZE = 0xFFFFFFFF - PTR_MASK"

definition ROUNDUP_SIZE :: "u64 \<Rightarrow> u64" where
  "ROUNDUP_SIZE r = (r + MEM_ALIGN) AND NOT MEM_ALIGN"

definition ROUNDDOWN_SIZE :: "u64 \<Rightarrow> u64" where
  "ROUNDDOWN_SIZE r = r AND NOT MEM_ALIGN"

lemma tlsf_constants [simp]:
  "MAX_SLI = 32" "MAX_LOG2_SLI = 5" "FLI_OFFSET = 6" "REAL_FLI = 24" "SMALL_BLOCK = 128" "MEM_ALIGN = 15"
  by (simp_all add: MAX_SLI_def MAX_LOG2_SLI_def FLI_OFFSET_def REAL_FLI_def MAX_FLI_def SMALL_BLOCK_def
      MEM_ALIGN_def BLOCK_ALIGN_def)

subsection \<open>Bits\<close>

definition table :: "int list" where
  "table = [-1, 0, 1, 1, 2, 2, 2, 2, 3, 3, 3, 3, 3, 3, 3, 3] @ replicate 16 4 @ replicate 32 5 @
     replicate 64 6 @ replicate 128 7"

definition byte_shift :: "u32 \<Rightarrow> nat" where
  "byte_shift x = (if x \<le> 0xffff then (if x \<le> 0xff then 0 else 8) else (if x \<le> 0xffffff then 16 else 24))"

definition ms_bit :: "u32 \<Rightarrow> int" where
  "ms_bit i = (let x = i; a = byte_shift x in table ! unat (drop_bit a x) + int a)"

definition ls_bit :: "u32 \<Rightarrow> int" where
  "ls_bit i = (let x = i AND - i; a = byte_shift x in table ! unat (drop_bit a x) + int a)"

definition set_bit :: "nat \<Rightarrow> u32 \<Rightarrow> u32" where
  "set_bit nr w = w OR push_bit (nr mod 32) 1"

definition clear_bit :: "nat \<Rightarrow> u32 \<Rightarrow> u32" where
  "clear_bit nr w = w AND NOT (push_bit (nr mod 32) 1)"

lemma table_log2:
  assumes "0 < i" "i < 256"
  shows "0 \<le> table ! i \<and> 2 ^ nat (table ! i) \<le> i \<and> i < 2 ^ Suc (nat (table ! i))"
proof (cases "i < 16")
  case True
  have "list_all (\<lambda>i. 0 \<le> table ! i \<and> 2 ^ nat (table ! i) \<le> i \<and> i < 2 ^ Suc (nat (table ! i))) [1..<16]"
    by code_simp
  then show ?thesis using True assms by (simp add: list_all_iff)
next
  case False
  then show ?thesis using assms by (auto simp: table_def nth_append not_less)
qed

lemma div_bracket:
  fixes n :: nat
  assumes "2 ^ k \<le> n div 2 ^ a" "n div 2 ^ a < 2 ^ Suc k"
  shows "2 ^ (k + a) \<le> n" "n < 2 ^ Suc (k + a)"
proof -
  have "2 ^ k * 2 ^ a \<le> n div 2 ^ a * 2 ^ a" using assms(1) by simp
  also have "\<dots> \<le> n" by simp
  finally show "2 ^ (k + a) \<le> n" by (simp add: power_add)
  have "n < 2 ^ Suc k * 2 ^ a" using assms(2) by (simp add: div_less_iff_less_mult)
  then show "n < 2 ^ Suc (k + a)" by (simp add: power_add)
qed

lemma unat_drop_bit_div: "unat (drop_bit a x) = unat x div 2 ^ a" for x :: "'a::len word"
  by (subst unat_drop_bit_eq) (simp add: drop_bit_eq_div)

lemma byte_shift_byte:
  assumes "x \<noteq> 0"
  shows "0 < unat (drop_bit (byte_shift x) x)" "unat (drop_bit (byte_shift x) x) < 256"
proof -
  have "unat x \<noteq> 0" using assms by (simp add: unat_eq_zero)
  moreover have "unat x < 4294967296" by simp
  ultimately show "0 < unat (drop_bit (byte_shift x) x)" "unat (drop_bit (byte_shift x) x) < 256"
    by (auto simp: byte_shift_def word_le_nat_alt unat_drop_bit_div div_greater_zero_iff div_less_iff_less_mult
        simp del: unat_u32_lt drop_bit_eq_div)
qed

lemma byte_log2:
  assumes "x \<noteq> 0"
  shows "\<exists>k. table ! unat (drop_bit (byte_shift x) x) + int (byte_shift x) = int k \<and> 2 ^ k \<le> unat x \<and> unat x < 2 ^ Suc k"
proof -
  let ?a = "byte_shift x" and ?i = "unat (drop_bit (byte_shift x) x)"
  have t: "0 \<le> table ! ?i" "2 ^ nat (table ! ?i) \<le> ?i" "?i < 2 ^ Suc (nat (table ! ?i))"
    using table_log2 [OF byte_shift_byte [OF assms]] by auto
  have i: "?i = unat x div 2 ^ ?a" by (rule unat_drop_bit_div)
  show ?thesis using div_bracket [OF t(2,3) [unfolded i]] t(1) i
    by (intro exI [of _ "nat (table ! ?i) + ?a"]) simp
qed

lemma ms_bit_log2:
  assumes "x \<noteq> 0"
  obtains k where "ms_bit x = int k" "2 ^ k \<le> unat x" "unat x < 2 ^ Suc k"
  using byte_log2 [OF assms] unfolding ms_bit_def Let_def by blast

text \<open>\<open>i & -i\<close> isolates the lowest set bit.\<close>

lemma odd_and_minus:
  fixes y :: "'a::len word"
  assumes "bit y 0"
  shows "y AND - y = 1"
proof -
  have one: "y AND 1 = 1"
    by (rule bit_word_eqI) (use assms in \<open>auto simp: bit_and_iff bit_1_iff\<close>)
  have "- y = NOT (y - 1)" by (rule minus_eq_not_minus_1)
  also have "y - 1 = y AND NOT 1" using word_and_not_eq_sub [of y 1] one by simp
  finally have "y AND - y = y AND 1"
    by (auto intro!: bit_word_eqI simp: bit_and_iff bit_or_iff bit_not_iff)
  then show ?thesis using one by simp
qed

lemma and_minus_lowest:
  fixes x :: "'a::len word"
  assumes "bit x k" "\<And>j. j < k \<Longrightarrow> \<not> bit x j"
  shows "x AND - x = 2 ^ k"
proof -
  define y where "y = drop_bit k x"
  have x: "x = push_bit k y"
  proof (rule bit_word_eqI)
    fix n assume "n < LENGTH('a)"
    then show "bit x n = bit (push_bit k y) n"
      using assms(2) [of n] by (cases "n < k") (auto simp: y_def bit_push_bit_iff bit_drop_bit_eq)
  qed
  have "y AND - y = 1" using assms(1) by (intro odd_and_minus) (simp add: y_def bit_drop_bit_eq)
  moreover have "x AND - x = push_bit k (y AND - y)"
    unfolding x by (simp add: push_bit_minus)
  ultimately show ?thesis by (simp add: push_bit_of_1)
qed

lemma lowest_bit:
  fixes x :: "'a::len word"
  assumes "x \<noteq> 0"
  obtains k where "k < LENGTH('a)" "bit x k" "\<And>j. j < k \<Longrightarrow> \<not> bit x j"
proof -
  have "\<exists>j. bit x j" using assms by (metis bit_eqI bit_0_eq bot_apply bot_bool_def)
  then obtain k where "bit x k" "\<And>j. j < k \<Longrightarrow> \<not> bit x j"
    using exists_least_iff [of "bit x"] by blast
  then show ?thesis using that [of k] bit_imp_le_length [of x k] by blast
qed

lemma ls_bit_lowest:
  assumes "bit x k" "\<And>j. j < k \<Longrightarrow> \<not> bit x j"
  shows "ls_bit x = int k"
proof -
  have k: "k < 32" using bit_imp_le_length [OF assms(1)] by simp
  have x: "x AND - x = 2 ^ k" by (rule and_minus_lowest [OF assms])
  define z :: u32 where "z = 2 ^ k"
  have z: "z \<noteq> 0" "unat z = 2 ^ k" using k by (simp_all add: z_def unat_exp)
  obtain l where l: "table ! unat (drop_bit (byte_shift z) z) + int (byte_shift z) = int l"
      "2 ^ l \<le> unat z" "unat z < 2 ^ Suc l"
    using byte_log2 [OF z(1)] by blast
  have "l \<le> k" using l(2) z(2) by simp
  moreover have "k < Suc l" using l(3) unfolding z(2) by (rule power_less_imp_less_exp [rotated]) simp
  ultimately show ?thesis using l(1) x by (simp add: ls_bit_def Let_def z_def)
qed

lemma ls_bit_0: "ls_bit 0 = -1"
  by (simp add: ls_bit_def byte_shift_def table_def)

lemma bit_set_bit: "nr < 32 \<Longrightarrow> bit (set_bit nr w) j \<longleftrightarrow> bit w j \<or> j = nr"
  by (auto simp: set_bit_def bit_or_iff bit_exp_iff)

lemma bit_clear_bit: "nr < 32 \<Longrightarrow> bit (clear_bit nr w) j \<longleftrightarrow> bit w j \<and> j \<noteq> nr"
  by (auto simp: clear_bit_def bit_and_iff bit_not_iff bit_exp_iff dest: bit_imp_le_length)

end
