(* ===== verification/Tlsf_Map.thy ===== *)
theory Tlsf_Map
  imports Tlsf_Bits
begin

text \<open>
  \<^verbatim>\<open>MAPPING_SEARCH\<close> and \<^verbatim>\<open>MAPPING_INSERT\<close> of \<^verbatim>\<open>src/common/tlsf/tlsf.c\<close>: the map from sizes to
  the classes of the two-level segregated lists, and the search of a non-empty class,
  \<^verbatim>\<open>FIND_SUITABLE_BLOCK\<close>. The lemmas relate a class to the interval of sizes it holds.
\<close>

subsection \<open>Mapping\<close>

text \<open>The conversion of a \<^verbatim>\<open>size_t\<close> to \<^verbatim>\<open>int\<close>.\<close>

definition to_int :: "u64 \<Rightarrow> int" where
  "to_int x = sint (ucast x :: u32)"

definition MAPPING_SEARCH :: "u64 \<Rightarrow> (u64 \<times> int \<times> int) option" where
  "MAPPING_SEARCH r =
     (if r < SMALL_BLOCK then Some (r, 0, to_int (r div (SMALL_BLOCK div word_of_int MAX_SLI)))
      else let m = ms_bit (ucast r) in
        if m < MAX_LOG2_SLI then None
        else let t = push_bit (nat (m - MAX_LOG2_SLI)) 1 - 1 :: int;
                 r = r + word_of_int t;
                 fl = ms_bit (ucast r)
          in if fl < MAX_LOG2_SLI then None
             else Some (r AND NOT (word_of_int t), fl - FLI_OFFSET,
                        to_int (drop_bit (nat (fl - MAX_LOG2_SLI)) r - word_of_int MAX_SLI)))"

definition MAPPING_INSERT :: "u64 \<Rightarrow> (int \<times> int) option" where
  "MAPPING_INSERT r =
     (if r < SMALL_BLOCK then Some (0, to_int (r div (SMALL_BLOCK div word_of_int MAX_SLI)))
      else let fl = ms_bit (ucast r) in
        if fl < MAX_LOG2_SLI then None
        else Some (fl - FLI_OFFSET, to_int (drop_bit (nat (fl - MAX_LOG2_SLI)) r - word_of_int MAX_SLI)))"

subsection \<open>The sizes of a class\<close>

definition class_width :: "nat \<Rightarrow> nat" where
  "class_width fl = (if fl = 0 then 4 else 2 ^ (fl + 1))"

definition class_low :: "nat \<Rightarrow> nat \<Rightarrow> nat" where
  "class_low fl sl = (if fl = 0 then 4 * sl else 2 ^ (fl + 6) + sl * 2 ^ (fl + 1))"

definition class_le :: "nat \<Rightarrow> nat \<Rightarrow> nat \<Rightarrow> nat \<Rightarrow> bool" where
  "class_le fl sl fl' sl' \<longleftrightarrow> fl < fl' \<or> fl = fl' \<and> sl \<le> sl'"

lemma class_low_first: "fl \<noteq> 0 \<Longrightarrow> class_low fl 0 = 2 ^ (fl + 6)"
  by (simp add: class_low_def)

lemma class_low_mono:
  assumes "class_le fl sl fl' sl'" "sl < 32"
  shows "class_low fl sl \<le> class_low fl' sl'"
proof (cases "fl = fl'")
  case True
  then show ?thesis using assms by (simp add: class_le_def class_low_def)
next
  case False
  then have lt: "fl < fl'" using assms(1) by (simp add: class_le_def)
  have "class_low fl sl \<le> 2 ^ (fl + 7)"
  proof (cases "fl = 0")
    case False
    have "sl * 2 ^ (fl + 1) \<le> 32 * 2 ^ (fl + 1)" using assms(2) by (intro mult_right_mono) auto
    then show ?thesis using False by (simp add: class_low_def power_add)
  qed (use assms(2) in \<open>simp add: class_low_def\<close>)
  also have "(2::nat) ^ (fl + 7) \<le> 2 ^ (fl' + 6)" using lt by (intro power_increasing) auto
  also have "\<dots> \<le> class_low fl' sl'" using lt by (simp add: class_low_def)
  finally show ?thesis .
qed

lemma to_int_small:
  assumes "unat x < 2147483648"
  shows "to_int x = int (unat x)"
proof -
  obtain n where n: "unat x = n" by simp
  have "unat (ucast x :: u32) = n"
    using assms n by (simp add: unsigned_ucast_eq take_bit_eq_mod)
  then have "uint (ucast x :: u32) = int n" by (metis of_nat_unat)
  then have "to_int x = signed_take_bit 31 (int n)" by (simp only: to_int_def sint_uint) simp
  also have "\<dots> = int n" by (rule signed_take_bit_int_eq_self) (use assms n in simp_all)
  finally show ?thesis using n by simp
qed

lemma ms_bit_ucast:
  assumes "2 ^ k \<le> unat r" "unat r < 2 ^ Suc k" "k < 32"
  shows "ms_bit (ucast r) = int k"
proof -
  have "(2::nat) ^ Suc k \<le> 2 ^ 32" using assms(3) by (intro power_increasing) auto
  then have u: "unat (ucast r :: u32) = unat r" using assms(2) by (simp add: unsigned_ucast_eq take_bit_eq_mod)
  have "(ucast r :: u32) \<noteq> 0" using u assms(1) by (metis le_zero_eq power_eq_0_iff unat_0 zero_neq_numeral)
  then obtain l where l: "ms_bit (ucast r) = int l" "2 ^ l \<le> unat r" "unat r < 2 ^ Suc l"
    using ms_bit_log2 [of "ucast r"] u by metis
  have "(2::nat) ^ k < 2 ^ Suc l" "(2::nat) ^ l < 2 ^ Suc k" using l assms by linarith+
  then have "k < Suc l" "l < Suc k" by (simp_all only: power_strict_increasing_iff one_less_numeral_iff semiring_norm)
  then show ?thesis using l(1) by simp
qed

text \<open>The second level index of a size at least \<open>SMALL_BLOCK\<close>, with \<open>k\<close> its highest bit.\<close>

lemma second_level:
  assumes "2 ^ k \<le> unat r" "unat r < 2 ^ Suc k" "5 \<le> k" "k < 32"
  shows "\<exists>sl<32. to_int (drop_bit (k - 5) r - 32) = int sl \<and>
    2 ^ k + sl * 2 ^ (k - 5) \<le> unat r \<and> unat r < 2 ^ k + Suc sl * 2 ^ (k - 5)"
proof -
  let ?q = "unat r div 2 ^ (k - 5)"
  have k: "(2::nat) ^ k = 32 * 2 ^ (k - 5)" using power_add [of "2::nat" 5 "k - 5"] assms(3) by simp
  have "32 \<le> ?q" using assms(1) unfolding k by (simp add: less_eq_div_iff_mult_less_eq)
  moreover have "?q < 64" using assms(2) k by (simp add: div_less_iff_less_mult)
  moreover have u: "unat (drop_bit (k - 5) r - 32) = ?q - 32"
    using calculation by (simp add: unat_sub_word unat_drop_bit_div)
  ultimately have "to_int (drop_bit (k - 5) r - 32) = int (?q - 32)" "?q - 32 < 32"
    by (simp_all add: to_int_small)
  moreover have "?q * 2 ^ (k - 5) \<le> unat r" "unat r < Suc ?q * 2 ^ (k - 5)"
    using div_times_less_eq_dividend dividend_less_div_times [of "2 ^ (k - 5)" "unat r"] by simp_all
  moreover have "?q * 2 ^ (k - 5) = 2 ^ k + (?q - 32) * 2 ^ (k - 5)" using \<open>32 \<le> ?q\<close> k by (simp add: algebra_simps)
  ultimately show ?thesis by (intro exI [of _ "?q - 32"]) (simp add: algebra_simps)
qed


lemma mapping_insert_spec:
  assumes "unat r < 4294967296"
  obtains fl sl where "MAPPING_INSERT r = Some (int fl, int sl)" "sl < 32"
    "class_low fl sl \<le> unat r" "unat r < class_low fl sl + class_width fl" "fl \<noteq> 0 \<Longrightarrow> 2 ^ (fl + 6) \<le> unat r"
proof (cases "unat r < 128")
  case True
  then have "unat (r div 4) = unat r div 4" by (simp add: unat_div_distrib)
  then have "MAPPING_INSERT r = Some (int 0, int (unat r div 4))"
    using True by (simp add: MAPPING_INSERT_def word_less_nat_alt to_int_small)
  moreover have "unat r div 4 < 32" "4 * (unat r div 4) \<le> unat r" "unat r < 4 * (unat r div 4) + 4"
    using True by linarith+
  ultimately show ?thesis using that [of 0 "unat r div 4"] by (simp add: class_low_def class_width_def)
next
  case False
  then obtain k where k: "2 ^ k \<le> unat r" "unat r < 2 ^ Suc k"
    using nat_power2_bracket [of "unat r"] by auto
  have "(2::nat) ^ k < 2 ^ 32" using k(1) assms by simp
  moreover have "(2::nat) ^ 7 < 2 ^ Suc k" using k(2) False by simp
  ultimately have k32: "k < 32" and "7 < Suc k" by (simp_all only: power_strict_increasing_iff one_less_numeral_iff semiring_norm)
  then have k7: "7 \<le> k" by simp
  then obtain sl where sl: "sl < 32" "to_int (drop_bit (k - 5) r - 32) = int sl"
      "2 ^ k + sl * 2 ^ (k - 5) \<le> unat r" "unat r < 2 ^ k + Suc sl * 2 ^ (k - 5)"
    using second_level [OF k _ k32] by auto
  have "nat (int k - 5) = k - 5" "int k - 6 = int (k - 6)" using k7 by simp_all
  then have "MAPPING_INSERT r = Some (int (k - 6), int sl)"
    using False k7 sl(2) ms_bit_ucast [OF k k32] by (simp add: MAPPING_INSERT_def word_less_nat_alt)
  moreover have "k - 5 = Suc (k - 6)" using k7 by simp
  ultimately show ?thesis using that [of "k - 6" sl] sl k k7 by (simp add: class_low_def class_width_def)
qed

text \<open>Rounding a size up to the width of its class.\<close>

lemma round_up_mask:
  fixes r :: u64
  assumes "unat r + 2 ^ w < 2 ^ 63" "w < 32"
  shows "unat (r + word_of_int (push_bit w 1 - 1)) = unat r + 2 ^ w - 1"
    "unat ((r + word_of_int (push_bit w 1 - 1)) AND NOT (word_of_int (push_bit w 1 - 1))) =
      2 ^ w * ((unat r + 2 ^ w - 1) div 2 ^ w)"
proof -
  define m :: u64 where "m = word_of_int (push_bit w 1 - 1)"
  have "m = mask w" unfolding m_def by (simp add: mask_eq_exp_minus_1 push_bit_eq_mult)
  then have m: "unat m = 2 ^ w - 1" using assms(2) unat_mask [of w, where 'a = 64] by simp
  show a: "unat (r + word_of_int (push_bit w 1 - 1)) = unat r + 2 ^ w - 1"
    unfolding m_def [symmetric] using assms(1) m by (subst unat_word_ariths) simp
  have "unat ((r + m) AND NOT m) = unat (r + m) - unat ((r + m) AND m)"
    unfolding word_and_not_eq_sub by (rule unat_sub_word) (simp add: unat_and_mask [OF m])
  also have "\<dots> = 2 ^ w * (unat (r + m) div 2 ^ w)"
    unfolding unat_and_mask [OF m] by (rule minus_mod_eq_mult_div)
  finally show "unat ((r + word_of_int (push_bit w 1 - 1)) AND NOT (word_of_int (push_bit w 1 - 1))) =
      2 ^ w * ((unat r + 2 ^ w - 1) div 2 ^ w)"
    using a by (simp add: m_def)
qed


lemma class_of_small: "class_low 0 (n div 4) = n" if "4 dvd n" for n :: nat
  using that by (simp add: class_low_def)

text \<open>
  The search maps a request to the first class all of whose sizes satisfy it, and rounds the
  request up to the least size of that class.
\<close>

lemma mapping_search_spec:
  assumes "unat r \<le> 1056964608" "16 dvd unat r"
  obtains r' fl sl where "MAPPING_SEARCH r = Some (r', int fl, int sl)" "fl < 24" "sl < 32"
    "unat r' = class_low fl sl" "unat r \<le> unat r'" "32 * (unat r' - unat r) \<le> unat r" "16 dvd unat r'"
proof (cases "unat r < 128")
  case True
  have "unat (r div 4) = unat r div 4" by (simp add: unat_div_distrib)
  then have "MAPPING_SEARCH r = Some (r, int 0, int (unat r div 4))"
    using True by (simp add: MAPPING_SEARCH_def word_less_nat_alt to_int_small)
  moreover have "unat r div 4 < 32" using True by linarith
  moreover have "4 dvd unat r" using assms(2) by (rule dvd_trans [rotated]) simp
  ultimately show ?thesis using that [of r 0 "unat r div 4"] class_of_small assms(2) by simp
next
  case False
  then obtain k where k: "2 ^ k \<le> unat r" "unat r < 2 ^ Suc k"
    using nat_power2_bracket [of "unat r"] by auto
  have "(2::nat) ^ k < 2 ^ 30" using k(1) assms(1) by simp
  moreover have "(2::nat) ^ 7 < 2 ^ Suc k" using k(2) False by simp
  ultimately have k30: "k < 30" and "7 < Suc k" by (simp_all only: power_strict_increasing_iff one_less_numeral_iff semiring_norm)
  then have k7: "7 \<le> k" by simp
  let ?w = "k - 5"
  define t :: int where "t = push_bit ?w 1 - 1"
  define r1 where "r1 = r + word_of_int t"
  have w: "(2::nat) ^ ?w \<le> 2 ^ 24" using k30 by (intro power_increasing) auto
  have k5: "(2::nat) ^ k = 32 * 2 ^ ?w" using power_add [of "2::nat" 5 ?w] k7 by simp
  have r1: "unat r1 = unat r + 2 ^ ?w - 1" and
      r2: "unat (r1 AND NOT (word_of_int t)) = 2 ^ ?w * (unat r1 div 2 ^ ?w)"
    using round_up_mask [of r ?w] w assms(1) k30 unfolding r1_def t_def by simp_all
  let ?r2 = "r1 AND NOT (word_of_int t)"
  have near: "unat ?r2 \<le> unat r1" "unat r1 < unat ?r2 + 2 ^ ?w"
    unfolding r2 using times_div_less_eq_dividend dividend_less_div_times [of "2 ^ ?w" "unat r1"] by (simp_all add: ac_simps)
  have pos: "(0::nat) < 2 ^ ?w" by simp
  have fit: "unat r \<le> unat ?r2" "32 * (unat ?r2 - unat r) \<le> unat r"
    using near r1 k(1) k5 pos by linarith+
  have dvd: "16 dvd unat ?r2"
  proof (cases "?w \<le> 4")
    case True
    then have "(2::nat) ^ ?w dvd 2 ^ 4" by (rule le_imp_power_dvd)
    moreover have "2 ^ 4 dvd unat r" using assms(2) by simp
    ultimately have "2 ^ ?w dvd unat r" by (rule dvd_trans)
    moreover have "2 ^ ?w dvd unat ?r2" unfolding r2 by simp
    ultimately have "2 ^ ?w dvd unat ?r2 - unat r" by (rule dvd_diff_nat [rotated])
    moreover have "unat ?r2 - unat r < 2 ^ ?w" using near(1) r1 pos by linarith
    ultimately have "unat ?r2 - unat r = 0" using nat_dvd_not_less by blast
    then have "unat ?r2 = unat r" using fit(1) by simp
    then show ?thesis using assms(2) by simp
  next
    case False
    then have "(2::nat) ^ 4 dvd 2 ^ ?w" by (intro le_imp_power_dvd) simp
    then show ?thesis unfolding r2 by (intro dvd_mult2) simp
  qed
  have search: "MAPPING_SEARCH r = Some (?r2, int j - 6, to_int (drop_bit (j - 5) r1 - 32))"
    if "ms_bit (ucast r1) = int j" "5 \<le> j" for j
  proof -
    have "nat (int k - 5) = ?w" "nat (int j - 5) = j - 5" "\<not> int k < 5" "\<not> int j < 5" using k7 that(2) by simp_all
    moreover have tw: "(word_of_int t :: u64) = 2 ^ ?w - 1" by (simp add: t_def)
    moreover have "r + (2 ^ ?w - 1) = r1" by (simp add: r1_def tw)
    ultimately show ?thesis using False that(1) ms_bit_ucast [OF k] k30
      by (simp add: MAPPING_SEARCH_def word_less_nat_alt Let_def)
  qed
  have r1k: "2 ^ k \<le> unat r1" "unat r1 < 2 ^ Suc k + 2 ^ ?w" "unat r1 < 2 ^ 30"
    using r1 k w assms(1) pos by (simp_all, linarith+)
  show ?thesis
  proof (cases "unat r1 < 2 ^ Suc k")
    case True
    obtain sl where sl: "sl < 32" "to_int (drop_bit (k - 5) r1 - 32) = int sl"
        "2 ^ k + sl * 2 ^ ?w \<le> unat r1" "unat r1 < 2 ^ k + Suc sl * 2 ^ ?w"
      using second_level [OF r1k(1) True] k7 k30 by auto
    have "unat r1 div 2 ^ ?w = 32 + sl"
      using sl(3,4) k5 by (intro div_nat_eqI) (simp_all add: algebra_simps)
    moreover have "?w = Suc (k - 6)" using k7 by simp
    ultimately have "unat ?r2 = class_low (k - 6) sl"
      unfolding r2 using k5 k7 by (simp add: class_low_def algebra_simps)
    moreover have "MAPPING_SEARCH r = Some (?r2, int (k - 6), int sl)"
      using search [of k] ms_bit_ucast [OF r1k(1) True] k7 k30 sl(2) by simp
    ultimately show ?thesis using that [of ?r2 "k - 6" sl] sl(1) fit dvd k30 by simp
  next
    case False
    then have ge: "2 ^ Suc k \<le> unat r1" by simp
    have lt: "unat r1 < 2 ^ Suc (Suc k)" using r1k(2) k5 pos by simp
    have "(2::nat) ^ Suc k < 2 ^ 30" using ge r1k(3) by (rule le_less_trans)
    then have k29: "Suc k < 30" by (simp only: power_strict_increasing_iff one_less_numeral_iff semiring_norm)
    have S: "Suc k - 5 = Suc ?w" using k7 by simp
    obtain sl where sl: "sl < 32" "to_int (drop_bit (Suc k - 5) r1 - 32) = int sl"
        "2 ^ Suc k + sl * 2 ^ (Suc k - 5) \<le> unat r1"
      using second_level [OF ge lt] k7 k29 by auto
    have "sl * 2 ^ (Suc k - 5) < 2 ^ ?w" using sl(3) r1k(2) by linarith
    then have "sl = 0" unfolding S by (cases sl) simp_all
    have "unat r1 div 2 ^ ?w = 64" using ge r1k(2) k5 by (intro div_nat_eqI) simp_all
    then have "unat ?r2 = class_low (Suc k - 6) 0"
      unfolding r2 using k5 k7 by (simp add: class_low_def Suc_diff_Suc)
    moreover have "MAPPING_SEARCH r = Some (?r2, int (Suc k - 6), int 0)"
      using search [of "Suc k"] ms_bit_ucast [OF ge lt] k7 k29 sl(2) \<open>sl = 0\<close> by simp
    ultimately show ?thesis using that [of ?r2 "Suc k - 6" 0] fit dvd k29 by simp
  qed
qed

end
