(* ===== verification/Tlsf.thy ===== *)
theory Tlsf
  imports Tlsf_Map
begin

text \<open>
  The operations of the two-level segregated fit allocator (\<^verbatim>\<open>src/common/tlsf/tlsf.c\<close>) in the
  configuration the repository builds: no locks, no statistics, no growth by \<^verbatim>\<open>mmap\<close> or
  \<^verbatim>\<open>sbrk\<close>, a 64 bit machine.

  The bytes of memory are \<open>data\<close>. The allocator reads and writes them through two types:
  \<open>mem\<close> is the block header (\<^verbatim>\<open>bhdr_t\<close>) at an address, with the free list links that the union
  \<^verbatim>\<open>ptr\<close> lays over the first bytes of the buffer, and \<open>area\<close> the area descriptor that lies in the
  buffer of the first block of an area. The views alias: a write of a header, of links or of a
  descriptor stores the little-endian bytes of its fields (\<open>set_header\<close>, \<open>set_links\<close>,
  \<open>set_area\<close>), and a write of bytes (\<open>set_bytes\<close>, for \<^verbatim>\<open>memcpy\<close>, \<^verbatim>\<open>memset\<close> and the clients)
  changes every field one of whose bytes it touches. So links written into a block that a client
  holds destroy its bytes, and bytes written over a header destroy the header. What is not modelled
  is that two fields at overlapping addresses, such as those of a header and of another one eight
  bytes behind it, change each other; the layout invariant keeps the blocks apart.
  Addresses are natural numbers, \<open>0\<close> is \<^verbatim>\<open>NULL\<close>. The pool owns
  the bytes the caller gave it, \<open>owned\<close>, which are the rest of its first object behind \<^verbatim>\<open>tlsf_t\<close>
  and the areas added to it. Every access to a header or an area descriptor is checked to lie
  within these bytes; an access outside, or an index outside the arrays of \<^verbatim>\<open>tlsf_t\<close>, ends the
  operation with \<open>Bad_access\<close>.

  \<open>blks\<close>, \<open>areas\<close> and \<open>lists\<close> are ghosts: the addresses of the current blocks, of the blocks that
  hold area descriptors, and the free list of each class. No operation reads them.
\<close>

subsection \<open>State\<close>

record bhdr =
  prev_hdr :: nat
  bsize :: u64
  free_prev :: nat
  free_next :: nat

record area_info =
  ai_end :: nat
  ai_next :: nat

record tlsf =
  tlsf_signature :: u32
  area_head :: nat
  fl_bitmap :: u32
  sl_bitmap :: "u32 list"
  matrix :: "nat list list"
  mem :: "nat \<Rightarrow> bhdr"
  area :: "nat \<Rightarrow> area_info"
  data :: "nat \<Rightarrow> 8 word"
  owned :: "nat \<Rightarrow> bool"
  blks :: "nat set"
  areas :: "nat set"
  lists :: "nat \<Rightarrow> nat \<Rightarrow> nat list"

datatype tlsf_error = Bad_access | Undefined_shift | Std_bad_alloc

definition MIN_BLOCK_SIZE :: u64 where "MIN_BLOCK_SIZE = 16"
definition BHDR_OVERHEAD :: u64 where "BHDR_OVERHEAD = 32 - MIN_BLOCK_SIZE"
definition SIZEOF_BHDR :: u64 where "SIZEOF_BHDR = 32"
definition SIZEOF_TLSF :: u64 where "SIZEOF_TLSF = 8 + 8 + 4 + 4 * 24 + 4 + 8 * 24 * 32"
definition TLSF_SIGNATURE :: u32 where "TLSF_SIGNATURE = 0x2A59FA59"
definition PREV_STATE :: u64 where "PREV_STATE = 2"
definition FREE_BLOCK :: u64 where "FREE_BLOCK = 1"
definition USED_BLOCK :: u64 where "USED_BLOCK = 0"
definition PREV_FREE :: u64 where "PREV_FREE = 2"
definition PREV_USED :: u64 where "PREV_USED = 0"

subsection \<open>Memory\<close>

text \<open>Words in little-endian order.\<close>

definition word_byte :: "u64 \<Rightarrow> nat \<Rightarrow> 8 word" where
  "word_byte w i = ucast (drop_bit (8 * i) w)"

definition store_word :: "nat \<Rightarrow> u64 \<Rightarrow> (nat \<Rightarrow> 8 word) \<Rightarrow> nat \<Rightarrow> 8 word" where
  "store_word a w d = (\<lambda>x. if a \<le> x \<and> x < a + 8 then word_byte w (x - a) else d x)"

definition load_word :: "(nat \<Rightarrow> 8 word) \<Rightarrow> nat \<Rightarrow> u64" where
  "load_word d a = foldr (\<lambda>i w. push_bit 8 w OR ucast (d (a + i))) [0..<8] 0"

text \<open>The bytes in \<open>W\<close> are written, with the values \<open>f\<close>.\<close>

definition set_bytes :: "(nat \<Rightarrow> bool) \<Rightarrow> (nat \<Rightarrow> 8 word) \<Rightarrow> tlsf \<Rightarrow> tlsf" where
  "set_bytes W f s =
     (let d = (\<lambda>x. if W x then f x else data s x);
          word = (\<lambda>a old. if \<exists>i<8. W (a + i) then load_word d a else old);
          ptr = (\<lambda>a old. if \<exists>i<8. W (a + i) then unat (load_word d a) else old)
      in s\<lparr>data := d,
           mem := (\<lambda>x. \<lparr>prev_hdr = ptr x (prev_hdr (mem s x)), bsize = word (x + 8) (bsize (mem s x)),
             free_prev = ptr (x + 16) (free_prev (mem s x)), free_next = ptr (x + 24) (free_next (mem s x))\<rparr>),
           area := (\<lambda>x. \<lparr>ai_end = ptr x (ai_end (area s x)), ai_next = ptr (x + 8) (ai_next (area s x))\<rparr>)\<rparr>)"

definition set_header :: "nat \<Rightarrow> bhdr \<Rightarrow> tlsf \<Rightarrow> tlsf" where
  "set_header b h s =
     s\<lparr>mem := (mem s)(b := h), data := store_word (b + 8) (bsize h) (store_word b (word_of_nat (prev_hdr h)) (data s))\<rparr>"

definition set_links :: "nat \<Rightarrow> bhdr \<Rightarrow> tlsf \<Rightarrow> tlsf" where
  "set_links b h s =
     s\<lparr>mem := (mem s)(b := h),
       data := store_word (b + 24) (word_of_nat (free_next h)) (store_word (b + 16) (word_of_nat (free_prev h)) (data s))\<rparr>"

definition set_area :: "nat \<Rightarrow> area_info \<Rightarrow> tlsf \<Rightarrow> tlsf" where
  "set_area a i s =
     s\<lparr>area := (area s)(a := i),
       data := store_word (a + 8) (word_of_nat (ai_next i)) (store_word a (word_of_nat (ai_end i)) (data s))\<rparr>"

definition buffer :: "nat \<Rightarrow> nat" where
  "buffer b = b + unat BHDR_OVERHEAD"

definition GET_NEXT_BLOCK :: "nat \<Rightarrow> u64 \<Rightarrow> nat" where
  "GET_NEXT_BLOCK addr r = addr + unat r"

definition in_pool :: "tlsf \<Rightarrow> nat \<Rightarrow> nat \<Rightarrow> bool" where
  "in_pool s b n \<longleftrightarrow> b \<noteq> 0 \<and> (\<forall>x\<in>{b..<b + n}. owned s x)"

definition get_hdr :: "nat \<Rightarrow> tlsf \<Rightarrow> tlsf_error + bhdr" where
  "get_hdr b s = (if in_pool s b 16 then Inr (mem s b) else Inl Bad_access)"

definition upd_hdr :: "nat \<Rightarrow> (bhdr \<Rightarrow> bhdr) \<Rightarrow> tlsf \<Rightarrow> tlsf_error + tlsf" where
  "upd_hdr b u s = (if in_pool s b 16 then Inr (set_header b (u (mem s b)) s) else Inl Bad_access)"

text \<open>The links of a free block lie behind its header.\<close>

definition get_links :: "nat \<Rightarrow> tlsf \<Rightarrow> tlsf_error + bhdr" where
  "get_links b s = (if in_pool s b 32 then Inr (mem s b) else Inl Bad_access)"

definition upd_links :: "nat \<Rightarrow> (bhdr \<Rightarrow> bhdr) \<Rightarrow> tlsf \<Rightarrow> tlsf_error + tlsf" where
  "upd_links b u s = (if in_pool s b 32 then Inr (set_links b (u (mem s b)) s) else Inl Bad_access)"

definition get_area :: "nat \<Rightarrow> tlsf \<Rightarrow> tlsf_error + area_info" where
  "get_area a s = (if in_pool s a 16 then Inr (area s a) else Inl Bad_access)"

definition upd_area :: "nat \<Rightarrow> (area_info \<Rightarrow> area_info) \<Rightarrow> tlsf \<Rightarrow> tlsf_error + tlsf" where
  "upd_area a u s = (if in_pool s a 16 then Inr (set_area a (u (area s a)) s) else Inl Bad_access)"

subsection \<open>Classes\<close>

definition to_class :: "int \<Rightarrow> int \<Rightarrow> tlsf_error + nat \<times> nat" where
  "to_class fl sl = (if 0 \<le> fl \<and> fl < REAL_FLI \<and> 0 \<le> sl \<and> sl < MAX_SLI then Inr (nat fl, nat sl) else Inl Bad_access)"

definition map_insert :: "u64 \<Rightarrow> tlsf_error + nat \<times> nat" where
  "map_insert r = (case MAPPING_INSERT r of None \<Rightarrow> Inl Undefined_shift | Some (fl, sl) \<Rightarrow> to_class fl sl)"

definition matrix_head :: "tlsf \<Rightarrow> nat \<Rightarrow> nat \<Rightarrow> nat" where
  "matrix_head s fl sl = matrix s ! fl ! sl"

definition set_matrix :: "nat \<Rightarrow> nat \<Rightarrow> nat \<Rightarrow> tlsf \<Rightarrow> tlsf" where
  "set_matrix fl sl b s = s\<lparr>matrix := (matrix s)[fl := (matrix s ! fl)[sl := b]]\<rparr>"

text \<open>\<^verbatim>\<open>FIND_SUITABLE_BLOCK\<close>; the mask \<^verbatim>\<open>~0 << n\<close> clears the lowest \<open>n\<close> bits.\<close>

definition FIND_SUITABLE_BLOCK :: "tlsf \<Rightarrow> nat \<Rightarrow> nat \<Rightarrow> tlsf_error + nat \<times> nat \<times> nat" where
  "FIND_SUITABLE_BLOCK s fl sl =
     (let tmp = sl_bitmap s ! fl AND push_bit sl (NOT 0) in
      if tmp \<noteq> 0 then
        bind_err (to_class (int fl) (ls_bit tmp)) (\<lambda>(fl, sl). Inr (matrix_head s fl sl, fl, sl))
      else
        let fl' = ls_bit (fl_bitmap s AND push_bit (fl + 1) (NOT 0)) in
        if fl' > 0 then
          bind_err (to_class fl' 0) (\<lambda>(fl, _).
          bind_err (to_class (int fl) (ls_bit (sl_bitmap s ! fl))) (\<lambda>(fl, sl). Inr (matrix_head s fl sl, fl, sl)))
        else Inr (0, fl, sl))"

subsection \<open>Free lists\<close>

definition clear_class :: "nat \<Rightarrow> nat \<Rightarrow> tlsf \<Rightarrow> tlsf" where
  "clear_class fl sl s =
     (let s = s\<lparr>sl_bitmap := (sl_bitmap s)[fl := clear_bit sl (sl_bitmap s ! fl)]\<rparr> in
      if sl_bitmap s ! fl = 0 then s\<lparr>fl_bitmap := clear_bit fl (fl_bitmap s)\<rparr> else s)"

definition null_links :: "nat \<Rightarrow> tlsf \<Rightarrow> tlsf_error + tlsf" where
  "null_links b s = upd_links b (\<lambda>h. h\<lparr>free_prev := 0, free_next := 0\<rparr>) s"

definition EXTRACT_BLOCK_HDR :: "nat \<Rightarrow> nat \<Rightarrow> nat \<Rightarrow> tlsf \<Rightarrow> tlsf_error + tlsf" where
  "EXTRACT_BLOCK_HDR b fl sl s =
     bind_err (get_links b s) (\<lambda>h.
     let s = set_matrix fl sl (free_next h) s in
     bind_err (if matrix_head s fl sl \<noteq> 0 then upd_links (matrix_head s fl sl) (\<lambda>h. h\<lparr>free_prev := 0\<rparr>) s
               else Inr (clear_class fl sl s)) (\<lambda>s.
     bind_err (null_links b s) (\<lambda>s.
     Inr (s\<lparr>lists := (lists s)(fl := (lists s fl)(sl := remove1 b (lists s fl sl)))\<rparr>))))"

definition EXTRACT_BLOCK :: "nat \<Rightarrow> nat \<Rightarrow> nat \<Rightarrow> tlsf \<Rightarrow> tlsf_error + tlsf" where
  "EXTRACT_BLOCK b fl sl s =
     bind_err (get_links b s) (\<lambda>h.
     bind_err (if free_next h \<noteq> 0 then upd_links (free_next h) (\<lambda>n. n\<lparr>free_prev := free_prev h\<rparr>) s else Inr s) (\<lambda>s.
     bind_err (if free_prev h \<noteq> 0 then upd_links (free_prev h) (\<lambda>n. n\<lparr>free_next := free_next h\<rparr>) s else Inr s) (\<lambda>s.
     let s = (if matrix_head s fl sl = b then
                let s = set_matrix fl sl (free_next h) s in
                if matrix_head s fl sl = 0 then clear_class fl sl s else s
              else s) in
     bind_err (null_links b s) (\<lambda>s.
     Inr (s\<lparr>lists := (lists s)(fl := (lists s fl)(sl := remove1 b (lists s fl sl)))\<rparr>)))))"

definition INSERT_BLOCK :: "nat \<Rightarrow> nat \<Rightarrow> nat \<Rightarrow> tlsf \<Rightarrow> tlsf_error + tlsf" where
  "INSERT_BLOCK b fl sl s =
     bind_err (upd_links b (\<lambda>h. h\<lparr>free_prev := 0, free_next := matrix_head s fl sl\<rparr>) s) (\<lambda>s.
     bind_err (if matrix_head s fl sl \<noteq> 0 then upd_links (matrix_head s fl sl) (\<lambda>h. h\<lparr>free_prev := b\<rparr>) s else Inr s) (\<lambda>s.
     let s = set_matrix fl sl b s in
     Inr (s\<lparr>sl_bitmap := (sl_bitmap s)[fl := set_bit sl (sl_bitmap s ! fl)],
            fl_bitmap := set_bit fl (fl_bitmap s),
            lists := (lists s)(fl := (lists s fl)(sl := b # lists s fl sl))\<rparr>)))"

subsection \<open>Allocation\<close>

text \<open>
  The remainder of a block becomes a free block of its own. \<open>mark\<close> is what happens to the size
  word of the block behind it: nothing in \<^verbatim>\<open>malloc_ex\<close>, where that block already follows a
  free one, and \<^verbatim>\<open>|= PREV_FREE\<close> in \<^verbatim>\<open>realloc_ex\<close>.
\<close>

definition split_block :: "(u64 \<Rightarrow> u64) \<Rightarrow> nat \<Rightarrow> u64 \<Rightarrow> u64 \<Rightarrow> nat \<Rightarrow> tlsf \<Rightarrow> tlsf_error + tlsf" where
  "split_block mark b sz tmp_size next_b s =
     (let tmp_size = tmp_size - BHDR_OVERHEAD; b2 = GET_NEXT_BLOCK (buffer b) sz in
      bind_err (upd_hdr b2 (\<lambda>h. h\<lparr>bsize := tmp_size OR FREE_BLOCK OR PREV_USED\<rparr>) s) (\<lambda>s.
      bind_err (upd_hdr next_b (\<lambda>h. h\<lparr>prev_hdr := b2, bsize := mark (bsize h)\<rparr>) s) (\<lambda>s.
      bind_err (map_insert tmp_size) (\<lambda>(fl, sl).
      bind_err (INSERT_BLOCK b2 fl sl s) (\<lambda>s.
      bind_err (upd_hdr b (\<lambda>h. h\<lparr>bsize := sz OR (bsize h AND PREV_STATE)\<rparr>) s) (\<lambda>s.
      Inr (s\<lparr>blks := insert b2 (blks s)\<rparr>)))))))"

definition request_size :: "u64 \<Rightarrow> u64" where
  "request_size sz = (if sz < MIN_BLOCK_SIZE then MIN_BLOCK_SIZE else ROUNDUP_SIZE sz)"

definition malloc_ex :: "u64 \<Rightarrow> tlsf \<Rightarrow> tlsf_error + nat \<times> tlsf" where
  "malloc_ex sz s =
     (case MAPPING_SEARCH (request_size sz) of
        None \<Rightarrow> Inl Undefined_shift
      | Some (sz, fl, sl) \<Rightarrow>
          bind_err (to_class fl sl) (\<lambda>(fl, sl).
          bind_err (FIND_SUITABLE_BLOCK s fl sl) (\<lambda>(b, fl, sl).
          if b = 0 then Inr (0, s)
          else
            bind_err (EXTRACT_BLOCK_HDR b fl sl s) (\<lambda>s.
            bind_err (get_hdr b s) (\<lambda>h.
            let next_b = GET_NEXT_BLOCK (buffer b) (bsize h AND BLOCK_SIZE);
                tmp_size = (bsize h AND BLOCK_SIZE) - sz in
            bind_err
              (if tmp_size \<ge> SIZEOF_BHDR then split_block (\<lambda>w. w) b sz tmp_size next_b s
               else
                 bind_err (upd_hdr next_b (\<lambda>h. h\<lparr>bsize := bsize h AND NOT PREV_FREE\<rparr>) s) (\<lambda>s.
                 upd_hdr b (\<lambda>h. h\<lparr>bsize := bsize h AND NOT FREE_BLOCK\<rparr>) s))
              (\<lambda>s. Inr (buffer b, s)))))))"

subsection \<open>Deallocation\<close>

text \<open>\<open>absorb\<close>: the free block \<open>t\<close> leaves its list.\<close>

definition absorb :: "nat \<Rightarrow> tlsf \<Rightarrow> tlsf_error + u64 \<times> tlsf" where
  "absorb t s =
     bind_err (get_hdr t s) (\<lambda>h.
     bind_err (map_insert (bsize h AND BLOCK_SIZE)) (\<lambda>(fl, sl).
     bind_err (EXTRACT_BLOCK t fl sl s) (\<lambda>s. Inr (bsize h AND BLOCK_SIZE, s))))"

definition merge_next :: "nat \<Rightarrow> tlsf \<Rightarrow> tlsf_error + tlsf" where
  "merge_next b s =
     bind_err (get_hdr b s) (\<lambda>h.
     let tmp_b = GET_NEXT_BLOCK (buffer b) (bsize h AND BLOCK_SIZE) in
     bind_err (get_hdr tmp_b s) (\<lambda>t.
     if bsize t AND FREE_BLOCK \<noteq> 0 then
       bind_err (absorb tmp_b s) (\<lambda>(n, s).
       bind_err (upd_hdr b (\<lambda>h. h\<lparr>bsize := bsize h + (n + BHDR_OVERHEAD)\<rparr>) s) (\<lambda>s.
       Inr (s\<lparr>blks := blks s - {tmp_b}\<rparr>)))
     else Inr s))"

definition merge_prev :: "nat \<Rightarrow> tlsf \<Rightarrow> tlsf_error + nat \<times> tlsf" where
  "merge_prev b s =
     bind_err (get_hdr b s) (\<lambda>h.
     if bsize h AND PREV_FREE \<noteq> 0 then
       let tmp_b = prev_hdr h in
       bind_err (absorb tmp_b s) (\<lambda>(_, s).
       bind_err (upd_hdr tmp_b (\<lambda>t. t\<lparr>bsize := bsize t + ((bsize h AND BLOCK_SIZE) + BHDR_OVERHEAD)\<rparr>) s) (\<lambda>s.
       Inr (tmp_b, s\<lparr>blks := blks s - {b}\<rparr>)))
     else Inr (b, s))"

definition free_ex :: "nat \<Rightarrow> tlsf \<Rightarrow> tlsf_error + tlsf" where
  "free_ex ptr s =
     (if ptr = 0 then Inr s
      else
        let b = ptr - unat BHDR_OVERHEAD in
        bind_err (upd_hdr b (\<lambda>h. h\<lparr>bsize := bsize h OR FREE_BLOCK\<rparr>) s) (\<lambda>s.
        bind_err (null_links b s) (\<lambda>s.
        bind_err (merge_next b s) (\<lambda>s.
        bind_err (merge_prev b s) (\<lambda>(b, s).
        bind_err (get_hdr b s) (\<lambda>h.
        bind_err (map_insert (bsize h AND BLOCK_SIZE)) (\<lambda>(fl, sl).
        bind_err (INSERT_BLOCK b fl sl s) (\<lambda>s.
        let tmp_b = GET_NEXT_BLOCK (buffer b) (bsize h AND BLOCK_SIZE) in
        upd_hdr tmp_b (\<lambda>t. t\<lparr>bsize := bsize t OR PREV_FREE, prev_hdr := b\<rparr>) s))))))))"

subsection \<open>Reallocation\<close>

definition memcpy :: "nat \<Rightarrow> nat \<Rightarrow> nat \<Rightarrow> tlsf \<Rightarrow> tlsf" where
  "memcpy dst src n s = set_bytes (\<lambda>x. dst \<le> x \<and> x < dst + n) (\<lambda>x. data s (src + (x - dst))) s"

definition memset0 :: "nat \<Rightarrow> nat \<Rightarrow> tlsf \<Rightarrow> tlsf" where
  "memset0 dst n s = set_bytes (\<lambda>x. dst \<le> x \<and> x < dst + n) (\<lambda>_. 0) s"

text \<open>The block keeps its place: the request fits into it.\<close>

definition shrink_block :: "nat \<Rightarrow> nat \<Rightarrow> u64 \<Rightarrow> u64 \<Rightarrow> bool \<Rightarrow> tlsf \<Rightarrow> tlsf_error + tlsf" where
  "shrink_block b next_b tmp_size new_size next_free s =
     bind_err
       (if next_free then
          bind_err (absorb next_b s) (\<lambda>(n, s).
          Inr (GET_NEXT_BLOCK (buffer next_b) n, tmp_size + (n + BHDR_OVERHEAD), s\<lparr>blks := blks s - {next_b}\<rparr>))
        else Inr (next_b, tmp_size, s))
       (\<lambda>(next_b, tmp_size, s).
         let tmp_size = tmp_size - new_size in
         if tmp_size \<ge> SIZEOF_BHDR then split_block (\<lambda>w. w OR PREV_FREE) b new_size tmp_size next_b s else Inr s)"

text \<open>The block keeps its place and takes over the free block behind it.\<close>

definition grow_block :: "nat \<Rightarrow> nat \<Rightarrow> u64 \<Rightarrow> tlsf \<Rightarrow> tlsf_error + tlsf" where
  "grow_block b next_b new_size s =
     bind_err (absorb next_b s) (\<lambda>(n, s).
     bind_err (upd_hdr b (\<lambda>h. h\<lparr>bsize := bsize h + (n + BHDR_OVERHEAD)\<rparr>) (s\<lparr>blks := blks s - {next_b}\<rparr>)) (\<lambda>s.
     bind_err (get_hdr b s) (\<lambda>h.
     let next_b = GET_NEXT_BLOCK (buffer b) (bsize h AND BLOCK_SIZE) in
     bind_err (upd_hdr next_b (\<lambda>t. t\<lparr>prev_hdr := b, bsize := bsize t AND NOT PREV_FREE\<rparr>) s) (\<lambda>s.
     let tmp_size = (bsize h AND BLOCK_SIZE) - new_size in
     if tmp_size \<ge> SIZEOF_BHDR then split_block (\<lambda>w. w OR PREV_FREE) b new_size tmp_size next_b s else Inr s))))"

text \<open>The contents move to a new block.\<close>

definition move_block :: "nat \<Rightarrow> nat \<Rightarrow> u64 \<Rightarrow> tlsf \<Rightarrow> tlsf_error + nat \<times> tlsf" where
  "move_block ptr b new_size s =
     bind_err (malloc_ex new_size s) (\<lambda>(ptr_aux, s).
     if ptr_aux = 0 then Inr (0, s)
     else
       bind_err (get_hdr b s) (\<lambda>h.
       let cpsize = ucast (if bsize h AND BLOCK_SIZE > new_size then new_size else bsize h AND BLOCK_SIZE) :: u32 in
       bind_err (free_ex ptr (memcpy ptr_aux ptr (unat cpsize) s)) (\<lambda>s. Inr (ptr_aux, s))))"

definition realloc_ex :: "nat \<Rightarrow> u64 \<Rightarrow> tlsf \<Rightarrow> tlsf_error + nat \<times> tlsf" where
  "realloc_ex ptr new_size s =
     (if ptr = 0 then if new_size \<noteq> 0 then malloc_ex new_size s else Inr (0, s)
      else if new_size = 0 then bind_err (free_ex ptr s) (\<lambda>s. Inr (0, s))
      else
        let b = ptr - unat BHDR_OVERHEAD in
        bind_err (get_hdr b s) (\<lambda>h.
        let tmp_size = bsize h AND BLOCK_SIZE; next_b = GET_NEXT_BLOCK (buffer b) tmp_size;
            new_size = request_size new_size in
        bind_err (get_hdr next_b s) (\<lambda>t.
        let next_free = (bsize t AND FREE_BLOCK \<noteq> 0) in
        if new_size \<le> tmp_size then
          bind_err (shrink_block b next_b tmp_size new_size next_free s) (\<lambda>s. Inr (buffer b, s))
        else if next_free \<and> new_size \<le> tmp_size + (bsize t AND BLOCK_SIZE) then
          bind_err (grow_block b next_b new_size s) (\<lambda>s. Inr (buffer b, s))
        else move_block ptr b new_size s)))"

definition calloc_ex :: "u64 \<Rightarrow> u64 \<Rightarrow> tlsf \<Rightarrow> tlsf_error + nat \<times> tlsf" where
  "calloc_ex nelem elem_size s =
     (if nelem \<le> 0 \<or> elem_size \<le> 0 then Inr (0, s)
      else bind_err (malloc_ex (nelem * elem_size) s) (\<lambda>(ptr, s).
        if ptr = 0 then Inr (0, s) else Inr (ptr, memset0 ptr (unat (nelem * elem_size)) s)))"

subsection \<open>Setting up a pool\<close>

definition process_area :: "nat \<Rightarrow> u64 \<Rightarrow> tlsf \<Rightarrow> tlsf_error + nat \<times> tlsf" where
  "process_area ar sz s =
     (let ib = ar; isize = (if (16 :: u64) < MIN_BLOCK_SIZE then MIN_BLOCK_SIZE else ROUNDUP_SIZE 16 OR USED_BLOCK OR PREV_USED) in
      bind_err (upd_hdr ib (\<lambda>h. h\<lparr>bsize := isize\<rparr>) s) (\<lambda>s.
      let b = GET_NEXT_BLOCK (buffer ib) (isize AND BLOCK_SIZE);
          bs = ROUNDDOWN_SIZE (sz - 3 * BHDR_OVERHEAD - (isize AND BLOCK_SIZE)) OR USED_BLOCK OR PREV_USED in
      bind_err (upd_hdr b (\<lambda>h. h\<lparr>bsize := bs\<rparr>) s) (\<lambda>s.
      bind_err (null_links b s) (\<lambda>s.
      let lb = GET_NEXT_BLOCK (buffer b) (bs AND BLOCK_SIZE) in
      bind_err (upd_hdr lb (\<lambda>h. h\<lparr>prev_hdr := b, bsize := 0 OR USED_BLOCK OR PREV_FREE\<rparr>) s) (\<lambda>s.
      bind_err (upd_area (buffer ib) (\<lambda>_. \<lparr>ai_end = lb, ai_next = 0\<rparr>) s) (\<lambda>s.
      Inr (ib, s\<lparr>blks := {ib, b, lb} \<union> blks s, areas := insert ib (areas s)\<rparr>)))))))"

text \<open>
  The pool memory after \<^verbatim>\<open>memset(mem_pool, 0, sizeof(tlsf_t))\<close> and the write of the signature.
  The bounds of the memory that blocks may occupy are those of the caller's object.
\<close>

definition clear_tlsf :: "nat \<Rightarrow> u64 \<Rightarrow> tlsf \<Rightarrow> tlsf" where
  "clear_tlsf mem_pool mem_pool_size s =
     s\<lparr>tlsf_signature := TLSF_SIGNATURE, area_head := 0, fl_bitmap := 0, sl_bitmap := replicate (nat REAL_FLI) 0,
       matrix := replicate (nat REAL_FLI) (replicate (nat MAX_SLI) 0),
       owned := (\<lambda>x. GET_NEXT_BLOCK mem_pool (ROUNDUP_SIZE SIZEOF_TLSF) \<le> x \<and> x < mem_pool + unat mem_pool_size),
       blks := {}, areas := {}, lists := (\<lambda>_ _. [])\<rparr>"

definition setup_pool :: "u64 \<Rightarrow> nat \<Rightarrow> tlsf \<Rightarrow> tlsf_error + u64 \<times> tlsf" where
  "setup_pool mem_pool_size mem_pool s =
     bind_err (process_area (GET_NEXT_BLOCK mem_pool (ROUNDUP_SIZE SIZEOF_TLSF))
       (ROUNDDOWN_SIZE (mem_pool_size - SIZEOF_TLSF)) (clear_tlsf mem_pool mem_pool_size s)) (\<lambda>(ib, s).
     bind_err (get_hdr ib s) (\<lambda>ih.
     let b = GET_NEXT_BLOCK (buffer ib) (bsize ih AND BLOCK_SIZE) in
     bind_err (free_ex (buffer b) s) (\<lambda>s.
     bind_err (get_hdr b s) (\<lambda>h.
     Inr (bsize h AND BLOCK_SIZE, s\<lparr>area_head := buffer ib\<rparr>)))))"

subsection \<open>Adding memory to a pool\<close>

text \<open>
  The new memory after \<^verbatim>\<open>memset(area, 0, area_size)\<close>. From here on the pool owns it.
\<close>

definition clear_area :: "nat \<Rightarrow> u64 \<Rightarrow> tlsf \<Rightarrow> tlsf" where
  "clear_area ar sz s = memset0 ar (unat sz) (s\<lparr>owned := (\<lambda>x. ar \<le> x \<and> x < ar + unat sz \<or> owned s x)\<rparr>)"

text \<open>The local variables of the loop of \<^verbatim>\<open>add_new_area\<close>; \<^verbatim>\<open>ib1\<close>, \<^verbatim>\<open>b1\<close>, \<^verbatim>\<open>lb1\<close> are new in every round.\<close>

record area_walk =
  a_ptr :: nat
  a_prev :: nat
  a_ib0 :: nat
  a_b0 :: nat
  a_lb0 :: nat

definition unlink_area :: "area_walk \<Rightarrow> tlsf \<Rightarrow> tlsf_error + area_walk \<times> tlsf" where
  "unlink_area w s =
     bind_err (get_area (a_ptr w) s) (\<lambda>a.
     bind_err (if area_head s = a_ptr w then Inr (s\<lparr>area_head := ai_next a\<rparr>)
               else upd_area (a_prev w) (\<lambda>p. p\<lparr>ai_next := ai_next a\<rparr>) s) (\<lambda>s.
     Inr (w\<lparr>a_ptr := ai_next a\<rparr>, s)))"

text \<open>One round of the loop, at the area whose descriptor is at \<^verbatim>\<open>ptr\<close>.\<close>

definition merge_area :: "area_walk \<Rightarrow> tlsf \<Rightarrow> tlsf_error + area_walk \<times> tlsf" where
  "merge_area w s =
     (let ib0 = a_ib0 w; b0 = a_b0 w; lb0 = a_lb0 w; ib1 = a_ptr w - unat BHDR_OVERHEAD in
      bind_err (get_hdr ib1 s) (\<lambda>h1.
      let b1 = GET_NEXT_BLOCK (buffer ib1) (bsize h1 AND BLOCK_SIZE) in
      bind_err (get_area (a_ptr w) s) (\<lambda>a.
      let lb1 = ai_end a in
      if ib1 = lb0 + unat BHDR_OVERHEAD then
        bind_err (unlink_area w s) (\<lambda>(w, s).
        bind_err (upd_hdr b0 (\<lambda>h. h\<lparr>bsize := ROUNDDOWN_SIZE ((bsize h AND BLOCK_SIZE) + (bsize h1 AND BLOCK_SIZE) + 2 * BHDR_OVERHEAD)
          OR USED_BLOCK OR PREV_USED\<rparr>) s) (\<lambda>s.
        bind_err (upd_hdr b1 (\<lambda>h. h\<lparr>prev_hdr := b0\<rparr>) s) (\<lambda>s.
        Inr (w\<lparr>a_lb0 := lb1\<rparr>, s\<lparr>blks := blks s - {lb0, ib1}, areas := areas s - {ib1}\<rparr>))))
      else if buffer lb1 = ib0 then
        bind_err (unlink_area w s) (\<lambda>(w, s).
        bind_err (get_hdr b0 s) (\<lambda>h.
        bind_err (get_hdr ib0 s) (\<lambda>i.
        bind_err (upd_hdr lb1 (\<lambda>l. l\<lparr>bsize := ROUNDDOWN_SIZE ((bsize h AND BLOCK_SIZE) + (bsize i AND BLOCK_SIZE) + 2 * BHDR_OVERHEAD)
          OR USED_BLOCK OR (bsize l AND PREV_STATE)\<rparr>) s) (\<lambda>s.
        bind_err (get_hdr lb1 s) (\<lambda>l.
        bind_err (upd_hdr (GET_NEXT_BLOCK (buffer lb1) (bsize l AND BLOCK_SIZE)) (\<lambda>h. h\<lparr>prev_hdr := lb1\<rparr>) s) (\<lambda>s.
        Inr (w\<lparr>a_b0 := lb1, a_ib0 := ib1\<rparr>, s\<lparr>blks := blks s - {ib0, b0}, areas := areas s - {ib0}\<rparr>)))))))
      else Inr (w\<lparr>a_prev := a_ptr w, a_ptr := ai_next a\<rparr>, s))))"

partial_function (option) merge_areas :: "area_walk \<Rightarrow> tlsf \<Rightarrow> (tlsf_error + area_walk \<times> tlsf) option" where
  "merge_areas w s =
     (if a_ptr w = 0 then Some (Inr (w, s))
      else case merge_area w s of Inl e \<Rightarrow> Some (Inl e) | Inr (w, s) \<Rightarrow> merge_areas w s)"

definition insert_area :: "area_walk \<Rightarrow> tlsf \<Rightarrow> tlsf_error + u64 \<times> tlsf" where
  "insert_area w s =
     (let ai = buffer (a_ib0 w) in
      bind_err (upd_area ai (\<lambda>_. \<lparr>ai_end = a_lb0 w, ai_next = area_head s\<rparr>) s) (\<lambda>s.
      bind_err (free_ex (buffer (a_b0 w)) (s\<lparr>area_head := ai\<rparr>)) (\<lambda>s.
      bind_err (get_hdr (a_b0 w) s) (\<lambda>h. Inr (bsize h AND BLOCK_SIZE, s)))))"

definition new_area_walk :: "nat \<Rightarrow> u64 \<Rightarrow> tlsf \<Rightarrow> tlsf_error + area_walk \<times> tlsf" where
  "new_area_walk ar sz s =
     bind_err (process_area ar sz (clear_area ar sz s)) (\<lambda>(ib0, t).
     bind_err (get_hdr ib0 t) (\<lambda>i.
     let b0 = GET_NEXT_BLOCK (buffer ib0) (bsize i AND BLOCK_SIZE) in
     bind_err (get_hdr b0 t) (\<lambda>h.
     Inr (\<lparr>a_ptr = area_head s, a_prev = 0, a_ib0 = ib0, a_b0 = b0, a_lb0 = GET_NEXT_BLOCK (buffer b0) (bsize h AND BLOCK_SIZE)\<rparr>, t))))"

definition add_new_area :: "nat \<Rightarrow> u64 \<Rightarrow> tlsf \<Rightarrow> (tlsf_error + u64 \<times> tlsf) option" where
  "add_new_area ar sz s =
     (case new_area_walk ar sz s of
        Inl e \<Rightarrow> Some (Inl e)
      | Inr (w, s) \<Rightarrow> map_option (\<lambda>r. bind_err r (\<lambda>(w, s). insert_area w s)) (merge_areas w s))"

subsection \<open>The end of a pool\<close>

definition destroy_memory_pool :: "tlsf \<Rightarrow> tlsf" where
  "destroy_memory_pool s = s\<lparr>tlsf_signature := 0\<rparr>"

definition get_used_size :: "tlsf \<Rightarrow> u64" where "get_used_size s = 0"
definition get_max_size :: "tlsf \<Rightarrow> u64" where "get_max_size s = 0"

end
