(* ===== verification/Tlsf_Blocks.thy ===== *)
theory Tlsf_Blocks
  imports Tlsf
begin

text \<open>
  The physical side of the allocator: the size word of a header with its two flags, and the
  layout of blocks in the pool. A layout is given by the set of block addresses and, for each
  block, its size, whether it is free, whether its predecessor is free, and its back pointer.
  Two lemmas cover every change the operations make: a run of neighbouring blocks becomes one
  block (\<open>layout_join\<close>), and one block becomes two (\<open>layout_split\<close>).
\<close>

subsection \<open>Size words\<close>

definition hword :: "nat \<Rightarrow> bool \<Rightarrow> bool \<Rightarrow> u64" where
  "hword n f p = word_of_nat (n + of_bool f + 2 * of_bool p)"

definition wsize :: "u64 \<Rightarrow> nat" where "wsize w = unat (w AND BLOCK_SIZE)"
definition wfree :: "u64 \<Rightarrow> bool" where "wfree w = bit w 0"
definition wprev :: "u64 \<Rightarrow> bool" where "wprev w = bit w 1"

text \<open>A block size: a multiple of 16 below 2 to the 32.\<close>

definition size_ok :: "nat \<Rightarrow> bool" where "size_ok n \<longleftrightarrow> 16 dvd n \<and> n < 4294967296"

lemma size_ok_bit:
  assumes "size_ok n" "bit n i"
  shows "4 \<le> i \<and> i < 32"
proof -
  have "take_bit 4 n = 0" using assms(1) by (simp add: size_ok_def take_bit_eq_mod)
  then have "4 \<le> i" using assms(2) by (metis bit_take_bit_iff bit_0_eq bot_apply bot_bool_def not_le)
  moreover have "take_bit 32 n = n" using assms(1) by (simp add: size_ok_def take_bit_nat_eq_self)
  then have "i < 32" using assms(2) by (metis bit_take_bit_iff)
  ultimately show ?thesis by simp
qed

lemma bit_BLOCK_SIZE: "bit BLOCK_SIZE i \<longleftrightarrow> 3 \<le> i \<and> i < 32"
proof -
  have "BLOCK_SIZE = push_bit 3 (mask 29)" by (simp add: BLOCK_SIZE_def PTR_MASK_def mask_eq_exp_minus_1)
  also have "bit (push_bit 3 (mask 29 :: u64)) i \<longleftrightarrow> 3 \<le> i \<and> i < 32"
    by (auto simp: bit_push_bit_iff bit_mask_iff)
  finally show ?thesis .
qed

lemma bit_hword:
  assumes "size_ok n"
  shows "bit (hword n f p) i \<longleftrightarrow> bit n i \<or> i = 0 \<and> f \<or> i = 1 \<and> p"
proof -
  have "n + of_bool f + 2 * of_bool p = n + (of_bool f OR 2 * of_bool p)"
    by (cases f; cases p) simp_all
  also have "\<dots> = n OR (of_bool f OR 2 * of_bool p)"
  proof (rule disjunctive_add)
    fix j
    show "\<not> bit n j \<or> \<not> bit (of_bool f OR 2 * of_bool p :: nat) j"
      using size_ok_bit [OF assms, of j] by (auto simp: bit_or_iff bit_2_iff bit_1_iff bit_Suc_0_iff of_bool_def)
  qed
  finally have b: "bit (n + of_bool f + 2 * of_bool p) i \<longleftrightarrow> bit n i \<or> i = 0 \<and> f \<or> i = 1 \<and> p"
    by (auto simp: bit_or_iff bit_2_iff bit_1_iff bit_Suc_0_iff of_bool_def)
  then have "possible_bit TYPE(64 word) i" if "bit (n + of_bool f + 2 * of_bool p) i"
    using size_ok_bit [OF assms, of i] that by auto
  then show ?thesis unfolding hword_def bit_of_nat_iff using b by blast
qed

lemma hword_word: "word_of_nat n = hword n False False"
  by (simp add: hword_def)

lemma hword_add: "hword n f p + word_of_nat m = hword (n + m) f p"
  by (simp add: hword_def)

lemma bit_flags:
  "bit FREE_BLOCK i \<longleftrightarrow> i = 0" "bit PREV_FREE i \<longleftrightarrow> i = 1" "bit PREV_STATE i \<longleftrightarrow> i = 1" "\<not> bit PREV_USED i"
  by (auto simp: FREE_BLOCK_def PREV_FREE_def PREV_STATE_def PREV_USED_def bit_1_iff bit_2_iff)

lemma and_flag_0: "(\<And>i. bit m i \<longleftrightarrow> i = j) \<Longrightarrow> x AND m = 0 \<longleftrightarrow> \<not> bit x j" for x m :: "'a::len word"
  by (auto simp: bit_and_iff intro!: bit_word_eqI dest: arg_cong [where f = "\<lambda>y. bit y j"])

lemma hword_parts [simp]:
  assumes "size_ok n"
  shows "hword n f p AND BLOCK_SIZE = word_of_nat n" "wsize (hword n f p) = n"
    "wfree (hword n f p) = f" "wprev (hword n f p) = p"
    "hword n f p AND FREE_BLOCK = 0 \<longleftrightarrow> \<not> f" "hword n f p AND PREV_FREE = 0 \<longleftrightarrow> \<not> p"
proof -
  note bh = bit_hword [OF assms] and nb = size_ok_bit [OF assms]
  have nb01: "\<not> bit n 0" "\<not> bit n 1" using nb by fastforce+
  show a: "hword n f p AND BLOCK_SIZE = word_of_nat n"
    unfolding hword_word by (rule bit_word_eqI) (use nb in \<open>fastforce simp: bit_and_iff bh bit_BLOCK_SIZE\<close>)
  show "wsize (hword n f p) = n"
    using assms unfolding wsize_def a by (simp add: size_ok_def unat_of_nat)
  show w: "wfree (hword n f p) = f" "wprev (hword n f p) = p" using nb01 by (simp_all add: wfree_def wprev_def bh del: bit_0)
  show "hword n f p AND FREE_BLOCK = 0 \<longleftrightarrow> \<not> f" "hword n f p AND PREV_FREE = 0 \<longleftrightarrow> \<not> p"
    using w and_flag_0 [OF bit_flags(1)] and_flag_0 [OF bit_flags(2)] unfolding wfree_def wprev_def by blast+
qed

lemma hword_ops:
  assumes "size_ok n"
  shows "hword n f p OR FREE_BLOCK = hword n True p" "hword n f p AND NOT FREE_BLOCK = hword n False p"
    "hword n f p OR PREV_FREE = hword n f True" "hword n f p AND NOT PREV_FREE = hword n f False"
    "size_ok m \<Longrightarrow> word_of_nat m OR (hword n f p AND PREV_STATE) = hword m False p"
    "word_of_nat n OR FREE_BLOCK OR PREV_USED = hword n True False"
proof -
  note bh = bit_hword [OF assms] and nb = size_ok_bit [OF assms]
  have nb01: "\<not> bit n 0" "\<not> bit n 1" using nb by fastforce+
  note bits = bit_and_iff bit_or_iff bit_not_iff bh bit_flags nb01
  show "hword n f p OR FREE_BLOCK = hword n True p" "hword n f p AND NOT FREE_BLOCK = hword n False p"
    "hword n f p OR PREV_FREE = hword n f True" "hword n f p AND NOT PREV_FREE = hword n f False"
    by (rule bit_word_eqI, use nb in \<open>fastforce simp: bits simp del: bit_0\<close>)+
  show "word_of_nat m OR (hword n f p AND PREV_STATE) = hword m False p" if "size_ok m"
    unfolding hword_word
    by (rule bit_word_eqI) (use nb in \<open>fastforce simp: bits bit_hword [OF that] simp del: bit_0\<close>)
  show "word_of_nat n OR FREE_BLOCK OR PREV_USED = hword n True False"
    unfolding hword_word
    by (rule bit_word_eqI) (use nb in \<open>fastforce simp: bits simp del: bit_0\<close>)
qed

subsection \<open>Layouts\<close>

text \<open>The part of a header that every block has: its back pointer and its size word.\<close>

type_synonym hview = "nat \<Rightarrow> nat \<times> u64"

definition bsz :: "hview \<Rightarrow> nat \<Rightarrow> nat" where "bsz v b = wsize (snd (v b))"
definition bfr :: "hview \<Rightarrow> nat \<Rightarrow> bool" where "bfr v b = wfree (snd (v b))"
definition bpf :: "hview \<Rightarrow> nat \<Rightarrow> bool" where "bpf v b = wprev (snd (v b))"
definition nxt :: "hview \<Rightarrow> nat \<Rightarrow> nat" where "nxt v b = b + 16 + bsz v b"

lemma view_hword:
  assumes "size_ok n" "v b = (p, hword n f q)"
  shows "bsz v b = n" "bfr v b = f" "bpf v b = q" "nxt v b = b + 16 + n"
  using assms by (simp_all add: bsz_def bfr_def bpf_def nxt_def)

text \<open>
  The memory from \<open>b\<close> up to \<open>e\<close>, and how much memory there may be: all of it has to fit one block.
\<close>

definition spans :: "(nat \<Rightarrow> bool) \<Rightarrow> nat \<Rightarrow> nat \<Rightarrow> bool" where
  "spans M b e \<longleftrightarrow> (\<forall>x. b \<le> x \<and> x < e \<longrightarrow> M x)"

definition small :: "(nat \<Rightarrow> bool) \<Rightarrow> bool" where
  "small M \<longleftrightarrow> finite (Collect M) \<and> card (Collect M) < 1073741824"

lemma spans_sub: "spans M b e \<Longrightarrow> b \<le> b' \<Longrightarrow> e' \<le> e \<Longrightarrow> spans M b' e'"
  by (simp add: spans_def)

lemma spans_join: "spans M b c \<Longrightarrow> spans M c' e \<Longrightarrow> c' \<le> c \<Longrightarrow> spans M b e"
  unfolding spans_def by (metis le_trans not_le)

lemma spans_mono: "spans M b e \<Longrightarrow> (\<And>x. M x \<Longrightarrow> M' x) \<Longrightarrow> spans M' b e"
  by (simp add: spans_def)

lemma spans_small:
  assumes "spans M b e" "small M"
  shows "e < b + 1073741824"
proof -
  have "{b..<e} \<subseteq> Collect M" using assms(1) by (auto simp: spans_def)
  then have "card {b..<e} \<le> card (Collect M)" using assms(2) by (intro card_mono) (simp_all add: small_def)
  then show ?thesis using assms(2) by (auto simp: small_def)
qed

text \<open>
  A layout: a block lies in owned memory, blocks do not overlap, a block ends where the next one
  starts, the block after a free block is used and points back to it, the size word of a block tells whether its
  predecessor is free, and a block of size 0 (the sentinel) is used.
\<close>

definition blocks_ok :: "(nat \<Rightarrow> bool) \<Rightarrow> nat set \<Rightarrow> hview \<Rightarrow> bool" where
  "blocks_ok M B v \<longleftrightarrow>
     (\<forall>b\<in>B. 0 < b \<and> spans M b (nxt v b) \<and> size_ok (bsz v b) \<and> snd (v b) = hword (bsz v b) (bfr v b) (bpf v b)) \<and>
     (\<forall>b\<in>B. bsz v b = 0 \<longrightarrow> \<not> bfr v b) \<and>
     (\<forall>b\<in>B. bsz v b \<noteq> 0 \<longrightarrow> nxt v b \<in> B \<and> bpf v (nxt v b) = bfr v b \<and>
        (bfr v b \<longrightarrow> fst (v (nxt v b)) = b \<and> \<not> bfr v (nxt v b))) \<and>
     (\<forall>b\<in>B. \<forall>c\<in>B. b < c \<longrightarrow> nxt v b \<le> c) \<and>
     (\<forall>c\<in>B. bpf v c \<longrightarrow> (\<exists>b\<in>B. bfr v b \<and> nxt v b = c))"

lemma blocks_okD:
  assumes "blocks_ok M B v" "b \<in> B"
  shows "0 < b" "spans M b (nxt v b)" "size_ok (bsz v b)" "snd (v b) = hword (bsz v b) (bfr v b) (bpf v b)"
    "bfr v b \<Longrightarrow> bsz v b \<noteq> 0"
    "bsz v b \<noteq> 0 \<Longrightarrow> nxt v b \<in> B" "bsz v b \<noteq> 0 \<Longrightarrow> bpf v (nxt v b) = bfr v b"
    "bfr v b \<Longrightarrow> fst (v (nxt v b)) = b" "bfr v b \<Longrightarrow> \<not> bfr v (nxt v b)"
    "c \<in> B \<Longrightarrow> b < c \<Longrightarrow> nxt v b \<le> c"
    "bpf v b \<Longrightarrow> fst (v b) \<in> B \<and> bfr v (fst (v b)) \<and> nxt v (fst (v b)) = b"
proof -
  note d = assms(1) [unfolded blocks_ok_def]
  show "0 < b" "spans M b (nxt v b)" "size_ok (bsz v b)" "snd (v b) = hword (bsz v b) (bfr v b) (bpf v b)" using d assms(2) by auto
  show "bfr v b \<Longrightarrow> bsz v b \<noteq> 0" using d assms(2) by auto
  show "bsz v b \<noteq> 0 \<Longrightarrow> nxt v b \<in> B" "bsz v b \<noteq> 0 \<Longrightarrow> bpf v (nxt v b) = bfr v b" using d assms(2) by auto
  show "bfr v b \<Longrightarrow> fst (v (nxt v b)) = b" "bfr v b \<Longrightarrow> \<not> bfr v (nxt v b)" using d assms(2) by auto
  show "c \<in> B \<Longrightarrow> b < c \<Longrightarrow> nxt v b \<le> c" using d assms(2) by blast
  show "fst (v b) \<in> B \<and> bfr v (fst (v b)) \<and> nxt v (fst (v b)) = b" if "bpf v b"
    using d assms(2) that by (metis (no_types, lifting))
qed

lemma blocks_okI:
  assumes "\<And>b. b \<in> B \<Longrightarrow> 0 < b \<and> spans M b (nxt v b) \<and> size_ok (bsz v b) \<and> snd (v b) = hword (bsz v b) (bfr v b) (bpf v b)"
    "\<And>b. b \<in> B \<Longrightarrow> bsz v b = 0 \<Longrightarrow> \<not> bfr v b"
    "\<And>b. b \<in> B \<Longrightarrow> bsz v b \<noteq> 0 \<Longrightarrow> nxt v b \<in> B \<and> bpf v (nxt v b) = bfr v b \<and>
      (bfr v b \<longrightarrow> fst (v (nxt v b)) = b \<and> \<not> bfr v (nxt v b))"
    "\<And>b c. b \<in> B \<Longrightarrow> c \<in> B \<Longrightarrow> b < c \<Longrightarrow> nxt v b \<le> c"
    "\<And>c. c \<in> B \<Longrightarrow> bpf v c \<Longrightarrow> \<exists>b\<in>B. bfr v b \<and> nxt v b = c"
  shows "blocks_ok M B v"
  unfolding blocks_ok_def using assms by simp

text \<open>The blocks from \<open>c\<close> up to \<open>e\<close> become one block.\<close>

lemma layout_join:
  assumes ok: "blocks_ok M B v" and ce: "c \<in> B" "e \<in> B" "c + 16 < e" "size_ok (e - c - 16)" "spans M c e"
    and f: "f \<Longrightarrow> \<not> bpf v c \<and> \<not> bfr v e"
    and B': "B' = {x \<in> B. x \<le> c \<or> e \<le> x}"
    and same: "\<And>x. x \<in> B' \<Longrightarrow> x \<noteq> c \<Longrightarrow> x \<noteq> e \<Longrightarrow> v' x = v x"
    and v'c: "v' c = (fst (v c), hword (e - c - 16) f (bpf v c))"
    and v'e: "snd (v' e) = hword (bsz v e) (bfr v e) f" "f \<Longrightarrow> fst (v' e) = c"
  shows "blocks_ok M B' v'"
proof -
  note d = blocks_okD [OF ok]
  have e: "bsz v' e = bsz v e" "bfr v' e = bfr v e" "bpf v' e = f"
    using v'e(1) d(3) [OF ce(2)] by (simp_all add: bsz_def bfr_def bpf_def)
  have c: "bsz v' c = e - c - 16" "bfr v' c = f" "bpf v' c = bpf v c" "nxt v' c = e" "fst (v' c) = fst (v c)"
    using v'c ce(3,4) by (simp_all add: bsz_def bfr_def bpf_def nxt_def)
  have x: "bsz v' x = bsz v x" "bfr v' x = bfr v x" "nxt v' x = nxt v x" if "x \<in> B'" "x \<noteq> c" for x
    using that same e(1,2) by (cases "x = e"; simp add: nxt_def bsz_def bfr_def)+
  have y: "bpf v' x = bpf v x" "fst (v' x) = fst (v x)" if "x \<in> B'" "x \<noteq> e" for x
    using that same c(3,5) by (cases "x = c"; simp add: bpf_def)+
  have out: "x < c \<and> nxt v x \<le> c \<or> e \<le> x \<and> e < nxt v x" if "x \<in> B'" "x \<noteq> c" for x
    using that B' d(10) [of x c] ce(1) by (auto simp: nxt_def)
  have w: "snd (v' x) = hword (bsz v' x) (bfr v' x) (bpf v' x)" if "x \<in> B'" for x
  proof (cases "x = c \<or> x = e")
    case True
    then show ?thesis using v'c v'e(1) c(1-3) e by auto
  next
    case False
    then have "x \<in> B" "v' x = v x" using that B' same by auto
    then show ?thesis using d(4) by (simp add: bsz_def bfr_def bpf_def)
  qed
  have 1: "0 < x \<and> spans M x (nxt v' x) \<and> size_ok (bsz v' x) \<and> snd (v' x) = hword (bsz v' x) (bfr v' x) (bpf v' x)"
    if "x \<in> B'" for x
  proof (cases "x = c")
    case True
    then show ?thesis using w [OF that] c(1,4) d(1) [OF ce(1)] ce(4,5) by simp
  next
    case False
    then show ?thesis using w [OF that] that B' x [OF that False] d(1-3) [of x] by simp
  qed
  have 2: "\<not> bfr v' x" if "x \<in> B'" "bsz v' x = 0" for x
    using that B' c(1) x(1,2) [OF that(1)] d(5) [of x] ce(3) by (cases "x = c") auto
  have 3: "nxt v' x \<in> B' \<and> bpf v' (nxt v' x) = bfr v' x \<and> (bfr v' x \<longrightarrow> fst (v' (nxt v' x)) = x \<and> \<not> bfr v' (nxt v' x))"
    if "x \<in> B'" "bsz v' x \<noteq> 0" for x
  proof (cases "x = c")
    case True
    then show ?thesis using c e f v'e(2) B' ce(2) by auto
  next
    case False
    have s: "x \<in> B" "bsz v x \<noteq> 0" using that B' x(1) [OF that(1) False] by auto
    have nB: "nxt v x \<in> B'" "nxt v x \<noteq> e" using out [OF that(1) False] d(6) [OF s] B' ce(3) by auto
    have "\<not> bfr v' (nxt v x)" if b: "bfr v x"
    proof (cases "nxt v x = c")
      case True
      then show ?thesis using d(7) [OF s] b f c(2) by auto
    next
      case False
      then show ?thesis using x(2) [OF nB(1)] d(9) [OF s(1) b] by simp
    qed
    then show ?thesis using x [OF that(1) False] y [OF nB] nB(1) d(7) [OF s] d(8) [OF s(1)] by simp
  qed
  have 4: "nxt v' a \<le> b" if "a \<in> B'" "b \<in> B'" "a < b" for a b
    using that B' c(4) x(3) [OF that(1)] d(10) [of a b] by (cases "a = c") auto
  have 5: "\<exists>b\<in>B'. bfr v' b \<and> nxt v' b = a" if "a \<in> B'" "bpf v' a" for a
  proof (cases "a = e")
    case True
    then show ?thesis using that(2) e(3) c ce(1) B' by auto
  next
    case False
    then have "bpf v a" "a \<in> B" using that y(1) [OF that(1)] B' by auto
    then obtain b where b: "b \<in> B" "bfr v b" "nxt v b = a" using d(11) by blast
    have "\<not> (c \<le> b \<and> b < e)"
    proof
      assume "c \<le> b \<and> b < e"
      then show False using d(10) [OF b(1) ce(2)] b(3) that(1) B' False by (auto simp: nxt_def)
    qed
    then have "b \<in> B'" "b \<noteq> c" using b(1) B' ce(3) by auto
    then show ?thesis using x [of b] b by auto
  qed
  show ?thesis by (rule blocks_okI [OF 1 2 3 4 5])
qed

text \<open>The block \<open>c\<close> becomes a used block of size \<open>m\<close> and a free block \<open>r\<close> behind it.\<close>

lemma layout_split:
  assumes ok: "blocks_ok M B v" and c: "c \<in> B" and m: "size_ok m" "0 < m" "m + 16 < bsz v c"
    and e: "e = nxt v c" "\<not> bfr v e" and r: "r = c + 16 + m"
    and same: "\<And>x. x \<in> B \<Longrightarrow> x \<noteq> c \<Longrightarrow> x \<noteq> e \<Longrightarrow> v' x = v x"
    and v'c: "v' c = (fst (v c), hword m False (bpf v c))"
    and v'r: "snd (v' r) = hword (bsz v c - m - 16) True False"
    and v'e: "v' e = (r, hword (bsz v e) False True)"
  shows "blocks_ok M (insert r B) v'" "r \<notin> B" "nxt v' r = e" "bsz v' r = bsz v c - m - 16"
proof -
  note d = blocks_okD [OF ok]
  have eB: "e \<in> B" using d(6) [OF c] m e(1) by simp
  have so: "size_ok (bsz v c - m - 16)"
    using d(3) [OF c] m(1) unfolding size_ok_def by (auto intro!: dvd_diff_nat)
  have E: "bsz v' e = bsz v e" "\<not> bfr v' e" "bpf v' e" "fst (v' e) = r" "nxt v' e = nxt v e"
    using v'e d(3) [OF eB] by (simp_all add: bsz_def bfr_def bpf_def nxt_def)
  have C: "bsz v' c = m" "\<not> bfr v' c" "bpf v' c = bpf v c" "nxt v' c = r" "fst (v' c) = fst (v c)"
    using v'c m r by (simp_all add: bsz_def bfr_def bpf_def nxt_def)
  have R: "bsz v' r = bsz v c - m - 16" "bfr v' r" "\<not> bpf v' r" "nxt v' r = e" "c < r" "r < e"
    using v'r so m(3) e(1) r by (simp_all add: bsz_def bfr_def bpf_def nxt_def)
  show rB: "r \<notin> B" and "nxt v' r = e" "bsz v' r = bsz v c - m - 16"
    using R d(10) [OF c, of r] e(1) by auto
  have x: "bsz v' x = bsz v x" "bfr v' x = bfr v x" "nxt v' x = nxt v x" if "x \<in> B" "x \<noteq> c" for x
    using that same E e(2) by (cases "x = e"; simp add: nxt_def bsz_def bfr_def)+
  have y: "bpf v' x = bpf v x" "fst (v' x) = fst (v x)" if "x \<in> B" "x \<noteq> e" for x
    using that same C(3,5) by (cases "x = c"; simp add: bpf_def)+
  have out: "x < c \<and> nxt v x \<le> c \<or> e \<le> x \<and> e < nxt v x" if "x \<in> B" "x \<noteq> c" for x
    using d(10) [OF that(1) c] d(10) [OF c that(1)] that(2) e(1)
    by (cases "x < c") (auto simp: nxt_def)
  have w: "0 < x \<and> spans M x (nxt v' x) \<and> size_ok (bsz v' x) \<and> snd (v' x) = hword (bsz v' x) (bfr v' x) (bpf v' x)"
    if xB: "x \<in> insert r B" for x
  proof -
    consider "x = c" | "x = e" | "x = r" | "x \<in> B" "x \<noteq> c" "x \<noteq> e" using xB by blast
    then show ?thesis
    proof cases
      case 1
      then show ?thesis using C v'c m(1) d(1) [OF c] spans_sub [OF d(2) [OF c]] R(6) e(1) by simp
    next
      case 2
      then show ?thesis using E v'e d(1-3) [OF eB] by simp
    next
      case 3
      then show ?thesis using R v'r so spans_sub [OF d(2) [OF c]] e(1) by simp
    next
      case 4
      then show ?thesis using x [OF 4(1,2)] y [OF 4(1,3)] same [OF 4] d(1-4) [OF 4(1)] by simp
    qed
  qed
  have 2: "\<not> bfr v' x" if "x \<in> insert r B" "bsz v' x = 0" for x
    using that x(1,2) [of x] d(5) [of x] R(1) C(2) m(3) by (cases "x = c") auto
  have 3: "nxt v' x \<in> insert r B \<and> bpf v' (nxt v' x) = bfr v' x \<and> (bfr v' x \<longrightarrow> fst (v' (nxt v' x)) = x \<and> \<not> bfr v' (nxt v' x))"
    if "x \<in> insert r B" "bsz v' x \<noteq> 0" for x
  proof (cases "x = c \<or> x = r")
    case True
    then show ?thesis using C R E eB by auto
  next
    case False
    then have s: "x \<in> B" "x \<noteq> c" "bsz v x \<noteq> 0" using that x(1) [of x] by auto
    have nB: "nxt v x \<in> B" "nxt v x \<noteq> e" using out [OF s(1,2)] d(6) [OF s(1,3)] R(5,6) by auto
    have "\<not> bfr v' (nxt v x)" if "bfr v x"
      using C(2) x(2) [OF nB(1)] d(9) [OF s(1) that] by (cases "nxt v x = c") auto
    then show ?thesis using x [OF s(1,2)] y [OF nB] nB(1) d(7) [OF s(1,3)] d(8) [OF s(1)] by simp
  qed
  have 4: "nxt v' a \<le> b" if ab: "a \<in> insert r B" "b \<in> insert r B" "a < b" for a b
  proof -
    consider "a = r" | "a = c" | "a \<in> B" "a \<noteq> c" "a \<noteq> r" using ab(1) by blast
    then show ?thesis
    proof cases
      case 1
      then have "b \<in> B" using ab by auto
      then show ?thesis using d(10) [OF c, of b] R ab(3) 1 e(1) by simp
    next
      case 2
      then show ?thesis using C(4) R ab d(10) [OF c, of b] e(1) by auto
    next
      case 3
      then show ?thesis using x(3) [OF 3(1,2)] ab d(10) [OF 3(1), of b] out [OF 3(1,2)] R(5,6) by auto
    qed
  qed
  have 5: "\<exists>b\<in>insert r B. bfr v' b \<and> nxt v' b = a" if "a \<in> insert r B" "bpf v' a" for a
  proof (cases "a = e")
    case True
    then show ?thesis using R by auto
  next
    case False
    then have "a \<in> B" using that R(3) by auto
    then have "bpf v a" using that y(1) False by auto
    then obtain b where b: "b \<in> B" "bfr v b" "nxt v b = a" using d(11) [OF \<open>a \<in> B\<close>] by blast
    then have "b \<noteq> c" using False e(1) by auto
    then show ?thesis using x [OF b(1)] b by auto
  qed
  show "blocks_ok M (insert r B) v'" by (rule blocks_okI [OF w 2 3 4 5])
qed

lemma layout_cong:
  assumes "blocks_ok M B v" "\<And>x. x \<in> B \<Longrightarrow> v' x = v x"
  shows "blocks_ok M B v'"
proof -
  note d = blocks_okD [OF assms(1)]
  have x: "bsz v' x = bsz v x" "bfr v' x = bfr v x" "bpf v' x = bpf v x" "nxt v' x = nxt v x" if "x \<in> B" for x
    using assms(2) [OF that] by (simp_all add: bsz_def bfr_def bpf_def nxt_def)
  show ?thesis
  proof (rule blocks_okI)
    show "\<exists>b\<in>B. bfr v' b \<and> nxt v' b = c" if "c \<in> B" "bpf v' c" for c
      using d(11) [of c] that x by (intro bexI [of _ "fst (v c)"]) auto
    show "\<not> bfr v' b" if "b \<in> B" "bsz v' b = 0" for b using d(5) [OF that(1)] that(2) x [OF that(1)] by auto
    show "nxt v' b \<in> B \<and> bpf v' (nxt v' b) = bfr v' b \<and> (bfr v' b \<longrightarrow> fst (v' (nxt v' b)) = b \<and> \<not> bfr v' (nxt v' b))"
      if "b \<in> B" "bsz v' b \<noteq> 0" for b
      using d(6-9) [OF that(1)] that x assms(2) by simp
  qed (use d(1-4,10) x assms(2) in auto)
qed

end
