(* ===== verification/Tlsf_Bytes.thy ===== *)
theory Tlsf_Bytes
  imports Tlsf
begin

text \<open>
  The bytes of the pool: a word that is stored is read back, and which bytes an operation may
  write. \<open>bytes_only A\<close> is the frame of an operation that writes at most the addresses of \<open>A\<close>;
  \<open>header_bytes\<close> and \<open>link_bytes\<close> are the addresses of headers and of free list links.
\<close>

subsection \<open>Words in memory\<close>

lemma bit_word_byte: "bit (word_byte w i) j \<longleftrightarrow> j < 8 \<and> bit w (8 * i + j)"
  by (auto simp: word_byte_def bit_ucast_iff bit_drop_bit_eq dest: bit_imp_le_length)

lemma bit_fold_bytes:
  "bit (foldr (\<lambda>i w. push_bit 8 w OR ucast (d (a + i))) [k..<k + m] (0 :: u64)) n \<longleftrightarrow>
     n < 64 \<and> n div 8 < m \<and> bit (d (a + k + n div 8) :: 8 word) (n mod 8)"
proof (induction m arbitrary: k n)
  case (Suc m)
  let ?f = "\<lambda>i w. push_bit 8 w OR ucast (d (a + i)) :: u64"
  have s: "foldr ?f [k..<k + Suc m] 0 = push_bit 8 (foldr ?f [Suc k..<Suc k + m] 0) OR ucast (d (a + k))"
    by (subst upt_rec) simp
  show ?case
  proof (cases "n < 8")
    case True
    then show ?thesis unfolding s by (simp add: bit_or_iff bit_push_bit_iff bit_ucast_iff del: bit_0)
  next
    case False
    then have n: "(n - 8) div 8 = n div 8 - 1" "(n - 8) mod 8 = n mod 8" "0 < n div 8" "8 \<le> n"
      by (simp_all add: le_div_geq le_mod_geq)
    have "\<not> bit (d (a + k)) n" using False by (auto dest: bit_imp_le_length)
    then have "bit (foldr ?f [k..<k + Suc m] 0) n \<longleftrightarrow> n < 64 \<and> bit (foldr ?f [Suc k..<Suc k + m] 0) (n - 8)"
      unfolding s using n(4) by (auto simp: bit_or_iff bit_push_bit_iff bit_ucast_iff simp del: bit_0)
    also have "\<dots> \<longleftrightarrow> n < 64 \<and> n div 8 < Suc m \<and> bit (d (a + k + n div 8)) (n mod 8)"
      unfolding Suc.IH n(1,2) using n(3,4) by (cases "n div 8") auto
    finally show ?thesis .
  qed
qed simp

lemma bit_load_word: "n < 64 \<Longrightarrow> bit (load_word d a) n \<longleftrightarrow> bit (d (a + n div 8)) (n mod 8)"
  using bit_fold_bytes [of d a 0 8 n] div_less_iff_less_mult [of 8 n 8] by (simp add: load_word_def)

lemma load_store_word [simp]: "load_word (store_word a w d) a = w"
proof (rule bit_word_eqI)
  fix n assume "n < LENGTH(64)"
  then have n: "n < 64" by simp
  then have "n div 8 < 8" by auto
  then show "bit (load_word (store_word a w d) a) n \<longleftrightarrow> bit w n"
    using bit_load_word [OF n] by (simp add: store_word_def bit_word_byte)
qed

lemma load_word_cong:
  assumes "\<And>i. i < 8 \<Longrightarrow> d' (a + i) = d (a + i)"
  shows "load_word d' a = load_word d a"
proof (rule bit_word_eqI)
  fix n assume "n < LENGTH(64)"
  then have n: "n < 64" by simp
  then have "n div 8 < 8" by auto
  then show "bit (load_word d' a) n \<longleftrightarrow> bit (load_word d a) n"
    using bit_load_word [OF n] assms by simp
qed

lemma load_store_other: "b + 8 \<le> a \<or> a + 8 \<le> b \<Longrightarrow> load_word (store_word b w d) a = load_word d a"
  by (rule load_word_cong) (auto simp: store_word_def)

lemma store_word_other: "x < a \<or> a + 8 \<le> x \<Longrightarrow> store_word a w d x = d x"
  by (auto simp: store_word_def)

lemma load_zeros: "(\<And>i. i < 8 \<Longrightarrow> d (a + i) = 0) \<Longrightarrow> load_word d a = 0"
  by (rule bit_word_eqI) (simp add: bit_load_word div_less_iff_less_mult)

subsection \<open>Frames\<close>

definition header_bytes :: "nat set \<Rightarrow> nat set" where
  "header_bytes B = (\<Union>b\<in>B. {b..<b + 16})"

definition link_bytes :: "nat set \<Rightarrow> nat set" where
  "link_bytes B = (\<Union>b\<in>B. {b + 16..<b + 32})"

definition bytes_only :: "nat set \<Rightarrow> tlsf \<Rightarrow> tlsf \<Rightarrow> bool" where
  "bytes_only A s s' \<longleftrightarrow> (\<forall>x. x \<notin> A \<longrightarrow> data s' x = data s x)"

lemma bytes_only_same [intro]: "data s' = data s \<Longrightarrow> bytes_only A s s'"
  by (simp add: bytes_only_def)

lemma bytes_only_mono: "bytes_only A s s' \<Longrightarrow> A \<subseteq> A' \<Longrightarrow> bytes_only A' s s'"
  unfolding bytes_only_def by blast

lemma bytes_only_trans: "bytes_only A s t \<Longrightarrow> bytes_only A t u \<Longrightarrow> bytes_only A s u"
  by (simp add: bytes_only_def)

lemma bytes_only_trans': "bytes_only A s t \<Longrightarrow> bytes_only A' t u \<Longrightarrow> bytes_only (A \<union> A') s u"
  by (simp add: bytes_only_def)

lemma bytes_only_cong: "data s' = data s \<Longrightarrow> data t' = data t \<Longrightarrow> bytes_only A s' t' = bytes_only A s t"
  by (simp add: bytes_only_def)

lemma link_bytes_mono: "F \<subseteq> G \<Longrightarrow> link_bytes F \<subseteq> link_bytes G"
  unfolding link_bytes_def by blast

lemma header_bytes_mono: "F \<subseteq> G \<Longrightarrow> header_bytes F \<subseteq> header_bytes G"
  unfolding header_bytes_def by blast

lemma bytes_only_header: "bytes_only (header_bytes {b}) s t \<Longrightarrow> b \<in> B \<Longrightarrow> bytes_only (header_bytes B \<union> X) s t"
  by (rule bytes_only_mono) (auto simp: header_bytes_def)

lemma bytes_only_right: "bytes_only X s t \<Longrightarrow> bytes_only (Y \<union> X) s t"
  by (rule bytes_only_mono) auto

lemma set_header_fields [simp]:
  "mem (set_header b h s) = (mem s)(b := h)" "matrix (set_header b h s) = matrix s" "sl_bitmap (set_header b h s) = sl_bitmap s"
  "fl_bitmap (set_header b h s) = fl_bitmap s" "lists (set_header b h s) = lists s" "blks (set_header b h s) = blks s"
  "owned (set_header b h s) = owned s" "areas (set_header b h s) = areas s" "area (set_header b h s) = area s"
  "area_head (set_header b h s) = area_head s" "tlsf_signature (set_header b h s) = tlsf_signature s"
  by (simp_all add: set_header_def)

lemma set_links_fields [simp]:
  "mem (set_links b h s) = (mem s)(b := h)" "matrix (set_links b h s) = matrix s" "sl_bitmap (set_links b h s) = sl_bitmap s"
  "fl_bitmap (set_links b h s) = fl_bitmap s" "lists (set_links b h s) = lists s" "blks (set_links b h s) = blks s"
  "owned (set_links b h s) = owned s" "areas (set_links b h s) = areas s" "area (set_links b h s) = area s"
  "area_head (set_links b h s) = area_head s" "tlsf_signature (set_links b h s) = tlsf_signature s"
  by (simp_all add: set_links_def)

lemma set_area_fields [simp]:
  "mem (set_area a i s) = mem s" "matrix (set_area a i s) = matrix s" "sl_bitmap (set_area a i s) = sl_bitmap s"
  "fl_bitmap (set_area a i s) = fl_bitmap s" "lists (set_area a i s) = lists s" "blks (set_area a i s) = blks s"
  "owned (set_area a i s) = owned s" "areas (set_area a i s) = areas s" "area (set_area a i s) = (area s)(a := i)"
  "area_head (set_area a i s) = area_head s" "tlsf_signature (set_area a i s) = tlsf_signature s"
  by (simp_all add: set_area_def)

lemma set_bytes_fields [simp]:
  "matrix (set_bytes W f s) = matrix s" "sl_bitmap (set_bytes W f s) = sl_bitmap s" "fl_bitmap (set_bytes W f s) = fl_bitmap s"
  "lists (set_bytes W f s) = lists s" "blks (set_bytes W f s) = blks s" "owned (set_bytes W f s) = owned s"
  "areas (set_bytes W f s) = areas s" "area_head (set_bytes W f s) = area_head s"
  "tlsf_signature (set_bytes W f s) = tlsf_signature s" "data (set_bytes W f s) = (\<lambda>x. if W x then f x else data s x)"
  by (simp_all add: set_bytes_def Let_def)

lemma set_bytes_only:
  "bytes_only (header_bytes {b}) s (set_header b h s)" "bytes_only (link_bytes {b}) s (set_links b h s)"
  "bytes_only {a..<a + 16} s (set_area a i s)" "bytes_only (Collect W) s (set_bytes W f s)"
  by (auto simp: bytes_only_def header_bytes_def link_bytes_def set_header_def set_links_def set_area_def store_word_def)

text \<open>What bytes that are written elsewhere leave alone.\<close>

lemma set_bytes_apart:
  "(\<And>y. W y \<Longrightarrow> y < x \<or> x + 16 \<le> y) \<Longrightarrow> prev_hdr (mem (set_bytes W f s) x) = prev_hdr (mem s x) \<and> bsize (mem (set_bytes W f s) x) = bsize (mem s x)"
  "(\<And>y. W y \<Longrightarrow> y < x + 16 \<or> x + 32 \<le> y) \<Longrightarrow>
     free_prev (mem (set_bytes W f s) x) = free_prev (mem s x) \<and> free_next (mem (set_bytes W f s) x) = free_next (mem s x)"
  "(\<And>y. W y \<Longrightarrow> y < x \<or> x + 16 \<le> y) \<Longrightarrow> area (set_bytes W f s) x = area s x"
  unfolding set_bytes_def Let_def by (fastforce intro: area_info.equality)+

end
