(* ===== verification/Tlsf_Lists.thy ===== *)
theory Tlsf_Lists
  imports Tlsf_Blocks Tlsf_Bytes
begin

text \<open>
  The logical side of the allocator: for each class a doubly linked list of free blocks, with
  its head in the matrix and a bit per non-empty class in the two bitmaps. The list operations
  keep \<open>lists_ok\<close> and change nothing but links, bitmaps and the matrix; the search returns the
  head of the first non-empty class from the given one on.
\<close>

subsection \<open>Views of the state\<close>

definition hdrs :: "tlsf \<Rightarrow> hview" where
  "hdrs s x = (prev_hdr (mem s x), bsize (mem s x))"

definition links :: "tlsf \<Rightarrow> nat \<Rightarrow> nat \<times> nat" where
  "links s x = (free_prev (mem s x), free_next (mem s x))"

definition area_part :: "tlsf \<Rightarrow> (nat \<Rightarrow> area_info) \<times> nat" where
  "area_part s = (area s, area_head s)"

lemma area_part_fields [simp]:
  "area_part (s\<lparr>mem := m\<rparr>) = area_part s" "area_part (s\<lparr>matrix := a\<rparr>) = area_part s" "area_part (s\<lparr>sl_bitmap := b\<rparr>) = area_part s"
  "area_part (s\<lparr>fl_bitmap := c\<rparr>) = area_part s" "area_part (s\<lparr>lists := d\<rparr>) = area_part s" "area_part (s\<lparr>blks := e\<rparr>) = area_part s"
  "area_part (s\<lparr>data := f\<rparr>) = area_part s" "area_part (s\<lparr>areas := g\<rparr>) = area_part s"
  by (simp_all add: area_part_def)

lemma area_part_sets [simp]:
  "area_part (set_header b h s) = area_part s" "area_part (set_links b h s) = area_part s"
  by (simp_all add: area_part_def)

text \<open>What the list operations leave alone, but for bytes.\<close>

definition frame :: "tlsf \<Rightarrow> tlsf \<Rightarrow> bool" where
  "frame s s' \<longleftrightarrow> hdrs s' = hdrs s \<and> blks s' = blks s \<and> owned s' = owned s \<and> areas s' = areas s \<and>
     area_part s' = area_part s \<and> tlsf_signature s' = tlsf_signature s"

text \<open>\<open>dls l p xs q\<close>: the blocks \<open>xs\<close> are linked in both directions, from \<open>p\<close> before to \<open>q\<close> behind.\<close>

fun hd_or :: "nat list \<Rightarrow> nat \<Rightarrow> nat" where
  "hd_or [] q = q"
| "hd_or (x # _) q = x"

definition last_or :: "nat list \<Rightarrow> nat \<Rightarrow> nat" where
  "last_or xs p = (if xs = [] then p else last xs)"

fun dls :: "(nat \<Rightarrow> nat \<times> nat) \<Rightarrow> nat \<Rightarrow> nat list \<Rightarrow> nat \<Rightarrow> bool" where
  "dls l p [] q = True"
| "dls l p (x # xs) q \<longleftrightarrow> l x = (p, hd_or xs q) \<and> dls l x xs q"

definition class_ok :: "tlsf \<Rightarrow> nat \<Rightarrow> nat \<Rightarrow> bool" where
  "class_ok s fl sl \<longleftrightarrow> matrix_head s fl sl = hd_or (lists s fl sl) 0 \<and> dls (links s) 0 (lists s fl sl) 0 \<and>
     distinct (lists s fl sl) \<and> (\<forall>x\<in>set (lists s fl sl). in_pool s x 32) \<and>
     (bit (sl_bitmap s ! fl) sl \<longleftrightarrow> lists s fl sl \<noteq> [])"

definition lists_ok :: "tlsf \<Rightarrow> bool" where
  "lists_ok s \<longleftrightarrow> length (sl_bitmap s) = 24 \<and> length (matrix s) = 24 \<and> (\<forall>fl<24. length (matrix s ! fl) = 32) \<and>
     (\<forall>fl<24. \<forall>sl<32. class_ok s fl sl) \<and>
     (\<forall>fl. bit (fl_bitmap s) fl \<longleftrightarrow> fl < 24 \<and> sl_bitmap s ! fl \<noteq> 0) \<and>
     (\<forall>fl<24. \<forall>sl<32. \<forall>fl'<24. \<forall>sl'<32. (fl, sl) \<noteq> (fl', sl') \<longrightarrow> set (lists s fl sl) \<inter> set (lists s fl' sl') = {})"

subsection \<open>Linked segments\<close>

lemma dls_cong: "(\<And>x. x \<in> set xs \<Longrightarrow> l' x = l x) \<Longrightarrow> dls l' p xs q = dls l p xs q"
  by (induction xs arbitrary: p) auto

lemma dls_upd [simp]: "x \<notin> set xs \<Longrightarrow> dls (l(x := y)) p xs q = dls l p xs q"
  by (rule dls_cong) auto

lemma hd_or_append [simp]: "hd_or (xs @ ys) q = hd_or xs (hd_or ys q)"
  by (cases xs) auto

lemma last_or_Cons [simp]: "last_or (x # xs) p = last_or xs x"
  by (simp add: last_or_def)

lemma last_or_Nil [simp]: "last_or [] p = p"
  by (simp add: last_or_def)

lemma dls_append: "dls l p (xs @ ys) q \<longleftrightarrow> dls l p xs (hd_or ys q) \<and> dls l (last_or xs p) ys q"
  by (induction xs arbitrary: p) auto

lemma dls_set_end:
  assumes "dls l p xs q" "distinct xs" "xs \<noteq> []"
  shows "dls (l(last xs := (fst (l (last xs)), q'))) p xs q'"
  using assms
proof (induction xs arbitrary: p)
  case (Cons x xs)
  show ?case
  proof (cases xs)
    case (Cons y ys)
    then have "last xs \<noteq> x" using Cons.prems(2) by (metis distinct.simps(2) last_in_set list.distinct(1))
    then show ?thesis using Cons.IH [of x] Cons.prems Cons by auto
  qed (use Cons.prems in simp)
qed simp

lemma dls_set_start:
  assumes "dls l p (x # xs) q" "x \<notin> set xs"
  shows "dls (l(x := (p', snd (l x)))) p' (x # xs) q"
  using assms by auto

text \<open>Unlinking \<open>b\<close>: the neighbours are linked to each other.\<close>

definition unlink :: "(nat \<Rightarrow> nat \<times> nat) \<Rightarrow> nat \<Rightarrow> nat \<Rightarrow> nat \<times> nat" where
  "unlink l b =
     (let l1 = (if snd (l b) \<noteq> 0 then l(snd (l b) := (fst (l b), snd (l (snd (l b))))) else l);
          l2 = (if fst (l b) \<noteq> 0 then l1(fst (l b) := (fst (l1 (fst (l b))), snd (l b))) else l1)
      in l2(b := (0, 0)))"

lemma dls_unlink:
  assumes "dls l 0 (xs @ b # ys) 0" "distinct (xs @ b # ys)" "0 \<notin> set (xs @ b # ys)"
  shows "dls (unlink l b) 0 (xs @ ys) 0"
proof -
  have b: "l b = (last_or xs 0, hd_or ys 0)" and xs: "dls l 0 xs b" and ys: "dls l b ys 0"
    using assms(1) by (auto simp: dls_append)
  define l1 where "l1 = (if hd_or ys 0 \<noteq> 0 then l(hd_or ys 0 := (last_or xs 0, snd (l (hd_or ys 0)))) else l)"
  have l1: "dls l1 (last_or xs 0) ys 0" "dls l1 0 xs b"
  proof -
    show "dls l1 (last_or xs 0) ys 0"
      using ys assms(2,3) dls_set_start [of l b "hd ys" "tl ys"] by (cases ys) (auto simp: l1_def)
    show "dls l1 0 xs b" using xs assms(2,3) by (cases ys) (auto simp: l1_def)
  qed
  define l2 where "l2 = (if last_or xs 0 \<noteq> 0 then l1(last_or xs 0 := (fst (l1 (last_or xs 0)), hd_or ys 0)) else l1)"
  have l2: "dls l2 (last_or xs 0) ys 0" "dls l2 0 xs (hd_or ys 0)"
  proof -
    have x: "xs \<noteq> [] \<Longrightarrow> last xs \<in> set xs" by simp
    moreover have "set xs \<inter> set ys = {}" using assms(2) by auto
    ultimately have y: "xs \<noteq> [] \<Longrightarrow> last xs \<notin> set ys" by blast
    show "dls l2 (last_or xs 0) ys 0"
      using l1(1) y by (cases "xs = []") (auto simp: l2_def last_or_def)
    show "dls l2 0 xs (hd_or ys 0)"
      using l1(2) x assms(2,3) dls_set_end [of l1 0 xs b "hd_or ys 0"]
      by (cases "xs = []") (auto simp: l2_def last_or_def)
  qed
  have "unlink l b = l2(b := (0, 0))" unfolding unlink_def b l1_def l2_def Let_def by simp
  then show ?thesis using l2 assms(2) by (auto simp: dls_append)
qed

lemma unlink_other:
  assumes "dls l 0 (xs @ b # ys) 0" "x \<notin> set (xs @ b # ys)" "x \<noteq> 0 \<or> 0 \<notin> set (xs @ b # ys)"
  shows "unlink l b x = l x"
proof -
  have b: "l b = (last_or xs 0, hd_or ys 0)" using assms(1) by (auto simp: dls_append)
  have "last_or xs 0 \<noteq> 0 \<Longrightarrow> last_or xs 0 \<noteq> x" "hd_or ys 0 \<noteq> 0 \<Longrightarrow> hd_or ys 0 \<noteq> x"
    using assms(2) by (cases ys; auto simp: last_or_def split: if_splits)+
  then show ?thesis using assms(2) by (auto simp: unlink_def b Let_def)
qed

subsection \<open>Matrix and bitmaps\<close>

lemma lists_okD:
  assumes "lists_ok s"
  shows "length (sl_bitmap s) = 24" "length (matrix s) = 24" "fl < 24 \<Longrightarrow> length (matrix s ! fl) = 32"
    "bit (fl_bitmap s) fl \<longleftrightarrow> fl < 24 \<and> sl_bitmap s ! fl \<noteq> 0"
    "fl < 24 \<Longrightarrow> sl < 32 \<Longrightarrow> class_ok s fl sl"
    "fl < 24 \<Longrightarrow> sl < 32 \<Longrightarrow> fl' < 24 \<Longrightarrow> sl' < 32 \<Longrightarrow> (fl, sl) \<noteq> (fl', sl') \<Longrightarrow>
      set (lists s fl sl) \<inter> set (lists s fl' sl') = {}"
proof -
  note d = assms [unfolded lists_ok_def]
  show "length (sl_bitmap s) = 24" "length (matrix s) = 24" "fl < 24 \<Longrightarrow> length (matrix s ! fl) = 32"
    "bit (fl_bitmap s) fl \<longleftrightarrow> fl < 24 \<and> sl_bitmap s ! fl \<noteq> 0" "fl < 24 \<Longrightarrow> sl < 32 \<Longrightarrow> class_ok s fl sl"
    using d by simp_all
  show "set (lists s fl sl) \<inter> set (lists s fl' sl') = {}"
    if "fl < 24" "sl < 32" "fl' < 24" "sl' < 32" "(fl, sl) \<noteq> (fl', sl')"
    using d that by simp
qed

lemma class_okD:
  assumes "class_ok s fl sl"
  shows "matrix_head s fl sl = hd_or (lists s fl sl) 0" "dls (links s) 0 (lists s fl sl) 0" "distinct (lists s fl sl)"
    "x \<in> set (lists s fl sl) \<Longrightarrow> in_pool s x 32" "bit (sl_bitmap s ! fl) sl \<longleftrightarrow> lists s fl sl \<noteq> []"
  using assms unfolding class_ok_def by blast+

text \<open>One class changes: its list, its head and its links, and the two bits.\<close>

lemma lists_ok_update:
  assumes ok: "lists_ok s" and fs: "fl < 24" "sl < 32"
    and L: "lists s' = (lists s)(fl := (lists s fl)(sl := L))"
    and m: "matrix s' = (matrix s)[fl := (matrix s ! fl)[sl := hd_or L 0]]"
    and l: "dls (links s') 0 L 0" "distinct L" "\<forall>x\<in>set L. in_pool s x 32"
    and other: "\<And>x fl' sl'. fl' < 24 \<Longrightarrow> sl' < 32 \<Longrightarrow> (fl', sl') \<noteq> (fl, sl) \<Longrightarrow> x \<in> set (lists s fl' sl') \<Longrightarrow>
      x \<notin> set L \<and> links s' x = links s x"
    and pool: "owned s' = owned s" "areas s' = areas s"
    and sb: "sl_bitmap s' = (sl_bitmap s)[fl := w]" "\<And>i. bit w i \<longleftrightarrow> (if i = sl then L \<noteq> [] else bit (sl_bitmap s ! fl) i)"
    and fb: "\<And>i. bit (fl_bitmap s') i \<longleftrightarrow> (if i = fl then w \<noteq> 0 else bit (fl_bitmap s) i)"
  shows "lists_ok s'"
proof -
  note d = lists_okD [OF ok]
  have p: "in_pool s' x n = in_pool s x n" for x n by (simp add: in_pool_def pool)
  have same: "class_ok s' fl sl"
    using l p m sb L fs d(1-3) by (simp add: class_ok_def matrix_head_def)
  have others: "class_ok s' fl' sl'" if "fl' < 24" "sl' < 32" "(fl', sl') \<noteq> (fl, sl)" for fl' sl'
  proof -
    note c = class_okD [OF d(5) [OF that(1,2)]]
    have "lists s' fl' sl' = lists s fl' sl'" using that(3) L by auto
    moreover have "matrix_head s' fl' sl' = matrix_head s fl' sl'"
      using that m d(2,3) fs by (cases "fl' = fl") (auto simp: matrix_head_def)
    moreover have "dls (links s') 0 (lists s fl' sl') 0 = dls (links s) 0 (lists s fl' sl') 0"
      by (rule dls_cong) (use other that in blast)
    moreover have "bit (sl_bitmap s' ! fl') sl' = bit (sl_bitmap s ! fl') sl'"
      using that sb d(1) fs by (cases "fl' = fl") auto
    ultimately show ?thesis using c p by (simp add: class_ok_def)
  qed
  have cls: "class_ok s' fl' sl'" if "fl' < 24" "sl' < 32" for fl' sl' using same others that by blast
  have disj: "set (lists s' a b) \<inter> set (lists s' a' b') = {}"
    if ab: "a < 24" "b < 32" "a' < 24" "b' < 32" "(a, b) \<noteq> (a', b')" for a b a' b'
  proof -
    have dL: "set L \<inter> set (lists s x y) = {}" if "x < 24" "y < 32" "(x, y) \<noteq> (fl, sl)" for x y
      using other [OF that] by blast
    show ?thesis using d(6) [OF ab] dL [OF ab(1,2)] dL [OF ab(3,4)] ab(5) L by (auto split: if_splits)
  qed
  have bits: "bit (fl_bitmap s') i \<longleftrightarrow> i < 24 \<and> sl_bitmap s' ! i \<noteq> 0" for i
    using fb [of i] d(4) [of i] sb(1) d(1) fs by (cases "i = fl") auto
  have "length (matrix s' ! i) = 32" if "i < 24" for i
    using that m d(2,3) fs by (cases "i = fl") auto
  then show ?thesis unfolding lists_ok_def using cls disj bits m sb d(1,2) by (simp del: bit_0)
qed

lemma bit_word_nonzero: "w \<noteq> 0 \<longleftrightarrow> (\<exists>i. bit w i)" for w :: "'a::len word"
  by (metis bit_0_eq bit_eqI bot_apply bot_bool_def)

text \<open>The bitmaps after a class lost its last block.\<close>

lemma clear_class_fields:
  assumes "length (sl_bitmap s) = 24" "bit (fl_bitmap s) fl \<longleftrightarrow> sl_bitmap s ! fl \<noteq> 0" "fl < 24" "sl < 32"
  defines "w \<equiv> clear_bit sl (sl_bitmap s ! fl)"
  shows "sl_bitmap (clear_class fl sl s) = (sl_bitmap s)[fl := w]"
    "bit (fl_bitmap (clear_class fl sl s)) i \<longleftrightarrow> (if i = fl then w \<noteq> 0 else bit (fl_bitmap s) i)"
    "matrix (clear_class fl sl s) = matrix s" "mem (clear_class fl sl s) = mem s" "lists (clear_class fl sl s) = lists s"
    "frame s (clear_class fl sl s)" "data (clear_class fl sl s) = data s"
proof -
  show "sl_bitmap (clear_class fl sl s) = (sl_bitmap s)[fl := w]" "matrix (clear_class fl sl s) = matrix s"
    "mem (clear_class fl sl s) = mem s" "lists (clear_class fl sl s) = lists s" "frame s (clear_class fl sl s)"
    "data (clear_class fl sl s) = data s"
    by (simp_all add: clear_class_def Let_def w_def frame_def hdrs_def fun_eq_iff)
  have "w \<noteq> 0 \<Longrightarrow> bit (fl_bitmap s) fl"
    using assms(2-4) by (auto simp: w_def bit_word_nonzero bit_clear_bit)
  then show "bit (fl_bitmap (clear_class fl sl s)) i \<longleftrightarrow> (if i = fl then w \<noteq> 0 else bit (fl_bitmap s) i)"
    using assms(1,3,4) by (simp add: clear_class_def Let_def w_def [symmetric] bit_clear_bit)
qed

subsection \<open>Operations on a free list\<close>

lemma links_mem [simp]:
  "links (s\<lparr>mem := m(x := h)\<rparr>) = (links (s\<lparr>mem := m\<rparr>))(x := (free_prev h, free_next h))"
  "links (s\<lparr>mem := mem s\<rparr>) = links s" "links (set_links b h s) = (links s)(b := (free_prev h, free_next h))"
  by (simp_all add: links_def fun_eq_iff)

lemma links_fields [simp]:
  "links (s\<lparr>matrix := a\<rparr>) = links s" "links (s\<lparr>sl_bitmap := b\<rparr>) = links s" "links (s\<lparr>fl_bitmap := c\<rparr>) = links s"
  "links (s\<lparr>lists := d\<rparr>) = links s" "links (s\<lparr>blks := e\<rparr>) = links s" "links (s\<lparr>area := f\<rparr>) = links s"
  "links (s\<lparr>area_head := g\<rparr>) = links s" "links (s\<lparr>data := h\<rparr>) = links s" "links (s\<lparr>areas := i\<rparr>) = links s"
  "links (set_area y x s) = links s"
  by (simp_all add: links_def fun_eq_iff)

lemma links_sel: "free_prev (mem s x) = fst (links s x)" "free_next (mem s x) = snd (links s x)"
  by (simp_all add: links_def)

lemma matrix_links_commute: "set_links b h (s\<lparr>matrix := a\<rparr>) = (set_links b h s)\<lparr>matrix := a\<rparr>"
  by (simp add: set_links_def)

lemma upd_links_Inr [simp]: "in_pool s b 32 \<Longrightarrow> upd_links b u s = Inr (set_links b (u (mem s b)) s)"
  by (simp add: upd_links_def)

lemma get_links_Inr [simp]: "in_pool s b 32 \<Longrightarrow> get_links b s = Inr (mem s b)"
  by (simp add: get_links_def)

lemma in_pool_fields [simp]:
  "in_pool (s\<lparr>mem := m\<rparr>) = in_pool s" "in_pool (s\<lparr>matrix := a\<rparr>) = in_pool s" "in_pool (s\<lparr>sl_bitmap := b\<rparr>) = in_pool s"
  "in_pool (s\<lparr>fl_bitmap := c\<rparr>) = in_pool s" "in_pool (s\<lparr>lists := d\<rparr>) = in_pool s" "in_pool (s\<lparr>blks := e\<rparr>) = in_pool s"
  "in_pool (s\<lparr>area := f\<rparr>) = in_pool s" "in_pool (s\<lparr>area_head := g\<rparr>) = in_pool s" "in_pool (s\<lparr>data := h\<rparr>) = in_pool s"
  "in_pool (s\<lparr>areas := i\<rparr>) = in_pool s" "in_pool (set_links x1 y1 s) = in_pool s" "in_pool (set_header x1 y1 s) = in_pool s"
  "in_pool (set_area x1 i1 s) = in_pool s"
  by (simp_all add: in_pool_def fun_eq_iff)

lemma frame_trans: "frame s t \<Longrightarrow> frame t u \<Longrightarrow> frame s u"
  by (simp add: frame_def)

lemma frame_refl [simp]: "frame s s"
  by (simp add: frame_def)

lemma frame_pool: "frame s t \<Longrightarrow> in_pool t = in_pool s"
  by (simp add: frame_def in_pool_def fun_eq_iff)

lemma frame_links:
  assumes "prev_hdr h = prev_hdr (mem s x)" "bsize h = bsize (mem s x)"
  shows "frame s (set_links x h s)"
  using assms by (simp add: frame_def hdrs_def fun_eq_iff)

lemma frame_fields [simp]:
  "frame s (t\<lparr>matrix := a\<rparr>) = frame s t" "frame s (t\<lparr>sl_bitmap := b\<rparr>) = frame s t"
  "frame s (t\<lparr>fl_bitmap := c\<rparr>) = frame s t" "frame s (t\<lparr>lists := d\<rparr>) = frame s t"
  by (simp_all add: frame_def hdrs_def fun_eq_iff)

text \<open>On the head of a list the two ways to take a block out agree.\<close>

lemma extract_hdr_eq:
  assumes "matrix_head s fl sl = b" "fst (links s b) = 0" "fl < 24" "sl < 32" "lists_ok s"
  shows "EXTRACT_BLOCK_HDR b fl sl s = EXTRACT_BLOCK b fl sl s"
proof -
  note d = lists_okD [OF assms(5)]
  have h: "matrix_head (set_matrix fl sl x t) fl sl = x" if "matrix t = matrix s" for x t
    using that assms(3,4) d(2,3) by (simp add: matrix_head_def set_matrix_def)
  show ?thesis
    using assms(1,2) d(2,3) assms(3,4)
    by (auto simp: EXTRACT_BLOCK_HDR_def EXTRACT_BLOCK_def get_links_def upd_links_def links_sel Let_def
        in_pool_def h matrix_head_def set_matrix_def matrix_links_commute)
qed

text \<open>The state after the neighbours of \<open>b\<close> have been linked to each other.\<close>

lemma extract_links:
  assumes "in_pool s b 32" "n \<noteq> 0 \<Longrightarrow> in_pool s n 32" "p \<noteq> 0 \<Longrightarrow> in_pool s p 32" and lb: "links s b = (p, n)"
  obtains s' where "frame s s'" "links s' = (unlink (links s) b)(b := links s' b)" "bytes_only (link_bytes ({n, p} - {0})) s s'"
    "matrix s' = matrix s" "sl_bitmap s' = sl_bitmap s" "fl_bitmap s' = fl_bitmap s" "lists s' = lists s"
    "EXTRACT_BLOCK b fl sl s =
      (let s = (if matrix_head s fl sl = b then
                  let s = set_matrix fl sl n s' in
                  if matrix_head s fl sl = 0 then clear_class fl sl s else s
                else s') in
       bind_err (null_links b s) (\<lambda>s.
       Inr (s\<lparr>lists := (lists s)(fl := (lists s fl)(sl := remove1 b (lists s fl sl)))\<rparr>)))"
proof -
  define s1 where "s1 = (if n \<noteq> 0 then set_links n ((mem s n)\<lparr>free_prev := p\<rparr>) s else s)"
  define s2 where "s2 = (if p \<noteq> 0 then set_links p ((mem s1 p)\<lparr>free_next := n\<rparr>) s1 else s1)"
  have f1: "frame s s1" by (simp add: s1_def frame_links)
  have f2: "frame s1 s2" by (simp add: s2_def frame_links)
  have m: "matrix s2 = matrix s" "sl_bitmap s2 = sl_bitmap s" "fl_bitmap s2 = fl_bitmap s" "lists s2 = lists s"
    by (simp_all add: s1_def s2_def)
  have l: "links s2 = (unlink (links s) b)(b := links s2 b)"
    using assms(1) unfolding s1_def s2_def unlink_def Let_def lb fst_conv snd_conv
    by (simp add: links_sel fun_eq_iff in_pool_def)
  have "bytes_only (link_bytes ({n, p} - {0})) s s1" "bytes_only (link_bytes ({n, p} - {0})) s1 s2"
    unfolding s1_def s2_def
    by (auto intro!: bytes_only_mono [OF set_bytes_only(2)] link_bytes_mono)
  then have bo: "bytes_only (link_bytes ({n, p} - {0})) s s2" by (rule bytes_only_trans)
  show thesis
  proof (rule that [OF _ l bo m])
    show "frame s s2" using f1 f2 by (rule frame_trans)
    have h: "matrix_head s2 = matrix_head s" by (simp add: matrix_head_def m fun_eq_iff)
    have "EXTRACT_BLOCK b fl sl s = bind_err (Inr s1) (\<lambda>s.
       bind_err (if p \<noteq> 0 then upd_links p (\<lambda>h. h\<lparr>free_next := n\<rparr>) s else Inr s) (\<lambda>s.
       let s = (if matrix_head s fl sl = b then
                let s = set_matrix fl sl n s in
                if matrix_head s fl sl = 0 then clear_class fl sl s else s
              else s) in
       bind_err (null_links b s) (\<lambda>s.
       Inr (s\<lparr>lists := (lists s)(fl := (lists s fl)(sl := remove1 b (lists s fl sl)))\<rparr>))))"
      using assms by (simp add: EXTRACT_BLOCK_def s1_def links_sel lb)
    then show "EXTRACT_BLOCK b fl sl s =
      (let s = (if matrix_head s fl sl = b then
                  let s = set_matrix fl sl n s2 in
                  if matrix_head s fl sl = 0 then clear_class fl sl s else s
                else s2) in
       bind_err (null_links b s) (\<lambda>s.
       Inr (s\<lparr>lists := (lists s)(fl := (lists s fl)(sl := remove1 b (lists s fl sl)))\<rparr>)))"
      using assms(1,3) frame_pool [OF f1] by (simp add: s2_def h [symmetric])
  qed
qed

lemma remove1_middle: "distinct (xs @ b # ys) \<Longrightarrow> remove1 b (xs @ b # ys) = xs @ ys"
  by (induction xs) auto

text \<open>The head of the list and the bitmaps after \<open>b\<close> has been unlinked.\<close>

lemma extract_head:
  assumes ok: "lists_ok s" and fs: "fl < 24" "sl < 32" and L: "lists s fl sl = xs @ b # ys"
    and s': "matrix s' = matrix s" "sl_bitmap s' = sl_bitmap s" "fl_bitmap s' = fl_bitmap s"
  defines "t \<equiv> (if matrix_head s fl sl = b then
                  let s = set_matrix fl sl (hd_or ys 0) s' in
                  if matrix_head s fl sl = 0 then clear_class fl sl s else s
                else s')"
  shows "mem t = mem s'" "lists t = lists s'" "data t = data s'" "frame s s' \<Longrightarrow> frame s t"
    "matrix t = (matrix s)[fl := (matrix s ! fl)[sl := hd_or (xs @ ys) 0]]"
    "\<exists>w. sl_bitmap t = (sl_bitmap s)[fl := w] \<and>
      (\<forall>i. bit w i \<longleftrightarrow> (if i = sl then xs @ ys \<noteq> [] else bit (sl_bitmap s ! fl) i)) \<and>
      (\<forall>i. bit (fl_bitmap t) i \<longleftrightarrow> (if i = fl then w \<noteq> 0 else bit (fl_bitmap s) i))"
proof -
  note d = lists_okD [OF ok] note c = class_okD [OF d(5) [OF fs]]
  have nz: "x \<noteq> 0" if "x \<in> set (lists s fl sl)" for x using c(4) [OF that] by (simp add: in_pool_def)
  have hd: "matrix_head s fl sl = b \<longleftrightarrow> xs = []" using c(1,3) L by (cases xs) auto
  have keep: "(matrix s)[fl := (matrix s ! fl)[sl := hd_or (xs @ ys) 0]] = matrix s" if "xs \<noteq> []"
    using that c(1) L by (cases xs) (simp_all add: matrix_head_def, metis list_update_id)
  have bits: "\<exists>w. sl_bitmap s = (sl_bitmap s)[fl := w] \<and>
      (\<forall>i. bit w i \<longleftrightarrow> (if i = sl then xs @ ys \<noteq> [] else bit (sl_bitmap s ! fl) i)) \<and>
      (\<forall>i. bit (fl_bitmap s) i \<longleftrightarrow> (if i = fl then w \<noteq> 0 else bit (fl_bitmap s) i))" if "xs @ ys \<noteq> []"
    using that c(5) L d(4) [of fl] fs by (intro exI [of _ "sl_bitmap s ! fl"]) auto
  let ?u = "set_matrix fl sl (hd_or ys 0) s'"
  have u: "matrix_head ?u fl sl = hd_or ys 0" "mem ?u = mem s'" "lists ?u = lists s'" "data ?u = data s'" "frame s s' \<Longrightarrow> frame s ?u"
      "matrix ?u = (matrix s)[fl := (matrix s ! fl)[sl := hd_or ys 0]]" "sl_bitmap ?u = sl_bitmap s" "fl_bitmap ?u = fl_bitmap s"
    using fs d(2,3) s' by (simp_all add: matrix_head_def set_matrix_def)
  consider (mid) "xs \<noteq> []" | (hd) "xs = []" "ys \<noteq> []" | (only) "xs = []" "ys = []" by blast
  then have "mem t = mem s' \<and> lists t = lists s' \<and> data t = data s' \<and> (frame s s' \<longrightarrow> frame s t) \<and>
      matrix t = (matrix s)[fl := (matrix s ! fl)[sl := hd_or (xs @ ys) 0]] \<and>
      (\<exists>w. sl_bitmap t = (sl_bitmap s)[fl := w] \<and>
        (\<forall>i. bit w i \<longleftrightarrow> (if i = sl then xs @ ys \<noteq> [] else bit (sl_bitmap s ! fl) i)) \<and>
        (\<forall>i. bit (fl_bitmap t) i \<longleftrightarrow> (if i = fl then w \<noteq> 0 else bit (fl_bitmap s) i)))"
  proof cases
    case mid
    then have "t = s'" using hd by (simp add: t_def)
    then show ?thesis using keep bits mid s' by simp
  next
    case hd
    then have "hd_or ys 0 \<noteq> 0" using nz L by (cases ys) auto
    then have "t = ?u" using hd \<open>matrix_head s fl sl = b \<longleftrightarrow> xs = []\<close> u(1) by (simp add: t_def)
    then show ?thesis using u bits hd by simp
  next
    case only
    then have t: "t = clear_class fl sl ?u" using hd u(1) by (simp add: t_def)
    have pre: "length (sl_bitmap ?u) = 24" "bit (fl_bitmap ?u) fl \<longleftrightarrow> sl_bitmap ?u ! fl \<noteq> 0"
      using u d(1) d(4) [of fl] fs by simp_all
    note cc = clear_class_fields [OF pre fs]
    show ?thesis
      using cc(1-5,7) frame_trans [OF _ cc(6)] u only fs c(5) L
      by (auto simp: t bit_clear_bit simp del: bit_0 intro!: exI [of _ "clear_bit sl (sl_bitmap s ! fl)"])
  qed
  then show "mem t = mem s'" "lists t = lists s'" "data t = data s'" "frame s s' \<Longrightarrow> frame s t"
    "matrix t = (matrix s)[fl := (matrix s ! fl)[sl := hd_or (xs @ ys) 0]]"
    "\<exists>w. sl_bitmap t = (sl_bitmap s)[fl := w] \<and>
      (\<forall>i. bit w i \<longleftrightarrow> (if i = sl then xs @ ys \<noteq> [] else bit (sl_bitmap s ! fl) i)) \<and>
      (\<forall>i. bit (fl_bitmap t) i \<longleftrightarrow> (if i = fl then w \<noteq> 0 else bit (fl_bitmap s) i))"
    by blast+
qed

lemma extract_spec:
  assumes ok: "lists_ok s" and fs: "fl < 24" "sl < 32" and b: "b \<in> set (lists s fl sl)"
  obtains s' where "EXTRACT_BLOCK b fl sl s = Inr s'" "lists_ok s'" "frame s s'" "bytes_only (link_bytes (set (lists s fl sl))) s s'"
    "lists s' = (lists s)(fl := (lists s fl)(sl := remove1 b (lists s fl sl)))"
proof -
  note d = lists_okD [OF ok] note c = class_okD [OF d(5) [OF fs]]
  obtain xs ys where L: "lists s fl sl = xs @ b # ys" using b by (meson split_list)
  have nz: "0 \<notin> set (xs @ b # ys)" using c(4) [of 0] unfolding L [symmetric] by (auto simp: in_pool_def)
  have lb: "links s b = (last_or xs 0, hd_or ys 0)" using c(2) L by (auto simp: dls_append)
  have "in_pool s b 32" "hd_or ys 0 \<noteq> 0 \<Longrightarrow> in_pool s (hd_or ys 0) 32" "last_or xs 0 \<noteq> 0 \<Longrightarrow> in_pool s (last_or xs 0) 32"
    using c(4) L by (cases ys; auto simp: last_or_def split: if_splits)+
  then obtain s1 where s1: "frame s s1" "links s1 = (unlink (links s) b)(b := links s1 b)"
      "bytes_only (link_bytes ({hd_or ys 0, last_or xs 0} - {0})) s s1"
      "matrix s1 = matrix s" "sl_bitmap s1 = sl_bitmap s" "fl_bitmap s1 = fl_bitmap s" "lists s1 = lists s"
      and ex: "EXTRACT_BLOCK b fl sl s =
        (let s = (if matrix_head s fl sl = b then
                    let s = set_matrix fl sl (hd_or ys 0) s1 in
                    if matrix_head s fl sl = 0 then clear_class fl sl s else s
                  else s1) in
         bind_err (null_links b s) (\<lambda>s.
         Inr (s\<lparr>lists := (lists s)(fl := (lists s fl)(sl := remove1 b (lists s fl sl)))\<rparr>)))"
    using lb by (rule extract_links)
  define t where "t = (if matrix_head s fl sl = b then
                    let s = set_matrix fl sl (hd_or ys 0) s1 in
                    if matrix_head s fl sl = 0 then clear_class fl sl s else s
                  else s1)"
  note t = extract_head [OF ok fs L s1(4-6), folded t_def]
  define s' where "s' = (set_links b ((mem t b)\<lparr>free_prev := 0, free_next := 0\<rparr>) t)\<lparr>lists := (lists t)(fl := (lists t fl)(sl := remove1 b (lists t fl sl)))\<rparr>"
  have eq: "EXTRACT_BLOCK b fl sl s = Inr s'"
    using ex \<open>in_pool s b 32\<close> frame_pool [OF t(4) [OF s1(1)]] unfolding t_def [symmetric]
    by (simp add: null_links_def s'_def)
  have fr: "frame s s'"
    using frame_trans [OF t(4) [OF s1(1)] frame_links [of "(mem t b)\<lparr>free_prev := 0, free_next := 0\<rparr>" t b]]
    by (simp add: s'_def)
  have lists: "lists s' = (lists s)(fl := (lists s fl)(sl := xs @ ys))"
    using c(3) L by (simp add: s'_def t(2) s1(7) remove1_middle)
  have links: "links s' = unlink (links s) b"
  proof -
    have "links t = links s1" by (simp add: links_def t(1) fun_eq_iff)
    then have "links s' = (links s1)(b := (0, 0))" by (simp add: s'_def)
    then show ?thesis by (subst (asm) s1(2)) (simp add: unlink_def Let_def)
  qed
  obtain w where w: "sl_bitmap s' = (sl_bitmap s)[fl := w]"
      "\<And>i. bit w i \<longleftrightarrow> (if i = sl then xs @ ys \<noteq> [] else bit (sl_bitmap s ! fl) i)"
      "\<And>i. bit (fl_bitmap s') i \<longleftrightarrow> (if i = fl then w \<noteq> 0 else bit (fl_bitmap s) i)"
    using t(6) by (auto simp: s'_def)
  have "lists_ok s'"
  proof (rule lists_ok_update [OF ok fs lists _ _ _ _ _ _ _ w])
    show "matrix s' = (matrix s)[fl := (matrix s ! fl)[sl := hd_or (xs @ ys) 0]]" by (simp add: s'_def t(5))
    show "dls (links s') 0 (xs @ ys) 0" unfolding links using c(2,3) L nz by (intro dls_unlink) simp_all
    show "distinct (xs @ ys)" "\<forall>x\<in>set (xs @ ys). in_pool s x 32" using c(3,4) L by auto
    show "owned s' = owned s" "areas s' = areas s" using fr by (simp_all add: frame_def)
    fix x fl' sl' assume x: "fl' < 24" "sl' < 32" "(fl', sl') \<noteq> (fl, sl)" "x \<in> set (lists s fl' sl')"
    then have "x \<notin> set (xs @ b # ys)" using d(6) [OF x(1,2) fs x(3)] L by auto
    then show "x \<notin> set (xs @ ys) \<and> links s' x = links s x"
      unfolding links using c(2) L nz unlink_other [of "links s" xs b ys x] by auto
  qed
  moreover have "bytes_only (link_bytes (set (lists s fl sl))) s s'"
  proof -
    have "{hd_or ys 0, last_or xs 0} - {0} \<subseteq> set (lists s fl sl)" unfolding L by (cases ys) (auto simp: last_or_def)
    then have "bytes_only (link_bytes (set (lists s fl sl))) s t"
      using bytes_only_mono [OF s1(3) link_bytes_mono] by (simp add: bytes_only_def t(3))
    moreover have "bytes_only (link_bytes (set (lists s fl sl))) t (set_links b h t)" for h
      by (rule bytes_only_mono [OF set_bytes_only(2) link_bytes_mono]) (use b in simp)
    then have "bytes_only (link_bytes (set (lists s fl sl))) t s'" by (simp add: bytes_only_def s'_def)
    ultimately show ?thesis by (rule bytes_only_trans)
  qed
  ultimately show thesis using that eq fr lists c(3) L by (simp add: remove1_middle)
qed

lemma extract_hdr_head:
  assumes ok: "lists_ok s" and fs: "fl < 24" "sl < 32" and L: "lists s fl sl = b # ys"
  shows "EXTRACT_BLOCK_HDR b fl sl s = EXTRACT_BLOCK b fl sl s"
  using class_okD(1,2) [OF lists_okD(5) [OF ok fs]] L by (intro extract_hdr_eq [OF _ _ fs ok]) auto

lemma insert_spec:
  assumes ok: "lists_ok s" and fs: "fl < 24" "sl < 32" and b: "in_pool s b 32"
    and new: "\<And>fl sl. fl < 24 \<Longrightarrow> sl < 32 \<Longrightarrow> b \<notin> set (lists s fl sl)"
  obtains s' where "INSERT_BLOCK b fl sl s = Inr s'" "lists_ok s'" "frame s s'"
    "bytes_only (link_bytes (insert b (set (lists s fl sl)))) s s'"
    "lists s' = (lists s)(fl := (lists s fl)(sl := b # lists s fl sl))"
proof -
  note d = lists_okD [OF ok] note c = class_okD [OF d(5) [OF fs]]
  let ?L = "lists s fl sl" and ?h = "matrix_head s fl sl"
  define s1 where "s1 = set_links b ((mem s b)\<lparr>free_prev := 0, free_next := ?h\<rparr>) s"
  define s2 where "s2 = (if ?h \<noteq> 0 then set_links ?h ((mem s1 ?h)\<lparr>free_prev := b\<rparr>) s1 else s1)"
  define s' where "s' = (set_matrix fl sl b s2)\<lparr>sl_bitmap := (sl_bitmap s)[fl := set_bit sl (sl_bitmap s ! fl)],
            fl_bitmap := set_bit fl (fl_bitmap s), lists := (lists s)(fl := (lists s fl)(sl := b # ?L))\<rparr>"
  have h: "?h \<noteq> 0 \<Longrightarrow> in_pool s ?h 32 \<and> ?h \<in> set ?L" "?h \<noteq> b"
    using c(1,4) new [OF fs] b by (cases ?L; auto simp: in_pool_def)+
  have eq: "INSERT_BLOCK b fl sl s = Inr s'"
    using b h(1) by (simp add: INSERT_BLOCK_def s'_def s2_def s1_def matrix_head_def set_matrix_def Let_def)
  have "frame s s1" by (simp add: s1_def frame_links)
  moreover have "frame s1 s2" by (simp add: s2_def frame_links)
  ultimately have "frame s s2" by (rule frame_trans)
  then have fr: "frame s s'" by (simp add: s'_def set_matrix_def)
  have links: "links s' = (if ?h \<noteq> 0 then (links s)(b := (0, ?h), ?h := (b, snd (links s ?h))) else (links s)(b := (0, 0)))"
    using h(2) by (simp add: s'_def s2_def s1_def set_matrix_def links_sel)
  have "lists_ok s'"
  proof (rule lists_ok_update [OF ok fs, where L = "b # ?L" and w = "set_bit sl (sl_bitmap s ! fl)"])
    show "matrix s' = (matrix s)[fl := (matrix s ! fl)[sl := hd_or (b # ?L) 0]]"
      by (simp add: s'_def s2_def s1_def set_matrix_def)
    show "dls (links s') 0 (b # ?L) 0"
      using c(1-3) new [OF fs] h(2) c(4) by (cases ?L) (auto simp: links in_pool_def)
    show "distinct (b # ?L)" "\<forall>x\<in>set (b # ?L). in_pool s x 32" using c(3,4) new [OF fs] b by auto
    show "owned s' = owned s" "areas s' = areas s" using fr by (simp_all add: frame_def)
    show "lists s' = (lists s)(fl := (lists s fl)(sl := b # ?L))"
      "sl_bitmap s' = (sl_bitmap s)[fl := set_bit sl (sl_bitmap s ! fl)]" by (simp_all add: s'_def)
    show "bit (set_bit sl (sl_bitmap s ! fl)) i \<longleftrightarrow> (if i = sl then b # ?L \<noteq> [] else bit (sl_bitmap s ! fl) i)" for i
      using fs by (simp add: bit_set_bit)
    have "set_bit sl (sl_bitmap s ! fl) \<noteq> 0" using fs by (auto simp: bit_word_nonzero bit_set_bit)
    then show "bit (fl_bitmap s') i \<longleftrightarrow> (if i = fl then set_bit sl (sl_bitmap s ! fl) \<noteq> 0 else bit (fl_bitmap s) i)" for i
      using fs by (simp add: s'_def bit_set_bit)
    fix x fl' sl' assume x: "fl' < 24" "sl' < 32" "(fl', sl') \<noteq> (fl, sl)" "x \<in> set (lists s fl' sl')"
    then have "x \<notin> set ?L" "x \<noteq> b" using d(6) [OF x(1,2) fs x(3)] new [OF x(1,2)] by auto
    then show "x \<notin> set (b # ?L) \<and> links s' x = links s x" using h(1) by (auto simp: links)
  qed
  moreover have "bytes_only (link_bytes (insert b (set ?L))) s s'"
  proof -
    let ?A = "link_bytes (insert b (set ?L))"
    have "bytes_only ?A s s1" unfolding s1_def by (rule bytes_only_mono [OF set_bytes_only(2) link_bytes_mono]) simp
    moreover have "bytes_only ?A s1 s2" unfolding s2_def using h(1)
      by (cases "?h = 0") (auto intro!: bytes_only_mono [OF set_bytes_only(2) link_bytes_mono])
    ultimately have "bytes_only ?A s s2" by (rule bytes_only_trans)
    then show ?thesis by (simp add: bytes_only_def s'_def set_matrix_def)
  qed
  ultimately show thesis using that [OF eq _ fr] by (simp add: s'_def)
qed

subsection \<open>The search\<close>

lemma bit_mask_above:
  "bit (w AND push_bit n (NOT 0)) i \<longleftrightarrow> bit w i \<and> n \<le> i" "bit (w AND NOT (mask n)) i \<longleftrightarrow> bit w i \<and> n \<le> i" for w :: u32
  by (auto simp: bit_and_iff bit_push_bit_iff bit_not_iff bit_mask_iff dest: bit_imp_le_length)

lemma ls_bit_class:
  assumes "(w :: u32) \<noteq> 0"
  obtains k where "ls_bit w = int k" "k < 32" "bit w k" "\<And>j. j < k \<Longrightarrow> \<not> bit w j"
proof -
  obtain k where "k < LENGTH(32)" "bit w k" "\<And>j. j < k \<Longrightarrow> \<not> bit w j" using lowest_bit [OF assms] by blast
  then show thesis using that [of k] ls_bit_lowest [of w k] by simp
qed

text \<open>
  The first non-empty class at or above the requested one, in the order of the sizes, or
  \<^verbatim>\<open>NULL\<close> exactly when there is none.
\<close>

lemma find_spec:
  assumes ok: "lists_ok s" and fs: "fl < 24" "sl < 32"
  obtains (none) fl' sl' where "FIND_SUITABLE_BLOCK s fl sl = Inr (0, fl', sl')"
      "\<And>f l. f < 24 \<Longrightarrow> l < 32 \<Longrightarrow> class_le fl sl f l \<Longrightarrow> lists s f l = []"
  | (found) b ys fl' sl' where "FIND_SUITABLE_BLOCK s fl sl = Inr (b, fl', sl')" "b \<noteq> 0"
      "fl' < 24" "sl' < 32" "class_le fl sl fl' sl'" "lists s fl' sl' = b # ys"
      "\<And>f l. f < 24 \<Longrightarrow> l < 32 \<Longrightarrow> class_le fl sl f l \<Longrightarrow> lists s f l \<noteq> [] \<Longrightarrow> class_le fl' sl' f l"
proof -
  note d = lists_okD [OF ok]
  have bit: "bit (sl_bitmap s ! f) l \<longleftrightarrow> lists s f l \<noteq> []" if "f < 24" "l < 32" for f l
    using class_okD(5) [OF d(5) [OF that]] .
  have head: "\<exists>b ys. matrix_head s f l = b \<and> b \<noteq> 0 \<and> lists s f l = b # ys" if "f < 24" "l < 32" "lists s f l \<noteq> []" for f l
    using class_okD(1) [OF d(5) [OF that(1,2)]] class_okD(4) [OF d(5) [OF that(1,2)], of "hd (lists s f l)"] that(3)
    by (cases "lists s f l") (auto simp: in_pool_def)
  let ?w = "sl_bitmap s ! fl AND push_bit sl (NOT 0)" and ?v = "fl_bitmap s AND push_bit (fl + 1) (NOT 0)"
  show thesis
  proof (cases "?w = 0")
    case False
    then obtain k where k: "ls_bit ?w = int k" "k < 32" "bit ?w k" "\<And>j. j < k \<Longrightarrow> \<not> bit ?w j"
      using ls_bit_class [OF False] by blast
    then have l: "lists s fl k \<noteq> []" "sl \<le> k" using bit [OF fs(1)] by (simp_all add: bit_mask_above)
    obtain b ys where b: "matrix_head s fl k = b" "b \<noteq> 0" "lists s fl k = b # ys" using head [OF fs(1) k(2) l(1)] by blast
    show thesis
    proof (rule found [OF _ b(2) fs(1) k(2) _ b(3)])
      show "FIND_SUITABLE_BLOCK s fl sl = Inr (b, fl, k)"
        using False fs k(1,2) b(1) by (simp add: FIND_SUITABLE_BLOCK_def to_class_def)
      show "class_le fl sl fl k" using l(2) by (simp add: class_le_def)
      fix f l assume "f < 24" "l < 32" "class_le fl sl f l" "lists s f l \<noteq> []"
      then show "class_le fl k f l"
        using k(4) [of l] bit [of f l] by (cases "l < k") (auto simp: class_le_def bit_mask_above)
    qed
  next
    case True
    then have low: "lists s fl l = []" if "l < 32" "sl \<le> l" for l
      using bit [OF fs(1) that(1)] bit_mask_above(1) [of "sl_bitmap s ! fl" sl l] that(2) by simp
    show thesis
    proof (cases "?v = 0")
      case True
      have "sl_bitmap s ! f = 0" if "f < 24" "fl < f" for f
        using d(4) [of f] bit_mask_above(1) [of "fl_bitmap s" "fl + 1" f] that True by auto
      then have "lists s f l = []" if "f < 24" "l < 32" "fl < f" for f l using bit [OF that(1,2)] that by auto
      then have "lists s f l = []" if "f < 24" "l < 32" "class_le fl sl f l" for f l
        using that low by (auto simp: class_le_def)
      then show thesis
        using none \<open>?w = 0\<close> True by (simp add: FIND_SUITABLE_BLOCK_def ls_bit_0)
    next
      case False
      then obtain f where f: "ls_bit ?v = int f" "f < 32" "bit ?v f" "\<And>j. j < f \<Longrightarrow> \<not> bit ?v j"
        using ls_bit_class [OF False] by blast
      then have f': "f < 24" "fl < f" "sl_bitmap s ! f \<noteq> 0" using d(4) [of f] by (auto simp: bit_mask_above)
      obtain k where k: "ls_bit (sl_bitmap s ! f) = int k" "k < 32" "bit (sl_bitmap s ! f) k"
          "\<And>j. j < k \<Longrightarrow> \<not> bit (sl_bitmap s ! f) j"
        using ls_bit_class [OF f'(3)] by blast
      then have l: "lists s f k \<noteq> []" using bit [OF f'(1)] by simp
      obtain b ys where b: "matrix_head s f k = b" "b \<noteq> 0" "lists s f k = b # ys" using head [OF f'(1) k(2) l] by blast
      show thesis
      proof (rule found [OF _ b(2) f'(1) k(2) _ b(3)])
        show "FIND_SUITABLE_BLOCK s fl sl = Inr (b, f, k)"
          using True f' f(1) k(1,2) b(1) by (simp add: FIND_SUITABLE_BLOCK_def to_class_def)
        show "class_le fl sl f k" using f'(2) by (simp add: class_le_def)
        fix g l assume g: "g < 24" "l < 32" "class_le fl sl g l" "lists s g l \<noteq> []"
        have "fl < g" using g low [of l] by (auto simp: class_le_def)
        moreover have "bit (fl_bitmap s) g" using d(4) [of g] bit [OF g(1,2)] g(1,4) by (auto simp: bit_word_nonzero)
        ultimately have "f \<le> g" using f(4) [of g] by (cases "g < f") (auto simp: bit_mask_above)
        then show "class_le f k g l" using k(4) [of l] bit [OF g(1,2)] g(4) by (cases "f = g"; cases "l < k") (auto simp: class_le_def)
      qed
    qed
  qed
qed

end
