(* ===== verification/Tlsf_Inv.thy ===== *)
theory Tlsf_Inv
  imports Tlsf_Lists
begin

text \<open>
  The invariant of the allocator joins the two sides: the free lists hold exactly the free
  blocks of the layout, each in the class of its size. The steps the operations are made of
  (taking a block from its list, putting one back, writing a header) are specified here once.
\<close>

subsection \<open>Classes of sizes\<close>

definition class_of :: "nat \<Rightarrow> nat \<times> nat" where
  "class_of n = (case map_insert (word_of_nat n) of Inl _ \<Rightarrow> (0, 0) | Inr c \<Rightarrow> c)"

lemma class_of_spec:
  assumes "n < 1073741824"
  obtains fl sl where "map_insert (word_of_nat n) = Inr (fl, sl)" "class_of n = (fl, sl)" "fl < 24" "sl < 32"
    "class_low fl sl \<le> n" "n < class_low fl sl + class_width fl"
proof -
  have u: "unat (word_of_nat n :: u64) = n" using assms by (simp add: unat_of_nat)
  obtain fl sl where m: "MAPPING_INSERT (word_of_nat n) = Some (int fl, int sl)" "sl < 32"
    "class_low fl sl \<le> n" "n < class_low fl sl + class_width fl" "fl \<noteq> 0 \<Longrightarrow> 2 ^ (fl + 6) \<le> n"
  proof -
    have "unat (word_of_nat n :: u64) < 4294967296" using assms u by simp
    from mapping_insert_spec [OF this] show thesis unfolding u using that by blast
  qed
  have "fl < 24"
  proof (rule ccontr)
    assume "\<not> fl < 24"
    then have "(2::nat) ^ 30 \<le> 2 ^ (fl + 6)" by (intro power_increasing) auto
    then show False using m(5) \<open>\<not> fl < 24\<close> assms by simp
  qed
  then show thesis using that [of fl sl] m by (simp add: map_insert_def to_class_def class_of_def)
qed

lemma class_next:
  assumes "\<not> class_le fl sl fl' sl'" "sl' < 32"
  shows "class_low fl' sl' + class_width fl' \<le> class_low fl sl"
proof (cases "fl' = fl")
  case True
  then have "Suc sl' \<le> sl" using assms(1) by (simp add: class_le_def)
  then have "Suc sl' * 2 ^ (fl + 1) \<le> sl * 2 ^ (fl + 1)" by (rule mult_le_mono1)
  then show ?thesis using True \<open>Suc sl' \<le> sl\<close> by (simp add: class_low_def class_width_def)
next
  case False
  then have lt: "fl' < fl" using assms(1) by (auto simp: class_le_def)
  have "class_low fl' sl' + class_width fl' \<le> 2 ^ (fl' + 7)"
  proof (cases "fl' = 0")
    case False
    have "Suc sl' * 2 ^ (fl' + 1) \<le> 32 * 2 ^ (fl' + 1)" using assms(2) by (intro mult_le_mono1) simp
    then show ?thesis using False by (simp add: class_low_def class_width_def power_add)
  qed (use assms(2) in \<open>simp add: class_low_def class_width_def\<close>)
  also have "(2::nat) ^ (fl' + 7) \<le> 2 ^ (fl + 6)" using lt by (intro power_increasing) auto
  also have "\<dots> \<le> class_low fl sl" using lt by (simp add: class_low_def)
  finally show ?thesis .
qed

subsection \<open>The invariant\<close>

text \<open>The lists hold the blocks of \<open>F\<close>, each in the class of the size \<open>n\<close> gives it.\<close>

definition listed :: "tlsf \<Rightarrow> nat set \<Rightarrow> (nat \<Rightarrow> nat) \<Rightarrow> bool" where
  "listed s F n \<longleftrightarrow> (\<forall>fl<24. \<forall>sl<32. set (lists s fl sl) = {b \<in> F. class_of (n b) = (fl, sl)})"

definition free_blocks :: "tlsf \<Rightarrow> nat set" where
  "free_blocks s = {b \<in> blks s. bfr (hdrs s) b}"

definition area_end :: "tlsf \<Rightarrow> nat \<Rightarrow> nat" where
  "area_end s a = ai_end (area s (a + 16))"

text \<open>
  The areas: each starts with the block of its descriptor and ends with its sentinel, and there
  are no other sentinels.
\<close>

definition ends_ok :: "tlsf \<Rightarrow> bool" where
  "ends_ok s \<longleftrightarrow> (\<forall>a\<in>areas s. a \<in> blks s \<and> \<not> bfr (hdrs s) a \<and> bsz (hdrs s) a = 16) \<and>
     bij_betw (area_end s) (areas s) {x \<in> blks s. bsz (hdrs s) x = 0}"

definition tlsf_inv :: "tlsf \<Rightarrow> bool" where
  "tlsf_inv s \<longleftrightarrow> lists_ok s \<and> blocks_ok (owned s) (blks s) (hdrs s) \<and> small (owned s) \<and> ends_ok s \<and>
     listed s (free_blocks s) (bsz (hdrs s))"

lemma tlsf_invD:
  assumes "tlsf_inv s"
  shows "lists_ok s" "blocks_ok (owned s) (blks s) (hdrs s)" "small (owned s)" "ends_ok s"
    "a \<in> areas s \<Longrightarrow> a \<in> blks s" "a \<in> areas s \<Longrightarrow> \<not> bfr (hdrs s) a"
    "listed s (free_blocks s) (bsz (hdrs s))" "a \<in> areas s \<Longrightarrow> bsz (hdrs s) a = 16"
    "x \<in> blks s \<and> bsz (hdrs s) x = 0 \<longleftrightarrow> x \<in> area_end s ` areas s"
  using assms unfolding tlsf_inv_def ends_ok_def bij_betw_def by auto

text \<open>The blocks clients hold: used blocks but the first, which holds the area descriptor, and the sentinel.\<close>

definition tlsf_held :: "tlsf \<Rightarrow> nat \<rightharpoonup> nat" where
  "tlsf_held s p = (if 16 \<le> p \<and> p - 16 \<in> blks s \<and> p - 16 \<notin> areas s \<and> \<not> bfr (hdrs s) (p - 16) \<and>
     bsz (hdrs s) (p - 16) \<noteq> 0 then Some (bsz (hdrs s) (p - 16)) else None)"

lemma tlsf_held_Some:
  "tlsf_held s p = Some n \<longleftrightarrow> (\<exists>b\<in>blks s. p = b + 16 \<and> b \<notin> areas s \<and> \<not> bfr (hdrs s) b \<and> bsz (hdrs s) b = n \<and> n \<noteq> 0)"
proof
  assume "tlsf_held s p = Some n"
  then show "\<exists>b\<in>blks s. p = b + 16 \<and> b \<notin> areas s \<and> \<not> bfr (hdrs s) b \<and> bsz (hdrs s) b = n \<and> n \<noteq> 0"
    by (intro bexI [of _ "p - 16"]) (auto simp: tlsf_held_def split: if_splits)
qed (auto simp: tlsf_held_def)

lemma tlsf_held_apart:
  assumes "tlsf_inv s" "tlsf_held s p = Some m" "tlsf_held s q = Some n" "p \<noteq> q"
  shows "p + m \<le> q \<or> q + n \<le> p"
proof -
  obtain b c where b: "b \<in> blks s" "p = b + 16" "bsz (hdrs s) b = m" and c: "c \<in> blks s" "q = c + 16" "bsz (hdrs s) c = n"
    using assms(2,3) by (auto simp: tlsf_held_Some)
  note d = blocks_okD(10) [OF tlsf_invD(2) [OF assms(1)]]
  have "b < c \<or> c < b" using assms(4) b(2) c(2) by auto
  then show ?thesis using d [OF b(1) c(1)] d [OF c(1) b(1)] b(2,3) c(2,3) by (auto simp: nxt_def)
qed

subsection \<open>Steps\<close>

definition hframe :: "tlsf \<Rightarrow> tlsf \<Rightarrow> bool" where
  "hframe s s' \<longleftrightarrow> links s' = links s \<and> (\<exists>m d. s' = s\<lparr>mem := m, data := d\<rparr>)"

lemma hframeD:
  assumes "hframe s s'"
  shows "lists_ok s' = lists_ok s" "lists s' = lists s" "blks s' = blks s" "owned s' = owned s" "areas s' = areas s"
    "in_pool s' = in_pool s" "listed s' F n = listed s F n" "area_part s' = area_part s"
proof -
  obtain m d where l: "links s' = links s" and s': "s' = s\<lparr>mem := m, data := d\<rparr>" using assms by (auto simp: hframe_def)
  then show "lists_ok s' = lists_ok s" by (simp add: lists_ok_def class_ok_def matrix_head_def)
  show "lists s' = lists s" "blks s' = blks s" "owned s' = owned s" "areas s' = areas s"
    "in_pool s' = in_pool s" "listed s' F n = listed s F n" "area_part s' = area_part s"
    by (simp_all add: s' listed_def area_part_def)
qed

lemma frameD:
  assumes "frame s s'"
  shows "hdrs s' = hdrs s" "blks s' = blks s" "owned s' = owned s" "areas s' = areas s"
    "in_pool s' = in_pool s" "area_part s' = area_part s"
  using assms by (simp_all add: frame_def in_pool_def fun_eq_iff)

lemma blks_update [simp]:
  "listed (s\<lparr>blks := B\<rparr>) F n = listed s F n" "lists_ok (s\<lparr>blks := B\<rparr>) = lists_ok s" "hdrs (s\<lparr>blks := B\<rparr>) = hdrs s"
  by (simp_all add: listed_def lists_ok_def class_ok_def matrix_head_def hdrs_def fun_eq_iff)

lemma area_update [simp]:
  "listed (s\<lparr>area := a\<rparr>) F n = listed s F n" "lists_ok (s\<lparr>area := a\<rparr>) = lists_ok s" "hdrs (s\<lparr>area := a\<rparr>) = hdrs s"
  "listed (s\<lparr>area_head := h\<rparr>) F n = listed s F n" "lists_ok (s\<lparr>area_head := h\<rparr>) = lists_ok s" "hdrs (s\<lparr>area_head := h\<rparr>) = hdrs s"
  by (simp_all add: listed_def lists_ok_def class_ok_def matrix_head_def hdrs_def fun_eq_iff)

lemma set_area_same [simp]:
  "listed (set_area a i s) F n = listed s F n" "lists_ok (set_area a i s) = lists_ok s" "hdrs (set_area a i s) = hdrs s"
  by (simp_all add: listed_def lists_ok_def class_ok_def matrix_head_def hdrs_def fun_eq_iff)

lemma areas_update [simp]:
  "listed (s\<lparr>areas := a\<rparr>) F n = listed s F n" "lists_ok (s\<lparr>areas := a\<rparr>) = lists_ok s" "hdrs (s\<lparr>areas := a\<rparr>) = hdrs s"
  by (simp_all add: listed_def lists_ok_def class_ok_def matrix_head_def hdrs_def fun_eq_iff)

lemma data_update [simp]:
  "listed (s\<lparr>data := d\<rparr>) F n = listed s F n" "lists_ok (s\<lparr>data := d\<rparr>) = lists_ok s" "hdrs (s\<lparr>data := d\<rparr>) = hdrs s"
  by (simp_all add: listed_def lists_ok_def class_ok_def matrix_head_def hdrs_def fun_eq_iff)

lemma area_end_update [simp]:
  "area_end (s\<lparr>data := d\<rparr>) = area_end s" "area_end (s\<lparr>area_head := h\<rparr>) = area_end s" "area_end (s\<lparr>mem := m\<rparr>) = area_end s"
  "area_end (s\<lparr>blks := B\<rparr>) = area_end s" "area_end (s\<lparr>areas := A\<rparr>) = area_end s"
  by (simp_all add: area_end_def fun_eq_iff)

lemma inv_update [simp]:
  "tlsf_inv (s\<lparr>data := d\<rparr>) = tlsf_inv s" "tlsf_held (s\<lparr>data := d\<rparr>) = tlsf_held s"
  "tlsf_inv (s\<lparr>area_head := h\<rparr>) = tlsf_inv s" "tlsf_held (s\<lparr>area_head := h\<rparr>) = tlsf_held s"
  by (simp_all add: tlsf_inv_def free_blocks_def tlsf_held_def ends_ok_def fun_eq_iff)

lemma upd_hdr_spec:
  assumes "in_pool s b 16" "\<And>h. free_prev (u h) = free_prev h" "\<And>h. free_next (u h) = free_next h"
  obtains s' where "upd_hdr b u s = Inr s'" "hframe s s'"
    "hdrs s' = (hdrs s)(b := (prev_hdr (u (mem s b)), bsize (u (mem s b))))" "bytes_only (header_bytes {b}) s s'"
proof
  let ?s = "set_header b (u (mem s b)) s"
  show "bytes_only (header_bytes {b}) s ?s" by (rule set_bytes_only)
  show "upd_hdr b u s = Inr ?s" using assms(1) by (simp add: upd_hdr_def)
  show "hframe s ?s" unfolding hframe_def using assms(2,3) by (auto simp: links_def fun_eq_iff set_header_def)
  show "hdrs ?s = (hdrs s)(b := (prev_hdr (u (mem s b)), bsize (u (mem s b))))" by (auto simp: hdrs_def)
qed

text \<open>The size word of a block changes.\<close>

lemma word_spec:
  assumes "in_pool s b 16" "snd (hdrs s b) = w"
  obtains s' where "upd_hdr b (\<lambda>h. h\<lparr>bsize := g (bsize h)\<rparr>) s = Inr s'" "hframe s s'"
    "hdrs s' = (hdrs s)(b := (fst (hdrs s b), g w))" "bytes_only (header_bytes {b}) s s'"
  using upd_hdr_spec [OF assms(1), of "\<lambda>h. h\<lparr>bsize := g (bsize h)\<rparr>"] assms(2) by (auto simp: hdrs_def)

lemma listed_none:
  assumes "listed s F n" "b \<notin> F" "fl < 24" "sl < 32"
  shows "b \<notin> set (lists s fl sl)"
  using assms by (auto simp: listed_def)

text \<open>A free block leaves its list.\<close>

lemma take_spec:
  assumes ok: "lists_ok s" and F: "listed s F n" and b: "b \<in> F" "class_of (n b) = (fl, sl)" "fl < 24" "sl < 32"
  obtains s' where "EXTRACT_BLOCK b fl sl s = Inr s'" "lists_ok s'" "frame s s'" "listed s' (F - {b}) n"
    "bytes_only (link_bytes F) s s'"
proof -
  have "b \<in> set (lists s fl sl)" using F b by (simp add: listed_def)
  then obtain s' where s': "EXTRACT_BLOCK b fl sl s = Inr s'" "lists_ok s'" "frame s s'" "bytes_only (link_bytes (set (lists s fl sl))) s s'"
      "lists s' = (lists s)(fl := (lists s fl)(sl := remove1 b (lists s fl sl)))"
    using extract_spec [OF ok b(3,4)] by blast
  have dist: "distinct (lists s fl sl)" using class_okD(3) [OF lists_okD(5) [OF ok b(3,4)]] .
  have "set (lists s' f l) = {x \<in> F - {b}. class_of (n x) = (f, l)}" if "f < 24" "l < 32" for f l
    using F that b(2) dist by (auto simp: s'(5) listed_def)
  moreover have "set (lists s fl sl) \<subseteq> F" using F b(3,4) by (auto simp: listed_def)
  then have "bytes_only (link_bytes F) s s'" by (rule bytes_only_mono [OF s'(4) link_bytes_mono])
  ultimately show thesis using that [OF s'(1-3)] by (simp add: listed_def)
qed

text \<open>A block enters the list of its class.\<close>

lemma put_spec:
  assumes ok: "lists_ok s" and F: "listed s F n" and b: "b \<notin> F" "class_of k = (fl, sl)" "fl < 24" "sl < 32" "in_pool s b 32"
  obtains s' where "INSERT_BLOCK b fl sl s = Inr s'" "lists_ok s'" "frame s s'" "listed s' (insert b F) (n(b := k))"
    "bytes_only (link_bytes (insert b F)) s s'"
proof -
  obtain s' where s': "INSERT_BLOCK b fl sl s = Inr s'" "lists_ok s'" "frame s s'" "bytes_only (link_bytes (insert b (set (lists s fl sl)))) s s'"
      "lists s' = (lists s)(fl := (lists s fl)(sl := b # lists s fl sl))"
    using insert_spec [OF ok b(3-5) listed_none [OF F b(1)]] by blast
  have "set (lists s' f l) = {x \<in> insert b F. class_of ((n(b := k)) x) = (f, l)}" if "f < 24" "l < 32" for f l
    using F that b(1,2) by (auto simp: s'(5) listed_def)
  moreover have "insert b (set (lists s fl sl)) \<subseteq> insert b F" using F b(3,4) by (auto simp: listed_def)
  then have "bytes_only (link_bytes (insert b F)) s s'" by (rule bytes_only_mono [OF s'(4) link_bytes_mono])
  ultimately show thesis using that [OF s'(1-3)] by (simp add: listed_def)
qed

lemma listed_cong:
  assumes "listed s F n" "\<And>x. x \<in> F \<Longrightarrow> n' x = n x"
  shows "listed s F n'"
proof -
  have "{b \<in> F. class_of (n' b) = c} = {b \<in> F. class_of (n b) = c}" for c using assms(2) by auto
  then show ?thesis using assms(1) by (simp add: listed_def)
qed

text \<open>A block that is in no list may have any links.\<close>

lemma null_links_spec:
  assumes ok: "lists_ok s" and F: "listed s F n" and b: "b \<notin> F" "in_pool s b 32"
  obtains s' where "null_links b s = Inr s'" "lists_ok s'" "frame s s'" "listed s' F n" "bytes_only (link_bytes {b}) s s'"
proof
  let ?s = "set_links b ((mem s b)\<lparr>free_prev := 0, free_next := 0\<rparr>) s"
  show "bytes_only (link_bytes {b}) s ?s" by (rule set_bytes_only)
  show "null_links b s = Inr ?s" using b(2) by (simp add: null_links_def)
  show "frame s ?s" by (simp add: frame_links)
  show "listed ?s F n" using F by (simp add: listed_def)
  have c: "class_ok ?s fl sl" if "fl < 24" "sl < 32" for fl sl
    using lists_okD(5) [OF ok that] listed_none [OF F b(1) that] by (simp add: class_ok_def matrix_head_def)
  show "lists_ok ?s" unfolding lists_ok_def using ok [unfolded lists_ok_def] c by simp
qed

subsection \<open>Concluding an operation\<close>

text \<open>An operation on the block \<open>b\<close> leaves every other used block alone.\<close>

definition others_kept :: "nat \<Rightarrow> nat set \<Rightarrow> hview \<Rightarrow> nat set \<Rightarrow> hview \<Rightarrow> bool" where
  "others_kept b B v B' v' \<longleftrightarrow>
     (\<forall>x. x \<noteq> b \<longrightarrow> (x \<in> B' \<and> \<not> bfr v' x \<longleftrightarrow> x \<in> B \<and> \<not> bfr v x)) \<and>
     (\<forall>x. x \<noteq> b \<longrightarrow> x \<in> B \<longrightarrow> \<not> bfr v x \<longrightarrow> bsz v' x = bsz v x)"

lemma tlsf_inv_step:
  assumes inv: "tlsf_inv s" and ok: "lists_ok s'" "blocks_ok (owned s) (blks s') (hdrs s')"
    and pool: "owned s' = owned s" "areas s' = areas s" "area_part s' = area_part s"
    and F: "listed s' F n" "F = free_blocks s'" "\<And>x. x \<in> F \<Longrightarrow> bsz (hdrs s') x = n x"
    and b: "b \<notin> areas s" "b \<in> blks s \<Longrightarrow> bsz (hdrs s) b \<noteq> 0" "b \<in> blks s' \<Longrightarrow> bsz (hdrs s') b \<noteq> 0"
    and others: "others_kept b (blks s) (hdrs s) (blks s') (hdrs s')"
  shows "tlsf_inv s'"
proof -
  note I = tlsf_invD [OF inv]
  note o = others [unfolded others_kept_def]
  have "x \<in> blks s' \<and> bsz (hdrs s') x = 0 \<longleftrightarrow> x \<in> blks s \<and> bsz (hdrs s) x = 0" for x
    using o b(2,3) blocks_okD(5) [OF I(2), of x] blocks_okD(5) [OF ok(2), of x] by (cases "x = b") metis+
  moreover have "a \<in> blks s' \<and> \<not> bfr (hdrs s') a \<and> bsz (hdrs s') a = 16" if "a \<in> areas s" for a
    using o I(5,6,8) [OF that] b(1) that by metis
  moreover have "area_end s' = area_end s" using pool(3) by (auto simp: area_part_def area_end_def)
  ultimately have "ends_ok s'" using I(4) pool(2) unfolding ends_ok_def by simp
  then show ?thesis using I(3) ok pool(1) listed_cong [OF F(1,3)] F(2) unfolding tlsf_inv_def by simp
qed

lemma held_except:
  assumes "others_kept b (blks s) (hdrs s) (blks s') (hdrs s')" "areas s' = areas s"
  shows "tlsf_held s' = (tlsf_held s)(b + 16 := tlsf_held s' (b + 16))"
proof
  fix p
  show "tlsf_held s' p = ((tlsf_held s)(b + 16 := tlsf_held s' (b + 16))) p"
  proof (cases "p = b + 16 \<or> p < 16")
    case False
    then have "p - 16 \<noteq> b" by auto
    then show ?thesis using False assms by (auto simp: tlsf_held_def others_kept_def)
  qed (auto simp: tlsf_held_def)
qed

text \<open>The areas of a pool stay what they are.\<close>

definition same_areas :: "tlsf \<Rightarrow> tlsf \<Rightarrow> bool" where
  "same_areas s s' \<longleftrightarrow> owned s' = owned s \<and> areas s' = areas s \<and> area_head s' = area_head s \<and>
     (\<forall>a\<in>areas s. area s' (a + 16) = area s (a + 16))"

lemma same_areasI: "owned s' = owned s \<Longrightarrow> areas s' = areas s \<Longrightarrow> area_part s' = area_part s \<Longrightarrow> same_areas s s'"
  by (simp add: same_areas_def area_part_def)

lemma same_areas_trans: "same_areas s t \<Longrightarrow> same_areas t u \<Longrightarrow> same_areas s u"
  by (simp add: same_areas_def)

lemma bfr_sz_cong: "snd (v' x) = snd (v x) \<Longrightarrow> bsz v' x = bsz v x \<and> bfr v' x = bfr v x"
  by (simp add: bsz_def bfr_def)

subsection \<open>The bytes of clients\<close>

text \<open>
  The bytes the allocator keeps for itself: headers, the links of free blocks and the area
  descriptors. They lie apart from the blocks clients hold.
\<close>

definition cells :: "tlsf \<Rightarrow> nat set" where
  "cells s = header_bytes (blks s) \<union> link_bytes (free_blocks s \<union> areas s)"

lemma blocks_apart:
  assumes "blocks_ok M B v" "b \<in> B" "c \<in> B" "b \<noteq> c" "c \<le> x" "x < nxt v c"
  shows "x < b \<or> nxt v b \<le> x"
  using blocks_okD(10) [OF assms(1,2,3)] blocks_okD(10) [OF assms(1,3,2)] assms(4-6) by linarith

lemma cells_within:
  assumes "tlsf_inv s" "x \<in> cells s"
  obtains c where "c \<in> blks s" "c \<le> x" "x < nxt (hdrs s) c" "x < c + 16 \<or> c \<in> free_blocks s \<or> c \<in> areas s"
proof -
  note I = tlsf_invD [OF assms(1)] note d = blocks_okD [OF I(2)]
  consider c where "c \<in> blks s" "c \<le> x" "x < c + 16" | c where "c \<in> free_blocks s \<union> areas s" "c + 16 \<le> x" "x < c + 32"
    using assms(2) by (auto simp: cells_def header_bytes_def link_bytes_def)
  then show thesis
  proof cases
    case (2 c)
    then have c: "c \<in> blks s" "bsz (hdrs s) c \<noteq> 0" using I(5,8) d(5) by (auto simp: free_blocks_def)
    have "16 dvd bsz (hdrs s) c" using d(3) [OF c(1)] by (simp add: size_ok_def)
    then have "16 \<le> bsz (hdrs s) c" using c(2) by (simp add: dvd_imp_le)
    then show thesis using that [of c] 2 c(1) by (auto simp: nxt_def)
  qed (use that in \<open>auto simp: nxt_def\<close>)
qed

lemma held_apart_cells:
  assumes inv: "tlsf_inv s" and p: "tlsf_held s p = Some m" "i < m"
  shows "p + i \<notin> cells s"
proof
  assume "p + i \<in> cells s"
  then obtain c where c: "c \<in> blks s" "c \<le> p + i" "p + i < nxt (hdrs s) c" "p + i < c + 16 \<or> c \<in> free_blocks s \<or> c \<in> areas s"
    by (rule cells_within [OF inv])
  obtain b where b: "b \<in> blks s" "p = b + 16" "b \<notin> areas s" "\<not> bfr (hdrs s) b" "bsz (hdrs s) b = m"
    using p(1) by (auto simp: tlsf_held_Some)
  show False
  proof (cases "b = c")
    case True
    then show ?thesis using b c(4) by (auto simp: free_blocks_def)
  next
    case False
    then show ?thesis using blocks_apart [OF tlsf_invD(2) [OF inv] b(1) c(1) False c(2,3)] b(2,5) p(2) by (auto simp: nxt_def)
  qed
qed

lemma held_kept:
  assumes "tlsf_inv s" "bytes_only (cells s \<union> X) s s'" "tlsf_held s p = Some m" "i < m" "p + i \<notin> X"
  shows "data s' (p + i) = data s (p + i)"
  using held_apart_cells [OF assms(1,3,4)] assms(2,5) by (simp add: bytes_only_def)

text \<open>Inside the block at \<open>b\<close> there are no bytes of another held block.\<close>

lemma held_apart_block:
  assumes inv: "tlsf_inv s" and b: "b \<in> blks s" and p: "tlsf_held s p = Some m" "i < m" "p \<noteq> b + 16"
  shows "p + i < b \<or> nxt (hdrs s) b \<le> p + i"
proof -
  obtain c where c: "c \<in> blks s" "p = c + 16" "bsz (hdrs s) c = m" using p(1) by (auto simp: tlsf_held_Some)
  then show ?thesis using blocks_apart [OF tlsf_invD(2) [OF inv] b c(1), of "p + i"] p(2,3) by (auto simp: nxt_def)
qed

lemma held_owned:
  assumes "tlsf_inv s" "tlsf_held s p = Some m" "i < m"
  shows "owned s (p + i)"
proof -
  obtain b where "b \<in> blks s" "p = b + 16" "bsz (hdrs s) b = m" using assms(2) by (auto simp: tlsf_held_Some)
  then show ?thesis using blocks_okD(2) [OF tlsf_invD(2) [OF assms(1)]] assms(3) by (auto simp: spans_def nxt_def)
qed

text \<open>All blocks held keep their bytes, but for the block \<open>q\<close>.\<close>

definition bytes_kept :: "nat \<Rightarrow> tlsf \<Rightarrow> tlsf \<Rightarrow> bool" where
  "bytes_kept q s s' \<longleftrightarrow> (\<forall>p m i. p \<noteq> q \<longrightarrow> tlsf_held s p = Some m \<longrightarrow> i < m \<longrightarrow> data s' (p + i) = data s (p + i))"

lemma bytes_kept_block:
  assumes "tlsf_inv s" "b \<in> blks s" "bytes_only (cells s \<union> {b..<nxt (hdrs s) b}) s s'"
  shows "bytes_kept (b + 16) s s'"
  unfolding bytes_kept_def
proof (intro allI impI)
  fix p m i assume p: "p \<noteq> b + 16" "tlsf_held s p = Some m" "i < m"
  have "p + i \<notin> {b..<nxt (hdrs s) b}" using held_apart_block [OF assms(1,2) p(2,3,1)] by auto
  then show "data s' (p + i) = data s (p + i)" by (rule held_kept [OF assms(1,3) p(2,3)])
qed

lemma bytes_kept_0:
  "bytes_kept 0 s s' \<longleftrightarrow> (\<forall>p m i. tlsf_held s p = Some m \<longrightarrow> i < m \<longrightarrow> data s' (p + i) = data s (p + i))"
proof -
  have "p \<noteq> 0" if "tlsf_held s p = Some m" for p m using that by (auto simp: tlsf_held_def split: if_splits)
  then show ?thesis unfolding bytes_kept_def by blast
qed

lemma bytes_kept_all: "bytes_kept q s s' \<Longrightarrow> tlsf_held s q = None \<Longrightarrow> bytes_kept q' s s'"
  unfolding bytes_kept_def by (metis option.distinct(1))

text \<open>Bytes written apart from these cells, by \<^verbatim>\<open>memcpy\<close> or by a client, keep everything but bytes.\<close>

lemma set_bytes_keeps:
  assumes inv: "tlsf_inv s" and W: "\<And>x. W x \<Longrightarrow> x \<notin> cells s"
  shows "tlsf_inv (set_bytes W f s)" "tlsf_held (set_bytes W f s) = tlsf_held s" "same_areas s (set_bytes W f s)"
    "free_blocks (set_bytes W f s) = free_blocks s" "\<And>b. b \<in> blks s \<Longrightarrow> hdrs (set_bytes W f s) b = hdrs s b"
proof -
  let ?s = "set_bytes W f s"
  note I = tlsf_invD [OF inv] note d = blocks_okD [OF I(2)]
  show h: "hdrs ?s b = hdrs s b" if "b \<in> blks s" for b
  proof -
    have "y < b \<or> b + 16 \<le> y" if "W y" for y
      using W [OF that] \<open>b \<in> blks s\<close> unfolding cells_def header_bytes_def by fastforce
    then show ?thesis using set_bytes_apart(1) [of W b f s] by (simp add: hdrs_def)
  qed
  have l: "y < b + 16 \<or> b + 32 \<le> y" if "W y" "b \<in> free_blocks s \<union> areas s" for y b
    using W [OF that(1)] that(2) unfolding cells_def link_bytes_def by fastforce
  then have links: "links ?s b = links s b" if "b \<in> free_blocks s" for b
    using set_bytes_apart(2) [of W b f s] that by (simp add: links_def)
  have a: "area ?s (b + 16) = area s (b + 16)" if "b \<in> areas s" for b
    by (rule set_bytes_apart(3)) (use l [of _ b] that in fastforce)
  show "same_areas s ?s" using a by (simp add: same_areas_def)
  have v: "bsz (hdrs ?s) b = bsz (hdrs s) b" "bfr (hdrs ?s) b = bfr (hdrs s) b" if "b \<in> blks s" for b
    using h [OF that] by (simp_all add: bsz_def bfr_def)
  show F: "free_blocks ?s = free_blocks s" using v(2) by (auto simp: free_blocks_def)
  show "tlsf_held ?s = tlsf_held s" using v by (auto simp: tlsf_held_def fun_eq_iff)
  have ip: "in_pool ?s = in_pool s" by (simp add: in_pool_def fun_eq_iff)
  have "class_ok ?s fl sl" if fs: "fl < 24" "sl < 32" for fl sl
  proof -
    note c = class_okD [OF lists_okD(5) [OF I(1) fs]]
    have "set (lists s fl sl) \<subseteq> free_blocks s" using I(7) fs by (auto simp: listed_def)
    then have "dls (links ?s) 0 (lists s fl sl) 0 = dls (links s) 0 (lists s fl sl) 0"
      by (intro dls_cong) (use links in blast)
    then show ?thesis using c ip by (simp add: class_ok_def matrix_head_def)
  qed
  then have "lists_ok ?s" using I(1) unfolding lists_ok_def by simp
  moreover have "blocks_ok (owned s) (blks s) (hdrs ?s)" by (rule layout_cong [OF I(2) h])
  moreover have "listed ?s (free_blocks s) (bsz (hdrs ?s))"
    using listed_cong [OF I(7), of "bsz (hdrs ?s)"] v(1) by (simp add: listed_def free_blocks_def)
  moreover have "ends_ok ?s"
  proof -
    have "{x \<in> blks s. bsz (hdrs ?s) x = 0} = {x \<in> blks s. bsz (hdrs s) x = 0}" using v(1) by auto
    moreover have "bij_betw (area_end ?s) (areas s) S = bij_betw (area_end s) (areas s) S" for S
      by (rule bij_betw_cong) (simp add: area_end_def a)
    ultimately show ?thesis using I(4) I(5) v unfolding ends_ok_def by auto
  qed
  ultimately show "tlsf_inv ?s" using I(3) unfolding tlsf_inv_def F by simp
qed

lemma fill_keeps:
  assumes inv: "tlsf_inv s" and q: "tlsf_held s q = Some c" and W: "\<And>x. W x \<Longrightarrow> q \<le> x \<and> x < q + c"
  shows "tlsf_inv (set_bytes W f s)" "tlsf_held (set_bytes W f s) = tlsf_held s" "same_areas s (set_bytes W f s)"
    "bytes_kept q s (set_bytes W f s)"
proof -
  have "x \<notin> cells s" if "W x" for x
    using held_apart_cells [OF inv q, of "x - q"] W [OF that] by (simp add: less_diff_conv2)
  note k = set_bytes_keeps [OF inv this]
  show "tlsf_inv (set_bytes W f s)" "tlsf_held (set_bytes W f s) = tlsf_held s" "same_areas s (set_bytes W f s)" by (rule k, simp)+
  have "\<not> W (p + i)" if "p \<noteq> q" "tlsf_held s p = Some m" "i < m" for p m i
    using tlsf_held_apart [OF inv that(2) q that(1)] W [of "p + i"] that(3) by auto
  then show "bytes_kept q s (set_bytes W f s)" by (simp add: bytes_kept_def)
qed

end
