(* ===== verification/Tlsf_Alloc.thy ===== *)
theory Tlsf_Alloc
  imports Tlsf_Inv
begin

text \<open>
  \<^verbatim>\<open>malloc_ex\<close> and \<^verbatim>\<open>free_ex\<close> keep the invariant. Allocation fails exactly when every free block
  is smaller than the request rounded to its class, and otherwise takes a block of the first
  non-empty class that satisfies it; deallocation merges the block with its free neighbours.
\<close>

lemma constants_unat [simp]:
  "unat BHDR_OVERHEAD = 16" "BHDR_OVERHEAD = 16" "MIN_BLOCK_SIZE = 16" "SIZEOF_BHDR = 32"
  by (simp_all add: BHDR_OVERHEAD_def MIN_BLOCK_SIZE_def SIZEOF_BHDR_def)

lemma buffer_simp [simp]: "buffer b = b + 16"
  by (simp add: buffer_def)

lemma unat_word_of_nat_u64: "n < 4294967296 \<Longrightarrow> unat (word_of_nat n :: u64) = n"
  by (simp add: unat_of_nat)

lemma word_of_nat_sub: "m \<le> n \<Longrightarrow> (word_of_nat n - word_of_nat m :: u64) = word_of_nat (n - m)"
  by (simp add: of_nat_diff)

lemma roundup_size_spec:
  assumes "unat r < 4294967296"
  shows "unat (ROUNDUP_SIZE r) = (unat r + 15) div 16 * 16"
proof -
  have s: "unat (r + 15) = unat r + 15" using assms by (simp add: unat_word_ariths)
  have m: "unat ((r + 15) AND 15) = (unat r + 15) mod 16"
    using unat_and_mask [of "15 :: u64" 4 "r + 15"] s by simp
  have "unat (ROUNDUP_SIZE r) = unat (r + 15) - unat ((r + 15) AND 15)"
    unfolding ROUNDUP_SIZE_def tlsf_constants word_and_not_eq_sub
    by (rule unat_sub_word) (simp add: s m)
  then show ?thesis unfolding s m by (simp add: minus_mod_eq_div_mult)
qed

lemma request_size_spec:
  assumes "unat sz \<le> 1056964608"
  shows "unat (request_size sz) \<le> 1056964608" "16 dvd unat (request_size sz)" "unat sz \<le> unat (request_size sz)"
    "16 \<le> unat (request_size sz)" "unat (request_size sz) \<le> max 16 (unat sz + 15)"
proof -
  have r: "unat (request_size sz) = (if unat sz < 16 then 16 else (unat sz + 15) div 16 * 16)"
    using assms by (simp add: request_size_def word_less_nat_alt roundup_size_spec)
  show "unat (request_size sz) \<le> 1056964608" unfolding r using assms by (cases "unat sz < 16"; simp; linarith)
  show "unat sz \<le> unat (request_size sz)" unfolding r by (cases "unat sz < 16"; simp; linarith)
  show "16 \<le> unat (request_size sz)" unfolding r by (cases "unat sz < 16"; simp; linarith)
  show "unat (request_size sz) \<le> max 16 (unat sz + 15)" unfolding r by (cases "unat sz < 16"; simp; linarith)
  show "16 dvd unat (request_size sz)" unfolding r by simp
qed

text \<open>The size \<^verbatim>\<open>malloc_ex\<close> looks for.\<close>

definition fit_size :: "u64 \<Rightarrow> nat" where
  "fit_size sz = (case MAPPING_SEARCH (request_size sz) of None \<Rightarrow> 0 | Some (r, _, _) \<Rightarrow> unat r)"

lemma search_spec:
  assumes "unat sz \<le> 1056964608"
  obtains fl sl where "MAPPING_SEARCH (request_size sz) = Some (word_of_nat (fit_size sz), int fl, int sl)" "fl < 24" "sl < 32"
    "fit_size sz = class_low fl sl" "unat sz \<le> fit_size sz" "16 \<le> fit_size sz"
    "32 * fit_size sz \<le> 33 * max 16 (unat sz + 15)" "16 dvd fit_size sz"
proof -
  note r = request_size_spec [OF assms]
  obtain r' fl sl where m: "MAPPING_SEARCH (request_size sz) = Some (r', int fl, int sl)" "fl < 24" "sl < 32"
    "unat r' = class_low fl sl" "unat (request_size sz) \<le> unat r'" "32 * (unat r' - unat (request_size sz)) \<le> unat (request_size sz)" "16 dvd unat r'"
    using mapping_search_spec [OF r(1,2)] by blast
  have f: "fit_size sz = unat r'" by (simp add: fit_size_def m(1))
  have "32 * fit_size sz \<le> 33 * unat (request_size sz)" using m(5,6) f by linarith
  also have "\<dots> \<le> 33 * max 16 (unat sz + 15)" using r(5) by (rule mult_le_mono2)
  finally have b: "32 * fit_size sz \<le> 33 * max 16 (unat sz + 15)" .
  have "MAPPING_SEARCH (request_size sz) = Some (word_of_nat (fit_size sz), int fl, int sl)" using m(1) f by simp
  then show thesis by (rule that [OF _ m(2,3)]) (use m(4-7) r(3,4) f b in linarith | use m(7) f in simp)+
qed

subsection \<open>Splitting\<close>

lemma spans_pool: "spans (owned s) b e \<Longrightarrow> 0 < b \<Longrightarrow> b + n \<le> e \<Longrightarrow> in_pool s b n"
  by (simp add: in_pool_def spans_def)

lemma block_in_pool:
  assumes "blocks_ok (owned s) B v" "small (owned s)" "b \<in> B"
  shows "in_pool s b 16" "bsz v b \<noteq> 0 \<Longrightarrow> in_pool s b 32" "bsz v b < 1073741824"
proof -
  note d = blocks_okD [OF assms(1,3)]
  have "16 dvd bsz v b" using d(3) by (simp add: size_ok_def)
  then have "bsz v b \<noteq> 0 \<Longrightarrow> 16 \<le> bsz v b" by (simp add: dvd_imp_le)
  then show "in_pool s b 16" "bsz v b \<noteq> 0 \<Longrightarrow> in_pool s b 32" "bsz v b < 1073741824"
    using spans_pool [OF d(2,1)] spans_small [OF d(2) assms(2)] by (simp_all add: nxt_def)
qed

lemma size_ok_diff: "size_ok n \<Longrightarrow> size_ok m \<Longrightarrow> size_ok (n - m - 16)"
  by (auto simp: size_ok_def intro!: dvd_diff_nat)

text \<open>The links, lists and headers after a block \<open>b\<close> has been split at size \<open>m\<close>.\<close>

lemma split_spec:
  assumes ok: "lists_ok s" and F: "listed s F n"
    and sz: "size_ok m" "size_ok k" "m + 32 \<le> k" "k < 1073741824"
    and r: "r = b + 16 + m" "r \<notin> F" "r \<noteq> b" "e \<noteq> r" "e \<noteq> b"
    and pool: "in_pool s b 16" "in_pool s r 32" "in_pool s e 16"
    and w: "snd (hdrs s b) = hword x y p" "size_ok x"
  obtains s' where "split_block mark b (word_of_nat m) (word_of_nat (k - m)) e s = Inr s'" "lists_ok s'"
    "listed s' (insert r F) (n(r := k - m - 16))"
    "hdrs s' b = (fst (hdrs s b), hword m False p)" "snd (hdrs s' r) = hword (k - m - 16) True False"
    "hdrs s' e = (r, mark (snd (hdrs s e)))" "\<And>x. x \<notin> {b, r, e} \<Longrightarrow> hdrs s' x = hdrs s x"
    "blks s' = insert r (blks s)" "owned s' = owned s" "areas s' = areas s" "area_part s' = area_part s"
    "bytes_only (header_bytes {b, r, e} \<union> link_bytes (insert r F)) s s'"
proof -
  let ?t = "k - m - 16" and ?T = "word_of_nat (k - m - 16) :: u64"
  have t: "word_of_nat (k - m) - BHDR_OVERHEAD = ?T" using word_of_nat_sub [of 16 "k - m"] sz(3) by simp
  have st: "size_ok ?t" using size_ok_diff [OF sz(2,1)] .
  have b2: "GET_NEXT_BLOCK (buffer b) (word_of_nat m) = r"
    using sz(1) by (simp add: GET_NEXT_BLOCK_def r(1) size_ok_def unat_of_nat)
  have r16: "in_pool s r 16" using pool(2) by (simp add: in_pool_def)
  obtain s1 where s1: "upd_hdr r (\<lambda>h. h\<lparr>bsize := ?T OR FREE_BLOCK OR PREV_USED\<rparr>) s = Inr s1" "hframe s s1"
      "hdrs s1 = (hdrs s)(r := (prev_hdr (mem s r), ?T OR FREE_BLOCK OR PREV_USED))" "bytes_only (header_bytes {r}) s s1"
    using upd_hdr_spec [OF r16, of "\<lambda>h. h\<lparr>bsize := ?T OR FREE_BLOCK OR PREV_USED\<rparr>"] by auto
  note f1 = hframeD [OF s1(2)]
  obtain s2 where s2: "upd_hdr e (\<lambda>h. h\<lparr>prev_hdr := r, bsize := mark (bsize h)\<rparr>) s1 = Inr s2" "hframe s1 s2"
      "hdrs s2 = (hdrs s1)(e := (r, mark (snd (hdrs s1 e))))" "bytes_only (header_bytes {e}) s1 s2"
    using upd_hdr_spec [of s1 e "\<lambda>h. h\<lparr>prev_hdr := r, bsize := mark (bsize h)\<rparr>"] pool(3) f1(6) by (auto simp: hdrs_def)
  note f2 = hframeD [OF s2(2)]
  obtain fl sl where c: "map_insert ?T = Inr (fl, sl)" "class_of ?t = (fl, sl)" "fl < 24" "sl < 32"
  proof -
    have "?t < 1073741824" using sz(4) by simp
    from class_of_spec [OF this] show thesis using that by blast
  qed
  obtain s3 where s3: "INSERT_BLOCK r fl sl s2 = Inr s3" "lists_ok s3" "frame s2 s3" "listed s3 (insert r F) (n(r := ?t))"
      "bytes_only (link_bytes (insert r F)) s2 s3"
    using put_spec [of s2 F n r ?t fl sl] ok F c pool(2) r(2) f1 f2 by auto
  note f3 = frameD [OF s3(3)]
  obtain s4 where s4: "upd_hdr b (\<lambda>h. h\<lparr>bsize := word_of_nat m OR (bsize h AND PREV_STATE)\<rparr>) s3 = Inr s4" "hframe s3 s4"
      "hdrs s4 = (hdrs s3)(b := (fst (hdrs s3 b), word_of_nat m OR (snd (hdrs s3 b) AND PREV_STATE)))" "bytes_only (header_bytes {b}) s3 s4"
    using upd_hdr_spec [of s3 b "\<lambda>h. h\<lparr>bsize := word_of_nat m OR (bsize h AND PREV_STATE)\<rparr>"] pool(1) f1(6) f2(6) f3(5)
    by (auto simp: hdrs_def)
  note f4 = hframeD [OF s4(2)]
  have h: "hdrs s4 b = (fst (hdrs s b), hword m False p)" "snd (hdrs s4 r) = hword ?t True False"
      "hdrs s4 e = (r, mark (snd (hdrs s e)))" "\<And>x. x \<notin> {b, r, e} \<Longrightarrow> hdrs s4 x = hdrs s x"
    using s4(3) f3(1) s2(3) s1(3) r hword_ops(5) [OF w(2) sz(1)] hword_ops(6) [OF st] w(1) by auto
  have bo: "bytes_only (header_bytes {b, r, e} \<union> link_bytes (insert r F)) s s4"
    using s1(4) s2(4) s3(5) s4(4) unfolding bytes_only_def header_bytes_def by simp
  show thesis
  proof (rule that [where s' = "s4\<lparr>blks := insert r (blks s4)\<rparr>"])
    show "split_block mark b (word_of_nat m) (word_of_nat (k - m)) e s = Inr (s4\<lparr>blks := insert r (blks s4)\<rparr>)"
      by (simp only: split_block_def Let_def t b2 s1(1) s2(1) c(1) s3(1) s4(1) bind_err.simps prod.case)
    show "lists_ok (s4\<lparr>blks := insert r (blks s4)\<rparr>)"
      using s3(2) f4(1) by simp
    show "listed (s4\<lparr>blks := insert r (blks s4)\<rparr>) (insert r F) (n(r := ?t))" using s3(4) f4(7) by simp
    show "hdrs (s4\<lparr>blks := insert r (blks s4)\<rparr>) b = (fst (hdrs s b), hword m False p)"
      "snd (hdrs (s4\<lparr>blks := insert r (blks s4)\<rparr>) r) = hword ?t True False"
      "hdrs (s4\<lparr>blks := insert r (blks s4)\<rparr>) e = (r, mark (snd (hdrs s e)))"
      "\<And>x. x \<notin> {b, r, e} \<Longrightarrow> hdrs (s4\<lparr>blks := insert r (blks s4)\<rparr>) x = hdrs s x"
      unfolding blks_update using h by blast+
    show "bytes_only (header_bytes {b, r, e} \<union> link_bytes (insert r F)) s (s4\<lparr>blks := insert r (blks s4)\<rparr>)"
      using bo by (simp add: bytes_only_def)
  qed (simp_all add: f1 f2 f3 f4)
qed

text \<open>
  The layout \<open>v\<close> is the one before the split; the state \<open>s\<close> may still have other size words at
  the block and at its successor.
\<close>

lemma use_split:
  assumes v: "blocks_ok (owned s) B v" and P: "small (owned s)"
    and s: "lists_ok s" "listed s F (bsz v)" "F = {x \<in> B. bfr v x} - {b}" "blks s = B"
    and b: "b \<in> B" "e = nxt v b" "\<not> bfr v e" and m: "size_ok m" "0 < m" "m + 32 \<le> bsz v b"
    and same: "\<And>x. x \<in> B \<Longrightarrow> x \<noteq> b \<Longrightarrow> x \<noteq> e \<Longrightarrow> hdrs s x = v x"
    and wb: "fst (hdrs s b) = fst (v b)" "snd (hdrs s b) = hword z y (bpf v b)" "size_ok z"
    and we: "mark (snd (hdrs s e)) = hword (bsz v e) False True"
  obtains s' where "split_block mark b (word_of_nat m) (word_of_nat (bsz v b - m)) e s = Inr s'"
    "lists_ok s'" "blocks_ok (owned s) (blks s') (hdrs s')" "listed s' (free_blocks s') (bsz (hdrs s'))"
    "others_kept b B v (blks s') (hdrs s')" "b \<in> blks s'" "bsz (hdrs s') b = m" "\<not> bfr (hdrs s') b"
    "owned s' = owned s" "areas s' = areas s" "area_part s' = area_part s"
    "bytes_only (header_bytes B \<union> link_bytes F \<union> {b + 16 + m..<e}) s s'"
proof -
  note d = blocks_okD [OF v] note db = d [OF b(1)]
  let ?r = "b + 16 + m"
  have e: "e \<in> B" using db(6) b(2) m by simp
  have r: "b < ?r" "?r + 32 \<le> e" using b(2) m(3) by (simp_all add: nxt_def)
  have rB: "?r \<notin> B" using db(10) [of ?r] r b(2) by auto
  have k: "bsz v b < 1073741824" using block_in_pool(3) [OF v P b(1)] .
  have ip: "in_pool s b 16" "in_pool s e 16" using block_in_pool(1) [OF v P] b(1) e by blast+
  have ir: "in_pool s ?r 32" using spans_pool [OF spans_sub [OF db(2)], of ?r e 32] r b(2) by simp
  obtain s' where s': "split_block mark b (word_of_nat m) (word_of_nat (bsz v b - m)) e s = Inr s'" "lists_ok s'"
    "listed s' (insert ?r F) ((bsz v)(?r := bsz v b - m - 16))"
    "hdrs s' b = (fst (hdrs s b), hword m False (bpf v b))" "snd (hdrs s' ?r) = hword (bsz v b - m - 16) True False"
    "hdrs s' e = (?r, mark (snd (hdrs s e)))" "\<And>x. x \<notin> {b, ?r, e} \<Longrightarrow> hdrs s' x = hdrs s x"
    "blks s' = insert ?r (blks s)" "owned s' = owned s" "areas s' = areas s" "area_part s' = area_part s"
    "bytes_only (header_bytes {b, ?r, e} \<union> link_bytes (insert ?r F)) s s'"
    using split_spec [OF s(1,2) m(1) db(3) m(3) k refl _ _ _ _ ip(1) ir ip(2) wb(2,3), of mark] r rB s(3) by auto
  let ?v' = "hdrs s'"
  have "?v' x = v x" if "x \<in> B" "x \<noteq> b" "x \<noteq> e" for x
  proof -
    have "x \<noteq> ?r" using that(1) rB by blast
    then show ?thesis using s'(7) [of x] same [OF that] that by simp
  qed
  then have h: "?v' b = (fst (v b), hword m False (bpf v b))" "?v' e = (?r, hword (bsz v e) False True)"
      "\<And>x. x \<in> B \<Longrightarrow> x \<noteq> b \<Longrightarrow> x \<noteq> e \<Longrightarrow> ?v' x = v x"
    using s'(4,6) wb(1) we by auto
  have m16: "m + 16 < bsz v b" using m(3) by simp
  note lay = layout_split [OF v b(1) m(1,2) m16 b(2,3) refl, of ?v']
  have blk: "blocks_ok (owned s) (insert ?r B) ?v'" and rs: "bsz ?v' ?r = bsz v b - m - 16"
    using lay h s'(5) by blast+
  have vb: "bsz ?v' b = m" "\<not> bfr ?v' b" using h(1) m(1) by (simp_all add: bsz_def bfr_def)
  have rf: "bfr ?v' ?r" using s'(5) size_ok_diff [OF db(3) m(1)] by (simp add: bfr_def)
  have other: "bsz ?v' x = bsz v x \<and> bfr ?v' x = bfr v x" if "x \<in> B" "x \<noteq> b" for x
    using h(2,3) that d(3) [OF e] b(3) by (cases "x = e") (simp_all add: bsz_def bfr_def)
  have bf: "x \<in> insert ?r B \<and> bfr ?v' x \<longleftrightarrow> x = ?r \<or> x \<in> B \<and> bfr v x \<and> x \<noteq> b" for x
    using other [of x] vb rf by (cases "x = b"; cases "x \<in> B") auto
  have F': "insert ?r F = free_blocks s'" unfolding free_blocks_def s'(8) s(3,4) using bf by blast
  show thesis
  proof (rule that [OF s'(1,2)])
    show "blocks_ok (owned s) (blks s') ?v'" using blk s'(8) s(4) by simp
    have "bsz ?v' x = ((bsz v)(?r := bsz v b - m - 16)) x" if "x \<in> insert ?r F" for x
      using that rs other s(3) by auto
    from listed_cong [OF s'(3) this] show "listed s' (free_blocks s') (bsz ?v')" unfolding F' .
    have "x \<in> blks s' \<and> \<not> bfr ?v' x \<longleftrightarrow> x \<in> B \<and> \<not> bfr v x" if "x \<noteq> b" for x
      unfolding s'(8) s(4) using bf [of x] that rB by blast
    then show "others_kept b B v (blks s') ?v'" using other by (simp add: others_kept_def)
    show "b \<in> blks s'" using b(1) s'(8) s(4) by simp
    show "bytes_only (header_bytes B \<union> link_bytes F \<union> {?r..<e}) s s'"
      by (rule bytes_only_mono [OF s'(12)]) (use b(1) e r(2) in \<open>auto simp: header_bytes_def link_bytes_def\<close>)
  qed (use other vb s'(9-11) in auto)
qed

subsection \<open>Allocation\<close>

text \<open>The block \<open>b\<close> has left its list and is handed out, whole or split.\<close>

lemma use_whole:
  assumes inv: "tlsf_inv s" and b: "b \<in> free_blocks s"
    and s1: "lists_ok s1" "frame s s1" "listed s1 (free_blocks s - {b}) (bsz (hdrs s))"
  obtains s' where "bind_err (upd_hdr (nxt (hdrs s) b) (\<lambda>h. h\<lparr>bsize := bsize h AND NOT PREV_FREE\<rparr>) s1) (\<lambda>s.
      upd_hdr b (\<lambda>h. h\<lparr>bsize := bsize h AND NOT FREE_BLOCK\<rparr>) s) = Inr s'"
    "tlsf_inv s'" "tlsf_held s' = (tlsf_held s)(b + 16 \<mapsto> bsz (hdrs s) b)" "bytes_only (cells s) s1 s'"
    "owned s' = owned s" "areas s' = areas s" "area_part s' = area_part s"
proof -
  let ?v = "hdrs s" let ?e = "nxt ?v b" and ?B = "blks s"
  note I = tlsf_invD [OF inv] note f1 = frameD [OF s1(2)]
  have bB: "b \<in> ?B" "bfr ?v b" using b by (simp_all add: free_blocks_def)
  note d = blocks_okD [OF I(2)] note db = d [OF bB(1)]
  have nz: "bsz ?v b \<noteq> 0" using db(5) bB(2) .
  have e: "?e \<in> ?B" "bpf ?v ?e" "\<not> bfr ?v ?e" using db nz bB(2) by simp_all
  have eb: "?e \<noteq> b" by (simp add: nxt_def)
  have inp: "in_pool s1 b 16" "in_pool s1 ?e 16" using block_in_pool(1) [OF I(2,3)] bB(1) e(1) f1(5) by simp_all
  have we: "snd (?v ?e) = hword (bsz ?v ?e) False True" using d(4) [OF e(1)] e(2,3) by simp
  have wb: "snd (?v b) = hword (bsz ?v b) True (bpf ?v b)" using db(4) bB(2) by simp
  obtain s2 where s2: "upd_hdr ?e (\<lambda>h. h\<lparr>bsize := bsize h AND NOT PREV_FREE\<rparr>) s1 = Inr s2" "hframe s1 s2"
      "hdrs s2 = (hdrs s1)(?e := (fst (hdrs s1 ?e), hword (bsz ?v ?e) False True AND NOT PREV_FREE))" "bytes_only (header_bytes {?e}) s1 s2"
    using word_spec [OF inp(2), of _ "\<lambda>w. w AND NOT PREV_FREE"] we f1(1) by auto
  note f2 = hframeD [OF s2(2)] note v2 = s2(3) [unfolded f1(1) hword_ops(4) [OF d(3) [OF e(1)]]]
  have v2b: "snd (hdrs s2 b) = hword (bsz ?v b) True (bpf ?v b)" "fst (hdrs s2 b) = fst (?v b)" "in_pool s2 b 16"
    using v2 eb wb inp(1) f2(6) by simp_all
  obtain s3 where s3: "upd_hdr b (\<lambda>h. h\<lparr>bsize := bsize h AND NOT FREE_BLOCK\<rparr>) s2 = Inr s3" "hframe s2 s3"
      "hdrs s3 = (hdrs s2)(b := (fst (hdrs s2 b), hword (bsz ?v b) True (bpf ?v b) AND NOT FREE_BLOCK))" "bytes_only (header_bytes {b}) s2 s3"
    using word_spec [OF v2b(3,1), of "\<lambda>w. w AND NOT FREE_BLOCK"] by auto
  note f3 = hframeD [OF s3(2)]
  let ?v' = "hdrs s3"
  have v': "?v' b = (fst (?v b), hword (bsz ?v b) False (bpf ?v b))" "?v' ?e = (fst (?v ?e), hword (bsz ?v ?e) False False)"
      "\<And>x. x \<noteq> b \<Longrightarrow> x \<noteq> ?e \<Longrightarrow> ?v' x = ?v x"
    using s3(3) v2 v2b(2) eb hword_ops(2) [OF db(3)] by simp_all
  have blk: "blocks_ok (owned s) ?B ?v'"
  proof (rule layout_join [OF I(2) bB(1) e(1), where f = False])
    show "b + 16 < ?e" "size_ok (?e - b - 16)" using nz db(3) by (simp_all add: nxt_def)
    have "x \<le> b \<or> ?e \<le> x" if "x \<in> ?B" for x using db(10) [OF that] by linarith
    then show "?B = {x \<in> ?B. x \<le> b \<or> ?e \<le> x}" by blast
    show "?v' b = (fst (?v b), hword (?e - b - 16) False (bpf ?v b))" using v'(1) by (simp add: nxt_def)
    show "snd (?v' ?e) = hword (bsz ?v ?e) (bfr ?v ?e) False" using v'(2) e(3) by simp
  qed (use v'(3) db(2) in auto)
  have other: "bsz ?v' x = bsz ?v x" "bfr ?v' x = bfr ?v x" if "x \<noteq> b" for x
    using v'(2,3) that d(3) [OF e(1)] e(3) by (cases "x = ?e"; simp add: bsz_def bfr_def)+
  have vb: "\<not> bfr ?v' b" "bsz ?v' b = bsz ?v b" using v'(1) db(3) by (simp_all add: bsz_def bfr_def)
  have lo: "b \<notin> areas s" using I(6) bB(2) by auto
  have B: "blks s3 = ?B" and P: "owned s3 = owned s" "areas s3 = areas s"
    and L: "lists_ok s3" "listed s3 (free_blocks s - {b}) (bsz ?v)" and D: "area_part s3 = area_part s"
    using s1(1,3) by (simp_all add: f1 f2 f3)
  have bf: "bfr ?v' x \<longleftrightarrow> bfr ?v x \<and> x \<noteq> b" for x using other(2) [of x] vb(1) by (cases "x = b") auto
  then have fb: "free_blocks s - {b} = free_blocks s3" using B by (auto simp: free_blocks_def)
  have kept: "others_kept b (blks s) ?v (blks s3) ?v'" using other B by (simp add: others_kept_def)
  show thesis
  proof (rule that [of s3])
    show "tlsf_inv s3"
    proof (rule tlsf_inv_step [OF inv L(1) _ P D L(2) fb _ lo _ _ kept])
    qed (use blk B other vb nz in auto)
    have "tlsf_held s3 = (tlsf_held s)(b + 16 := tlsf_held s3 (b + 16))" by (rule held_except [OF kept P(2)])
    then show "tlsf_held s3 = (tlsf_held s)(b + 16 \<mapsto> bsz ?v b)"
      using vb nz B lo bB(1) P by (simp add: tlsf_held_def [of s3])
    show "bytes_only (cells s) s1 s3"
      using s2(4) s3(4) bB(1) e(1) by (auto simp: bytes_only_def cells_def header_bytes_def)
  qed (simp_all add: s2(1) s3(1) P D)
qed

lemma listed_class:
  assumes "tlsf_inv s" "x \<in> free_blocks s"
  obtains fl sl where "class_of (bsz (hdrs s) x) = (fl, sl)" "fl < 24" "sl < 32" "x \<in> set (lists s fl sl)"
    "class_low fl sl \<le> bsz (hdrs s) x" "bsz (hdrs s) x < class_low fl sl + class_width fl" "16 dvd bsz (hdrs s) x"
proof -
  note I = tlsf_invD [OF assms(1)]
  have x: "x \<in> blks s" using assms(2) by (simp add: free_blocks_def)
  have "bsz (hdrs s) x < 1073741824" using block_in_pool(3) [OF I(2,3) x] .
  then obtain fl sl where c: "class_of (bsz (hdrs s) x) = (fl, sl)" "fl < 24" "sl < 32"
      "class_low fl sl \<le> bsz (hdrs s) x" "bsz (hdrs s) x < class_low fl sl + class_width fl"
    using class_of_spec by blast
  have "x \<in> set (lists s fl sl)" using I(7) assms(2) c(1-3) by (simp add: listed_def)
  moreover have "16 dvd bsz (hdrs s) x" using blocks_okD(3) [OF I(2) x] by (simp add: size_ok_def)
  ultimately show thesis using that c by blast
qed

text \<open>Blocks of an earlier class exceed blocks of a later one by less than a thirty-second.\<close>

lemma class_good_fit:
  assumes "class_low fl sl \<le> n" "n < class_low fl sl + class_width fl" "class_low fl' sl' \<le> m"
    "class_le fl sl fl' sl'" "sl < 32" "16 dvd n" "16 dvd m"
  shows "32 * (n - m) \<le> n"
proof -
  have lt: "n < m + class_width fl" using class_low_mono [OF assms(4,5)] assms(2,3) by simp
  show ?thesis
  proof (cases "fl = 0")
    case True
    then have "n < m + 4" using lt by (simp add: class_width_def)
    moreover have "16 dvd n - m" using assms(6,7) by (rule dvd_diff_nat)
    ultimately have "n - m = 0" using nat_dvd_not_less [of "n - m" 16] by linarith
    then show ?thesis by simp
  next
    case False
    have "32 * class_width fl \<le> class_low fl sl" using False by (simp add: class_width_def class_low_def power_add)
    then show ?thesis using lt assms(1) by linarith
  qed
qed

lemma malloc_ex_spec:
  assumes inv: "tlsf_inv s" and sz: "unat sz \<le> 1056964608"
  obtains (none) "malloc_ex sz s = Inr (0, s)" "\<And>x. x \<in> free_blocks s \<Longrightarrow> bsz (hdrs s) x < fit_size sz"
  | (some) b s' c where "malloc_ex sz s = Inr (b + 16, s')" "tlsf_inv s'" "b \<in> free_blocks s"
      "tlsf_held s' = (tlsf_held s)(b + 16 \<mapsto> c)" "fit_size sz \<le> c" "c < fit_size sz + 32" "fit_size sz \<le> bsz (hdrs s) b"
      "\<And>x. x \<in> free_blocks s \<Longrightarrow> fit_size sz \<le> bsz (hdrs s) x \<Longrightarrow> 32 * (bsz (hdrs s) b - bsz (hdrs s) x) \<le> bsz (hdrs s) b"
      "bytes_kept 0 s s'" "owned s' = owned s" "areas s' = areas s" "area_part s' = area_part s"
proof -
  note I = tlsf_invD [OF inv]
  let ?v = "hdrs s" and ?n = "fit_size sz"
  obtain fl sl where m: "MAPPING_SEARCH (request_size sz) = Some (word_of_nat ?n, int fl, int sl)" "fl < 24" "sl < 32"
    "?n = class_low fl sl" "unat sz \<le> ?n" "16 \<le> ?n" "16 dvd ?n"
    using search_spec [OF sz] by blast
  have tc: "to_class (int fl) (int sl) = Inr (fl, sl)" using m(2,3) by (simp add: to_class_def)
  have above: "class_le fl sl f l" if "?n \<le> k" "k < class_low f l + class_width f" "l < 32" for f l k
    using class_next [of fl sl f l] that m(4) by linarith
  from I(1) m(2,3) show thesis
  proof (cases rule: find_spec)
    case n: (none fl' sl')
    have "bsz ?v x < ?n" if "x \<in> free_blocks s" for x
    proof (rule ccontr)
      assume "\<not> bsz ?v x < ?n"
      with listed_class [OF inv that] n(2) above show False by (metis empty_iff empty_set not_less)
    qed
    then show thesis using none n(1) m(1) tc by (simp add: malloc_ex_def)
  next
    case f: (found b ys fl' sl')
    have b: "b \<in> free_blocks s" "class_of (bsz ?v b) = (fl', sl')"
    proof -
      have "b \<in> set (lists s fl' sl')" using f(6) by simp
      then show "b \<in> free_blocks s" "class_of (bsz ?v b) = (fl', sl')" using I(7) f(3,4) by (simp_all add: listed_def)
    qed
    have bB: "b \<in> blks s" "bfr ?v b" using b(1) by (simp_all add: free_blocks_def)
    have bc: "class_low fl' sl' \<le> bsz ?v b" "bsz ?v b < class_low fl' sl' + class_width fl'" "16 dvd bsz ?v b"
      using listed_class [OF inv b(1)] b(2) by (metis Pair_inject)+
    have fit: "?n \<le> bsz ?v b" using class_low_mono [OF f(5) m(3)] bc(1) m(4) by simp
    have good: "32 * (bsz ?v b - bsz ?v x) \<le> bsz ?v b" if x: "x \<in> free_blocks s" "?n \<le> bsz ?v x" for x
    proof -
      obtain g l where g: "g < 24" "l < 32" "x \<in> set (lists s g l)" "class_low g l \<le> bsz ?v x"
          "bsz ?v x < class_low g l + class_width g" "16 dvd bsz ?v x"
        using listed_class [OF inv x(1)] by blast
      have "class_le fl' sl' g l" using f(7) [OF g(1,2) above [OF x(2) g(5,2)]] g(3) by force
      then show ?thesis using class_good_fit [OF bc(1,2) g(4) _ f(4) bc(3) g(6)] by blast
    qed
    note d = blocks_okD [OF I(2)] note db = d [OF bB(1)]
    have k: "bsz ?v b < 1073741824" using block_in_pool(3) [OF I(2,3) bB(1)] .
    obtain s1 where s1: "EXTRACT_BLOCK_HDR b fl' sl' s = Inr s1" "lists_ok s1" "frame s s1" "listed s1 (free_blocks s - {b}) (bsz ?v)"
        "bytes_only (link_bytes (free_blocks s)) s s1"
      using take_spec [OF I(1,7) b f(3,4)] extract_hdr_head [OF I(1) f(3,4,6)] by metis
    note f1 = frameD [OF s1(3)]
    have h: "get_hdr b s1 = Inr (mem s1 b)" "bsize (mem s1 b) AND BLOCK_SIZE = word_of_nat (bsz ?v b)"
    proof -
      show "get_hdr b s1 = Inr (mem s1 b)" using block_in_pool(1) [OF I(2,3) bB(1)] f1(5) by (simp add: get_hdr_def)
      have "bsize (mem s1 b) = snd (?v b)" using f1(1) by (simp add: hdrs_def fun_eq_iff)
      then show "bsize (mem s1 b) AND BLOCK_SIZE = word_of_nat (bsz ?v b)" using db(4) hword_parts(1) [OF db(3)] by metis
    qed
    have nx: "GET_NEXT_BLOCK (b + 16) (word_of_nat (bsz ?v b)) = nxt ?v b"
      using k by (simp add: GET_NEXT_BLOCK_def nxt_def unat_of_nat)
    have "unat (word_of_nat (bsz ?v b - ?n) :: u64) = bsz ?v b - ?n" using k by (intro unat_word_of_nat_u64) simp
    then have big: "SIZEOF_BHDR \<le> word_of_nat (bsz ?v b - ?n) \<longleftrightarrow> ?n + 32 \<le> bsz ?v b"
      using fit unfolding word_le_nat_alt by auto
    have kept: "bytes_kept 0 s s'" if "bytes_only (cells s \<union> {b + 16..<nxt ?v b}) s1 s'" for s'
    proof -
      have "bytes_only (cells s \<union> {b..<nxt ?v b}) s s1" by (rule bytes_only_mono [OF s1(5)]) (auto simp: cells_def link_bytes_def)
      moreover have "bytes_only (cells s \<union> {b..<nxt ?v b}) s1 s'" by (rule bytes_only_mono [OF that]) auto
      ultimately have "bytes_kept (b + 16) s s'" using bytes_kept_block [OF inv bB(1)] bytes_only_trans by blast
      then show ?thesis by (rule bytes_kept_all) (use bB(2) in \<open>simp add: tlsf_held_def\<close>)
    qed
    have run: "malloc_ex sz s =
        bind_err (if ?n + 32 \<le> bsz ?v b
          then split_block (\<lambda>w. w) b (word_of_nat ?n) (word_of_nat (bsz ?v b - ?n)) (nxt ?v b) s1
          else bind_err (upd_hdr (nxt ?v b) (\<lambda>h. h\<lparr>bsize := bsize h AND NOT PREV_FREE\<rparr>) s1) (\<lambda>s.
            upd_hdr b (\<lambda>h. h\<lparr>bsize := bsize h AND NOT FREE_BLOCK\<rparr>) s)) (\<lambda>s. Inr (b + 16, s))"
      using f(2) by (simp only: malloc_ex_def m(1) option.case prod.case tc bind_err.simps f(1) s1(1) h Let_def nx
          word_of_nat_sub [OF fit] big buffer_simp if_False)
    show thesis
    proof (cases "?n + 32 \<le> bsz ?v b")
      case True
      let ?e = "nxt ?v b"
      have nz: "bsz ?v b \<noteq> 0" using fit m(6) by simp
      have e: "?e \<in> blks s" "bpf ?v ?e" "\<not> bfr ?v ?e" using db(6,7,9) nz bB(2) by simp_all
      have n: "size_ok ?n" "0 < ?n" using m(6,7) fit k by (simp_all add: size_ok_def)
      have P: "owned s1 = owned s" "areas s1 = areas s" "hdrs s1 = ?v" "blks s1 = blks s" using f1 by simp_all
      obtain s' where s': "split_block (\<lambda>w. w) b (word_of_nat ?n) (word_of_nat (bsz ?v b - ?n)) ?e s1 = Inr s'"
        "lists_ok s'" "blocks_ok (owned s) (blks s') (hdrs s')" "listed s' (free_blocks s') (bsz (hdrs s'))"
        "others_kept b (blks s) ?v (blks s') (hdrs s')" "b \<in> blks s'" "bsz (hdrs s') b = ?n" "\<not> bfr (hdrs s') b"
        "owned s' = owned s" "areas s' = areas s" "area_part s' = area_part s"
        "bytes_only (header_bytes (blks s) \<union> link_bytes (free_blocks s - {b}) \<union> {b + 16 + ?n..<?e}) s1 s'"
      proof (rule use_split [where s = s1 and B = "blks s" and v = ?v and b = b and e = ?e and m = ?n and mark = "\<lambda>w. w",
            unfolded P, OF I(2,3) s1(2,4) _ refl bB(1) refl e(3) n True _ refl])
        show "snd (?v b) = hword (bsz ?v b) (bfr ?v b) (bpf ?v b)" "size_ok (bsz ?v b)" using db(3,4) by simp_all
        show "snd (?v ?e) = hword (bsz ?v ?e) False True" using d(4) [OF e(1)] e(2,3) by simp
      qed (use f1(6) in \<open>auto simp: free_blocks_def\<close>)
      have lo: "b \<notin> areas s" using I(6) bB(2) by auto
      have "tlsf_inv s'"
        by (rule tlsf_inv_step [OF inv s'(2,3,9,10,11) s'(4) refl refl lo _ _ s'(5)]) (use db(5) bB(2) s'(7) n(2) in auto)
      moreover have "tlsf_held s' = (tlsf_held s)(b + 16 \<mapsto> ?n)"
        using held_except [OF s'(5,10)] s'(6-8,10) lo n(2) by (simp add: tlsf_held_def [of s'])
      moreover have "bytes_kept 0 s s'"
        by (rule kept, rule bytes_only_mono [OF s'(12)]) (auto simp: cells_def link_bytes_def)
      ultimately show thesis
        using some [of b s' ?n] run s'(1,9-11) True b(1) fit good by simp
    next
      case False
      obtain s' where s': "bind_err (upd_hdr (nxt ?v b) (\<lambda>h. h\<lparr>bsize := bsize h AND NOT PREV_FREE\<rparr>) s1) (\<lambda>s.
          upd_hdr b (\<lambda>h. h\<lparr>bsize := bsize h AND NOT FREE_BLOCK\<rparr>) s) = Inr s'"
          "tlsf_inv s'" "tlsf_held s' = (tlsf_held s)(b + 16 \<mapsto> bsz ?v b)" "bytes_only (cells s) s1 s'"
          "owned s' = owned s" "areas s' = areas s" "area_part s' = area_part s"
        using use_whole [OF inv b(1) s1(2-4)] by blast
      moreover have "bytes_kept 0 s s'" by (rule kept, rule bytes_only_mono [OF s'(4)]) simp
      ultimately show thesis using some [of b s' "bsz ?v b"] run False b(1) fit good by simp
    qed
  qed
qed

end
