(* ===== verification/Tlsf_Free.thy ===== *)
theory Tlsf_Free
  imports Tlsf_Alloc
begin

text \<open>
  \<^verbatim>\<open>free_ex\<close>: the block merges with the free blocks before and behind it and enters the free
  list of the joint size. The layout stays without two free neighbours.
\<close>

lemma get_hdr_Inr [simp]: "in_pool s b 16 \<Longrightarrow> get_hdr b s = Inr (mem s b)"
  by (simp add: get_hdr_def)

lemma hdrs_sel: "bsize (mem s b) = snd (hdrs s b)" "prev_hdr (mem s b) = fst (hdrs s b)"
  by (simp_all add: hdrs_def)

lemma absorb_spec:
  assumes ok: "lists_ok s" "listed s F n" "t \<in> F" and w: "snd (hdrs s t) = hword (n t) y p" "size_ok (n t)" "n t < 1073741824"
    and pool: "in_pool s t 16"
  obtains s' where "absorb t s = Inr (word_of_nat (n t), s')" "lists_ok s'" "frame s s'" "listed s' (F - {t}) n"
    "bytes_only (link_bytes F) s s'"
proof -
  obtain fl sl where c: "map_insert (word_of_nat (n t)) = Inr (fl, sl)" "class_of (n t) = (fl, sl)" "fl < 24" "sl < 32"
    using class_of_spec [OF w(3)] by blast
  obtain s' where "EXTRACT_BLOCK t fl sl s = Inr s'" "lists_ok s'" "frame s s'" "listed s' (F - {t}) n"
      "bytes_only (link_bytes F) s s'"
    using take_spec [OF ok c(2-4)] by blast
  then show thesis using that pool w c(1) by (simp add: absorb_def hdrs_sel)
qed

lemma merge_next_spec:
  assumes ok: "lists_ok s" "listed s F n"
    and b: "snd (hdrs s b) = hword k f p" "size_ok k" "in_pool s b 16"
    and t: "t = b + 16 + k" "snd (hdrs s t) = hword m g q" "size_ok m" "in_pool s t 16"
    and g: "g \<Longrightarrow> t \<in> F \<and> n t = m \<and> m < 1073741824"
  obtains s' where "merge_next b s = Inr s'" "lists_ok s'" "listed s' (if g then F - {t} else F) n"
    "hdrs s' = (if g then (hdrs s)(b := (fst (hdrs s b), hword (k + 16 + m) f p)) else hdrs s)"
    "blks s' = (if g then blks s - {t} else blks s)" "owned s' = owned s" "areas s' = areas s"
    "in_pool s' = in_pool s" "bytes_only (header_bytes {b} \<union> link_bytes F) s s'" "area_part s' = area_part s"
proof -
  have nx: "GET_NEXT_BLOCK (b + 16) (word_of_nat k) = t" using b(2) t(1) by (simp add: GET_NEXT_BLOCK_def size_ok_def unat_of_nat)
  show thesis
  proof (cases g)
    case True
    note g = g [OF True]
    obtain s1 where s1: "absorb t s = Inr (word_of_nat (n t), s1)" "lists_ok s1" "frame s s1" "listed s1 (F - {t}) n"
        "bytes_only (link_bytes F) s s1"
      using absorb_spec [OF ok, of t] g t by auto
    note f1 = frameD [OF s1(3)]
    let ?g = "\<lambda>w. w + (word_of_nat (n t) + BHDR_OVERHEAD)"
    obtain s2 where s2: "upd_hdr b (\<lambda>h. h\<lparr>bsize := ?g (bsize h)\<rparr>) s1 = Inr s2" "hframe s1 s2"
        "hdrs s2 = (hdrs s1)(b := (fst (hdrs s1 b), ?g (hword k f p)))" "bytes_only (header_bytes {b}) s1 s2"
      using word_spec [of s1 b "hword k f p" ?g] b f1(1,5) by auto
    note f2 = hframeD [OF s2(2)]
    have w: "?g (hword k f p) = hword (k + 16 + m) f p"
      using g hword_add [of k f p "16 + m"] by (simp add: ac_simps)
    have "merge_next b s = Inr (s2\<lparr>blks := blks s2 - {t}\<rparr>)"
      using s1(1) s2(1) nx True b t by (simp add: merge_next_def hdrs_sel)
    moreover have "bytes_only (header_bytes {b} \<union> link_bytes F) s (s2\<lparr>blks := blks s2 - {t}\<rparr>)"
      using s1(5) s2(4) by (simp add: bytes_only_def)
    ultimately show thesis
      using that [of "s2\<lparr>blks := blks s2 - {t}\<rparr>"] s1(2,4) s2(3) True w by (simp add: f1 f2)
  next
    case False
    then have "merge_next b s = Inr s" using nx b t by (simp add: merge_next_def hdrs_sel)
    then show thesis using that [of s] ok False by (simp add: bytes_only_def)
  qed
qed

lemma merge_prev_spec:
  assumes ok: "lists_ok s" "listed s F n"
    and b: "snd (hdrs s b) = hword k f p" "size_ok k" "in_pool s b 16" "t = fst (hdrs s b)"
    and p: "p \<Longrightarrow> t \<in> F \<and> n t < 1073741824 \<and> size_ok (n t) \<and> in_pool s t 16 \<and> snd (hdrs s t) = hword (n t) g q"
  obtains s' where "merge_prev b s = Inr (if p then t else b, s')" "lists_ok s'" "listed s' (if p then F - {t} else F) n"
    "hdrs s' = (if p then (hdrs s)(t := (fst (hdrs s t), hword (n t + 16 + k) g q)) else hdrs s)"
    "blks s' = (if p then blks s - {b} else blks s)" "owned s' = owned s" "areas s' = areas s"
    "in_pool s' = in_pool s" "bytes_only (header_bytes {t} \<union> link_bytes F) s s'" "area_part s' = area_part s"
proof (cases p)
  case True
  note p = p [OF True]
  obtain s1 where s1: "absorb t s = Inr (word_of_nat (n t), s1)" "lists_ok s1" "frame s s1" "listed s1 (F - {t}) n"
      "bytes_only (link_bytes F) s s1"
    using absorb_spec [OF ok, of t] p by auto
  note f1 = frameD [OF s1(3)]
  let ?g = "\<lambda>w. w + (word_of_nat k + BHDR_OVERHEAD)"
  obtain s2 where s2: "upd_hdr t (\<lambda>h. h\<lparr>bsize := ?g (bsize h)\<rparr>) s1 = Inr s2" "hframe s1 s2"
      "hdrs s2 = (hdrs s1)(t := (fst (hdrs s1 t), ?g (hword (n t) g q)))" "bytes_only (header_bytes {t}) s1 s2"
    using word_spec [of s1 t "hword (n t) g q" ?g] p f1(1,5) by auto
  note f2 = hframeD [OF s2(2)]
  have w: "?g (hword (n t) g q) = hword (n t + 16 + k) g q"
    using hword_add [of "n t" g q "16 + k"] by (simp add: ac_simps)
  have "merge_prev b s = Inr (t, s2\<lparr>blks := blks s2 - {b}\<rparr>)"
    using s1(1) s2(1) True b by (simp add: merge_prev_def hdrs_sel Let_def)
  moreover have "bytes_only (header_bytes {t} \<union> link_bytes F) s (s2\<lparr>blks := blks s2 - {b}\<rparr>)"
    using s1(5) s2(4) by (simp add: bytes_only_def)
  ultimately show thesis
    using that [of "s2\<lparr>blks := blks s2 - {b}\<rparr>"] s1(2,4) s2(3) True w by (simp add: f1 f2)
next
  case False
  then have "merge_prev b s = Inr (b, s)" using b by (simp add: merge_prev_def hdrs_sel)
  then show thesis using that [of s] ok False by (simp add: bytes_only_def)
qed

text \<open>The run of blocks that becomes one: from \<open>c\<close>, the block or its free predecessor, to \<open>e\<close>.\<close>

definition run_start :: "hview \<Rightarrow> nat \<Rightarrow> nat" where
  "run_start v b = (if bpf v b then fst (v b) else b)"

definition run_end :: "hview \<Rightarrow> nat \<Rightarrow> nat" where
  "run_end v b = (if bfr v (nxt v b) then nxt v (nxt v b) else nxt v b)"

lemma free_run:
  assumes ok: "blocks_ok M B v" "small M" and b: "b \<in> B" "\<not> bfr v b" "bsz v b \<noteq> 0"
  defines "c \<equiv> run_start v b" and "e \<equiv> run_end v b"
  shows "nxt v b \<in> B" "c \<in> B" "e \<in> B" "c \<le> b" "nxt v b \<le> e" "c + 16 < e" "size_ok (e - c - 16)" "e - c - 16 < 1073741824"
    "\<not> bpf v c" "\<not> bfr v e" "bpf v b \<Longrightarrow> bfr v c \<and> nxt v c = b" "\<not> bpf v (nxt v b)"
    "{x \<in> B. x \<le> c \<or> e \<le> x} = B - (if bfr v (nxt v b) then {nxt v b} else {}) - (if bpf v b then {b} else {})"
    "spans M c e"
proof -
  note d = blocks_okD [OF ok(1)]
  let ?x = "nxt v b"
  show x: "?x \<in> B" using d(6) [OF b(1,3)] .
  show px: "\<not> bpf v ?x" using d(7) [OF b(1,3)] b(2) by simp
  have p: "fst (v b) \<in> B \<and> bfr v (fst (v b)) \<and> nxt v (fst (v b)) = b" if "bpf v b" using d(11) [OF b(1) that] .
  show c: "c \<in> B" using p b(1) unfolding c_def run_start_def by simp
  show cb: "bfr v c \<and> nxt v c = b" if "bpf v b" using p [OF that] that unfolding c_def run_start_def by simp
  show le: "c \<le> b"
  proof (cases "bpf v b")
    case True
    then show ?thesis using cb [OF True] by (simp add: nxt_def)
  qed (simp add: c_def run_start_def)
  show "\<not> bpf v c"
  proof
    assume "bpf v c"
    then have "\<not> bfr v c" using d(11) [OF c] d(9) [of "fst (v c)"] by metis
    moreover have "bpf v b" using \<open>bpf v c\<close> unfolding c_def run_start_def by (cases "bpf v b") auto
    ultimately show False using cb by blast
  qed
  show e: "e \<in> B" and "\<not> bfr v e" and xe: "?x \<le> e"
    using x d(5,6,9) [OF x] unfolding e_def run_end_def by (auto simp: nxt_def)
  show ce: "c + 16 < e" using le xe b(3) by (simp add: nxt_def)
  have "16 dvd e - b"
  proof -
    have "16 dvd bsz v b" "16 dvd bsz v ?x" using d(3) b(1) x by (simp_all add: size_ok_def)
    then show ?thesis by (auto simp: e_def run_end_def nxt_def)
  qed
  moreover have "16 dvd b - c"
  proof (cases "bpf v b")
    case True
    then have "b - c = 16 + bsz v c" using cb unfolding nxt_def by auto
    then show ?thesis using d(3) [OF c] by (simp add: size_ok_def)
  qed (simp add: c_def run_start_def)
  ultimately have "16 dvd (e - b) + (b - c)" by (rule dvd_add)
  moreover have "(e - b) + (b - c) = e - c" using le xe by (simp add: nxt_def)
  moreover have sp: "spans M c e"
  proof -
    have "spans M b e"
      using d(2) [OF b(1)] spans_join [OF d(2) [OF b(1)] d(2) [OF x]] unfolding e_def run_end_def by simp
    then show ?thesis
      using spans_join [of M c "nxt v c" b e] d(2) [OF c] cb unfolding c_def run_start_def by (cases "bpf v b") auto
  qed
  then have "e < c + 1073741824" by (rule spans_small [OF _ ok(2)])
  ultimately have "16 dvd e - c" and lt: "e - c - 16 < 1073741824" by auto
  from this(1) have "16 dvd e - c - 16" by (rule dvd_diff_nat) simp
  show "spans M c e" by (rule sp)
  from \<open>16 dvd e - c - 16\<close> lt show "size_ok (e - c - 16)" "e - c - 16 < 1073741824" by (simp_all add: size_ok_def)
  have in_run: "x = b \<and> bpf v b \<or> x = ?x \<and> bfr v ?x" if "x \<in> B" "c < x" "x < e" for x
  proof (cases "x \<le> b")
    case True
    then show ?thesis using that(2) cb d(10) [OF c that(1)] unfolding c_def run_start_def by (auto split: if_splits)
  next
    case False
    then have "?x \<le> x" using d(10) [OF b(1) that(1)] by simp
    then show ?thesis using that(3) d(10) [OF x that(1)] unfolding e_def run_end_def by (auto split: if_splits)
  qed
  have cb': "c < b" if "bpf v b" using cb [OF that] by (auto simp: nxt_def)
  have xe': "?x < e" if "bfr v ?x" using that unfolding e_def run_end_def by (simp add: nxt_def)
  have bx: "b < ?x" by (simp add: nxt_def)
  have "\<not> (x \<le> c \<or> e \<le> x) \<longleftrightarrow> x = b \<and> bpf v b \<or> x = ?x \<and> bfr v ?x" if "x \<in> B" for x
  proof
    assume "\<not> (x \<le> c \<or> e \<le> x)"
    then show "x = b \<and> bpf v b \<or> x = ?x \<and> bfr v ?x" using in_run [OF that] by simp
  next
    assume "x = b \<and> bpf v b \<or> x = ?x \<and> bfr v ?x"
    then show "\<not> (x \<le> c \<or> e \<le> x)" using cb' xe' bx le xe by linarith
  qed
  then have "{x \<in> B. x \<le> c \<or> e \<le> x} = {x \<in> B. \<not> (x = b \<and> bpf v b \<or> x = ?x \<and> bfr v ?x)}" by blast
  then show "{x \<in> B. x \<le> c \<or> e \<le> x} = B - (if bfr v ?x then {?x} else {}) - (if bpf v b then {b} else {})"
    by (auto split: if_splits)
qed

text \<open>
  Both merges, on a block whose size word already says it is free. The word of the block behind it
  may say anything about its predecessor, as in a new area (\<^verbatim>\<open>process_area\<close> marks the sentinel as
  following a free block before there is one).
\<close>

lemma merges_spec:
  assumes ok: "blocks_ok (owned s) B v" "small (owned s)"
    and b: "b \<in> B" "\<not> bfr v b" "bsz v b \<noteq> 0" and s: "lists_ok s" "listed s {x \<in> B. bfr v x} (bsz v)" "blks s = B"
    and v1: "hdrs s = v(b := (fst (v b), hword (bsz v b) True (bpf v b)),
      nxt v b := (fst (v (nxt v b)), hword (bsz v (nxt v b)) (bfr v (nxt v b)) q))"
  defines "c \<equiv> run_start v b" and "e \<equiv> run_end v b"
  obtains s1 s2 where "merge_next b s = Inr s1" "merge_prev b s1 = Inr (c, s2)"
    "lists_ok s2" "listed s2 ({x \<in> B. bfr v x} - {nxt v b, c}) (bsz v)"
    "blks s2 = {x \<in> B. x \<le> c \<or> e \<le> x}" "hdrs s2 c = (fst (v c), hword (e - c - 16) True (bpf v c))"
    "\<And>x. x \<noteq> b \<Longrightarrow> x \<noteq> c \<Longrightarrow> x \<noteq> nxt v b \<Longrightarrow> hdrs s2 x = v x"
    "hdrs s2 (nxt v b) = (fst (v (nxt v b)), hword (bsz v (nxt v b)) (bfr v (nxt v b)) q)"
    "hdrs s2 b = (fst (v b), hword (e - b - 16) True (bpf v b))" "size_ok (e - b - 16)"
    "owned s2 = owned s" "areas s2 = areas s" "in_pool s2 = in_pool s" "area_part s2 = area_part s"
    "bytes_only (header_bytes {b, c} \<union> link_bytes {x \<in> B. bfr v x}) s s2"
proof -
  note d = blocks_okD [OF ok(1)] note R = free_run [OF ok(1,2) b, folded c_def e_def] note ip = block_in_pool [OF ok]
  let ?x = "nxt v b" let ?g = "bfr v ?x" and ?p = "bpf v b" and ?F = "{x \<in> B. bfr v x}"
  have lt: "bsz v y < 1073741824" if "y \<in> B" for y using ip(3) [OF that] .
  have xb: "?x \<noteq> b" by (simp add: nxt_def)
  have eb: "e - b - 16 = (if ?g then bsz v b + 16 + bsz v ?x else bsz v b)" unfolding e_def run_end_def by (simp add: nxt_def)
  have wb: "snd (hdrs s b) = hword (bsz v b) True ?p" and wx: "snd (hdrs s ?x) = hword (bsz v ?x) ?g q"
    using d(4) [OF R(1)] xb by (simp_all add: v1)
  obtain s1 where s1: "merge_next b s = Inr s1" "lists_ok s1" "listed s1 (if ?g then ?F - {?x} else ?F) (bsz v)"
    "hdrs s1 = (if ?g then (hdrs s)(b := (fst (hdrs s b), hword (bsz v b + 16 + bsz v ?x) True ?p)) else hdrs s)"
    "blks s1 = (if ?g then blks s - {?x} else blks s)" "owned s1 = owned s" "areas s1 = areas s"
    "in_pool s1 = in_pool s" "bytes_only (header_bytes {b} \<union> link_bytes ?F) s s1" "area_part s1 = area_part s"
    using merge_next_spec [OF s(1,2) wb d(3) [OF b(1)] ip(1) [OF b(1)] _ wx d(3) [OF R(1)] ip(1) [OF R(1)]] R(1) lt [OF R(1)]
    by (auto simp: nxt_def)
  have L1: "listed s1 (?F - {?x}) (bsz v)" using s1(3) by (cases ?g) auto
  have h1: "hdrs s1 = v(b := (fst (v b), hword (e - b - 16) True ?p), ?x := (fst (v ?x), hword (bsz v ?x) ?g q))"
    using s1(4) v1 eb xb by auto
  have eb_ok: "size_ok (e - b - 16)"
    using d(3) [OF b(1)] d(3) [OF R(1)] lt [OF b(1)] lt [OF R(1)] unfolding eb size_ok_def by auto
  have pre: "c \<in> ?F - {?x} \<and> bsz v c < 1073741824 \<and> size_ok (bsz v c) \<and> in_pool s1 c 16 \<and>
      snd (hdrs s1 c) = hword (bsz v c) True (bpf v c)" if ?p
  proof -
    have "bfr v c" "c \<noteq> b" "c \<noteq> ?x" using R(4,11) that b(2) by (auto simp: nxt_def)
    then show ?thesis using R(2) lt [OF R(2)] d(3,4) [OF R(2)] ip(1) [OF R(2)] s1(8) h1 by simp
  qed
  have cp: "c = fst (hdrs s1 b)" if ?p using that h1 xb by (simp add: c_def run_start_def)
  have hb1: "hdrs s1 b = (fst (v b), hword (e - b - 16) True ?p)" using h1 xb by simp
  have cx: "c \<noteq> ?x" using R(4) by (auto simp: nxt_def)
  show thesis
  proof (cases ?p)
    case True
    have cb: "c < b" "e - c - 16 = bsz v c + 16 + (e - b - 16)" using R(4,5,11) True by (auto simp: nxt_def)
    obtain s2 where s2: "merge_prev b s1 = Inr (c, s2)" "lists_ok s2" "listed s2 (?F - {?x} - {c}) (bsz v)"
      "hdrs s2 = (hdrs s1)(c := (fst (hdrs s1 c), hword (bsz v c + 16 + (e - b - 16)) True (bpf v c)))"
      "blks s2 = blks s1 - {b}" "owned s2 = owned s1" "areas s2 = areas s1" "in_pool s2 = in_pool s1"
      "bytes_only (header_bytes {c} \<union> link_bytes (?F - {?x})) s1 s2" "area_part s2 = area_part s1"
      using merge_prev_spec [OF s1(2) L1, of b "e - b - 16" True ?p c True "bpf v c"] hb1 eb_ok ip(1) [OF b(1)] s1(8) cp [OF True] pre True
      by auto
    have F: "?F - {?x} - {c} = ?F - {?x, c}" by auto
    show thesis
    proof (rule that [OF s1(1) s2(1,2) s2(3) [unfolded F]])
      show "blks s2 = {x \<in> B. x \<le> c \<or> e \<le> x}" using R(13) s2(5) s1(5) s(3) True by auto
      show "hdrs s2 c = (fst (v c), hword (e - c - 16) True (bpf v c))" using s2(4) h1 cb cx by simp
      show "hdrs s2 x = v x" if "x \<noteq> b" "x \<noteq> c" "x \<noteq> ?x" for x using s2(4) h1 that by simp
      show "hdrs s2 ?x = (fst (v ?x), hword (bsz v ?x) ?g q)" using s2(4) h1 cx by simp
      show "hdrs s2 b = (fst (v b), hword (e - b - 16) True ?p)" using s2(4) hb1 cb by simp
      show "bytes_only (header_bytes {b, c} \<union> link_bytes ?F) s s2"
        using s1(9) s2(9) unfolding bytes_only_def header_bytes_def link_bytes_def by simp
    qed (use eb_ok in \<open>simp_all add: s1 s2\<close>)
  next
    case False
    then have c: "c = b" by (simp add: c_def run_start_def)
    have "merge_prev b s1 = Inr (b, s1)"
      using hb1 eb_ok ip(1) [OF b(1)] s1(8) False by (simp add: merge_prev_def hdrs_sel)
    then have m: "merge_prev b s1 = Inr (c, s1)" using c by simp
    have F: "?F - {?x} = ?F - {?x, c}" using b(2) c by auto
    show thesis
    proof (rule that [OF s1(1) m s1(2) L1 [unfolded F]])
      show "blks s1 = {x \<in> B. x \<le> c \<or> e \<le> x}" using R(13) s1(5) s(3) False by auto
      show "bytes_only (header_bytes {b, c} \<union> link_bytes ?F) s s1" using s1(9) unfolding c by simp
    qed (use xb eb_ok in \<open>simp_all add: s1(6-8,10) h1 c\<close>)
  qed
qed

lemma free_conclude:
  assumes inv: "tlsf_inv s" and b: "b \<notin> areas s" "b \<in> blks s" "\<not> bfr (hdrs s) b" "bsz (hdrs s) b \<noteq> 0"
  defines "c \<equiv> run_start (hdrs s) b" and "e \<equiv> run_end (hdrs s) b"
  assumes L: "lists_ok s'" "listed s' (insert c (free_blocks s - {nxt (hdrs s) b, c})) ((bsz (hdrs s))(c := e - c - 16))"
    and B: "blks s' = {x \<in> blks s. x \<le> c \<or> e \<le> x}" and P: "owned s' = owned s" "areas s' = areas s" "area_part s' = area_part s"
    and hc: "hdrs s' c = (fst (hdrs s c), hword (e - c - 16) True (bpf (hdrs s) c))"
    and he: "hdrs s' e = (c, hword (bsz (hdrs s) e) False True)"
    and ho: "\<And>x. x \<noteq> b \<Longrightarrow> x \<noteq> c \<Longrightarrow> x \<noteq> e \<Longrightarrow> x \<noteq> nxt (hdrs s) b \<Longrightarrow> hdrs s' x = hdrs s x"
  shows "tlsf_inv s'" "tlsf_held s' = (tlsf_held s)(b + 16 := None)"
    "c \<in> free_blocks s'" "c \<le> b" "c + bsz (hdrs s') c = e - 16"
proof -
  note I = tlsf_invD [OF inv]
  let ?v = "hdrs s" and ?v' = "hdrs s'"
  note d = blocks_okD [OF I(2)] note R = free_run [OF I(2,3) b(2-4), folded c_def e_def]
  have bB: "b = c" if "b \<in> blks s'" using that B R(4,5) by (auto simp: nxt_def)
  have xB: "x \<noteq> nxt ?v b" if "x \<in> blks s'" "x \<noteq> e" for x
    using that B R(4,5) by (auto simp: nxt_def)
  have blk: "blocks_ok (owned s) (blks s') ?v'"
  proof (rule layout_join [OF I(2) R(2,3,6,7,14), where f = True])
    show "blks s' = {x \<in> blks s. x \<le> c \<or> e \<le> x}" by (rule B)
    show "?v' x = ?v x" if "x \<in> blks s'" "x \<noteq> c" "x \<noteq> e" for x
      using ho [OF _ that(2,3) xB [OF that(1,3)]] that(1,2) bB by (cases "x = b") auto
  qed (use R(9,10) hc he in auto)
  have vc: "bsz ?v' c = e - c - 16" "bfr ?v' c" using hc R(7) by (simp_all add: bsz_def bfr_def)
  have other: "bsz ?v' x = bsz ?v x \<and> bfr ?v' x = bfr ?v x" if "x \<in> blks s'" "x \<noteq> c" for x
  proof -
    have "x \<noteq> b" using that bB by auto
    then show ?thesis using ho [of x] he that xB [OF that(1)] d(3) [OF R(3)] R(10)
      by (cases "x = e") (simp_all add: bsz_def bfr_def)
  qed
  have cB: "c \<in> blks s'" using B R(2) by simp
  have nx: "nxt ?v b \<in> blks s' \<Longrightarrow> \<not> bfr ?v (nxt ?v b)"
    using B [unfolded R(13)] by (auto split: if_splits)
  have in': "x \<in> blks s'" if "x \<in> blks s" "x \<noteq> b" "x \<noteq> nxt ?v b \<or> \<not> bfr ?v x" for x
    using that unfolding B R(13) by auto
  have F: "insert c (free_blocks s - {nxt ?v b, c}) = free_blocks s'"
  proof (intro set_eqI iffI)
    fix x assume x: "x \<in> insert c (free_blocks s - {nxt ?v b, c})"
    show "x \<in> free_blocks s'"
    proof (cases "x = c")
      case False
      then have "x \<in> blks s" "bfr ?v x" "x \<noteq> nxt ?v b" using x by (auto simp: free_blocks_def)
      then show ?thesis using in' [of x] b(3) other [OF _ False] by (auto simp: free_blocks_def)
    qed (use vc cB in \<open>simp add: free_blocks_def\<close>)
  next
    fix x assume "x \<in> free_blocks s'"
    then show "x \<in> insert c (free_blocks s - {nxt ?v b, c})"
      using other [of x] nx B by (cases "x = c") (auto simp: free_blocks_def)
  qed
  show "c \<in> free_blocks s'" "c \<le> b" "c + bsz ?v' c = e - 16"
    using vc cB R(4,6) by (simp_all add: free_blocks_def)
  have cf: "bfr ?v c" if "c \<noteq> b" using that R(11) unfolding c_def run_start_def by (auto split: if_splits)
  have kept: "others_kept b (blks s) ?v (blks s') ?v'"
    unfolding others_kept_def
  proof (intro conjI allI impI)
    fix x assume x: "x \<noteq> b"
    show "x \<in> blks s' \<and> \<not> bfr ?v' x \<longleftrightarrow> x \<in> blks s \<and> \<not> bfr ?v x"
      using other [of x] in' [of x] x vc cf B by (cases "x = c") auto
    assume "x \<in> blks s" "\<not> bfr ?v x"
    then show "bsz ?v' x = bsz ?v x" using other [of x] in' [of x] x cf by (cases "x = c") auto
  qed
  show "tlsf_inv s'"
  proof (rule tlsf_inv_step [OF inv L(1) blk P L(2) F _ b(1) _ _ kept])
    show "bsz ?v' b \<noteq> 0" if "b \<in> blks s'" using bB [OF that] vc(1) R(6) by simp
    fix x assume "x \<in> insert c (free_blocks s - {nxt ?v b, c})"
    then have "x \<in> blks s'" unfolding F by (simp add: free_blocks_def)
    then show "bsz ?v' x = ((bsz ?v)(c := e - c - 16)) x" using other vc by auto
  qed (use b(4) in simp)
  have "tlsf_held s' (b + 16) = None" using bB vc by (auto simp: tlsf_held_def)
  then show "tlsf_held s' = (tlsf_held s)(b + 16 := None)" using held_except [OF kept P(2)] by simp
qed

text \<open>The state in which the block at \<open>x\<close> does not claim that its predecessor is free.\<close>

definition calm :: "nat \<Rightarrow> tlsf \<Rightarrow> tlsf" where
  "calm x s = s\<lparr>mem := (mem s)(x := (mem s x)\<lparr>bsize := bsize (mem s x) AND NOT PREV_FREE\<rparr>)\<rparr>"

lemma hdrs_calm: "hdrs (calm x s) = (hdrs s)(x := (fst (hdrs s x), snd (hdrs s x) AND NOT PREV_FREE))"
  by (auto simp: calm_def hdrs_def)

lemma calm_frame: "hframe s (calm x s)"
proof -
  have "calm x s = s\<lparr>mem := mem (calm x s), data := data s\<rparr>" by (simp add: calm_def)
  moreover have "links (calm x s) = links s" by (simp add: calm_def links_def fun_eq_iff)
  ultimately show ?thesis unfolding hframe_def by blast
qed

lemma word_claim:
  assumes "w AND NOT PREV_FREE = hword n f False" "size_ok n"
  shows "w = hword n f (bit w 1)"
proof (rule bit_word_eqI)
  fix i assume i: "i < LENGTH(64)"
  have "bit (w AND NOT PREV_FREE) i \<longleftrightarrow> bit w i \<and> i \<noteq> 1" using i by (simp add: bit_and_iff bit_not_iff bit_flags)
  then show "bit w i \<longleftrightarrow> bit (hword n f (bit w 1)) i"
    using size_ok_bit [OF assms(2), of 1] unfolding assms(1) bit_hword [OF assms(2)] by (cases "i = 1") auto
qed

lemma free_ex_calm:
  assumes x: "x = nxt (hdrs s) b" and inv: "tlsf_inv (calm x s)" and p: "tlsf_held (calm x s) (b + 16) = Some k"
  obtains s' n where "free_ex (b + 16) s = Inr s'" "tlsf_inv s'" "tlsf_held s' = (tlsf_held (calm x s))(b + 16 := None)" "bytes_kept (b + 16) (calm x s) s'"
    "owned s' = owned s" "areas s' = areas s" "area_part s' = area_part s"
    "\<exists>c\<in>free_blocks s'. c \<le> b \<and> c + bsz (hdrs s') c = b + n" "k \<le> n" "n < 1073741824" "bsize (mem s' b) AND BLOCK_SIZE = word_of_nat n"
proof -
  let ?s = "calm x s" let ?v = "hdrs ?s" and ?B = "blks ?s"
  note I = tlsf_invD [OF inv] note f0 = hframeD [OF calm_frame [of s x]]
  have b: "b \<notin> areas ?s" "b \<in> ?B" "\<not> bfr ?v b" "bsz ?v b \<noteq> 0" and k: "bsz ?v b = k"
    using p by (auto simp: tlsf_held_Some)
  define c where "c = run_start ?v b" define e where "e = run_end ?v b"
  note d = blocks_okD [OF I(2)] note R = free_run [OF I(2,3) b(2-4), folded c_def e_def] note ip = block_in_pool [OF I(2,3)]
  have "x \<noteq> b" unfolding x by (simp add: nxt_def)
  then have xv: "x = nxt ?v b" "x \<noteq> b" unfolding x by (simp_all add: hdrs_calm nxt_def bsz_def)
  have "snd (?v x) = hword (bsz ?v x) (bfr ?v x) False" using d(4,7) R(1) b xv by metis
  then have "snd (hdrs s x) = hword (bsz ?v x) (bfr ?v x) (bit (snd (hdrs s x)) 1)"
    using word_claim d(3) R(1) xv(1) by (simp add: hdrs_calm)
  then obtain q where hs: "hdrs s = ?v(x := (fst (?v x), hword (bsz ?v x) (bfr ?v x) q))"
    unfolding hdrs_calm by (metis fun_upd_same fun_upd_upd fun_upd_triv fst_conv prod.collapse)
  have wb: "snd (hdrs s b) = hword (bsz ?v b) False (bpf ?v b)" using d(4) [OF b(2)] b(3) xv(2) by (simp add: hdrs_calm)
  have ipb: "in_pool s b 16" "in_pool s b 32" using ip(1,2) [OF b(2)] b(4) f0(6) by simp_all
  obtain s1 where s1: "upd_hdr b (\<lambda>h. h\<lparr>bsize := bsize h OR FREE_BLOCK\<rparr>) s = Inr s1" "hframe s s1"
      "hdrs s1 = (hdrs s)(b := (fst (hdrs s b), hword (bsz ?v b) False (bpf ?v b) OR FREE_BLOCK))" "bytes_only (header_bytes {b}) s s1"
    using word_spec [OF ipb(1) wb, of "\<lambda>w. w OR FREE_BLOCK"] by auto
  note f1 = hframeD [OF s1(2)] note h1 = s1(3) [unfolded hword_ops(1) [OF d(3) [OF b(2)]]]
  have L1: "lists_ok s1" "listed s1 (free_blocks ?s) (bsz ?v)" "in_pool s1 b 32" "b \<notin> free_blocks ?s"
    using f1 I(1,7) ipb(2) b(3) f0 by (simp_all add: free_blocks_def)
  obtain s2 where s2: "null_links b s1 = Inr s2" "lists_ok s2" "frame s1 s2" "listed s2 (free_blocks ?s) (bsz ?v)"
      "bytes_only (link_bytes {b}) s1 s2"
    using null_links_spec [OF L1(1,2,4,3)] by blast
  note f2 = frameD [OF s2(3)]
  have P: "owned s2 = owned ?s" "areas s2 = areas ?s" "blks s2 = ?B" "in_pool s2 = in_pool ?s" "area_part s2 = area_part ?s"
    by (simp_all add: f0 f1 f2)
  have h2: "hdrs s2 = ?v(b := (fst (?v b), hword (bsz ?v b) True (bpf ?v b)), nxt ?v b := (fst (?v (nxt ?v b)), hword (bsz ?v (nxt ?v b)) (bfr ?v (nxt ?v b)) q))"
    using h1 hs xv by (auto simp: f2(1))
  obtain s3 s4 where s4: "merge_next b s2 = Inr s3" "merge_prev b s3 = Inr (c, s4)"
    "lists_ok s4" "listed s4 (free_blocks ?s - {x, c}) (bsz ?v)"
    "blks s4 = {y \<in> ?B. y \<le> c \<or> e \<le> y}" "hdrs s4 c = (fst (?v c), hword (e - c - 16) True (bpf ?v c))"
    "\<And>y. y \<noteq> b \<Longrightarrow> y \<noteq> c \<Longrightarrow> y \<noteq> x \<Longrightarrow> hdrs s4 y = ?v y" "hdrs s4 x = (fst (?v x), hword (bsz ?v x) (bfr ?v x) q)"
    "hdrs s4 b = (fst (?v b), hword (e - b - 16) True (bpf ?v b))" "size_ok (e - b - 16)"
    "owned s4 = owned ?s" "areas s4 = areas ?s" "in_pool s4 = in_pool ?s" "area_part s4 = area_part ?s"
    "bytes_only (header_bytes {b, c} \<union> link_bytes (free_blocks ?s)) s2 s4"
    using merges_spec [where s = s2 and B = ?B and v = ?v and b = b and q = q] I(2,3) b(2-4) s2(2,4) P h2 xv(1) unfolding free_blocks_def c_def e_def by auto
  obtain fl sl where cl: "map_insert (word_of_nat (e - c - 16)) = Inr (fl, sl)" "class_of (e - c - 16) = (fl, sl)" "fl < 24" "sl < 32"
    using class_of_spec [OF R(8)] by blast
  have ce: "c + 32 \<le> e"
  proof -
    have "16 dvd e - c - 16" "e - c - 16 \<noteq> 0" using R(6,7) by (simp_all add: size_ok_def)
    then have "16 \<le> e - c - 16" by (intro dvd_imp_le) simp_all
    then show ?thesis by simp
  qed
  have ipc: "in_pool s4 c 32" "in_pool s4 c 16" "in_pool s4 e 16"
    using spans_pool [OF R(14) d(1) [OF R(2)]] ce ip(1) [OF R(3)] s4(13) by simp_all
  obtain s5 where s5: "INSERT_BLOCK c fl sl s4 = Inr s5" "lists_ok s5" "frame s4 s5"
      "listed s5 (insert c (free_blocks ?s - {x, c})) ((bsz ?v)(c := e - c - 16))"
      "bytes_only (link_bytes (insert c (free_blocks ?s - {x, c}))) s4 s5"
    using put_spec [OF s4(3,4) _ cl(2-4) ipc(1)] by blast
  note f5 = frameD [OF s5(3)]
  have eb: "e \<noteq> b" "e \<noteq> c" using R(5,6) by (auto simp: nxt_def)
  have we: "\<exists>q. snd (hdrs s5 e) = hword (bsz ?v e) False q" and ipe: "in_pool s5 e 16"
    using s4(7) [of e] s4(8) eb f5(1,5) ipc(3) d(4) [OF R(3)] R(10) by (cases "e = x"; auto)+
  let ?u = "\<lambda>t. t\<lparr>bsize := bsize t OR PREV_FREE, prev_hdr := c\<rparr>"
  obtain s6 where s6: "upd_hdr e ?u s5 = Inr s6" "hframe s5 s6"
      "hdrs s6 = (hdrs s5)(e := (prev_hdr (?u (mem s5 e)), bsize (?u (mem s5 e))))" "bytes_only (header_bytes {e}) s5 s6"
    using upd_hdr_spec [OF ipe, of ?u] by auto
  note f6 = hframeD [OF s6(2)]
  have h6: "hdrs s6 = (hdrs s4)(e := (c, hword (bsz ?v e) False True))"
    using s6(3) we hword_ops(3) [OF d(3) [OF R(3)]] f5(1) by (auto simp: hdrs_sel)
  have run: "free_ex (b + 16) s = Inr s6"
  proof -
    have u: "unat (word_of_nat (e - c - 16) :: u64) = e - c - 16" using R(8) by (intro unat_word_of_nat_u64) simp
    have "GET_NEXT_BLOCK (c + 16) (word_of_nat (e - c - 16)) = e" unfolding GET_NEXT_BLOCK_def u using R(6) by simp
    moreover have "bsize (mem s4 c) AND BLOCK_SIZE = word_of_nat (e - c - 16)" using s4(6) R(7) by (simp add: hdrs_sel)
    ultimately show ?thesis using s1(1) s2(1) s4(1,2) ipc(2) cl(1) s5(1) s6(1)
      by (simp add: free_ex_def Let_def)
  qed
  have G: "lists_ok s6" "listed s6 (insert c (free_blocks ?s - {nxt ?v b, c})) ((bsz ?v)(c := e - c - 16))"
    "blks s6 = {y \<in> ?B. y \<le> c \<or> e \<le> y}" "owned s6 = owned ?s" "areas s6 = areas ?s" "area_part s6 = area_part ?s"
    using s5(2,4) s4(5,11,12,14) xv(1) by (simp_all add: f5 f6)
  note fc = free_conclude [OF inv b, folded c_def e_def, OF G]
  have F: "tlsf_inv s6" "tlsf_held s6 = (tlsf_held ?s)(b + 16 := None)" "c \<in> free_blocks s6" "c \<le> b" "c + bsz (hdrs s6) c = e - 16"
    using fc s4(6,7) eb xv(1) by (auto simp: h6)
  have be: "b + 16 + bsz ?v b \<le> e" using R(5) by (simp add: nxt_def)
  have kept: "bytes_kept (b + 16) ?s s6"
  proof (rule bytes_kept_block [OF inv b(2)])
    have cF: "c = b \<or> c \<in> free_blocks ?s" using R(2,11) unfolding c_def run_start_def free_blocks_def by auto
    have b32: "b + 32 \<le> nxt ?v b"
      using b(4) d(3) [OF b(2)] by (auto simp: nxt_def size_ok_def dvd_imp_le)
    let ?A = "cells ?s \<union> {b..<nxt ?v b}"
    have sub: "header_bytes {b, c, e} \<subseteq> ?A" "link_bytes (insert b (insert c (free_blocks ?s))) \<subseteq> ?A"
      using b(2) R(2,3) cF b32 by (auto simp: cells_def header_bytes_def link_bytes_def)
    have "bytes_only (header_bytes {b, c, e} \<union> link_bytes (insert b (insert c (free_blocks ?s)))) s s6"
      using s1(4) s2(5) s4(15) s5(5) s6(4) unfolding bytes_only_def header_bytes_def link_bytes_def by auto
    then have "bytes_only ?A s s6" by (rule bytes_only_mono) (use sub in blast)
    then show "bytes_only ?A ?s s6" by (simp add: bytes_only_def calm_def)
  qed
  show thesis
  proof (rule that [OF run F(1,2) kept])
    show "\<exists>c\<in>free_blocks s6. c \<le> b \<and> c + bsz (hdrs s6) c = b + (e - b - 16)" using F(3-5) be by (intro bexI [of _ c]) auto
    show "k \<le> e - b - 16" "e - b - 16 < 1073741824" using be k R(4,8) by auto
    show "bsize (mem s6 b) AND BLOCK_SIZE = word_of_nat (e - b - 16)" using h6 s4(9,10) eb(1) by (simp add: hdrs_sel)
  qed (simp_all add: f5 f6 s4(11-14) f0)
qed

lemma free_ex_spec:
  assumes inv: "tlsf_inv s" and p: "tlsf_held s ptr = Some k"
  obtains s' where "free_ex ptr s = Inr s'" "tlsf_inv s'" "tlsf_held s' = (tlsf_held s)(ptr := None)" "bytes_kept ptr s s'"
    "owned s' = owned s" "areas s' = areas s" "area_part s' = area_part s"
    "\<exists>c\<in>free_blocks s'. c + 16 \<le> ptr \<and> ptr + k \<le> c + 16 + bsz (hdrs s') c"
proof -
  let ?v = "hdrs s"
  note d = blocks_okD [OF tlsf_invD(2) [OF inv]]
  obtain b where b: "ptr = b + 16" "b \<in> blks s" "\<not> bfr ?v b" "bsz ?v b \<noteq> 0"
    using p by (auto simp: tlsf_held_Some)
  let ?x = "nxt ?v b"
  have x: "?x \<in> blks s" "\<not> bpf ?v ?x" using d(6,7) b by simp_all
  have "bsize (mem s ?x) AND NOT PREV_FREE = bsize (mem s ?x)"
    using d(4) [OF x(1)] x(2) hword_ops(4) [OF d(3) [OF x(1)]] by (metis hdrs_sel(1))
  then have c: "calm ?x s = s" by (simp add: calm_def)
  obtain s' n where "free_ex (b + 16) s = Inr s'" "tlsf_inv s'" "tlsf_held s' = (tlsf_held s)(b + 16 := None)" "bytes_kept (b + 16) s s'"
      "owned s' = owned s" "areas s' = areas s" "area_part s' = area_part s"
      "\<exists>c\<in>free_blocks s'. c \<le> b \<and> c + bsz (hdrs s') c = b + n" "k \<le> n"
    using free_ex_calm [where s = s and b = b and k = k, OF refl, unfolded c] inv p b(1) by metis
  then show thesis using that [of s'] b(1) by fastforce
qed

end
