(* ===== verification/Tlsf_Init.thy ===== *)
theory Tlsf_Init
  imports Tlsf_Free
begin

text \<open>
  \<^verbatim>\<open>process_area\<close> and \<^verbatim>\<open>init_memory_pool\<close> establish the invariant: a pool starts as the block of
  the area descriptor, one free block with all the memory, and the sentinel.
\<close>

lemma unat_rounddown: "unat (ROUNDDOWN_SIZE r) = unat r div 16 * 16"
proof -
  have "unat (r AND 15) = unat r mod 16" using unat_and_mask [of "15 :: u64" 4 r] by simp
  then have "unat (ROUNDDOWN_SIZE r) = unat r - unat r mod 16"
    unfolding ROUNDDOWN_SIZE_def tlsf_constants word_and_not_eq_sub by (simp add: unat_sub_word)
  then show ?thesis by (simp add: minus_mod_eq_div_mult)
qed

lemma sizeof_tlsf [simp]: "SIZEOF_TLSF = 6264" "unat (ROUNDUP_SIZE 6264) = 6272" "ROUNDUP_SIZE 16 = 16"
  by (simp_all add: SIZEOF_TLSF_def ROUNDUP_SIZE_def)

subsection \<open>The three blocks of a new area\<close>

lemma three_blocks:
  assumes n: "size_ok n" "n \<noteq> 0" and v: "snd (v m) = hword 16 False False" "snd (v (m + 32)) = hword n False False"
    "snd (v (m + 48 + n)) = hword 0 False False" and M: "0 < m" "spans M m (m + 64 + n)"
  shows "blocks_ok M {m, m + 32, m + 48 + n} v"
proof -
  have ok: "size_ok 16" "size_ok 0" by (simp_all add: size_ok_def)
  have f: "bsz v m = 16" "bsz v (m + 32) = n" "bsz v (m + 48 + n) = 0" "\<not> bfr v m" "\<not> bfr v (m + 32)" "\<not> bfr v (m + 48 + n)"
    "\<not> bpf v m" "\<not> bpf v (m + 32)" "\<not> bpf v (m + 48 + n)"
    using v n(1) ok by (simp_all add: bsz_def bfr_def bpf_def)
  then have x: "nxt v m = m + 32" "nxt v (m + 32) = m + 48 + n" "nxt v (m + 48 + n) = m + 64 + n" by (simp_all add: nxt_def)
  have s: "spans M m (m + 32)" "spans M (m + 32) (m + 48 + n)" "spans M (m + 48 + n) (m + 64 + n)"
    by (rule spans_sub [OF M(2)], simp, simp)+
  show ?thesis by (rule blocks_okI) (use f x v n ok M(1) s in auto)
qed

text \<open>Layouts in different memory join.\<close>

lemma layout_union:
  assumes B: "blocks_ok M B v" and C: "blocks_ok M C v" and apart: "\<And>b c. b \<in> B \<Longrightarrow> c \<in> C \<Longrightarrow> nxt v b \<le> c \<or> nxt v c \<le> b"
  shows "blocks_ok M (C \<union> B) v"
proof -
  note b = blocks_okD [OF B] note c = blocks_okD [OF C]
  have lt: "x < nxt v x" for x by (simp add: nxt_def)
  show ?thesis
  proof (rule blocks_okI)
    fix x y assume xy: "x \<in> C \<union> B" "y \<in> C \<union> B" "x < y"
    then consider "x \<in> B" "y \<in> B" | "x \<in> C" "y \<in> C" | "x \<in> B" "y \<in> C" | "x \<in> C" "y \<in> B" by blast
    then show "nxt v x \<le> y"
      using b(10) c(10) xy(3) apart [of x y] apart [of y x] lt [of x] lt [of y] by cases auto
  next
    fix x assume x: "x \<in> C \<union> B"
    show "0 < x \<and> spans M x (nxt v x) \<and> size_ok (bsz v x) \<and> snd (v x) = hword (bsz v x) (bfr v x) (bpf v x)"
      using x b(1-4) [of x] c(1-4) [of x] by blast
    show "\<not> bfr v x" if "bsz v x = 0" using x that b(5) [of x] c(5) [of x] by blast
    show "nxt v x \<in> C \<union> B \<and> bpf v (nxt v x) = bfr v x \<and> (bfr v x \<longrightarrow> fst (v (nxt v x)) = x \<and> \<not> bfr v (nxt v x))"
      if "bsz v x \<noteq> 0" using x that b(6-9) [of x] c(6-9) [of x] by blast
    show "\<exists>y\<in>C \<union> B. bfr v y \<and> nxt v y = x" if "bpf v x" using x that b(11) [of x] c(11) [of x] by blast
  qed
qed

lemma layout_more: "blocks_ok M B v \<Longrightarrow> (\<And>x. M x \<Longrightarrow> M' x) \<Longrightarrow> blocks_ok M' B v"
  unfolding blocks_ok_def using spans_mono [of M _ _ M'] by blast

lemma empty_lists_ok:
  assumes "sl_bitmap s = replicate 24 0" "matrix s = replicate 24 (replicate 32 0)" "fl_bitmap s = 0" "lists s = (\<lambda>_ _. [])"
  shows "lists_ok s"
  using assms by (simp add: lists_ok_def class_ok_def matrix_head_def)

text \<open>The size of the block that takes up an area of \<open>k\<close> bytes.\<close>

definition area_room :: "nat \<Rightarrow> nat" where
  "area_room k = (k - 64) div 16 * 16"

lemma area_room_spec:
  assumes "80 \<le> k" "k < 4294967296"
  shows "size_ok (area_room k)" "16 \<le> area_room k" "area_room k + 64 \<le> k" "k < area_room k + 80"
proof -
  have "(k - 64) div 16 * 16 + (k - 64) mod 16 = k - 64" "(k - 64) mod 16 < 16" by simp_all
  then have "area_room k + 64 \<le> k" "k < area_room k + 80" using assms unfolding area_room_def by linarith+
  moreover have "16 dvd area_room k" by (simp add: area_room_def)
  moreover have "1 * 16 \<le> area_room k" unfolding area_room_def using assms(1) by (intro mult_le_mono1) simp
  ultimately show "size_ok (area_room k)" "16 \<le> area_room k" "area_room k + 64 \<le> k" "k < area_room k + 80"
    using assms(2) by (simp_all add: size_ok_def)
qed

lemma process_area_spec:
  assumes L: "lists_ok s" "listed s F n0" "ar + 32 \<notin> F" and S: "80 \<le> unat sz" "unat sz < 4294967296"
    and M: "0 < ar" "spans (owned s) ar (ar + unat sz)"
  defines "n \<equiv> area_room (unat sz)"
  obtains s' where "process_area ar sz s = Inr (ar, s')" "lists_ok s'" "listed s' F n0" "blks s' = {ar, ar + 32, ar + 48 + n} \<union> blks s"
    "areas s' = insert ar (areas s)" "owned s' = owned s"
    "snd (hdrs s' ar) = hword 16 False False" "snd (hdrs s' (ar + 32)) = hword n False False"
    "hdrs s' (ar + 48 + n) = (ar + 32, hword 0 False True)" "\<And>x. x \<notin> {ar, ar + 32, ar + 48 + n} \<Longrightarrow> hdrs s' x = hdrs s x"
    "area_part s' = ((area s)(ar + 16 := \<lparr>ai_end = ar + 48 + n, ai_next = 0\<rparr>), area_head s)"
    "bytes_only {ar..<ar + 64 + n} s s'"
proof -
  note n = area_room_spec [OF S, folded n_def]
  have i: "(16 :: u64) = hword 16 False False" by (simp add: hword_def)
  have i16: "(16 :: u64) AND BLOCK_SIZE = 16" by (simp add: BLOCK_SIZE_def PTR_MASK_def)
  have bs: "ROUNDDOWN_SIZE (sz - 64) = hword n False False"
  proof -
    have "unat (sz - 64) = unat sz - 64" using S(1) by (simp add: unat_sub_word)
    then have "unat (ROUNDDOWN_SIZE (sz - 64)) = n" by (simp add: unat_rounddown n_def area_room_def)
    moreover have "unat (word_of_nat n :: u64) = n" using n(1) by (simp add: size_ok_def unat_of_nat)
    ultimately show ?thesis unfolding hword_word [symmetric] word_unat_eq_iff by simp
  qed
  have ip: "in_pool s ar 16" "in_pool s (ar + 32) 32" "in_pool s (ar + 32) 16" "in_pool s (ar + 48 + n) 16" "in_pool s (ar + 16) 16"
  proof -
    have "in_pool s b k" if "ar \<le> b" "b + k \<le> ar + unat sz" for b k
      using spans_pool [OF spans_sub [OF M(2) that(1) order_refl]] that M(1) by simp
    then show "in_pool s ar 16" "in_pool s (ar + 32) 32" "in_pool s (ar + 32) 16" "in_pool s (ar + 48 + n) 16" "in_pool s (ar + 16) 16"
      using n(2,3) by simp_all
  qed
  obtain s1 where s1: "upd_hdr ar (\<lambda>h. h\<lparr>bsize := 16\<rparr>) s = Inr s1" "hframe s s1" "hdrs s1 = (hdrs s)(ar := (fst (hdrs s ar), 16))"
      "bytes_only (header_bytes {ar}) s s1"
    using word_spec [OF ip(1) refl, of "\<lambda>_. 16"] by auto
  note f1 = hframeD [OF s1(2)]
  obtain s2 where s2: "upd_hdr (ar + 32) (\<lambda>h. h\<lparr>bsize := hword n False False\<rparr>) s1 = Inr s2" "hframe s1 s2"
      "hdrs s2 = (hdrs s1)(ar + 32 := (fst (hdrs s1 (ar + 32)), hword n False False))" "bytes_only (header_bytes {ar + 32}) s1 s2"
    using word_spec [of s1 "ar + 32" _ "\<lambda>_. hword n False False"] ip(3) f1(6) by auto
  note f2 = hframeD [OF s2(2)]
  obtain s3 where s3: "null_links (ar + 32) s2 = Inr s3" "lists_ok s3" "frame s2 s3" "listed s3 F n0"
      "bytes_only (link_bytes {ar + 32}) s2 s3"
    using null_links_spec [of s2 F n0 "ar + 32"] L ip(2) f1 f2 by auto
  note f3 = frameD [OF s3(3)]
  let ?u = "\<lambda>h. h\<lparr>prev_hdr := ar + 32, bsize := 0 OR USED_BLOCK OR PREV_FREE\<rparr>"
  obtain s4 where s4: "upd_hdr (ar + 48 + n) ?u s3 = Inr s4" "hframe s3 s4"
      "hdrs s4 = (hdrs s3)(ar + 48 + n := (ar + 32, hword 0 False True))" "bytes_only (header_bytes {ar + 48 + n}) s3 s4"
    using upd_hdr_spec [of s3 "ar + 48 + n" ?u] ip(4) f1(6) f2(6) f3(5) by (auto simp: hword_def USED_BLOCK_def PREV_FREE_def)
  note f4 = hframeD [OF s4(2)]
  have A: "area s4 = area s" "area_head s4 = area_head s"
    using f1(8) f2(8) f3(6) f4(8) by (simp_all add: area_part_def)
  let ?a = "set_area (ar + 16) \<lparr>ai_end = ar + 48 + n, ai_next = 0\<rparr> s4"
  let ?s = "?a\<lparr>blks := {ar, ar + 32, ar + 48 + n} \<union> blks s4, areas := insert ar (areas s4)\<rparr>"
  have "process_area ar sz s = Inr (ar, ?s)"
  proof -
    have "GET_NEXT_BLOCK (ar + 16) 16 = ar + 32" "GET_NEXT_BLOCK (48 + ar) (word_of_nat n) = ar + 48 + n"
      using n(1) by (simp_all add: GET_NEXT_BLOCK_def size_ok_def unat_of_nat)
    moreover have "(word_of_nat n :: u64) AND BLOCK_SIZE = word_of_nat n"
      using hword_parts(1) [OF n(1), of False False] by (simp only: hword_word [symmetric])
    moreover have "in_pool s4 (ar + 16) 16" using ip(5) f1(6) f2(6) f3(5) f4(6) by simp
    ultimately show ?thesis using s1(1) s2(1) s3(1) s4(1) bs i16
      by (simp add: process_area_def upd_area_def Let_def USED_BLOCK_def PREV_USED_def hword_word [symmetric])
  qed
  then show thesis
  proof (rule that)
    show "lists_ok ?s" "listed ?s F n0" using s3(2,4) f4(1,7) by simp_all
    have "bytes_only {ar + 16..<ar + 16 + 16} s4 ?a" by (rule set_bytes_only)
    then have "bytes_only {ar..<ar + 64 + n} s4 ?a" by (rule bytes_only_mono) auto
    moreover have "bytes_only {ar..<ar + 64 + n} s s1" by (rule bytes_only_mono [OF s1(4)]) (auto simp: header_bytes_def)
    moreover have "bytes_only {ar..<ar + 64 + n} s1 s2" by (rule bytes_only_mono [OF s2(4)]) (auto simp: header_bytes_def)
    moreover have "bytes_only {ar..<ar + 64 + n} s2 s3" by (rule bytes_only_mono [OF s3(5)]) (auto simp: link_bytes_def)
    moreover have "bytes_only {ar..<ar + 64 + n} s3 s4" by (rule bytes_only_mono [OF s4(4)]) (auto simp: header_bytes_def)
    ultimately have "bytes_only {ar..<ar + 64 + n} s ?a" by (simp add: bytes_only_def)
    then show "bytes_only {ar..<ar + 64 + n} s ?s" by (simp add: bytes_only_def)
  qed (use s4(3) f3(1) s2(3) s1(3) i n(1,2) in \<open>simp_all add: f1 f2 f3 f4 A area_part_def\<close>)
qed

text \<open>
  The pool with a new area. \<^verbatim>\<open>process_area\<close> marks the sentinel as following a free block while the
  block before it is still used; the call of \<^verbatim>\<open>free_ex\<close> that follows makes the mark true. But for
  this mark the invariant holds, and the client of the new block is \<^verbatim>\<open>process_area\<close>'s caller.
\<close>

lemma new_area_inv:
  assumes inv: "tlsf_inv s" and S: "80 \<le> unat sz" "unat sz < 4294967296"
    and M: "0 < ar" "spans (owned s) ar (ar + unat sz)"
    and new: "\<And>b. b \<in> blks s \<Longrightarrow> nxt (hdrs s) b \<le> ar \<or> ar + unat sz \<le> b"
  defines "n \<equiv> area_room (unat sz)"
  obtains s' where "process_area ar sz s = Inr (ar, s')" "tlsf_inv (calm (ar + 48 + n) s')"
    "tlsf_held (calm (ar + 48 + n) s') = (tlsf_held s)(ar + 48 \<mapsto> n)" "tlsf_held s (ar + 48) = None"
    "areas s' = insert ar (areas s)" "ar \<notin> areas s" "owned s' = owned s"
    "hdrs (calm (ar + 48 + n) s') ar = (fst (hdrs s' ar), hword 16 False False)"
    "hdrs (calm (ar + 48 + n) s') (ar + 32) = (fst (hdrs s' (ar + 32)), hword n False False)"
    "hdrs (calm (ar + 48 + n) s') (ar + 48 + n) = (ar + 32, hword 0 False False)"
    "\<And>x. x \<in> blks s \<Longrightarrow> hdrs (calm (ar + 48 + n) s') x = hdrs s x"
    "area_part s' = ((area s)(ar + 16 := \<lparr>ai_end = ar + 48 + n, ai_next = 0\<rparr>), area_head s)"
    "bytes_only {ar..<ar + 64 + n} s s'" "blks s' = {ar, ar + 32, ar + 48 + n} \<union> blks s"
proof -
  note I = tlsf_invD [OF inv] note n = area_room_spec [OF S, folded n_def]
  have far: "b < ar \<or> ar + unat sz \<le> b" if "b \<in> blks s" for b using new [OF that] by (auto simp: nxt_def)
  have nF: "ar + 32 \<notin> free_blocks s" using far [of "ar + 32"] S(1) by (auto simp: free_blocks_def)
  obtain s' where s':
    "process_area ar sz s = Inr (ar, s')" "lists_ok s'" "listed s' (free_blocks s) (bsz (hdrs s))"
    "blks s' = {ar, ar + 32, ar + 48 + n} \<union> blks s" "areas s' = insert ar (areas s)" "owned s' = owned s"
    "snd (hdrs s' ar) = hword 16 False False" "snd (hdrs s' (ar + 32)) = hword n False False"
    "hdrs s' (ar + 48 + n) = (ar + 32, hword 0 False True)" "\<And>x. x \<notin> {ar, ar + 32, ar + 48 + n} \<Longrightarrow> hdrs s' x = hdrs s x"
    "area_part s' = ((area s)(ar + 16 := \<lparr>ai_end = ar + 48 + n, ai_next = 0\<rparr>), area_head s)"
    "bytes_only {ar..<ar + 64 + n} s s'"
    by (rule process_area_spec [OF I(1,7) nF S M, folded n_def]) (rule that)
  let ?t = "calm (ar + 48 + n) s'" let ?v = "hdrs ?t" and ?N = "{ar, ar + 32, ar + 48 + n}"
  note f = hframeD [OF calm_frame [of s' "ar + 48 + n"]]
  have ok: "size_ok 16" "size_ok 0" by (simp_all add: size_ok_def)
  have h: "?v ar = (fst (hdrs s' ar), hword 16 False False)" "?v (ar + 32) = (fst (hdrs s' (ar + 32)), hword n False False)"
      "?v (ar + 48 + n) = (ar + 32, hword 0 False False)"
    using s'(7-9) hword_ops(4) [OF ok(2), of False True] n(2) by (auto simp: hdrs_calm prod_eq_iff)
  have old: "?v x = hdrs s x" "x \<notin> ?N" if "x \<in> blks s" for x
    using far [OF that] n(2,3) s'(10) [of x] by (auto simp: hdrs_calm)
  have same: "bsz ?v x = bsz (hdrs s) x" "bfr ?v x = bfr (hdrs s) x" "nxt ?v x = nxt (hdrs s) x" if "x \<in> blks s" for x
    using old(1) [OF that] by (simp_all add: bsz_def bfr_def nxt_def)
  have z: "bsz ?v ar = 16" "bsz ?v (ar + 32) = n" "bsz ?v (ar + 48 + n) = 0" "\<not> bfr ?v ar" "\<not> bfr ?v (ar + 32)" "\<not> bfr ?v (ar + 48 + n)"
      "nxt ?v ar = ar + 32" "nxt ?v (ar + 32) = ar + 48 + n" "nxt ?v (ar + 48 + n) = ar + 64 + n"
    using h n(1) ok by (simp_all add: bsz_def bfr_def nxt_def)
  have sp: "spans (owned s) ar (ar + 64 + n)" by (rule spans_sub [OF M(2)]) (use n(3) in simp_all)
  have "blocks_ok (owned s) (?N \<union> blks s) ?v"
  proof (rule layout_union)
    show "blocks_ok (owned s) (blks s) ?v" by (rule layout_cong [OF I(2) old(1)])
    show "blocks_ok (owned s) ?N ?v" by (rule three_blocks [OF n(1) _ _ _ _ M(1) sp]) (use h n(2) in auto)
    show "nxt ?v b \<le> c \<or> nxt ?v c \<le> b" if "b \<in> blks s" "c \<in> ?N" for b c
      using new [OF that(1)] same(3) [OF that(1)] that(2) z(7-9) n(3) by auto
  qed
  moreover have F: "free_blocks ?t = free_blocks s"
    using z(4-6) same(2) unfolding free_blocks_def f(3) s'(4) by auto
  moreover have nA: "ar \<notin> areas s" using I(5) old(2) by blast
  moreover have "ends_ok ?t"
  proof -
    have e: "area_end ?t a = (if a = ar then ar + 48 + n else area_end s a)" for a
      using s'(11) f(8) by (simp add: area_end_def area_part_def)
    have "{x \<in> blks ?t. bsz ?v x = 0} = insert (ar + 48 + n) {x \<in> blks s. bsz (hdrs s) x = 0}"
      using z(1-3) n(2) same(1) unfolding f(3) s'(4) by auto
    moreover have "bij_betw (area_end ?t) (insert ar (areas s)) (insert (ar + 48 + n) {x \<in> blks s. bsz (hdrs s) x = 0})"
    proof -
      have "bij_betw (area_end s) (areas s) {x \<in> blks s. bsz (hdrs s) x = 0}" using I(4) by (simp add: ends_ok_def)
      moreover have "bij_betw (area_end ?t) (areas s) S = bij_betw (area_end s) (areas s) S" for S
        using nA by (intro bij_betw_cong) (auto simp: e)
      moreover have "ar + 48 + n \<notin> blks s" using old(2) by blast
      ultimately have "bij_betw (area_end ?t) (areas s \<union> {ar}) ({x \<in> blks s. bsz (hdrs s) x = 0} \<union> {area_end ?t ar})"
        using nA by (intro notIn_Un_bij_betw) (auto simp: e)
      then show ?thesis by (simp add: e)
    qed
    moreover have "a \<in> blks ?t \<and> \<not> bfr ?v a \<and> bsz ?v a = 16" if "a \<in> insert ar (areas s)" for a
      using that z(1,4) I(5,6,8) [of a] same [of a] unfolding f(3) s'(4) by auto
    ultimately show ?thesis unfolding ends_ok_def using s'(5) by (simp add: calm_def)
  qed
  moreover have "listed ?t (free_blocks s) (bsz ?v)"
    using listed_cong [OF s'(3), of "bsz ?v"] same(1) f(7) by (simp add: free_blocks_def)
  ultimately have inv': "tlsf_inv ?t"
    using s'(2,4,6) I(3) unfolding tlsf_inv_def f(1,3,4) F by simp
  have held: "tlsf_held s (ar + 48) = None" "tlsf_held ?t = (tlsf_held s)(ar + 48 \<mapsto> n)"
  proof -
    have n32: "ar + 32 \<notin> blks s" using old(2) by blast
    then show "tlsf_held s (ar + 48) = None" by (simp add: tlsf_held_def add.commute)
    have A: "areas ?t = insert ar (areas s)" using s'(5) by (simp add: calm_def)
    show "tlsf_held ?t = (tlsf_held s)(ar + 48 \<mapsto> n)"
    proof
      fix p
      consider "p = ar + 48" | "p - 16 \<in> {ar, ar + 48 + n}" "p \<noteq> ar + 48" | "p - 16 \<notin> ?N" | "p < 16" by (auto, linarith)
      then show "tlsf_held ?t p = ((tlsf_held s)(ar + 48 \<mapsto> n)) p"
      proof cases
        case 1
        have b: "p - 16 = ar + 32" "16 \<le> p" using 1 by simp_all
        have "ar + 32 \<notin> areas s" using n32 I(5) by blast
        then show ?thesis using 1 z(2,5) n(2) unfolding tlsf_held_def b(1) A f(3) s'(4) by simp
      next
        case 2
        then show ?thesis using z(3) old(2) [of "p - 16"] unfolding tlsf_held_def A f(3) s'(4) by auto
      next
        case 3
        then have q: "p \<noteq> ar + 48" "p - 16 \<in> areas ?t \<longleftrightarrow> p - 16 \<in> areas s" "p - 16 \<in> blks ?t \<longleftrightarrow> p - 16 \<in> blks s"
          unfolding A f(3) s'(4) by auto
        show ?thesis using same(1,2) [of "p - 16"] q(1) unfolding tlsf_held_def q(2,3) by auto
      qed (simp add: tlsf_held_def)
    qed
  qed
  show thesis
    by (rule that [OF s'(1) inv' held(2,1) s'(5) nA s'(6) h old(1) s'(11,12,4)])
qed

text \<open>A pool with one area and without clients is one free block.\<close>

lemma nothing_held:
  assumes inv: "tlsf_inv s" and none: "tlsf_held s = Map.empty" and A: "areas s = {m}" "\<And>x. owned s x \<Longrightarrow> m \<le> x"
    and z: "area_end s m = m + 48 + n"
  shows "free_blocks s = {m + 32}" "bsz (hdrs s) (m + 32) = n"
proof -
  note I = tlsf_invD [OF inv] note d = blocks_okD [OF I(2)]
  let ?v = "hdrs s" and ?b = "m + 32" and ?z = "m + 48 + n"
  have le: "m \<le> x" if "x \<in> blks s" for x using A(2) [of x] d(2) [OF that] by (simp add: spans_def nxt_def)
  have used: "x = ?z" if "x \<in> blks s" "x \<noteq> m" "\<not> bfr ?v x" for x
  proof (rule ccontr)
    assume "x \<noteq> ?z"
    then have "tlsf_held s (x + 16) = Some (bsz ?v x)" using I(9) [of x] z that A(1) by (auto simp: tlsf_held_def)
    then show False using none by simp
  qed
  have m: "m \<in> blks s" "\<not> bfr ?v m" "bsz ?v m = 16" using I(5,6,8) A(1) by simp_all
  have nb: "nxt ?v m = ?b" using m(3) by (simp add: nxt_def)
  have lo: "bsz ?v m \<noteq> 0" using m(3) by simp
  have bB: "?b \<in> blks s" using d(6) [OF m(1) lo] nb by simp
  have bf: "bfr ?v ?b" using used [OF bB] by auto
  have nz: "nxt ?v x = ?z" if "x \<in> blks s" "bfr ?v x" for x
  proof -
    have "nxt ?v x \<in> blks s" using d(5,6) [OF that(1)] that(2) by blast
    moreover have "nxt ?v x \<noteq> m" using le [OF that(1)] by (simp add: nxt_def)
    ultimately show ?thesis using used d(9) [OF that] by blast
  qed
  show "bsz ?v ?b = n" using nz [OF bB bf] by (simp add: nxt_def)
  have "x = ?b" if x: "x \<in> blks s" "bfr ?v x" for x
  proof (rule ccontr)
    assume "x \<noteq> ?b"
    moreover have "m < x" using le [OF x(1)] x(2) m(2) by (cases "x = m") auto
    then have "?b \<le> x" using d(10) [OF m(1) x(1)] nb by simp
    ultimately have "nxt ?v ?b \<le> x" using d(10) [OF bB x(1)] by simp
    then show False using nz [OF bB bf] nz [OF x] by (simp add: nxt_def)
  qed
  then have "x \<in> free_blocks s \<longleftrightarrow> x = ?b" for x unfolding free_blocks_def using bB bf by blast
  then show "free_blocks s = {?b}" by blast
qed

subsection \<open>A new pool\<close>

lemma clear_tlsf_ok: "lists_ok (clear_tlsf p sz s)" "listed (clear_tlsf p sz s) {} n0"
  by (rule empty_lists_ok) (simp_all add: clear_tlsf_def listed_def)

lemma round_area:
  fixes n :: nat
  assumes "6392 \<le> n" "n mod 16 < 8"
  shows "(n - 6264) div 16 * 16 = n div 16 * 16 - 6272" "6400 \<le> n div 16 * 16" "n div 16 * 16 \<le> n"
proof -
  define k where "k = n div 16" define r where "r = n mod 16"
  have n: "n = 16 * k + r" "r < 8" using assms(2) by (simp_all add: k_def r_def)
  then have k: "400 \<le> k" using assms(1) by linarith
  have "n - 6264 = (8 + r) + 16 * (k - 392)" using n k by simp
  then have "(n - 6264) div 16 = k - 392" using n(2) by simp
  then show "(n - 6264) div 16 * 16 = n div 16 * 16 - 6272" unfolding k_def [symmetric] using k by simp
  show "6400 \<le> n div 16 * 16" unfolding k_def [symmetric] using k by simp
  show "n div 16 * 16 \<le> n" by simp
qed

lemma clear_tlsf_inv:
  assumes "unat sz < 1073748096"
  shows "tlsf_inv (clear_tlsf p sz s)" "tlsf_held (clear_tlsf p sz s) = Map.empty"
proof -
  let ?s = "clear_tlsf p sz s"
  have "Collect (owned ?s) = {p + 6272..<p + unat sz}" by (auto simp: clear_tlsf_def GET_NEXT_BLOCK_def)
  then have "small (owned ?s)" using assms by (simp add: small_def)
  moreover have "blks ?s = {}" "areas ?s = {}" by (simp_all add: clear_tlsf_def)
  ultimately show "tlsf_inv ?s" "tlsf_held ?s = Map.empty"
    using clear_tlsf_ok [of p sz s]
    by (simp_all add: tlsf_inv_def blocks_ok_def ends_ok_def free_blocks_def tlsf_held_def fun_eq_iff bij_betw_def)
qed

lemma setup_pool_spec:
  assumes sz: "6392 \<le> unat sz" "unat sz < 1073748096" "unat sz mod 16 < 8" and p: "p \<noteq> 0"
  obtains s' where "setup_pool sz p s = Inr (word_of_nat (unat sz div 16 * 16 - 6336), s')" "tlsf_inv s'" "tlsf_held s' = Map.empty"
    "free_blocks s' = {p + 6304}" "bsz (hdrs s') (p + 6304) = unat sz div 16 * 16 - 6336"
    "areas s' = {p + 6272}" "owned s' = (\<lambda>x. p + 6272 \<le> x \<and> x < p + unat sz)"
    "area_head s' = p + 6288" "area s' (p + 6288) = \<lparr>ai_end = p + unat sz div 16 * 16 - 16, ai_next = 0\<rparr>"
proof -
  let ?s = "clear_tlsf p sz s" and ?A = "ROUNDDOWN_SIZE (sz - 6264)" and ?n = "unat sz div 16 * 16 - 6336"
  have lo: "GET_NEXT_BLOCK p (ROUNDUP_SIZE SIZEOF_TLSF) = p + 6272" by (simp add: GET_NEXT_BLOCK_def)
  have A: "unat ?A = unat sz div 16 * 16 - 6272"
  proof -
    have "unat (sz - 6264) = unat sz - 6264" using sz(1) by (simp add: unat_sub_word)
    then have "unat ?A = (unat sz - 6264) div 16 * 16" by (simp add: unat_rounddown)
    also have "\<dots> = unat sz div 16 * 16 - 6272" by (rule round_area [OF sz(1,3)])
    finally show ?thesis .
  qed
  have le: "6400 \<le> unat sz div 16 * 16" "unat sz div 16 * 16 \<le> unat sz" using round_area [OF sz(1,3)] by simp_all
  have n: "area_room (unat ?A) = ?n"
  proof -
    have "16 dvd unat sz div 16 * 16 - 6336" by (intro dvd_diff_nat) simp_all
    then show ?thesis unfolding area_room_def A by (simp add: diff_diff_left)
  qed
  have pl: "owned ?s = (\<lambda>x. p + 6272 \<le> x \<and> x < p + unat sz)" "blks ?s = {}" "areas ?s = {}" "area_head ?s = 0"
    using lo by (simp_all add: clear_tlsf_def)
  have M: "80 \<le> unat ?A" "unat ?A < 4294967296" "0 < p + 6272" "spans (owned ?s) (p + 6272) (p + 6272 + unat ?A)"
    using A le sz(2) by (auto simp: pl(1) spans_def)
  note c = clear_tlsf_inv [OF sz(2), of p s]
  obtain s1 where s1: "process_area (p + 6272) ?A ?s = Inr (p + 6272, s1)" "tlsf_inv (calm (p + 6272 + 48 + ?n) s1)"
      "tlsf_held (calm (p + 6272 + 48 + ?n) s1) = (tlsf_held ?s)(p + 6272 + 48 \<mapsto> ?n)"
      "areas s1 = insert (p + 6272) (areas ?s)" "owned s1 = owned ?s"
      "hdrs (calm (p + 6272 + 48 + ?n) s1) (p + 6272) = (fst (hdrs s1 (p + 6272)), hword 16 False False)"
      "hdrs (calm (p + 6272 + 48 + ?n) s1) (p + 6272 + 32) = (fst (hdrs s1 (p + 6272 + 32)), hword ?n False False)"
      "area_part s1 = ((area ?s)(p + 6272 + 16 := \<lparr>ai_end = p + 6272 + 48 + ?n, ai_next = 0\<rparr>), area_head ?s)"
  proof -
    have new: "nxt (hdrs ?s) b \<le> p + 6272 \<or> p + 6272 + unat ?A \<le> b" if "b \<in> blks ?s" for b using that pl(2) by simp
    show thesis by (rule new_area_inv [OF c(1) M new, unfolded n]) (assumption, rule that)
  qed
  let ?b = "p + 6304" and ?e = "p + 6320 + ?n"
  have e: "p + 6272 + 32 = ?b" "p + 6272 + 48 = p + 6320" "p + 6272 + 16 = p + 6288" "p + 6304 + 16 = p + 6320" by simp_all
  note s1 = s1 [unfolded e]
  have ok: "size_ok ?n" "size_ok 16" using area_room_spec(1) [OF M(1,2)] unfolding n by (simp_all add: size_ok_def)
  have w: "snd (hdrs s1 (p + 6272)) = hword 16 False False" "snd (hdrs s1 ?b) = hword ?n False False"
    using s1(6,7) by (simp_all add: hdrs_calm prod_eq_iff split: if_splits)
  have x: "?e = nxt (hdrs s1) ?b" using w(2) ok by (simp add: nxt_def bsz_def)
  obtain s2 n' where s2: "free_ex (?b + 16) s1 = Inr s2" "tlsf_inv s2" "tlsf_held s2 = (tlsf_held (calm ?e s1))(?b + 16 := None)"
      "owned s2 = owned s1" "areas s2 = areas s1" "area_part s2 = area_part s1"
    using free_ex_calm [OF x s1(2), of ?n] s1(3) by auto
  have h2: "tlsf_held s2 = Map.empty" using s2(3) s1(3) c(2) by auto
  have a2: "areas s2 = {p + 6272}" "\<And>y. owned s2 y \<Longrightarrow> p + 6272 \<le> y" "area_end s2 (p + 6272) = p + 6272 + 48 + ?n"
    using s2(4-6) s1(4,5,8) pl by (simp_all add: area_end_def area_part_def)
  note f = nothing_held [OF s2(2) h2 a2, unfolded e]
  have get: "get_hdr (p + 6272) s1 = Inr (mem s1 (p + 6272))" "get_hdr ?b s2 = Inr (mem s2 ?b)"
    using s2(4) s1(5) pl(1) sz(1) by (auto simp: get_hdr_def in_pool_def)
  have w2: "bsize (mem s2 ?b) AND BLOCK_SIZE = word_of_nat ?n"
  proof -
    have "?b \<in> blks s2" using f(1) by (auto simp: free_blocks_def)
    then show ?thesis using blocks_okD(3,4) [OF tlsf_invD(2) [OF s2(2)]] f(2) by (metis hdrs_sel(1) hword_parts(1))
  qed
  have "setup_pool sz p s = Inr (word_of_nat ?n, s2\<lparr>area_head := p + 6288\<rparr>)"
  proof -
    have "bsize (mem s1 (p + 6272)) AND BLOCK_SIZE = 16" using w(1) ok by (simp add: hdrs_sel)
    moreover have "GET_NEXT_BLOCK (p + 6288) 16 = ?b" by (simp add: GET_NEXT_BLOCK_def)
    ultimately show ?thesis using s1(1) s2(1) get lo w2
      by (simp add: setup_pool_def Let_def add.commute [of 6288 p] add.commute [of 6320 p])
  qed
  then show thesis
  proof (rule that)
    have e: "?e = p + unat sz div 16 * 16 - 16" using le by simp
    show "area (s2\<lparr>area_head := p + 6288\<rparr>) (p + 6288) = \<lparr>ai_end = p + unat sz div 16 * 16 - 16, ai_next = 0\<rparr>"
      using s2(6) s1(8) unfolding e by (simp add: area_part_def)
  qed (use s2 h2 f a2(1) s1(5) pl(1) in \<open>simp_all add: free_blocks_def\<close>)
qed

end
