(* ===== verification/Tlsf_Area.thy ===== *)
theory Tlsf_Area
  imports Tlsf_Init
begin

text \<open>
  \<^verbatim>\<open>add_new_area\<close>: the pool grows by memory that may lie anywhere. The loop walks through the list
  of areas and joins the new one with the area behind it and the area before it, where they
  touch; the sentinel and the descriptor in between become part of the new block. The invariant
  of the loop, \<open>walk_ok\<close>, is the invariant of the pool for a view of its headers in which the new
  block is a client's, and an account of which areas have been passed.
\<close>

subsection \<open>The list of areas\<close>

fun start :: "nat list \<Rightarrow> nat \<Rightarrow> nat" where
  "start [] q = q"
| "start (x # _) q = x + 16"

fun area_seg :: "(nat \<Rightarrow> area_info) \<Rightarrow> nat list \<Rightarrow> nat \<Rightarrow> bool" where
  "area_seg f [] q = True"
| "area_seg f (x # xs) q \<longleftrightarrow> ai_next (f (x + 16)) = start xs q \<and> area_seg f xs q"

lemma start_append [simp]: "start (xs @ ys) q = start xs (start ys q)"
  by (cases xs) simp_all

lemma area_seg_append [simp]: "area_seg f (xs @ ys) q \<longleftrightarrow> area_seg f xs (start ys q) \<and> area_seg f ys q"
  by (induction xs) auto

lemma area_seg_cong: "(\<And>x. x \<in> set xs \<Longrightarrow> g (x + 16) = f (x + 16)) \<Longrightarrow> area_seg g xs q = area_seg f xs q"
  by (induction xs) auto

lemma area_seg_upd [simp]: "l \<notin> set xs \<Longrightarrow> area_seg (f(l + 16 := y)) xs q = area_seg f xs q"
  by (induction xs) auto

text \<open>The areas in the order of the list.\<close>

definition area_list :: "tlsf \<Rightarrow> nat list \<Rightarrow> bool" where
  "area_list s xs \<longleftrightarrow> area_head s = start xs 0 \<and> area_seg (area s) xs 0 \<and> distinct xs"

text \<open>
  Areas, from the descriptor at \<open>a\<close> to the sentinel at \<open>f a\<close>, cover the memory but for the last bytes
  of each, which are too few for a block, and do not overlap.
\<close>

definition cover :: "(nat \<Rightarrow> bool) \<Rightarrow> nat set \<Rightarrow> (nat \<Rightarrow> nat) \<Rightarrow> bool" where
  "cover M A f \<longleftrightarrow> (\<forall>a\<in>A. a + 64 \<le> f a \<and> spans M a (f a + 16)) \<and>
     (\<forall>a\<in>A. \<forall>c\<in>A. a < c \<longrightarrow> f a + 16 \<le> c) \<and> (\<forall>x. M x \<longrightarrow> (\<exists>a\<in>A. a \<le> x \<and> x < f a + 32))"

lemma coverD:
  assumes "cover M A f"
  shows "a \<in> A \<Longrightarrow> a + 64 \<le> f a" "a \<in> A \<Longrightarrow> spans M a (f a + 16)" "a \<in> A \<Longrightarrow> c \<in> A \<Longrightarrow> a < c \<Longrightarrow> f a + 16 \<le> c"
    "M x \<Longrightarrow> \<exists>a\<in>A. a \<le> x \<and> x < f a + 32"
  using assms unfolding cover_def by blast+

lemma cover_cong: "cover M A f \<Longrightarrow> (\<And>a. a \<in> A \<Longrightarrow> g a = f a) \<Longrightarrow> cover M A g"
  unfolding cover_def by simp

text \<open>Two areas that touch become one.\<close>

lemma cover_join:
  assumes C: "cover M A f" and a: "a \<in> A" "c \<in> A" "f a + 16 = c"
  shows "cover M (A - {c}) (f(a := f c))"
proof -
  note d = coverD [OF C]
  have "a + 64 \<le> f a" "c + 64 \<le> f c" by (rule d(1) [OF a(1)], rule d(1) [OF a(2)])
  then have ac: "a < c" "a + 64 \<le> f a" "c + 64 \<le> f c" using a(3) by simp_all
  have s: "spans M a (f c + 16)" using spans_join [OF d(2) [OF a(1)] d(2) [OF a(2)]] a(3) by simp
  have ord: "(f(a := f c)) x + 16 \<le> y" if "x \<in> A - {c}" "y \<in> A - {c}" "x < y" for x y
  proof (cases "x = a")
    case True
    then have "c \<le> y" using d(3) [OF a(1), of y] that a(3) by simp
    then have "f c + 16 \<le> y" using d(3) [OF a(2), of y] that by simp
    then show ?thesis using True by simp
  qed (use d(3) that in simp)
  have "\<exists>b\<in>A - {c}. b \<le> x \<and> x < (f(a := f c)) b + 32" if x: "M x" for x
  proof -
    obtain b where b: "b \<in> A" "b \<le> x" "x < f b + 32" using d(4) [OF x] by blast
    show ?thesis
    proof (cases "b = a \<or> b = c")
      case True
      then have "a \<le> x \<and> x < f c + 32" using b(2,3) a(3) ac by auto
      then show ?thesis using a(1) ac(1) by (intro bexI [of _ a]) auto
    next
      case False
      then show ?thesis using b by (intro bexI [of _ b]) auto
    qed
  qed
  then show ?thesis unfolding cover_def using ord s d(1,2) ac by (auto simp del: fun_upd_apply) (auto simp: fun_upd_apply)
qed

text \<open>An area of \<open>k\<close> bytes is added.\<close>

lemma cover_insert:
  assumes C: "cover M A f" and new: "\<forall>x. ar \<le> x \<and> x < ar + k \<longrightarrow> \<not> M x" and e: "ar + 64 \<le> e" "e + 16 \<le> ar + k" "ar + k \<le> e + 32"
  shows "cover (\<lambda>x. ar \<le> x \<and> x < ar + k \<or> M x) (insert ar A) (f(ar := e))"
proof -
  note d = coverD [OF C]
  have M: "M x" if "a \<in> A" "a \<le> x" "x < f a + 16" for a x using d(2) [OF that(1)] that(2,3) by (simp add: spans_def)
  have nA: "ar \<notin> A" using M [of ar ar] d(1) [of ar] new e by auto
  have before: "f a + 16 \<le> ar" if "a \<in> A" "a < ar" for a
    using M [OF that(1), of ar] new that(2) e by (cases "ar < f a + 16") auto
  have behind: "e + 16 \<le> a" if "a \<in> A" "ar < a" for a
    using M [OF that(1) order_refl] d(1) [OF that(1)] new that(2) e by (cases "a < e + 16") auto
  have f: "(f(ar := e)) a = f a" if "a \<in> A" for a using that nA by auto
  have 1: "a + 64 \<le> (f(ar := e)) a \<and> spans (\<lambda>x. ar \<le> x \<and> x < ar + k \<or> M x) a ((f(ar := e)) a + 16)" if "a \<in> insert ar A" for a
    using that d(1,2) [of a] f [of a] e nA by (cases "a = ar") (auto simp: spans_def)
  have 2: "(f(ar := e)) a + 16 \<le> c" if "a \<in> insert ar A" "c \<in> insert ar A" "a < c" for a c
    using that d(3) [of a c] f [of a] before behind nA by auto
  have 3: "\<exists>a\<in>insert ar A. a \<le> x \<and> x < (f(ar := e)) a + 32" if x: "ar \<le> x \<and> x < ar + k \<or> M x" for x
  proof (cases "ar \<le> x \<and> x < ar + k")
    case True
    then show ?thesis using e(3) by (intro bexI [of _ ar]) auto
  next
    case False
    then obtain a where "a \<in> A" "a \<le> x" "x < f a + 32" using x d(4) by blast
    then show ?thesis using f by (intro bexI [of _ a]) auto
  qed
  show ?thesis unfolding cover_def using 1 2 3 by blast
qed

text \<open>
  The list has every area, and no two areas touch: where they did, adding the later one has joined
  them.
\<close>

definition areas_ok :: "tlsf \<Rightarrow> bool" where
  "areas_ok s \<longleftrightarrow> (\<exists>xs. area_list s xs \<and> set xs = areas s) \<and>
     (\<forall>a\<in>areas s. \<forall>c\<in>areas s. a \<noteq> c \<longrightarrow> area_end s a + 16 \<noteq> c) \<and> cover (owned s) (areas s) (area_end s)"

lemma areas_ok_same: "same_areas s s' \<Longrightarrow> areas_ok s' = areas_ok s"
proof -
  assume "same_areas s s'"
  then have s: "owned s' = owned s" "areas s' = areas s" "area_head s' = area_head s" and a: "\<And>a. a \<in> areas s \<Longrightarrow> area s' (a + 16) = area s (a + 16)"
    by (simp_all add: same_areas_def)
  have e: "area_end s' a = area_end s a" if "a \<in> areas s" for a using a [OF that] by (simp add: area_end_def)
  have l: "area_list s' xs = area_list s xs" if "set xs = areas s" for xs
    using area_seg_cong [of xs "area s'" "area s" 0] a that by (simp add: area_list_def s(3))
  have "cover (owned s) (areas s) (area_end s') = cover (owned s) (areas s) (area_end s)"
    using cover_cong [of "owned s" "areas s" "area_end s" "area_end s'"] cover_cong [of "owned s" "areas s" "area_end s'" "area_end s"] e by auto
  then show ?thesis unfolding areas_ok_def s using l e by auto
qed

lemma area_part_cong:
  assumes "area_part s' = area_part s"
  shows "area_end s' = area_end s" "area_list s' = area_list s"
proof -
  have a: "area s' = area s" "area_head s' = area_head s" using assms by (simp_all add: area_part_def)
  show "area_end s' = area_end s" unfolding area_end_def [abs_def] a ..
  show "area_list s' = area_list s" unfolding area_list_def [abs_def] a ..
qed

lemma unlink_spec:
  assumes xs: "area_list s (ps @ q # qs)" and w: "a_ptr w = q + 16" "ps \<noteq> [] \<Longrightarrow> a_prev w = last ps + 16"
    and pool: "\<And>x. x \<in> set (ps @ [q]) \<Longrightarrow> in_pool s (x + 16) 16"
  obtains s' f h d where "unlink_area w s = Inr (w\<lparr>a_ptr := start qs 0\<rparr>, s')" "s' = s\<lparr>area := f, area_head := h, data := d\<rparr>"
    "area_list s' (ps @ qs)" "\<And>a. area_end s' a = area_end s a" "bytes_only (link_bytes (set ps)) s s'"
proof (cases ps rule: rev_cases)
  case Nil
  have "get_area (q + 16) s = Inr (area s (q + 16))" using pool [of q] by (simp add: get_area_def)
  then have "unlink_area w s = Inr (w\<lparr>a_ptr := start qs 0\<rparr>, s\<lparr>area_head := start qs 0\<rparr>)"
    using xs w(1) Nil by (simp add: unlink_area_def area_list_def)
  then show thesis
    by (rule that [where f = "area s" and h = "start qs 0" and d = "data s"])
      (use xs Nil in \<open>simp_all add: area_list_def area_end_def bytes_only_def\<close>)
next
  case (snoc ps' l)
  have seg: "area_head s = start ps' (l + 16)" "area_seg (area s) ps' (l + 16)" "ai_next (area s (q + 16)) = start qs 0"
      "area_seg (area s) qs 0" and d: "distinct (ps' @ l # q # qs)"
    using xs snoc by (simp_all add: area_list_def)
  have "area_head s \<noteq> q + 16" using seg(1) d by (cases ps') auto
  moreover have "get_area (q + 16) s = Inr (area s (q + 16))" "in_pool s (l + 16) 16"
    using pool [of q] pool [of l] snoc by (simp_all add: get_area_def)
  ultimately have "unlink_area w s = Inr (w\<lparr>a_ptr := start qs 0\<rparr>,
      set_area (l + 16) ((area s (l + 16))\<lparr>ai_next := start qs 0\<rparr>) s)" (is "_ = Inr (_, ?s)")
    using w snoc seg(3) by (simp add: unlink_area_def upd_area_def)
  then show thesis
  proof (rule that)
    show "?s = s\<lparr>area := area ?s, area_head := area_head s, data := data ?s\<rparr>" by (simp add: set_area_def)
    show "bytes_only (link_bytes (set ps)) s ?s"
      by (rule bytes_only_mono [OF set_bytes_only(3)]) (auto simp: snoc link_bytes_def)
  qed (use seg d snoc in \<open>auto simp: area_list_def area_end_def\<close>)
qed

subsection \<open>The invariant for a view of the headers\<close>

definition inv_at :: "hview \<Rightarrow> (nat \<Rightarrow> nat) \<Rightarrow> tlsf \<Rightarrow> bool" where
  "inv_at v f s \<longleftrightarrow> lists_ok s \<and> blocks_ok (owned s) (blks s) v \<and> small (owned s) \<and>
     (\<forall>a\<in>areas s. a \<in> blks s \<and> \<not> bfr v a \<and> bsz v a = 16) \<and> bij_betw f (areas s) {x \<in> blks s. bsz v x = 0} \<and>
     listed s {b \<in> blks s. bfr v b} (bsz v)"

definition held_at :: "hview \<Rightarrow> tlsf \<Rightarrow> nat \<rightharpoonup> nat" where
  "held_at v s p = (if 16 \<le> p \<and> p - 16 \<in> blks s \<and> p - 16 \<notin> areas s \<and> \<not> bfr v (p - 16) \<and> bsz v (p - 16) \<noteq> 0
     then Some (bsz v (p - 16)) else None)"

lemma inv_at_calm:
  "tlsf_inv (calm x s) \<longleftrightarrow> inv_at (hdrs (calm x s)) (area_end s) s" "tlsf_held (calm x s) = held_at (hdrs (calm x s)) s"
proof -
  note f = hframeD [OF calm_frame [of s x]]
  have "area_end (calm x s) = area_end s" by (simp add: calm_def)
  then show "tlsf_inv (calm x s) \<longleftrightarrow> inv_at (hdrs (calm x s)) (area_end s) s"
    by (simp add: tlsf_inv_def inv_at_def ends_ok_def free_blocks_def f)
  show "tlsf_held (calm x s) = held_at (hdrs (calm x s)) s" by (simp add: tlsf_held_def held_at_def f fun_eq_iff)
qed

lemma inv_atD:
  assumes "inv_at v f s"
  shows "lists_ok s" "blocks_ok (owned s) (blks s) v" "small (owned s)" "a \<in> areas s \<Longrightarrow> a \<in> blks s" "a \<in> areas s \<Longrightarrow> \<not> bfr v a"
    "a \<in> areas s \<Longrightarrow> bsz v a = 16" "bij_betw f (areas s) {x \<in> blks s. bsz v x = 0}" "listed s {b \<in> blks s. bfr v b} (bsz v)"
    "a \<in> areas s \<Longrightarrow> f a \<in> blks s" "a \<in> areas s \<Longrightarrow> bsz v (f a) = 0"
  using assms unfolding inv_at_def bij_betw_def by auto

text \<open>The bytes of the blocks that \<open>h\<close> says are held lie apart from headers and area descriptors.\<close>

definition same_at :: "(nat \<rightharpoonup> nat) \<Rightarrow> tlsf \<Rightarrow> tlsf \<Rightarrow> bool" where
  "same_at h s s' \<longleftrightarrow> (\<forall>p m i. h p = Some m \<longrightarrow> i < m \<longrightarrow> data s' (p + i) = data s (p + i))"

lemma same_at_trans: "same_at h s t \<Longrightarrow> same_at h t u \<Longrightarrow> same_at h s u"
  by (simp add: same_at_def)

lemma held_at_apart:
  assumes inv: "inv_at v f s" and p: "held_at v s p = Some m" "i < m"
  shows "p + i \<notin> header_bytes (blks s) \<union> link_bytes (areas s)"
proof
  assume "p + i \<in> header_bytes (blks s) \<union> link_bytes (areas s)"
  then obtain c where c: "c \<in> blks s" "c \<le> p + i" "p + i < nxt v c" "p + i < c + 16 \<or> c \<in> areas s"
    using inv_atD(4,6) [OF inv] by (fastforce simp: header_bytes_def link_bytes_def nxt_def)
  obtain b where b: "b \<in> blks s" "p = b + 16" "b \<notin> areas s" "bsz v b = m"
    using p(1) by (auto simp: held_at_def split: if_splits intro: that [of "p - 16"])
  then have "b \<noteq> c" using c(4) by auto
  from blocks_apart [OF inv_atD(2) [OF inv] b(1) c(1) this c(2,3)] show False using b(2,4) p(2) by (auto simp: nxt_def)
qed

lemma same_atI:
  assumes "inv_at v f s" "held_at v s = h(q \<mapsto> k)" "h q = None" "bytes_only (header_bytes (blks s) \<union> link_bytes (areas s)) s s'"
  shows "same_at h s s'"
  unfolding same_at_def
proof (intro allI impI)
  fix p m i assume p: "h p = Some m" "i < m"
  then have "held_at v s p = Some m" using assms(2,3) by (auto split: if_splits)
  from held_at_apart [OF assms(1) this p(2)] show "data s' (p + i) = data s (p + i)" using assms(4) by (simp add: bytes_only_def)
qed

lemma bij_betw_drop:
  assumes "bij_betw f A S" "a \<in> A" "b \<in> A" "a \<noteq> b"
  shows "bij_betw (f(a := f b)) (A - {b}) (S - {f a})"
proof -
  have f: "inj_on f A" "f ` A = S" using assms(1) by (simp_all add: bij_betw_def)
  have "inj_on (f(a := f b)) (A - {b})" using f(1) assms(2-4) by (auto simp: inj_on_def)
  moreover have "f x \<noteq> f a" if "x \<in> A" "x \<noteq> a" for x using f(1) assms(2) that by (auto dest: inj_onD)
  then have "(f(a := f b)) ` (A - {b}) = S - {f a}" using f(2) assms(2-4) by (auto 0 3 simp: image_iff)
  ultimately show ?thesis by (simp add: bij_betw_def)
qed

lemma rounddown_sum:
  assumes "size_ok (k + 48)"
  shows "ROUNDDOWN_SIZE (word_of_nat k + 48) = hword (k + 48) False False"
proof -
  have w: "(word_of_nat k + 48 :: u64) = word_of_nat (k + 48)" by simp
  have "unat (word_of_nat (k + 48) :: u64) = k + 48" "(k + 48) div 16 * 16 = k + 48"
    using assms by (simp_all add: size_ok_def unat_of_nat del: of_nat_add)
  then show ?thesis unfolding w hword_word [symmetric] word_unat_eq_iff by (simp add: unat_rounddown del: of_nat_add)
qed

text \<open>Three used blocks in a row become one.\<close>

lemma row_size:
  assumes ok: "blocks_ok M B v" "small M" and B: "c \<in> B" "m \<in> B" "m' \<in> B" and n: "nxt v c = m" "nxt v m = m'" "nxt v m' = e"
  defines "N \<equiv> bsz v c + bsz v m + bsz v m' + 32"
  shows "c < m" "m < m'" "m' < e" "e = c + 16 + N" "spans M c e" "size_ok N" "N < 1073741824"
proof -
  note d = blocks_okD [OF ok(1)]
  show "c < m" "m < m'" "m' < e" using n by (auto simp: nxt_def)
  show N: "e = c + 16 + N" using n unfolding nxt_def N_def by auto
  show sp: "spans M c e"
    using spans_join [OF spans_join [OF d(2) [OF B(1)] d(2) [OF B(2)]] d(2) [OF B(3)]] n by simp
  show "N < 1073741824" using spans_small [OF sp ok(2)] N by simp
  moreover have "16 dvd N" using d(3) [OF B(1)] d(3) [OF B(2)] d(3) [OF B(3)] by (simp add: N_def size_ok_def)
  ultimately show "size_ok N" by (simp add: size_ok_def)
qed

lemma inv_join:
  assumes inv: "inv_at v f s" and B: "c \<in> blks s" "m \<in> blks s" "m' \<in> blks s" "e \<in> blks s"
    and used: "\<not> bfr v c" "\<not> bfr v m" "\<not> bfr v m'" "c \<notin> areas s" "\<not> bpf v e"
    and n: "nxt v c = m" "nxt v m = m'" "nxt v m' = e"
  defines "N \<equiv> bsz v c + bsz v m + bsz v m' + 32"
  assumes v'c: "v' c = (fst (v c), hword N False (bpf v c))" and v'e: "snd (v' e) = snd (v e)"
    and v': "\<And>x. x \<in> blks s - {m, m'} \<Longrightarrow> x \<noteq> c \<Longrightarrow> x \<noteq> e \<Longrightarrow> v' x = v x"
    and s': "lists_ok s'" "\<And>F n. listed s' F n = listed s F n" "owned s' = owned s" "blks s' = blks s - {m, m'}" "areas s' = areas s - {m, m'}"
    and bij: "bij_betw f' (areas s') ({x \<in> blks s. bsz v x = 0} - {c, m, m'})"
  shows "inv_at v' f' s'" "held_at v' s' = (held_at v s)(c + 16 \<mapsto> N, m + 16 := None, m' + 16 := None)"
    "nxt v' c = e"
proof -
  note I = inv_atD [OF inv] note d = blocks_okD [OF I(2)]
  note row = row_size [OF I(2,3) B(1-3) n, folded N_def]
  note lt = row(1-3) note sp = row(5) note so = row(6)
  have N: "e = c + 16 + N" "c + 16 < e" "e - c - 16 = N" using row(4) unfolding N_def by auto
  have R: "blks s - {m, m'} = {x \<in> blks s. x \<le> c \<or> e \<le> x}"
  proof -
    have "x = m \<or> x = m'" if "x \<in> blks s" "c < x" "x < e" for x
      using d(10) [OF B(1) that(1,2)] d(10) [OF B(2) that(1)] d(10) [OF B(3) that(1)] that(3) n by fastforce
    then show ?thesis using lt by (auto simp: not_le, meson not_le)
  qed
  have we: "snd (v' e) = hword (bsz v e) (bfr v e) False" using v'e d(4) [OF B(4)] used(5) by simp
  have L: "blocks_ok (owned s) (blks s - {m, m'}) v'"
    by (rule layout_join [OF I(2) B(1,4) N(2), unfolded N(3), OF so sp, where f = False]) (use R v' v'c we in auto)
  have C: "bsz v' c = N" "\<not> bfr v' c" using v'c so by (simp_all add: bsz_def bfr_def)
  then show "nxt v' c = e" using N(1) by (simp add: nxt_def)
  have E: "bsz v' e = bsz v e" "bfr v' e = bfr v e" using v'e by (simp_all add: bsz_def bfr_def)
  have o: "bsz v' x = bsz v x" "bfr v' x = bfr v x" if "x \<in> blks s - {m, m'}" "x \<noteq> c" for x
    using v' [OF that] E by (cases "x = e"; simp add: bsz_def bfr_def)+
  have cR: "c \<notin> {m, m'}" using lt by simp
  have "x \<in> blks s - {m, m'} \<and> bfr v' x \<longleftrightarrow> x \<in> blks s \<and> bfr v x" for x
    using o(2) [of x] used C(2) by (cases "x \<in> {c, m, m'}") auto
  then have F: "{x \<in> blks s - {m, m'}. bfr v' x} = {b \<in> blks s. bfr v b}" by blast
  have "x \<in> blks s - {m, m'} \<and> bsz v' x = 0 \<longleftrightarrow> x \<in> {x \<in> blks s. bsz v x = 0} - {c, m, m'}" for x
    using o(1) [of x] C(1) by (cases "x = c") (auto simp: N_def)
  then have Z: "{x \<in> blks s - {m, m'}. bsz v' x = 0} = {x \<in> blks s. bsz v x = 0} - {c, m, m'}" by blast
  have "listed s {b \<in> blks s. bfr v b} (bsz v')"
  proof (rule listed_cong [OF I(8)])
    fix x assume "x \<in> {b \<in> blks s. bfr v b}"
    then show "bsz v' x = bsz v x" using o(1) [of x] used by auto
  qed
  moreover have "a \<in> blks s - {m, m'} \<and> \<not> bfr v' a \<and> bsz v' a = 16" if "a \<in> areas s - {m, m'}" for a
    using that I(4-6) [of a] o [of a] used(4) by auto
  ultimately show "inv_at v' f' s'"
    unfolding inv_at_def s'(2-4) F Z using s'(1,5) L I(3) bij by simp
  show "held_at v' s' = (held_at v s)(c + 16 \<mapsto> N, m + 16 := None, m' + 16 := None)"
  proof
    fix p
    consider "p = c + 16" | "p - 16 \<in> {m, m'}" "16 \<le> p" | "p < 16" | "16 \<le> p" "p - 16 \<notin> {c, m, m'}" by fastforce
    then show "held_at v' s' p = ((held_at v s)(c + 16 \<mapsto> N, m + 16 := None, m' + 16 := None)) p"
    proof cases
      case 1
      have "N \<noteq> 0" by (simp add: N_def)
      then show ?thesis using 1 C B(1) used(4) lt cR unfolding held_at_def s'(4,5) by simp
    next
      case 2
      then have "p = m + 16 \<or> p = m' + 16" by auto
      then show ?thesis using 2 unfolding held_at_def s'(4,5) by auto
    next
      case 4
      then have "p \<noteq> c + 16" "p \<noteq> m + 16" "p \<noteq> m' + 16" by auto
      then show ?thesis using 4 o [of "p - 16"] unfolding held_at_def s'(4,5) by auto
    qed (simp add: held_at_def)
  qed
qed

subsection \<open>The invariant of the loop\<close>

text \<open>
  The view of the headers: the block behind the new one may be the sentinel of the new area, which
  claims to follow a free block before it does. \<open>lost\<close> says that the loop has overwritten the mark of
  the new block that its predecessor is free; the view still has it.
\<close>

definition walk_view :: "bool \<Rightarrow> area_walk \<Rightarrow> tlsf \<Rightarrow> hview" where
  "walk_view lost w s =
     (let v = hdrs (calm (nxt (hdrs s) (a_b0 w)) s) in
      if lost then v(a_b0 w := (fst (v (a_b0 w)), snd (v (a_b0 w)) OR PREV_FREE)) else v)"

text \<open>
  The areas \<open>ps\<close> have been passed and stay, the areas \<open>qs\<close> are still to come, \<open>k\<close> is the size of the
  new block, \<open>h\<close> what the clients hold.
\<close>

definition walk_ok :: "bool \<Rightarrow> (nat \<rightharpoonup> nat) \<Rightarrow> nat \<Rightarrow> area_walk \<Rightarrow> tlsf \<Rightarrow> nat list \<Rightarrow> nat list \<Rightarrow> bool" where
  "walk_ok lost h k w s ps qs \<longleftrightarrow>
     inv_at (walk_view lost w s) ((area_end s)(a_ib0 w := a_lb0 w)) s \<and> a_ib0 w \<in> areas s \<and>
     held_at (walk_view lost w s) s = h(a_b0 w + 16 \<mapsto> k) \<and> h (a_b0 w + 16) = None \<and>
     area_list s (ps @ qs) \<and> set (ps @ qs) = areas s - {a_ib0 w} \<and> a_ptr w = start qs 0 \<and> (ps \<noteq> [] \<longrightarrow> a_prev w = last ps + 16) \<and>
     (\<forall>a\<in>set (ps @ qs). \<forall>c\<in>set (ps @ qs). a \<noteq> c \<longrightarrow> area_end s a + 16 \<noteq> c) \<and>
     (\<forall>a\<in>set ps. area_end s a + 16 \<noteq> a_ib0 w \<and> a \<noteq> a_lb0 w + 16) \<and>
     (\<forall>q\<in>set qs. q = a_lb0 w + 16 \<longrightarrow> a_lb0 w = nxt (walk_view lost w s) (a_b0 w)) \<and>
     (\<forall>p\<in>set qs. area_end s p + 16 = a_ib0 w \<longrightarrow> a_b0 w = a_ib0 w + 32) \<and>
     cover (owned s) (areas s) ((area_end s)(a_ib0 w := a_lb0 w)) \<and>
     (lost \<longrightarrow> bpf (walk_view lost w s) (a_b0 w) \<and> \<not> bpf (hdrs s) (a_b0 w) \<and> (\<forall>a\<in>set qs. area_end s a + 16 \<noteq> a_ib0 w \<and> a \<noteq> a_lb0 w + 16))"

lemma walk_okD:
  assumes "walk_ok lost h k w s ps qs"
  defines "v \<equiv> walk_view lost w s" and "b \<equiv> a_b0 w"
  shows "inv_at v ((area_end s)(a_ib0 w := a_lb0 w)) s" "a_ib0 w \<in> areas s" "held_at v s = h(b + 16 \<mapsto> k)" "h (b + 16) = None"
    "area_list s (ps @ qs)" "set (ps @ qs) = areas s - {a_ib0 w}" "a_ptr w = start qs 0" "ps \<noteq> [] \<Longrightarrow> a_prev w = last ps + 16"
    "a \<in> set (ps @ qs) \<Longrightarrow> c \<in> set (ps @ qs) \<Longrightarrow> a \<noteq> c \<Longrightarrow> area_end s a + 16 \<noteq> c"
    "a \<in> set ps \<Longrightarrow> area_end s a + 16 \<noteq> a_ib0 w \<and> a \<noteq> a_lb0 w + 16"
    "q \<in> set qs \<Longrightarrow> q = a_lb0 w + 16 \<Longrightarrow> a_lb0 w = nxt v b \<and> \<not> lost"
    "q \<in> set qs \<Longrightarrow> area_end s q + 16 = a_ib0 w \<Longrightarrow> b = a_ib0 w + 32 \<and> \<not> lost"
    "cover (owned s) (areas s) ((area_end s)(a_ib0 w := a_lb0 w))" "lost \<Longrightarrow> bpf v b \<and> \<not> bpf (hdrs s) b"
proof -
  note W = assms(1) [unfolded walk_ok_def, folded v_def b_def]
  show "inv_at v ((area_end s)(a_ib0 w := a_lb0 w)) s" using W by (elim conjE)
  show "a_ib0 w \<in> areas s" using W by (elim conjE)
  show "held_at v s = h(b + 16 \<mapsto> k)" using W by (elim conjE)
  show "h (b + 16) = None" using W by (elim conjE)
  show "area_list s (ps @ qs)" using W by (elim conjE)
  show "set (ps @ qs) = areas s - {a_ib0 w}" using W by (elim conjE)
  show "a_ptr w = start qs 0" using W by (elim conjE)
  show "cover (owned s) (areas s) ((area_end s)(a_ib0 w := a_lb0 w))" using W by (elim conjE)
  have "ps \<noteq> [] \<longrightarrow> a_prev w = last ps + 16" using W by (elim conjE)
  then show "ps \<noteq> [] \<Longrightarrow> a_prev w = last ps + 16" by blast
  have G1: "\<forall>a\<in>set (ps @ qs). \<forall>c\<in>set (ps @ qs). a \<noteq> c \<longrightarrow> area_end s a + 16 \<noteq> c" using W by (elim conjE)
  have G2: "\<forall>a\<in>set ps. area_end s a + 16 \<noteq> a_ib0 w \<and> a \<noteq> a_lb0 w + 16" using W by (elim conjE)
  have G3: "\<forall>q\<in>set qs. q = a_lb0 w + 16 \<longrightarrow> a_lb0 w = nxt v b" using W by (elim conjE)
  have G4: "\<forall>p\<in>set qs. area_end s p + 16 = a_ib0 w \<longrightarrow> b = a_ib0 w + 32" using W by (elim conjE)
  have G5: "lost \<longrightarrow> bpf v b \<and> \<not> bpf (hdrs s) b \<and> (\<forall>a\<in>set qs. area_end s a + 16 \<noteq> a_ib0 w \<and> a \<noteq> a_lb0 w + 16)" using W by (elim conjE)
  show "area_end s a + 16 \<noteq> c" if "a \<in> set (ps @ qs)" "c \<in> set (ps @ qs)" "a \<noteq> c" using G1 that by blast
  show "area_end s a + 16 \<noteq> a_ib0 w \<and> a \<noteq> a_lb0 w + 16" if "a \<in> set ps" using G2 that by blast
  show "a_lb0 w = nxt v b \<and> \<not> lost" if "q \<in> set qs" "q = a_lb0 w + 16" using G3 G5 that by blast
  show "b = a_ib0 w + 32 \<and> \<not> lost" if "q \<in> set qs" "area_end s q + 16 = a_ib0 w" using G4 G5 that by blast
  show "bpf v b \<and> \<not> bpf (hdrs s) b" if lost using G5 that by blast
qed

text \<open>
  Whether the mark is lost already, or will be: when the new area meets first the one before it, which
  ends with a free block, and then the one behind it.
\<close>

definition gap_ahead :: "bool \<Rightarrow> area_walk \<Rightarrow> tlsf \<Rightarrow> nat list \<Rightarrow> bool" where
  "gap_ahead lost w s qs \<longleftrightarrow> lost \<or> a_lb0 w + 16 \<in> set qs \<and> bpf (walk_view lost w s) (a_b0 w) \<or>
     (\<exists>us p vs. qs = us @ p # vs \<and> area_end s p + 16 = a_ib0 w \<and> a_lb0 w + 16 \<in> set vs \<and> bpf (walk_view lost w s) (area_end s p))"

lemma calm_word: "(w AND NOT PREV_FREE) AND BLOCK_SIZE = w AND BLOCK_SIZE" for w :: u64
  by (rule bit_word_eqI) (auto simp: bit_and_iff bit_not_iff bit_flags bit_BLOCK_SIZE)

lemma prev_free_word: "(w OR PREV_FREE) AND BLOCK_SIZE = w AND BLOCK_SIZE" for w :: u64
  by (rule bit_word_eqI) (auto simp: bit_and_iff bit_or_iff bit_flags bit_BLOCK_SIZE)

lemma walk_hdr:
  assumes W: "walk_ok lost h k w s ps qs"
  defines "v \<equiv> walk_view lost w s" and "b \<equiv> a_b0 w"
  shows "b \<in> blks s" "\<not> bfr v b" "bsz v b = k" "k \<noteq> 0" "b \<notin> areas s" "nxt v b = b + 16 + k"
    "y \<noteq> b + 16 + k \<Longrightarrow> \<not> lost \<or> y \<noteq> b \<Longrightarrow> hdrs s y = v y"
    "v (b + 16 + k) = (fst (hdrs s (b + 16 + k)), snd (hdrs s (b + 16 + k)) AND NOT PREV_FREE)"
    "y \<in> blks s \<Longrightarrow> bsize (mem s y) AND BLOCK_SIZE = word_of_nat (bsz v y)" "y \<in> blks s \<Longrightarrow> in_pool s y 16"
    "a \<in> areas s \<Longrightarrow> in_pool s (a + 16) 16"
    "v b = (fst (hdrs s b), if lost then snd (hdrs s b) OR PREV_FREE else snd (hdrs s b))"
proof -
  note w = walk_okD [OF W, folded v_def b_def] note I = inv_atD [OF w(1)] note d = blocks_okD [OF I(2)]
  have "held_at v s (b + 16) = Some k" using w(3) by simp
  then show b: "b \<in> blks s" "\<not> bfr v b" "bsz v b = k" "k \<noteq> 0" "b \<notin> areas s"
    by (auto simp: held_at_def split: if_splits)
  then show n: "nxt v b = b + 16 + k" by (simp add: nxt_def)
  let ?x = "nxt (hdrs s) b"
  have xb: "?x \<noteq> b" by (simp add: nxt_def)
  have v0: "v = (hdrs s)(?x := (fst (hdrs s ?x), snd (hdrs s ?x) AND NOT PREV_FREE),
      b := (fst (hdrs s b), if lost then snd (hdrs s b) OR PREV_FREE else snd (hdrs s b)))"
    unfolding v_def walk_view_def hdrs_calm b_def [symmetric] using xb by (simp add: fun_eq_iff Let_def)
  have "snd (v b) AND BLOCK_SIZE = snd (hdrs s b) AND BLOCK_SIZE" by (simp add: v0 prev_free_word)
  then have "?x = nxt v b" by (simp add: nxt_def bsz_def wsize_def)
  then have x: "?x = b + 16 + k" using n by simp
  note v = v0 [unfolded x] and xb = xb [unfolded x]
  show "hdrs s y = v y" if "y \<noteq> b + 16 + k" "\<not> lost \<or> y \<noteq> b" using that by (auto simp: v)
  show "v (b + 16 + k) = (fst (hdrs s (b + 16 + k)), snd (hdrs s (b + 16 + k)) AND NOT PREV_FREE)" using xb by (simp add: v)
  show "v b = (fst (hdrs s b), if lost then snd (hdrs s b) OR PREV_FREE else snd (hdrs s b))" by (simp add: v)
  show "bsize (mem s y) AND BLOCK_SIZE = word_of_nat (bsz v y)" if y: "y \<in> blks s"
  proof -
    have "snd (v y) AND BLOCK_SIZE = bsize (mem s y) AND BLOCK_SIZE" by (simp add: v hdrs_sel calm_word prev_free_word)
    then show ?thesis using d(3,4) [OF y] by (metis hword_parts(1))
  qed
  show "in_pool s y 16" if "y \<in> blks s" using block_in_pool(1) [OF I(2,3) that] .
  show "in_pool s (a + 16) 16" if a: "a \<in> areas s"
    using spans_pool [OF spans_sub [OF d(2) [OF I(4) [OF a]], of "a + 16" "nxt v a"]] I(6) [OF a] by (simp add: nxt_def)
qed

lemma walk_next:
  assumes W: "walk_ok lost h k w s ps (q # qs)"
  defines "v \<equiv> walk_view lost w s"
  shows "q \<in> areas s" "q \<noteq> a_ib0 w" "q \<in> blks s" "q \<notin> set ps" "q \<notin> set qs" "area_end s q \<in> blks s" "bsz v (area_end s q) = 0"
    "area_end s q \<notin> areas s" "a_ptr w = q + 16" "bsz v q = 16" "\<not> bfr v q" "get_area (q + 16) s = Inr (area s (q + 16))"
    "a_lb0 w \<in> blks s" "bsz v (a_lb0 w) = 0" "a_lb0 w \<notin> areas s" "area_end s q \<noteq> a_lb0 w"
    "bsize (mem s q) AND BLOCK_SIZE = 16" "a_lb0 w \<noteq> a_b0 w" "set ps \<union> set qs = areas s - {a_ib0 w, q}" "GET_NEXT_BLOCK (q + 16) 16 = q + 32"
    "area_end s q + 16 \<notin> set ps \<union> set qs" "p \<in> set ps \<union> set qs \<Longrightarrow> area_end s p + 16 \<noteq> q"
proof -
  note w = walk_okD [OF W, folded v_def] note I = inv_atD [OF w(1)] note H = walk_hdr [OF W, folded v_def]
  have d: "distinct (ps @ q # qs)" using w(5) by (simp add: area_list_def)
  then show "q \<notin> set ps" "q \<notin> set qs" by auto
  show q: "q \<in> areas s" "q \<noteq> a_ib0 w" using w(6) by auto
  show "set ps \<union> set qs = areas s - {a_ib0 w, q}" using w(6) d by auto
  show "area_end s q + 16 \<notin> set ps \<union> set qs"
  proof
    assume e: "area_end s q + 16 \<in> set ps \<union> set qs"
    then have "q \<noteq> area_end s q + 16" using d by (auto simp del: One_nat_def)
    then show False using w(9) [of q "area_end s q + 16"] e by simp
  qed
  show "area_end s p + 16 \<noteq> q" if "p \<in> set ps \<union> set qs"
  proof -
    have "p \<noteq> q" using that d by auto
    then show ?thesis using w(9) [of p q] that by auto
  qed
  show "q \<in> blks s" "bsz v q = 16" "\<not> bfr v q" using I(4-6) [OF q(1)] by simp_all
  then show "bsize (mem s q) AND BLOCK_SIZE = 16" using H(9) [of q] by simp
  show e: "area_end s q \<in> blks s" "bsz v (area_end s q) = 0" using I(9,10) [OF q(1)] q(2) by simp_all
  show l: "a_lb0 w \<in> blks s" "bsz v (a_lb0 w) = 0" using I(9,10) [OF w(2)] by simp_all
  show "area_end s q \<notin> areas s" "a_lb0 w \<notin> areas s" using e(2) l(2) I(6) by force+
  show "area_end s q \<noteq> a_lb0 w" using I(7) q w(2) unfolding bij_betw_def inj_on_def by (metis fun_upd_apply)
  show "a_lb0 w \<noteq> a_b0 w" using l(2) H(3,4) by auto
  show "a_ptr w = q + 16" using w(7) by simp
  show "get_area (q + 16) s = Inr (area s (q + 16))" using H(11) [OF q(1)] by (simp add: get_area_def)
  show "GET_NEXT_BLOCK (q + 16) 16 = q + 32" by (simp add: GET_NEXT_BLOCK_def)
qed

lemma Diff_insert_absorb2: "b \<notin> A \<Longrightarrow> A - {a, b} = A - {a}"
  by auto

lemma held_none: "b \<in> areas s \<or> bsz v b = 0 \<Longrightarrow> held_at v s (b + 16) = None"
  by (auto simp: held_at_def)

lemma walk_unlink:
  assumes W: "walk_ok lost h k w s ps (q # qs)"
  obtains s' where "unlink_area w s = Inr (w\<lparr>a_ptr := start qs 0\<rparr>, s')" "area_list s' (ps @ qs)" "area_end s' = area_end s"
    "hdrs s' = hdrs s" "in_pool s' = in_pool s" "lists_ok s' = lists_ok s" "\<And>F n. listed s' F n = listed s F n"
    "owned s' = owned s" "blks s' = blks s" "areas s' = areas s" "bytes_only (link_bytes (areas s)) s s'"
proof -
  note w = walk_okD [OF W] note H = walk_hdr [OF W]
  have "in_pool s (x + 16) 16" if "x \<in> set (ps @ [q])" for x using H(11) [of x] w(6) that by auto
  then obtain s' f g d where u: "unlink_area w s = Inr (w\<lparr>a_ptr := start qs 0\<rparr>, s')" "s' = s\<lparr>area := f, area_head := g, data := d\<rparr>"
      "area_list s' (ps @ qs)" "\<And>a. area_end s' a = area_end s a" "bytes_only (link_bytes (set ps)) s s'"
    using unlink_spec [OF w(5), of w] w(7,8) by (metis start.simps(2))
  have "in_pool s' = in_pool s" unfolding u(2) by (simp add: in_pool_def fun_eq_iff)
  moreover have "area_end s' = area_end s" using u(4) by blast
  moreover have "bytes_only (link_bytes (areas s)) s s'" by (rule bytes_only_mono [OF u(5) link_bytes_mono]) (use w(6) in auto)
  ultimately show thesis using that [OF u(1,3)] unfolding u(2) by simp
qed

text \<open>The new area meets the one behind it: the new block takes up its descriptor.\<close>

lemma join_next_area:
  assumes W: "walk_ok lost h k w s ps (q # qs)" and q: "q = a_lb0 w + 16"
  obtains s' where "merge_area w s = Inr (w\<lparr>a_ptr := start qs 0, a_lb0 := area_end s q\<rparr>, s')"
    "walk_ok (gap_ahead lost w s (q # qs)) h (k + 48) (w\<lparr>a_ptr := start qs 0, a_lb0 := area_end s q\<rparr>) s' ps qs"
    "gap_ahead (gap_ahead lost w s (q # qs)) (w\<lparr>a_ptr := start qs 0, a_lb0 := area_end s q\<rparr>) s' qs = gap_ahead lost w s (q # qs)"
    "same_at h s s'" "owned s' = owned s"
proof -
  define v where "v = walk_view lost w s"
  note w = walk_okD [OF W, folded v_def] note I = inv_atD [OF w(1)] note H = walk_hdr [OF W, folded v_def]
  note Q = walk_next [OF W, folded v_def] note d = blocks_okD [OF I(2)]
  let ?b = "a_b0 w" and ?lb = "a_lb0 w" and ?lb1 = "area_end s q" and ?b1 = "q + 32"
  have N: "?lb = ?b + 16 + k" "\<not> lost" using w(11) [of q] q H(6) by simp_all
  have H7: "hdrs s y = v y" if "y \<noteq> ?b + 16 + k" for y using H(7) that N(2) by blast
  define L where "L = bpf v ?b"
  have L: "gap_ahead lost w s (q # qs) = L"
  proof -
    have "distinct (q # qs)" using w(5) by (simp add: area_list_def)
    then have "q \<notin> set vs" if "q # qs = us @ p # vs" for us p vs using that by (cases us) auto
    then show ?thesis using N(2) q unfolding gap_ahead_def L_def v_def by auto
  qed
  have nx: "nxt v ?b = ?lb" "nxt v ?lb = q" "nxt v q = ?b1" using N(1) H(6) Q(10,14) q by (simp_all add: nxt_def)
  have b1: "?b1 \<in> blks s" "\<not> bpf v ?b1" using d(6,7) [OF Q(3)] Q(10,11) nx(3) by simp_all
  have lbf: "\<not> bfr v ?lb" using d(5) [OF Q(13)] Q(14) by blast
  obtain s1 where s1: "unlink_area w s = Inr (w\<lparr>a_ptr := start qs 0\<rparr>, s1)" "area_list s1 (ps @ qs)" "area_end s1 = area_end s"
    and f1: "hdrs s1 = hdrs s" "in_pool s1 = in_pool s" "lists_ok s1 = lists_ok s" "\<And>F n. listed s1 F n = listed s F n"
    "owned s1 = owned s" "blks s1 = blks s" "areas s1 = areas s"
    "bytes_only (link_bytes (areas s)) s s1"
    by (rule walk_unlink [OF W]) (rule that)
  let ?g = "\<lambda>x. ROUNDDOWN_SIZE ((x AND BLOCK_SIZE) + 16 + 32)" and ?u = "\<lambda>h. h\<lparr>prev_hdr := ?b\<rparr>"
  have ip: "in_pool s1 ?b 16" "in_pool s1 ?b1 16" using H(10) [OF H(1)] H(10) [OF b1(1)] f1(2) by simp_all
  obtain s2 where s2: "upd_hdr ?b (\<lambda>h. h\<lparr>bsize := ?g (bsize h)\<rparr>) s1 = Inr s2" "hframe s1 s2"
      "hdrs s2 = (hdrs s1)(?b := (fst (hdrs s1 ?b), ?g (snd (hdrs s1 ?b))))" "bytes_only (header_bytes {?b}) s1 s2"
    by (rule word_spec [OF ip(1) refl, of ?g]) (rule that)
  note f2 = hframeD [OF s2(2)]
  obtain s3 where s3: "upd_hdr ?b1 ?u s2 = Inr s3" "hframe s2 s3"
      "hdrs s3 = (hdrs s2)(?b1 := (prev_hdr (?u (mem s2 ?b1)), bsize (?u (mem s2 ?b1))))" "bytes_only (header_bytes {?b1}) s2 s3"
    by (rule upd_hdr_spec [of s2 ?b1 ?u]) (simp_all add: f2(6) ip(2) that)
  note f3 = hframeD [OF s3(2)]
  define s4 where "s4 = s3\<lparr>blks := blks s3 - {?lb, q}, areas := areas s3 - {q}\<rparr>"
  define w' where "w' = w\<lparr>a_ptr := start qs 0, a_lb0 := ?lb1\<rparr>"
  have run: "merge_area w s = Inr (w', s4)"
  proof -
    have "get_hdr q s = Inr (mem s q)" using H(10) [OF Q(3)] by simp
    then show ?thesis using q [symmetric] s1(1) s2(1) s3(1) Q(9,12,17,20)
      by (simp add: merge_area_def Let_def s4_def w'_def area_end_def USED_BLOCK_def PREV_USED_def)
  qed
  have N48: "bsz v ?b + bsz v ?lb + bsz v q + 32 = k + 48" using H(3) Q(10,14) by simp
  let ?v' = "walk_view L w' s4"
  have h4: "hdrs s4 = (hdrs s)(?b := (fst (hdrs s ?b), ROUNDDOWN_SIZE (word_of_nat k + 48)), ?b1 := (?b, snd (hdrs s ?b1)))"
  proof -
    have "snd (hdrs s ?b) AND BLOCK_SIZE = word_of_nat k" using H(3) H(9) [OF H(1)] by (simp add: hdrs_sel)
    moreover have "?b1 \<noteq> ?b" using N(1) q by simp
    ultimately show ?thesis using s2(3) s3(3) f1(1) by (simp add: s4_def hdrs_sel fun_eq_iff add.commute [of 48])
  qed
  have so: "size_ok (k + 48)" using row_size(6) [OF I(2,3) H(1) Q(13,3) nx, unfolded N48] .
  have nb: "?b1 \<noteq> ?b" "?b1 \<noteq> ?lb" "?b1 \<noteq> ?b + 16 + k" "?b \<noteq> ?b + 16 + k" "?b1 = ?b + 16 + (k + 48)" using N(1) q by simp_all
  have v': "?v' = (hdrs s4)(?b1 := (?b, snd (v ?b1)), ?b := (fst (hdrs s ?b), hword (k + 48) False L))"
  proof -
    have "nxt (hdrs s4) (a_b0 w') = ?b1" using h4 nb so by (simp add: nxt_def bsz_def rounddown_sum w'_def)
    moreover have "snd (hdrs s ?b1) AND NOT PREV_FREE = snd (v ?b1)"
      using H7 [OF nb(3)] d(4) [OF b1(1)] b1(2) hword_ops(4) [OF d(3) [OF b1(1)]] by metis
    moreover have "ROUNDDOWN_SIZE (word_of_nat k + 48) = hword (k + 48) False False"
      "ROUNDDOWN_SIZE (word_of_nat k + 48) OR PREV_FREE = hword (k + 48) False True"
      using rounddown_sum [OF so] hword_ops(3) [OF so] by metis+
    ultimately show ?thesis using nb(1) unfolding walk_view_def hdrs_calm by (auto simp: h4 w'_def Let_def fun_eq_iff)
  qed
  have vb: "?v' ?b = (fst (v ?b), hword (k + 48) False (bpf v ?b))" using H7 [OF nb(4)] unfolding v' by (simp add: L_def)
  have vL: "bpf ?v' ?b = L" using vb so by (simp add: bpf_def L_def)
  have other: "?v' x = v x" if "x \<in> blks s - {?lb, q}" "x \<noteq> ?b" "x \<noteq> ?b1" for x
    using that N(1) H7 [of x] by (simp add: v' h4)
  have s4: "lists_ok s4" "\<And>F n. listed s4 F n = listed s F n" "owned s4 = owned s" "blks s4 = blks s - {?lb, q}"
      "areas s4 = areas s - {?lb, q}" "area_part s4 = area_part s1"
    using I(1) f1 f2 f3 Q(15) by (simp_all add: s4_def area_part_def)
  note ends = area_part_cong [OF s4(6), unfolded s1(3)]
  let ?f = "(area_end s)(a_ib0 w := ?lb)"
  have bij: "bij_betw ((area_end s4)(a_ib0 w' := a_lb0 w')) (areas s4) ({x \<in> blks s. bsz v x = 0} - {?b, ?lb, q})"
  proof -
    have "bij_betw (?f(a_ib0 w := ?f q)) (areas s - {q}) ({x \<in> blks s. bsz v x = 0} - {?f (a_ib0 w)})"
      by (rule bij_betw_drop [OF I(7) w(2) Q(1) Q(2) [symmetric]])
    moreover have "{x \<in> blks s. bsz v x = 0} - {?f (a_ib0 w)} = {x \<in> blks s. bsz v x = 0} - {?b, ?lb, q}"
      using H(3,4) Q(10) by auto
    moreover have "areas s4 = areas s - {q}" using s4(5) Q(15) by auto
    ultimately show ?thesis using Q(2) by (simp add: ends w'_def)
  qed
  have J: "inv_at ?v' ((area_end s4)(a_ib0 w' := a_lb0 w')) s4"
      "held_at ?v' s4 = (held_at v s)(?b + 16 \<mapsto> k + 48, ?lb + 16 := None, q + 16 := None)"
    by (rule inv_join [OF w(1) H(1) Q(13,3) b1(1) H(2) lbf Q(11) H(5) b1(2) nx, unfolded N48, OF vb _ other s4(1-5) bij];
        use nb(1) in \<open>simp add: v'\<close>)+
  have W': "walk_ok L h (k + 48) w' s4 ps qs"
    unfolding walk_ok_def
  proof (intro conjI)
    show "inv_at ?v' ((area_end s4)(a_ib0 w' := a_lb0 w')) s4" by (rule J)
    show "a_ib0 w' \<in> areas s4" using w(2) Q(2,15) s4(5) by (auto simp: w'_def)
    show "held_at ?v' s4 = h(a_b0 w' + 16 \<mapsto> k + 48)"
    proof -
      have "h (?lb + 16) = None" "h (q + 16) = None"
        using held_none [of ?lb s v] held_none [of q s v] Q(1,14,18) H(5) unfolding w(3) by (auto split: if_splits)
      moreover have "?lb \<noteq> ?b" "q \<noteq> ?b" using Q(1,18) H(5) by auto
      ultimately show ?thesis unfolding J(2) w(3) by (auto simp: w'_def fun_eq_iff)
    qed
    show "h (a_b0 w' + 16) = None" using w(4) by (simp add: w'_def)
    show "area_list s4 (ps @ qs)" using s1(2) ends(2) by simp
    show "set (ps @ qs) = areas s4 - {a_ib0 w'}" using Q(15,19) s4(5) by (auto simp: w'_def)
    show "\<forall>a\<in>set (ps @ qs). \<forall>c\<in>set (ps @ qs). a \<noteq> c \<longrightarrow> area_end s4 a + 16 \<noteq> c" using w(9) by (simp add: ends)
    show "\<forall>a\<in>set ps. area_end s4 a + 16 \<noteq> a_ib0 w' \<and> a \<noteq> a_lb0 w' + 16"
      using w(10) Q(21) by (auto simp: ends w'_def)
    show "\<forall>p\<in>set qs. p = a_lb0 w' + 16 \<longrightarrow> a_lb0 w' = nxt ?v' (a_b0 w')"
      using Q(21) by (auto simp: w'_def)
    have "\<not> L" if "a \<in> set qs" "area_end s a + 16 = a_ib0 w" for a
    proof -
      have "nxt v (a_ib0 w) = ?b" using w(12) [of a] that I(6) [OF w(2)] by (simp add: nxt_def)
      then show ?thesis using d(7) [OF I(4) [OF w(2)]] I(5,6) [OF w(2)] by (simp add: L_def)
    qed
    moreover have "\<not> bpf (hdrs s4) ?b" using nb(1) rounddown_sum [OF so] so by (simp add: h4 bpf_def)
    ultimately show "L \<longrightarrow> bpf ?v' (a_b0 w') \<and> \<not> bpf (hdrs s4) (a_b0 w') \<and> (\<forall>a\<in>set qs. area_end s4 a + 16 \<noteq> a_ib0 w' \<and> a \<noteq> a_lb0 w' + 16)"
      using vL Q(21) by (auto simp: ends w'_def)
    show "\<forall>p\<in>set qs. area_end s4 p + 16 = a_ib0 w' \<longrightarrow> a_b0 w' = a_ib0 w' + 32"
      using w(12) by (auto simp: ends w'_def)
    have "areas s4 = areas s - {q}" using s4(5) Q(15) by auto
    then show "cover (owned s4) (areas s4) ((area_end s4)(a_ib0 w' := a_lb0 w'))"
      using cover_join [OF w(13,2) Q(1)] q Q(2) s4(3) by (simp add: ends w'_def)
  qed (use w(8) in \<open>simp_all add: w'_def\<close>)
  have "same_at h s s4"
  proof (rule same_atI [OF w(1,3,4)])
    have "bytes_only (header_bytes (blks s) \<union> link_bytes (areas s)) s s3"
      by (rule bytes_only_trans [OF bytes_only_trans [OF bytes_only_right [OF f1(8)] bytes_only_header [OF s2(4) H(1)]]
          bytes_only_header [OF s3(4) b1(1)]])
    then show "bytes_only (header_bytes (blks s) \<union> link_bytes (areas s)) s s4" by (simp add: bytes_only_def s4_def)
  qed
  moreover have "gap_ahead L w' s4 qs = L" using Q(21) by (auto simp: gap_ahead_def w'_def)
  ultimately show thesis using that [unfolded L, OF run [unfolded w'_def] W' [unfolded w'_def] _ _ s4(3)] by (simp add: w'_def)
qed

text \<open>The new area meets the one before it: the sentinel there becomes the new block.\<close>

lemma join_prev_area:
  assumes W: "walk_ok lost h k w s ps (q # qs)" and q: "q \<noteq> a_lb0 w + 16" "area_end s q + 16 = a_ib0 w"
  obtains s' where "merge_area w s = Inr (w\<lparr>a_ptr := start qs 0, a_b0 := area_end s q, a_ib0 := q\<rparr>, s')"
    "walk_ok lost h (k + 48) (w\<lparr>a_ptr := start qs 0, a_b0 := area_end s q, a_ib0 := q\<rparr>) s' ps qs"
    "gap_ahead lost (w\<lparr>a_ptr := start qs 0, a_b0 := area_end s q, a_ib0 := q\<rparr>) s' qs = gap_ahead lost w s (q # qs)"
    "same_at h s s'" "owned s' = owned s"
    "area_end s q + 48 = a_b0 w"
proof -
  define v where "v = walk_view lost w s"
  note w = walk_okD [OF W, folded v_def] note I = inv_atD [OF w(1)] note H = walk_hdr [OF W, folded v_def]
  note Q = walk_next [OF W, folded v_def] note d = blocks_okD [OF I(2)]
  let ?b = "a_b0 w" and ?i = "a_ib0 w" and ?l = "area_end s q" let ?e = "?b + 16 + k"
  have bi: "?b = ?i + 32" "\<not> lost" using w(12) [of q] q(2) by simp_all
  have H7: "hdrs s y = v y" if "y \<noteq> ?e" for y using H(7) that bi(2) by blast
  have i: "?i \<in> blks s" "bsz v ?i = 16" "\<not> bfr v ?i" using I(4-6) [OF w(2)] by simp_all
  have nx: "nxt v ?l = ?i" "nxt v ?i = ?b" "nxt v ?b = ?e" using H(6) i(2) Q(7) q(2) bi by (simp_all add: nxt_def)
  have e: "?e \<in> blks s" "\<not> bpf v ?e" using d(6,7) [OF H(1)] H(2-4) nx(3) by simp_all
  have lf: "\<not> bfr v ?l" using d(5) [OF Q(6)] Q(7) by blast
  have N48: "bsz v ?l + bsz v ?i + bsz v ?b + 32 = k + 48" using H(3) Q(7) i(2) by simp
  note row = row_size [OF I(2,3) Q(6) i(1) H(1) nx, unfolded N48]
  have so: "size_ok (k + 48)" "k + 48 < 1073741824" by (rule row)+
  have el: "?e = ?l + 16 + (k + 48)" "?l \<noteq> ?e" "?l \<noteq> ?b" "?l \<noteq> ?i" using row(4) bi q(2) by simp_all
  obtain s1 where s1: "unlink_area w s = Inr (w\<lparr>a_ptr := start qs 0\<rparr>, s1)" "area_list s1 (ps @ qs)" "area_end s1 = area_end s"
    and f1: "hdrs s1 = hdrs s" "in_pool s1 = in_pool s" "lists_ok s1 = lists_ok s" "\<And>F n. listed s1 F n = listed s F n"
    "owned s1 = owned s" "blks s1 = blks s" "areas s1 = areas s"
    "bytes_only (link_bytes (areas s)) s s1"
    by (rule walk_unlink [OF W]) (rule that)
  let ?g = "\<lambda>x. ROUNDDOWN_SIZE (word_of_nat k + 48) OR (x AND PREV_STATE)" and ?u = "\<lambda>h. h\<lparr>prev_hdr := ?l\<rparr>"
  have ip: "in_pool s1 ?l 16" "in_pool s1 ?e 16" "in_pool s1 ?b 16" "in_pool s1 ?i 16"
    using H(10) [OF Q(6)] H(10) [OF e(1)] H(10) [OF H(1)] H(10) [OF i(1)] f1(2) by simp_all
  have wl: "?g (snd (hdrs s1 ?l)) = hword (k + 48) False (bpf v ?l)"
  proof -
    have "snd (hdrs s1 ?l) = hword 0 False (bpf v ?l)" using H7 [OF el(2)] d(4) [OF Q(6)] Q(7) lf f1(1) by simp
    moreover have "size_ok 0" by (simp add: size_ok_def)
    ultimately show ?thesis using rounddown_sum [OF so(1)] hword_ops(5) [OF _ so(1)] hword_word by metis
  qed
  obtain s2 where s2: "upd_hdr ?l (\<lambda>h. h\<lparr>bsize := ?g (bsize h)\<rparr>) s1 = Inr s2" "hframe s1 s2"
      "hdrs s2 = (hdrs s1)(?l := (fst (hdrs s1 ?l), ?g (snd (hdrs s1 ?l))))" "bytes_only (header_bytes {?l}) s1 s2"
    by (rule word_spec [OF ip(1) refl, of ?g]) (rule that)
  note f2 = hframeD [OF s2(2)]
  obtain s3 where s3: "upd_hdr ?e ?u s2 = Inr s3" "hframe s2 s3"
      "hdrs s3 = (hdrs s2)(?e := (prev_hdr (?u (mem s2 ?e)), bsize (?u (mem s2 ?e))))" "bytes_only (header_bytes {?e}) s2 s3"
    by (rule upd_hdr_spec [of s2 ?e ?u]) (simp_all add: f2(6) ip(2) that)
  note f3 = hframeD [OF s3(2)]
  define s4 where "s4 = s3\<lparr>blks := blks s3 - {?i, ?b}, areas := areas s3 - {?i}\<rparr>"
  define w' where "w' = w\<lparr>a_ptr := start qs 0, a_b0 := ?l, a_ib0 := q\<rparr>"
  have run: "merge_area w s = Inr (w', s4)"
  proof -
    have "bsize (mem s1 ?b) AND BLOCK_SIZE = word_of_nat k" "bsize (mem s1 ?i) AND BLOCK_SIZE = 16"
      using H(3) H(9) [OF H(1)] H(9) [OF i(1)] i(2) f1(1) by (simp_all add: hdrs_sel)
    moreover have "bsize (mem s2 ?l) AND BLOCK_SIZE = word_of_nat (k + 48)"
      using s2(3) wl so(1) by (simp add: hdrs_sel del: of_nat_add)
    moreover have "GET_NEXT_BLOCK (?l + 16) (word_of_nat (k + 48)) = ?e"
      using el(1) so(2) by (simp add: GET_NEXT_BLOCK_def unat_of_nat del: of_nat_add)
    moreover have "get_hdr q s = Inr (mem s q)" "get_hdr ?b s1 = Inr (mem s1 ?b)" "get_hdr ?i s1 = Inr (mem s1 ?i)"
        "get_hdr ?l s2 = Inr (mem s2 ?l)"
      using H(10) [OF Q(3)] ip f2(6) by simp_all
    ultimately show ?thesis using s1(1) s2(1) s3(1) q Q(9,12,17,20)
      by (simp add: merge_area_def Let_def s4_def w'_def area_end_def USED_BLOCK_def PREV_USED_def add.commute [of 48] del: of_nat_add)
  qed
  let ?v' = "walk_view lost w' s4"
  have h4: "hdrs s4 = (hdrs s)(?l := (fst (hdrs s ?l), hword (k + 48) False (bpf v ?l)), ?e := (?l, snd (hdrs s ?e)))"
    using s2(3) s3(3) wl f1(1) el(2) by (simp add: s4_def hdrs_sel fun_eq_iff)
  have v': "?v' = (hdrs s4)(?e := (?l, snd (v ?e)))"
  proof -
    have "nxt (hdrs s4) ?l = ?e" using h4 el so by (simp add: nxt_def bsz_def)
    then show ?thesis using h4 H(8) bi(2) unfolding walk_view_def hdrs_calm by (simp add: w'_def)
  qed
  have vl: "?v' ?l = (fst (v ?l), hword (k + 48) False (bpf v ?l))" using el(2) H7 [OF el(2)] by (simp add: v' h4)
  have other: "?v' x = v x" if "x \<in> blks s - {?i, ?b}" "x \<noteq> ?l" "x \<noteq> ?e" for x
    using that H7 [of x] by (simp add: v' h4)
  have s4: "lists_ok s4" "\<And>F n. listed s4 F n = listed s F n" "owned s4 = owned s" "blks s4 = blks s - {?i, ?b}"
      "areas s4 = areas s - {?i, ?b}" "area_part s4 = area_part s1"
    using I(1) f1 f2 f3 Diff_insert_absorb2 [OF H(5)] by (simp_all add: s4_def area_part_def)
  note ends = area_part_cong [OF s4(6), unfolded s1(3)]
  let ?f = "(area_end s)(?i := a_lb0 w)"
  have bij: "bij_betw ((area_end s4)(a_ib0 w' := a_lb0 w')) (areas s4) ({x \<in> blks s. bsz v x = 0} - {?l, ?i, ?b})"
  proof -
    have "bij_betw (?f(q := ?f ?i)) (areas s - {?i}) ({x \<in> blks s. bsz v x = 0} - {?f q})"
      by (rule bij_betw_drop [OF I(7) Q(1) w(2) Q(2)])
    moreover have "{x \<in> blks s. bsz v x = 0} - {?f q} = {x \<in> blks s. bsz v x = 0} - {?l, ?i, ?b}"
      using H(3,4) i(2) Q(2) by auto
    moreover have "areas s4 = areas s - {?i}" using s4(5) H(5) by auto
    moreover have "bij_betw (?f(q := ?f ?i)) (areas s - {?i}) S = bij_betw ((area_end s)(q := a_lb0 w)) (areas s - {?i}) S" for S
      by (rule bij_betw_cong) simp
    ultimately show ?thesis using ends(1) by (simp add: w'_def)
  qed
  have J: "inv_at ?v' ((area_end s4)(a_ib0 w' := a_lb0 w')) s4"
      "held_at ?v' s4 = (held_at v s)(?l + 16 \<mapsto> k + 48, ?i + 16 := None, ?b + 16 := None)" "nxt ?v' ?l = ?e"
    by (rule inv_join [OF w(1) Q(6) i(1) H(1) e(1) lf i(3) H(2) Q(8) e(2) nx, unfolded N48, OF vl _ other s4(1-5) bij];
        simp add: v')+
  have "walk_ok lost h (k + 48) w' s4 ps qs"
    unfolding walk_ok_def
  proof (intro conjI)
    show "inv_at ?v' ((area_end s4)(a_ib0 w' := a_lb0 w')) s4" by (rule J)
    show "a_ib0 w' \<in> areas s4" using Q(1,2) H(5) s4(5) by (auto simp: w'_def)
    have hl: "h (?l + 16) = None" and "h (?i + 16) = None"
      using held_none [of ?l s v] held_none [of ?i s v] Q(7) w(2) H(5) el(3) unfolding w(3) by (auto split: if_splits)
    then show "held_at ?v' s4 = h(a_b0 w' + 16 \<mapsto> k + 48)"
      using w(4) el(3,4) bi unfolding J(2) w(3) by (auto simp: w'_def fun_eq_iff)
    show "h (a_b0 w' + 16) = None" using hl by (simp add: w'_def)
    show "area_list s4 (ps @ qs)" using s1(2) ends(2) by simp
    show "set (ps @ qs) = areas s4 - {a_ib0 w'}" using H(5) Q(19) s4(5) by (auto simp: w'_def)
    show "\<forall>a\<in>set (ps @ qs). \<forall>c\<in>set (ps @ qs). a \<noteq> c \<longrightarrow> area_end s4 a + 16 \<noteq> c" using w(9) by (simp add: ends)
    show "\<forall>a\<in>set ps. area_end s4 a + 16 \<noteq> a_ib0 w' \<and> a \<noteq> a_lb0 w' + 16"
      using w(10) Q(22) by (simp add: ends w'_def)
    show "\<forall>p\<in>set qs. p = a_lb0 w' + 16 \<longrightarrow> a_lb0 w' = nxt ?v' (a_b0 w')"
      using J(3) w(11) nx(3) by (simp add: w'_def)
    show "lost \<longrightarrow> bpf ?v' (a_b0 w') \<and> \<not> bpf (hdrs s4) (a_b0 w') \<and> (\<forall>a\<in>set qs. area_end s4 a + 16 \<noteq> a_ib0 w' \<and> a \<noteq> a_lb0 w' + 16)" using bi(2) by simp
    show "\<forall>p\<in>set qs. area_end s4 p + 16 = a_ib0 w' \<longrightarrow> a_b0 w' = a_ib0 w' + 32"
      using Q(22) by (simp add: ends w'_def)
    have A: "areas s4 = areas s - {?i}" using s4(5) H(5) by auto
    show "cover (owned s4) (areas s4) ((area_end s4)(a_ib0 w' := a_lb0 w'))"
      unfolding A s4(3)
      by (rule cover_cong [OF cover_join [OF w(13) Q(1) w(2)]]) (use q Q(2) in \<open>simp_all add: ends w'_def\<close>)
  qed (use w(8) in \<open>simp_all add: w'_def\<close>)
  moreover have "same_at h s s4"
  proof (rule same_atI [OF w(1,3,4)])
    have "bytes_only (header_bytes (blks s) \<union> link_bytes (areas s)) s s3"
      by (rule bytes_only_trans [OF bytes_only_trans [OF bytes_only_right [OF f1(8)] bytes_only_header [OF s2(4) Q(6)]]
          bytes_only_header [OF s3(4) e(1)]])
    then show "bytes_only (header_bytes (blks s) \<union> link_bytes (areas s)) s s4" by (simp add: bytes_only_def s4_def)
  qed
  moreover have "gap_ahead lost w' s4 qs = gap_ahead lost w s (q # qs)"
  proof -
    have D: "distinct (q # qs)" using w(5) by (simp add: area_list_def)
    have "\<not> bpf v ?b" using d(7) [OF i(1)] i(2,3) nx(2) by simp
    moreover have "us = [] \<and> p = q \<and> vs = qs" if "q # qs = us @ p # vs" "area_end s p + 16 = ?i" for us p vs
    proof -
      have p: "p \<in> areas s" "p \<noteq> ?i" using that(1) Q(1,2,19) by (cases us; auto)+
      then have "p = q" using I(7) Q(1,2) that(2) q(2) unfolding bij_betw_def inj_on_def by (metis fun_upd_apply add_right_cancel)
      then show ?thesis using D that(1) by (cases us) auto
    qed
    then have "(\<exists>us p vs. q # qs = us @ p # vs \<and> area_end s p + 16 = ?i \<and> a_lb0 w + 16 \<in> set vs \<and> bpf v (area_end s p)) \<longleftrightarrow>
        a_lb0 w + 16 \<in> set qs \<and> bpf v ?l" using q(2) by (metis append_Nil)
    moreover have "bpf ?v' ?l = bpf v ?l" using vl so(1) by (simp add: bpf_def)
    moreover have "\<not> (\<exists>us p vs. qs = us @ p # vs \<and> area_end s4 p + 16 = q \<and> a_lb0 w + 16 \<in> set vs \<and> bpf ?v' (area_end s4 p))"
      using Q(22) by (force simp: ends)
    moreover have w's: "a_b0 w' = ?l" "a_ib0 w' = q" "a_lb0 w' = a_lb0 w" by (simp_all add: w'_def)
    ultimately show ?thesis using bi(2) unfolding gap_ahead_def v_def [symmetric] w's by argo
  qed
  ultimately show thesis using that [OF run [unfolded w'_def] _ _ _ s4(3)] bi q(2) by (simp add: w'_def)
qed

lemma pass_area:
  assumes W: "walk_ok lost h k w s ps (q # qs)" and q: "q \<noteq> a_lb0 w + 16" "area_end s q + 16 \<noteq> a_ib0 w"
  shows "merge_area w s = Inr (w\<lparr>a_prev := q + 16, a_ptr := start qs 0\<rparr>, s)"
    "walk_ok lost h k (w\<lparr>a_prev := q + 16, a_ptr := start qs 0\<rparr>) s (ps @ [q]) qs"
    "gap_ahead lost (w\<lparr>a_prev := q + 16, a_ptr := start qs 0\<rparr>) s qs = gap_ahead lost w s (q # qs)"
proof -
  note w = walk_okD [OF W] note Q = walk_next [OF W]
  have n: "ai_next (area s (q + 16)) = start qs 0" using w(5) by (simp add: area_list_def)
  have "get_hdr q s = Inr (mem s q)" using walk_hdr(10) [OF W Q(3)] by simp
  then show "merge_area w s = Inr (w\<lparr>a_prev := q + 16, a_ptr := start qs 0\<rparr>, s)"
    using q n Q(9,12) by (simp add: merge_area_def Let_def area_end_def)
  have v0: "walk_view lost (w\<lparr>a_prev := q + 16, a_ptr := start qs 0\<rparr>) s = walk_view lost w s" by (simp add: walk_view_def Let_def)
  have "(\<exists>us p vs. q # qs = us @ p # vs \<and> area_end s p + 16 = a_ib0 w \<and> a_lb0 w + 16 \<in> set vs \<and> bpf (walk_view lost w s) (area_end s p)) \<longleftrightarrow>
      (\<exists>us p vs. qs = us @ p # vs \<and> area_end s p + 16 = a_ib0 w \<and> a_lb0 w + 16 \<in> set vs \<and> bpf (walk_view lost w s) (area_end s p))"
    (is "?A = ?B")
  proof
    show ?B if ?A
    proof -
      obtain us p vs where u: "q # qs = us @ p # vs" "area_end s p + 16 = a_ib0 w" "a_lb0 w + 16 \<in> set vs"
          "bpf (walk_view lost w s) (area_end s p)" using \<open>?A\<close> by blast
      then obtain us' where "qs = us' @ p # vs" using q(2) by (cases us) auto
      then show ?thesis using u(2-4) by blast
    qed
    show ?A if ?B using \<open>?B\<close> by (metis append_Cons)
  qed
  then show "gap_ahead lost (w\<lparr>a_prev := q + 16, a_ptr := start qs 0\<rparr>) s qs = gap_ahead lost w s (q # qs)"
    using q(1) unfolding gap_ahead_def v0 by auto
  show "walk_ok lost h k (w\<lparr>a_prev := q + 16, a_ptr := start qs 0\<rparr>) s (ps @ [q]) qs"
    unfolding walk_ok_def
  proof (intro conjI)
    let ?w = "w\<lparr>a_prev := q + 16, a_ptr := start qs 0\<rparr>"
    have v: "walk_view lost ?w s = walk_view lost w s" by (rule v0)
    show "inv_at (walk_view lost ?w s) ((area_end s)(a_ib0 ?w := a_lb0 ?w)) s" "held_at (walk_view lost ?w s) s = h(a_b0 ?w + 16 \<mapsto> k)"
      using w(1,3) unfolding v by simp_all
    show "a_ib0 ?w \<in> areas s" "h (a_b0 ?w + 16) = None" using w(2,4) by simp_all
    have a: "(ps @ [q]) @ qs = ps @ q # qs" by simp
    show "area_list s ((ps @ [q]) @ qs)" "set ((ps @ [q]) @ qs) = areas s - {a_ib0 ?w}" unfolding a using w(5,6) by simp_all
    show "\<forall>a\<in>set ((ps @ [q]) @ qs). \<forall>c\<in>set ((ps @ [q]) @ qs). a \<noteq> c \<longrightarrow> area_end s a + 16 \<noteq> c"
      unfolding a using w(9) by blast
    show "\<forall>a\<in>set (ps @ [q]). area_end s a + 16 \<noteq> a_ib0 ?w \<and> a \<noteq> a_lb0 ?w + 16" using w(10) q by simp
    show "\<forall>p\<in>set qs. p = a_lb0 ?w + 16 \<longrightarrow> a_lb0 ?w = nxt (walk_view lost ?w s) (a_b0 ?w)"
      using w(11) unfolding v by auto
    show "lost \<longrightarrow> bpf (walk_view lost ?w s) (a_b0 ?w) \<and> \<not> bpf (hdrs s) (a_b0 ?w) \<and> (\<forall>a\<in>set qs. area_end s a + 16 \<noteq> a_ib0 ?w \<and> a \<noteq> a_lb0 ?w + 16)"
      using W unfolding v walk_ok_def by simp
    show "\<forall>p\<in>set qs. area_end s p + 16 = a_ib0 ?w \<longrightarrow> a_b0 ?w = a_ib0 ?w + 32" using w(12) by auto
    show "cover (owned s) (areas s) ((area_end s)(a_ib0 ?w := a_lb0 ?w))" using w(13) by simp
  qed simp_all
qed

subsection \<open>The operation\<close>

lemma walk_loop:
  assumes "walk_ok lost h k w s ps qs"
  shows "\<exists>w' s' k' ps'. merge_areas w s = Some (Inr (w', s')) \<and> walk_ok (gap_ahead lost w s qs) h k' w' s' ps' [] \<and>
    same_at h s s' \<and> owned s' = owned s \<and> a_b0 w' \<le> a_b0 w \<and> a_b0 w + k \<le> a_b0 w' + k'"
  using assms
proof (induction qs arbitrary: lost k w s ps)
  case Nil
  then have "merge_areas w s = Some (Inr (w, s))" using walk_okD(7) [OF Nil] by (simp add: merge_areas.simps)
  moreover have "same_at h s s" by (simp add: same_at_def)
  moreover have "gap_ahead lost w s [] = lost" by (simp add: gap_ahead_def)
  ultimately show ?case using Nil by auto
next
  case (Cons q qs)
  let ?G = "gap_ahead lost w s (q # qs)"
  have "\<exists>w' s' l' k' ps'. merge_area w s = Inr (w', s') \<and> walk_ok l' h k' w' s' ps' qs \<and> gap_ahead l' w' s' qs = ?G \<and>
      same_at h s s' \<and> owned s' = owned s \<and> a_b0 w' \<le> a_b0 w \<and> a_b0 w + k \<le> a_b0 w' + k'"
  proof -
    consider (behind) "q = a_lb0 w + 16" | (before) "q \<noteq> a_lb0 w + 16" "area_end s q + 16 = a_ib0 w"
      | (apart) "q \<noteq> a_lb0 w + 16" "area_end s q + 16 \<noteq> a_ib0 w" by blast
    then show ?thesis
    proof cases
      case behind
      let ?w = "w\<lparr>a_ptr := start qs 0, a_lb0 := area_end s q\<rparr>"
      obtain s' where "merge_area w s = Inr (?w, s')" "walk_ok ?G h (k + 48) ?w s' ps qs" "gap_ahead ?G ?w s' qs = ?G"
          "same_at h s s'" "owned s' = owned s"
        by (rule join_next_area [OF Cons.prems behind]) (rule that)
      then show ?thesis by (intro exI [of _ ?w] exI [of _ s'] exI [of _ ?G] exI [of _ "k + 48"] exI [of _ ps]) simp
    next
      case before
      let ?w = "w\<lparr>a_ptr := start qs 0, a_b0 := area_end s q, a_ib0 := q\<rparr>"
      obtain s' where "merge_area w s = Inr (?w, s')" "walk_ok lost h (k + 48) ?w s' ps qs" "gap_ahead lost ?w s' qs = ?G"
          "same_at h s s'" "owned s' = owned s" "area_end s q + 48 = a_b0 w"
        by (rule join_prev_area [OF Cons.prems before]) (rule that)
      then show ?thesis by (intro exI [of _ ?w] exI [of _ s'] exI [of _ lost] exI [of _ "k + 48"] exI [of _ ps]) simp
    next
      case apart
      note p = pass_area [OF Cons.prems apart]
      let ?w = "w\<lparr>a_prev := q + 16, a_ptr := start qs 0\<rparr>"
      show ?thesis using p
        by (intro exI [of _ ?w] exI [of _ s] exI [of _ lost] exI [of _ k] exI [of _ "ps @ [q]"]) (simp add: same_at_def)
    qed
  qed
  then obtain w1 s1 l1 k1 ps1 where 1: "merge_area w s = Inr (w1, s1)" "walk_ok l1 h k1 w1 s1 ps1 qs" "gap_ahead l1 w1 s1 qs = ?G"
      "same_at h s s1" "owned s1 = owned s" "a_b0 w1 \<le> a_b0 w" "a_b0 w + k \<le> a_b0 w1 + k1" by blast
  obtain w' s' k' ps' where 2: "merge_areas w1 s1 = Some (Inr (w', s'))" "walk_ok ?G h k' w' s' ps' []" "same_at h s1 s'"
      "owned s' = owned s1" "a_b0 w' \<le> a_b0 w1" "a_b0 w1 + k1 \<le> a_b0 w' + k'" using Cons.IH [OF 1(2)] unfolding 1(3) by blast
  have "merge_areas w s = Some (Inr (w', s'))"
    using 1(1) 2(1) walk_next(9) [OF Cons.prems] by (subst merge_areas.simps) simp
  moreover have "a_b0 w' \<le> a_b0 w" "a_b0 w + k \<le> a_b0 w' + k'" using 1(6,7) 2(5,6) by simp_all
  ultimately show ?case using 2(2,4) 1(5) same_at_trans [OF 1(4) 2(3)] by metis
qed

lemma or_and_not: "(x OR y) AND NOT y = x AND NOT y" for x y :: "'a::len word"
  by (rule bit_word_eqI) (auto simp: bit_and_iff bit_or_iff bit_not_iff)

text \<open>
  When the loop has overwritten the mark, \<^verbatim>\<open>free_ex\<close> does not merge the new block with the free block
  before it: the two stay beside each other.
\<close>

lemma free_ex_gap:
  assumes ok: "blocks_ok (owned s) (blks s) v" "small (owned s)" "lists_ok s" "listed s {x \<in> blks s. bfr v x} (bsz v)"
    and b: "b \<in> blks s" "\<not> bfr v b" "bsz v b \<noteq> 0" "bpf v b" and x: "x = nxt v b"
    and h: "hdrs s = v(b := (fst (v b), hword (bsz v b) False False), x := (fst (v x), hword (bsz v x) (bfr v x) q))"
  obtains s' where "free_ex (b + 16) s = Inr s'" "fst (v b) \<in> free_blocks s'" "nxt (hdrs s') (fst (v b)) = b" "b \<in> free_blocks s'"
    "in_pool s' = in_pool s"
proof -
  define e where "e = run_end v b" let ?c = "fst (v b)" and ?g = "bfr v x" and ?F = "{x \<in> blks s. bfr v x}"
  note d = blocks_okD [OF ok(1)] note R = free_run [OF ok(1,2) b(1-3), folded e_def x] note ip = block_in_pool [OF ok(1,2)]
  have c: "run_start v b = ?c" "?c \<in> blks s" "bfr v ?c" "nxt v ?c = b" using b(4) R(2,11) by (simp_all add: run_start_def)
  have ne: "x \<noteq> b" "e \<noteq> b" "?c \<noteq> b" "?c \<noteq> x" "?c \<noteq> e" using b(3) R(5) c(4) by (auto simp: nxt_def x)
  have eb: "e - b - 16 = (if ?g then bsz v b + 16 + bsz v x else bsz v b)" unfolding e_def run_end_def x by (simp add: nxt_def)
  have so: "size_ok (e - b - 16)" "e - b - 16 < 1073741824" "16 \<le> e - b - 16" "e = b + 16 + (e - b - 16)"
  proof -
    have d16: "16 dvd bsz v b" "16 dvd bsz v x" using d(3) [OF b(1)] d(3) [OF R(1)] by (simp_all add: size_ok_def)
    have "e - b - 16 \<le> e - ?c - 16" using R(4) c(1) by simp
    then show lt: "e - b - 16 < 1073741824" using R(8) c(1) by simp
    have "16 dvd e - b - 16" unfolding eb using d16 by auto
    then show "size_ok (e - b - 16)" using lt by (simp add: size_ok_def)
    have "16 \<le> bsz v b" using d16(1) b(3) by (intro dvd_imp_le) simp_all
    then show "16 \<le> e - b - 16" unfolding eb by simp
    then show "e = b + 16 + (e - b - 16)" by simp
  qed
  obtain s1 where s1: "upd_hdr b (\<lambda>h. h\<lparr>bsize := bsize h OR FREE_BLOCK\<rparr>) s = Inr s1" "hframe s s1"
      "hdrs s1 = (hdrs s)(b := (fst (hdrs s b), hword (bsz v b) False False OR FREE_BLOCK))" "bytes_only (header_bytes {b}) s s1"
    using word_spec [OF ip(1) [OF b(1)], of "hword (bsz v b) False False" "\<lambda>w. w OR FREE_BLOCK"] h ne(1) by auto
  note f1 = hframeD [OF s1(2)] note h1 = s1(3) [unfolded hword_ops(1) [OF d(3) [OF b(1)]]]
  have L1: "lists_ok s1" "listed s1 ?F (bsz v)" "b \<notin> ?F" "in_pool s1 b 32" using f1 ok(3,4) b(2) ip(2) [OF b(1,3)] by simp_all
  obtain s2 where s2: "null_links b s1 = Inr s2" "lists_ok s2" "frame s1 s2" "listed s2 ?F (bsz v)" "bytes_only (link_bytes {b}) s1 s2"
    using null_links_spec [OF L1] by blast
  note f2 = frameD [OF s2(3)]
  have ip2: "in_pool s2 y 16" if "y \<in> blks s" for y using ip(1) [OF that] f1 f2 by simp
  have w: "snd (hdrs s2 b) = hword (bsz v b) True False" "snd (hdrs s2 x) = hword (bsz v x) ?g q"
    using h1 h ne(1) f2(1) by simp_all
  obtain s3 where s3: "merge_next b s2 = Inr s3" "lists_ok s3" "listed s3 (if ?g then ?F - {x} else ?F) (bsz v)"
      "hdrs s3 = (if ?g then (hdrs s2)(b := (fst (hdrs s2 b), hword (bsz v b + 16 + bsz v x) True False)) else hdrs s2)"
      "blks s3 = (if ?g then blks s2 - {x} else blks s2)" "owned s3 = owned s2" "areas s3 = areas s2" "in_pool s3 = in_pool s2"
    by (rule merge_next_spec [OF s2(2,4) w(1) d(3) [OF b(1)] ip2 [OF b(1)] _ w(2) d(3) [OF R(1)] ip2 [OF R(1)]])
      (use R(1) ip(3) [OF R(1)] in \<open>auto simp: nxt_def x\<close>)
  have h3: "snd (hdrs s3 b) = hword (e - b - 16) True False" "\<And>y. y \<noteq> b \<Longrightarrow> y \<noteq> x \<Longrightarrow> hdrs s3 y = v y" "snd (hdrs s3 x) = snd (hdrs s2 x)"
    unfolding eb using s3(4) w ne(1) h1 h f2(1) by auto
  have ip3: "in_pool s3 y 16" if "y \<in> blks s" for y using ip2 [OF that] s3(8) by simp
  have "\<not> wprev (hword (e - b - 16) True False)" using so(1) by simp
  then have mp: "merge_prev b s3 = Inr (b, s3)"
    using h3(1) ip3 [OF b(1)] so(1) by (simp add: merge_prev_def hdrs_sel)
  obtain fl sl where cl: "map_insert (word_of_nat (e - b - 16)) = Inr (fl, sl)" "class_of (e - b - 16) = (fl, sl)" "fl < 24" "sl < 32"
    using class_of_spec [OF so(2)] by blast
  have ip32: "in_pool s3 b 32" using ip(2) [OF b(1,3)] s3(8) f1 f2 by simp
  have bF: "b \<notin> (if ?g then ?F - {x} else ?F)" using b(2) by simp
  obtain s5 where s5: "INSERT_BLOCK b fl sl s3 = Inr s5" "lists_ok s5" "frame s3 s5"
    using put_spec [OF s3(2,3) bF cl(2-4) ip32] by blast
  note f5 = frameD [OF s5(3)]
  let ?u = "\<lambda>t. t\<lparr>bsize := bsize t OR PREV_FREE, prev_hdr := b\<rparr>"
  have ipe: "in_pool s5 e 16" using ip3 [OF R(3)] f5 by simp
  obtain s6 where s6: "upd_hdr e ?u s5 = Inr s6" "hframe s5 s6"
      "hdrs s6 = (hdrs s5)(e := (prev_hdr (?u (mem s5 e)), bsize (?u (mem s5 e))))"
    using upd_hdr_spec [OF ipe, of ?u] by auto
  note f6 = hframeD [OF s6(2)]
  have run: "free_ex (b + 16) s = Inr s6"
  proof -
    have "unat (word_of_nat (e - b - 16) :: u64) = e - b - 16" using so(2) by (intro unat_word_of_nat_u64) simp
    then have "GET_NEXT_BLOCK (b + 16) (word_of_nat (e - b - 16)) = e" unfolding GET_NEXT_BLOCK_def using so(4) by simp
    moreover have "bsize (mem s3 b) AND BLOCK_SIZE = word_of_nat (e - b - 16)" using h3(1) so(1) by (simp add: hdrs_sel)
    ultimately show ?thesis using s1(1) s2(1) s3(1) mp cl(1) s5(1) s6(1) ip3 [OF b(1)] by (simp add: free_ex_def Let_def)
  qed
  have B: "b \<in> blks s6" "?c \<in> blks s6" using b(1) c(2) ne s3(5) by (simp_all add: f1 f2 f5 f6)
  have "snd (hdrs s6 b) = hword (e - b - 16) True False" "hdrs s6 ?c = v ?c"
    using s6(3) ne h3(1,2) f5(1) by simp_all
  then show thesis using that [OF run] B c(3,4) so(1) s3(8) by (simp add: free_blocks_def bfr_def nxt_def bsz_def f1 f2 f5 f6)
qed

lemma insert_area_spec:
  assumes W: "walk_ok False h k w s ps []"
  obtains s' n where "insert_area w s = Inr (word_of_nat n, s')" "tlsf_inv s'" "areas_ok s'" "tlsf_held s' = h" "same_at h s s'"
    "owned s' = owned s" "\<exists>c\<in>free_blocks s'. c \<le> a_b0 w \<and> c + bsz (hdrs s') c = a_b0 w + n" "k \<le> n" "n < 1073741824"
    "area_list s' (a_ib0 w # ps)" "areas s' = areas s" "area_end s' = (area_end s)(a_ib0 w := a_lb0 w)"
proof -
  note w = walk_okD [OF W] note H = walk_hdr [OF W]
  let ?a = "a_ib0 w + 16" and ?b = "a_b0 w" let ?x = "nxt (hdrs s) ?b"
  define s0 where "s0 = (set_area ?a \<lparr>ai_end = a_lb0 w, ai_next = area_head s\<rparr> s)\<lparr>area_head := ?a\<rparr>"
  have h0: "hdrs s0 = hdrs s" "blks s0 = blks s" "areas s0 = areas s" "owned s0 = owned s" "lists_ok s0 = lists_ok s"
      "\<And>F n. listed s0 F n = listed s F n"
    by (simp_all add: s0_def)
  have v: "hdrs (calm ?x s0) = walk_view False w s" by (simp add: walk_view_def hdrs_calm h0(1))
  have e: "area_end s0 = (area_end s)(a_ib0 w := a_lb0 w)" by (simp add: s0_def area_end_def fun_eq_iff)
  have inv: "tlsf_inv (calm ?x s0)" using w(1) unfolding inv_at_calm v e inv_at_def h0 .
  have held: "tlsf_held (calm ?x s0) = h(?b + 16 \<mapsto> k)"
    using w(3) unfolding inv_at_calm v by (simp add: held_at_def h0 fun_eq_iff)
  have x: "?x = nxt (hdrs s0) ?b" by (simp add: h0(1))
  have p: "tlsf_held (calm ?x s0) (?b + 16) = Some k" by (simp add: held)
  obtain s' n where s': "free_ex (?b + 16) s0 = Inr s'" "tlsf_inv s'" "tlsf_held s' = (tlsf_held (calm ?x s0))(?b + 16 := None)"
      "bytes_kept (?b + 16) (calm ?x s0) s'" "owned s' = owned s0" "areas s' = areas s0" "area_part s' = area_part s0"
      "\<exists>c\<in>free_blocks s'. c \<le> ?b \<and> c + bsz (hdrs s') c = ?b + n" "k \<le> n" "n < 1073741824" "bsize (mem s' ?b) AND BLOCK_SIZE = word_of_nat n"
    by (rule free_ex_calm [OF x inv p]) (rule that)
  have "in_pool s' ?b 16" using H(10) [OF H(1)] s'(5) h0(4) by (simp add: in_pool_def)
  then have run: "insert_area w s = Inr (word_of_nat n, s')"
    using H(11) [OF w(2)] s'(1,11) by (simp add: insert_area_def upd_area_def Let_def s0_def)
  have "set ps = areas s - {a_ib0 w}" using w(6) by simp
  then have S: "areas s = insert (a_ib0 w) (set ps)" "a_ib0 w \<notin> set ps" using w(2) by blast+
  then have l: "area_list s0 (a_ib0 w # ps)" using w(5) by (simp add: area_list_def s0_def)
  have ok: "areas_ok s'"
  proof -
    have "area_end s0 a + 16 \<noteq> c" if "a \<in> areas s" "c \<in> areas s" "a \<noteq> c" for a c
    proof -
      note ac = that
      have "a = a_ib0 w \<or> a \<in> set ps" "c = a_ib0 w \<or> c \<in> set ps" using that(1,2) S(1) by simp_all
      then consider "a = a_ib0 w" "c \<in> set ps" | "c = a_ib0 w" "a \<in> set ps" | "a \<in> set ps" "c \<in> set ps" "a \<noteq> a_ib0 w"
        using ac(3) S(2) by metis
      then show ?thesis
      proof cases
        case 1
        then show ?thesis using w(10) [of c] by (simp add: e)
      next
        case 2
        then show ?thesis using w(10) [of a] that(3) by (simp add: e)
      next
        case 3
        then show ?thesis using w(9) [of a c] that(3) by (simp add: e)
      qed
    qed
    moreover have "set (a_ib0 w # ps) = areas s" using S(1) by simp
    ultimately show ?thesis
      using l area_part_cong [OF s'(7)] w(13) s'(5) h0(4) unfolding areas_ok_def s'(6) h0(3) by (auto simp: e)
  qed
  have "same_at h s s0"
  proof (rule same_atI [OF w(1,3,4)])
    have "bytes_only {?a..<?a + 16} s (set_area ?a \<lparr>ai_end = a_lb0 w, ai_next = area_head s\<rparr> s)" by (rule set_bytes_only)
    then have "bytes_only {?a..<?a + 16} s s0" by (simp add: bytes_only_def s0_def)
    then show "bytes_only (header_bytes (blks s) \<union> link_bytes (areas s)) s s0"
      by (rule bytes_only_mono) (use w(2) in \<open>auto simp: link_bytes_def\<close>)
  qed
  moreover have "same_at h s0 s'"
  proof -
    have "p \<noteq> ?b + 16 \<and> tlsf_held (calm ?x s0) p = Some m" if "h p = Some m" for p m using that w(4) held by auto
    then show ?thesis using s'(4) unfolding same_at_def bytes_kept_def by (simp add: calm_def)
  qed
  ultimately have same: "same_at h s s'" by (rule same_at_trans)
  have "tlsf_held s' = h" using s'(3) held w(4) by auto
  then show thesis
    by (rule that [OF run s'(2) ok _ same _ s'(8-10)]) (use l s'(5,6) h0(3,4) area_part_cong [OF s'(7)] e in simp_all)
qed

lemma insert_area_gap:
  assumes W: "walk_ok True h k w s ps []"
  obtains n s' b where "insert_area w s = Inr (n, s')" "b \<in> free_blocks s'" "nxt (hdrs s') b \<in> free_blocks s'"
proof -
  define v where "v = walk_view True w s"
  note w = walk_okD [OF W, folded v_def] note I = inv_atD [OF w(1)] note H = walk_hdr [OF W, folded v_def] note d = blocks_okD [OF I(2)]
  let ?a = "a_ib0 w + 16" and ?b = "a_b0 w" let ?x = "nxt v ?b"
  define s0 where "s0 = (set_area ?a \<lparr>ai_end = a_lb0 w, ai_next = area_head s\<rparr> s)\<lparr>area_head := ?a\<rparr>"
  have h0: "hdrs s0 = hdrs s" "blks s0 = blks s" "owned s0 = owned s" "lists_ok s0 = lists_ok s"
      "\<And>F n. listed s0 F n = listed s F n"
    by (simp_all add: s0_def)
  have x: "?x = ?b + 16 + k" "?x \<in> blks s" using H(1-4,6) d(6) [OF H(1)] by simp_all
  have wx: "snd (hdrs s ?x) = hword (bsz v ?x) (bfr v ?x) (bit (snd (hdrs s ?x)) 1)"
  proof -
    have "snd (v ?x) = hword (bsz v ?x) (bfr v ?x) False" using d(4) [OF x(2)] d(7) [OF H(1)] H(2-4) by metis
    then show ?thesis using word_claim d(3) [OF x(2)] H(8) x(1) by simp
  qed
  have wb: "snd (hdrs s ?b) = hword (bsz v ?b) False False"
  proof -
    have n: "size_ok (bsz v ?b)" using d(3) [OF H(1)] .
    have "snd (hdrs s ?b) OR PREV_FREE = hword (bsz v ?b) False True" using d(4) [OF H(1)] H(2,12) w(14) by simp
    then have "snd (hdrs s ?b) AND NOT PREV_FREE = hword (bsz v ?b) False False"
      using or_and_not [of "snd (hdrs s ?b)" PREV_FREE] hword_ops(4) [OF n] by metis
    from word_claim [OF this n] show ?thesis using w(14) by (simp add: bpf_def wprev_def)
  qed
  have hs: "hdrs s0 = v(?b := (fst (v ?b), hword (bsz v ?b) False False),
      ?x := (fst (v ?x), hword (bsz v ?x) (bfr v ?x) (bit (snd (hdrs s ?x)) 1)))"
  proof
    fix y
    consider "y = ?x" | "y = ?b" "?b \<noteq> ?x" | "y \<noteq> ?x" "y \<noteq> ?b" by blast
    then show "hdrs s0 y = (v(?b := (fst (v ?b), hword (bsz v ?b) False False),
      ?x := (fst (v ?x), hword (bsz v ?x) (bfr v ?x) (bit (snd (hdrs s ?x)) 1)))) y"
      using wx wb H(7) [of y] H(8,12) x(1) unfolding h0(1) by cases (simp_all add: prod_eq_iff)
  qed
  obtain s' where s': "free_ex (?b + 16) s0 = Inr s'" "fst (v ?b) \<in> free_blocks s'" "nxt (hdrs s') (fst (v ?b)) = ?b" "?b \<in> free_blocks s'"
      "in_pool s' = in_pool s0"
    by (rule free_ex_gap [where s = s0, unfolded h0(2-5), OF I(2,3,1,8) H(1,2) _ _ refl hs [unfolded]])
      (use H(3,4) w(14) that in auto)
  have "in_pool s' ?b 16" using H(10) [OF H(1)] s'(5) by (simp add: in_pool_def s0_def)
  then have "\<exists>n. insert_area w s = Inr (n, s')"
    using H(11) [OF w(2)] s'(1) by (simp add: insert_area_def upd_area_def Let_def s0_def)
  then show thesis using that s'(2-4) by metis
qed

text \<open>Clearing the new memory changes nothing of the pool: it does not overlap what the pool owns.\<close>

lemma clear_area_inv:
  assumes inv: "tlsf_inv s" and new: "\<forall>x. ar \<le> x \<and> x < ar + unat sz \<longrightarrow> \<not> owned s x"
    and sm: "card (Collect (owned s)) + unat sz < 1073741824" and pos: "0 < unat sz"
  defines "t \<equiv> clear_area ar sz s"
  shows "tlsf_inv t" "tlsf_held t = tlsf_held s" "blks t = blks s" "areas t = areas s" "area_head t = area_head s"
    "owned t = (\<lambda>x. ar \<le> x \<and> x < ar + unat sz \<or> owned s x)" "small (owned t)"
    "a \<in> areas s \<Longrightarrow> area t (a + 16) = area s (a + 16)" "owned s x \<Longrightarrow> data t x = data s x"
    "b \<in> blks s \<Longrightarrow> hdrs t b = hdrs s b" "b \<in> blks s \<Longrightarrow> nxt (hdrs s) b \<le> ar \<or> ar + unat sz \<le> b"
proof -
  note I = tlsf_invD [OF inv] note d = blocks_okD [OF I(2)]
  let ?M = "\<lambda>x. ar \<le> x \<and> x < ar + unat sz \<or> owned s x"
  let ?u = "s\<lparr>owned := ?M\<rparr>" let ?W = "\<lambda>x. ar \<le> x \<and> x < ar + unat sz"
  have t: "t = set_bytes ?W (\<lambda>_. 0) ?u" by (simp add: t_def clear_area_def memset0_def)
  show "blks t = blks s" "areas t = areas s" "area_head t = area_head s" "owned t = ?M" by (simp_all add: t)
  have sm': "small ?M"
  proof -
    have "Collect ?M = {ar..<ar + unat sz} \<union> Collect (owned s)" by auto
    moreover have "card ({ar..<ar + unat sz} \<union> Collect (owned s)) \<le> unat sz + card (Collect (owned s))"
      using card_Un_le [of "{ar..<ar + unat sz}" "Collect (owned s)"] by simp
    ultimately show ?thesis using I(3) sm by (simp add: small_def)
  qed
  then show "small (owned t)" by (simp add: t)
  show "owned s x \<Longrightarrow> data t x = data s x" using new by (auto simp: t)
  have bo: "owned s x" if "b \<in> blks s" "b \<le> x" "x < nxt (hdrs s) b" for b x
    using d(2) [OF that(1)] that(2,3) by (simp add: spans_def)
  show "nxt (hdrs s) b \<le> ar \<or> ar + unat sz \<le> b" if b: "b \<in> blks s"
  proof (rule ccontr)
    assume c: "\<not> (nxt (hdrs s) b \<le> ar \<or> ar + unat sz \<le> b)"
    then have "ar \<le> max b ar" "max b ar < ar + unat sz" "b \<le> max b ar" "max b ar < nxt (hdrs s) b" using pos by (auto simp: nxt_def)
    then show False using new bo [OF b] by blast
  qed
  have hd: "hdrs ?u = hdrs s" by (simp add: hdrs_def fun_eq_iff)
  have same: "hdrs ?u = hdrs s" "links ?u = links s" "free_blocks ?u = free_blocks s" "tlsf_held ?u = tlsf_held s" "cells ?u = cells s"
    "area_end ?u = area_end s"
    by (simp_all add: hd links_def free_blocks_def tlsf_held_def cells_def area_end_def fun_eq_iff)
  have inv': "tlsf_inv ?u"
  proof -
    have "in_pool s x 32 \<Longrightarrow> in_pool ?u x 32" for x by (auto simp: in_pool_def)
    then have "class_ok s fl sl \<Longrightarrow> class_ok ?u fl sl" for fl sl by (auto simp: class_ok_def matrix_head_def same)
    then have "lists_ok ?u" using I(1) unfolding lists_ok_def by simp
    moreover have "blocks_ok ?M (blks s) (hdrs s)" by (rule layout_more [OF I(2)]) simp
    moreover have "ends_ok ?u" using I(4) by (simp add: ends_ok_def same)
    moreover have "listed ?u F n = listed s F n" for F n by (simp add: listed_def)
    ultimately show ?thesis using sm' I(7) unfolding tlsf_inv_def same by simp
  qed
  have "x \<notin> cells ?u" if x: "?W x" for x
  proof
    assume "x \<in> cells ?u"
    then obtain c where "c \<in> blks s" "c \<le> x" "x < nxt (hdrs s) c" using cells_within [OF inv] unfolding same by metis
    then show False using bo new x by blast
  qed
  note k = set_bytes_keeps [OF inv' this, where f = "\<lambda>_. 0"]
  show "tlsf_inv t" "tlsf_held t = tlsf_held s" using k(1,2) by (simp_all add: t same)
  show "a \<in> areas s \<Longrightarrow> area t (a + 16) = area s (a + 16)" using k(3) by (simp add: t same_areas_def)
  show "b \<in> blks s \<Longrightarrow> hdrs t b = hdrs s b" using k(5) by (simp add: t same)
qed

text \<open>
  The walk starts. The new area may lie between two others. \<^verbatim>\<open>add_new_area\<close> forgets the free block at
  the end of the first when it meets this one before the other: it joins the new block with the
  sentinel of the first, which says that its predecessor is free, and then overwrites the word.
\<close>

definition closes_gap :: "tlsf \<Rightarrow> nat \<Rightarrow> u64 \<Rightarrow> bool" where
  "closes_gap s ar sz \<longleftrightarrow> (\<exists>us p vs. area_list s (us @ p # vs) \<and> set (us @ p # vs) = areas s \<and> area_end s p + 16 = ar \<and>
     ar + area_room (unat sz) + 64 \<in> set vs \<and> bpf (hdrs s) (area_end s p))"

lemma area_list_unique: "area_list s xs \<Longrightarrow> area_list s ys \<Longrightarrow> xs = ys"
proof -
  have "start xs 0 = start ys 0 \<Longrightarrow> area_seg f xs 0 \<Longrightarrow> area_seg f ys 0 \<Longrightarrow> xs = ys" for f
  proof (induction xs arbitrary: ys)
    case Nil
    then show ?case by (cases ys) auto
  next
    case (Cons x xs)
    then show ?case by (cases ys) auto
  qed
  then show "area_list s xs \<Longrightarrow> area_list s ys \<Longrightarrow> xs = ys" by (auto simp: area_list_def)
qed

lemma closes_gap_touches: "closes_gap s ar sz \<Longrightarrow> ar + area_room (unat sz) + 64 \<in> areas s"
  unfolding closes_gap_def by auto

lemma walk_start:
  assumes inv: "tlsf_inv s" "areas_ok s" and sz: "80 \<le> unat sz" and ar: "0 < ar"
    and new: "\<forall>x. ar \<le> x \<and> x < ar + unat sz \<longrightarrow> \<not> owned s x"
    and sm: "card (Collect (owned s)) + unat sz < 1073741824"
  obtains w t xs where "new_area_walk ar sz s = Inr (w, t)" "walk_ok False (tlsf_held s) (area_room (unat sz)) w t [] xs"
    "gap_ahead False w t xs \<longleftrightarrow> closes_gap s ar sz" "area_list s xs" "set xs = areas s" "ar \<notin> areas s" "a_ib0 w = ar"
    "a_lb0 w = ar + 48 + area_room (unat sz)" "areas t = insert ar (areas s)" "\<And>a. a \<in> areas s \<Longrightarrow> area_end t a = area_end s a"
    "a_b0 w = ar + 32" "owned t = (\<lambda>x. ar \<le> x \<and> x < ar + unat sz \<or> owned s x)" "\<And>x. owned s x \<Longrightarrow> data t x = data s x"
proof -
  define c where "c = clear_area ar sz s" define n where "n = area_room (unat sz)"
  have pos: "0 < unat sz" and lt: "unat sz < 4294967296" using sz sm by simp_all
  note C = clear_area_inv [OF inv(1) new sm pos, folded c_def]
  note I = tlsf_invD [OF inv(1)]
  have sp: "spans (owned c) ar (ar + unat sz)" by (simp add: C(6) spans_def)
  have apart: "nxt (hdrs c) b \<le> ar \<or> ar + unat sz \<le> b" if "b \<in> blks c" for b
    using C(10,11) [of b] that C(3) by (simp add: nxt_def bsz_def)
  let ?x = "ar + 48 + n"
  obtain t where t: "process_area ar sz c = Inr (ar, t)" "tlsf_inv (calm ?x t)" "tlsf_held (calm ?x t) = (tlsf_held c)(ar + 48 \<mapsto> n)"
      "tlsf_held c (ar + 48) = None" "areas t = insert ar (areas c)" "ar \<notin> areas c" "owned t = owned c"
      "hdrs (calm ?x t) ar = (fst (hdrs t ar), hword 16 False False)"
      "hdrs (calm ?x t) (ar + 32) = (fst (hdrs t (ar + 32)), hword n False False)"
      "hdrs (calm ?x t) ?x = (ar + 32, hword 0 False False)"
      "\<And>x. x \<in> blks c \<Longrightarrow> hdrs (calm ?x t) x = hdrs c x"
      "area_part t = ((area c)(ar + 16 := \<lparr>ai_end = ?x, ai_next = 0\<rparr>), area_head c)" "bytes_only {ar..<ar + 64 + n} c t"
      "blks t = {ar, ar + 32, ?x} \<union> blks c"
    by (rule new_area_inv [OF C(1) sz lt ar sp apart, folded n_def]) (assumption, rule that)
  let ?w = "\<lparr>a_ptr = area_head s, a_prev = 0, a_ib0 = ar, a_b0 = ar + 32, a_lb0 = ?x\<rparr>"
  have ok: "size_ok n" "size_ok 16" using area_room_spec(1) [OF sz lt] by (simp_all add: n_def size_ok_def)
  have h: "snd (hdrs t ar) = hword 16 False False" "snd (hdrs t (ar + 32)) = hword n False False"
    using t(8,9) by (simp_all add: hdrs_calm prod_eq_iff split: if_splits)
  have v: "walk_view False ?w t = hdrs (calm ?x t)"
    using h(2) ok(1) by (simp add: walk_view_def nxt_def bsz_def add.commute [of 48])
  have far: "ar \<notin> areas s" "\<And>a. a \<in> areas s \<Longrightarrow> a + 16 \<noteq> ar + 16" using t(6) C(4) by auto
  have ends: "area_end t a = (if a = ar then ?x else area_end s a)" if "a = ar \<or> a \<in> areas s" for a
    using that t(12) C(8) [of a] far by (auto simp: area_end_def area_part_def)
  obtain xs where xs: "area_list s xs" "set xs = areas s" using inv(2) by (auto simp: areas_ok_def)
  have run: "new_area_walk ar sz s = Inr (?w, t)"
  proof -
    have "in_pool t ar 16" "in_pool t (ar + 32) 16"
      using sz ar by (auto simp: in_pool_def t(7) C(6))
    moreover have "bsize (mem t ar) AND BLOCK_SIZE = 16" "bsize (mem t (ar + 32)) AND BLOCK_SIZE = word_of_nat n"
      using h ok by (simp_all add: hdrs_sel)
    moreover have "GET_NEXT_BLOCK (ar + 16) 16 = ar + 32" "GET_NEXT_BLOCK (ar + 48) (word_of_nat n) = ?x"
      using ok(1) by (simp_all add: GET_NEXT_BLOCK_def size_ok_def unat_of_nat)
    ultimately show ?thesis using t(1) by (simp add: new_area_walk_def c_def [symmetric] Let_def add.commute [of 48])
  qed
  have b: "bsz (hdrs (calm ?x t)) (ar + 32) = n" "\<not> bpf (hdrs (calm ?x t)) (ar + 32)" using t(9) ok(1) by (simp_all add: bsz_def bpf_def)
  have gap: "gap_ahead False ?w t xs \<longleftrightarrow> closes_gap s ar sz"
  proof -
    have r: "area_end t p = area_end s p \<and> bpf (hdrs (calm ?x t)) (area_end s p) = bpf (hdrs s) (area_end s p)" if "p \<in> areas s" for p
    proof -
      have "area_end t p = area_end s p" using that ends far(1) by auto
      moreover have "area_end s p \<in> blks s" using that I(9) by blast
      then have "hdrs (calm ?x t) (area_end s p) = hdrs s (area_end s p)" using t(11) C(3,10) by simp
      ultimately show ?thesis by (simp add: bpf_def)
    qed
    have "closes_gap s ar sz \<longleftrightarrow> (\<exists>us p vs. xs = us @ p # vs \<and> area_end s p + 16 = ar \<and> ?x + 16 \<in> set vs \<and> bpf (hdrs s) (area_end s p))"
    proof -
      have e: "ar + area_room (unat sz) + 64 = ?x + 16" by (simp add: n_def)
      show ?thesis unfolding closes_gap_def e using xs area_list_unique by metis
    qed
    moreover have "gap_ahead False ?w t xs \<longleftrightarrow>
        (\<exists>us p vs. xs = us @ p # vs \<and> area_end t p + 16 = ar \<and> ?x + 16 \<in> set vs \<and> bpf (hdrs (calm ?x t)) (area_end t p))"
      using b(2) unfolding gap_ahead_def v by simp
    moreover have "\<dots> \<longleftrightarrow> (\<exists>us p vs. xs = us @ p # vs \<and> area_end s p + 16 = ar \<and> ?x + 16 \<in> set vs \<and> bpf (hdrs s) (area_end s p))"
    proof (intro ex_cong1 conj_cong refl)
      fix us p vs assume "xs = us @ p # vs"
      then have p: "p \<in> areas s" using xs(2) by auto
      show "(area_end t p + 16 = ar) = (area_end s p + 16 = ar)" "bpf (hdrs (calm ?x t)) (area_end t p) = bpf (hdrs s) (area_end s p)"
        using r [OF p] by simp_all
    qed
    ultimately show ?thesis by simp
  qed
  have W: "walk_ok False (tlsf_held s) n ?w t [] xs"
    unfolding walk_ok_def v
  proof (intro conjI)
    have "(area_end t)(ar := ?x) = area_end t" using ends [of ar] by (simp add: fun_eq_iff)
    then show "inv_at (hdrs (calm ?x t)) ((area_end t)(a_ib0 ?w := a_lb0 ?w)) t" using t(2) by (simp add: inv_at_calm)
    show "held_at (hdrs (calm ?x t)) t = (tlsf_held s)(a_b0 ?w + 16 \<mapsto> n)"
      using t(3) C(2) by (simp add: inv_at_calm add.commute [of 48])
    show "tlsf_held s (a_b0 ?w + 16) = None" using t(4) C(2) by (simp add: add.commute [of 48])
    show "a_ib0 ?w \<in> areas t" "set ([] @ xs) = areas t - {a_ib0 ?w}" using xs(2) t(5) C(4) far(1) by auto
    show "area_list t ([] @ xs)"
    proof -
      have "area_head t = area_head s" using t(12) C(5) by (simp add: area_part_def)
      moreover have "area t (a + 16) = area s (a + 16)" if "a \<in> set xs" for a
        using that xs(2) t(12) C(8) [of a] far by (auto simp: area_part_def)
      ultimately show ?thesis using xs(1) area_seg_cong [of xs "area t" "area s"] by (simp add: area_list_def)
    qed
    show "a_ptr ?w = start xs 0" using xs(1) by (simp add: area_list_def)
    show "\<forall>a\<in>set ([] @ xs). \<forall>c\<in>set ([] @ xs). a \<noteq> c \<longrightarrow> area_end t a + 16 \<noteq> c"
      using inv(2) xs(2) ends far(1) by (auto simp: areas_ok_def)
    show "\<forall>q\<in>set xs. q = a_lb0 ?w + 16 \<longrightarrow> a_lb0 ?w = nxt (hdrs (calm ?x t)) (a_b0 ?w)"
      using b by (simp add: nxt_def)
    have c: "cover (owned t) (insert ar (areas s)) ((area_end s)(ar := ?x))"
      unfolding t(7) C(6)
      by (rule cover_insert) (use inv(2) new area_room_spec [OF sz lt, folded n_def] in \<open>simp_all add: areas_ok_def\<close>)
    show "cover (owned t) (areas t) ((area_end t)(a_ib0 ?w := a_lb0 ?w))"
      unfolding t(5) C(4) by (rule cover_cong [OF c]) (use ends far in auto)
  qed simp_all
  show thesis
  proof (rule that [OF run [unfolded n_def] W [unfolded n_def] gap [unfolded n_def] xs far(1)])
    show "data t x = data s x" if x: "owned s x" for x
    proof -
      have "\<not> (ar \<le> x \<and> x < ar + unat sz)" using new x by blast
      then have "x \<notin> {ar..<ar + 64 + n}" using area_room_spec(3) [OF sz lt, folded n_def] by auto
      then show ?thesis using t(13) C(9) [OF x] by (simp add: bytes_only_def)
    qed
  qed (use t(5) C(4) ends far(1) in \<open>auto simp: t(7) C(6) n_def\<close>)
qed

lemma add_new_area_spec:
  assumes "tlsf_inv s" "areas_ok s" "80 \<le> unat sz" "0 < ar" "\<forall>x. ar \<le> x \<and> x < ar + unat sz \<longrightarrow> \<not> owned s x"
    "card (Collect (owned s)) + unat sz < 1073741824" "\<not> closes_gap s ar sz"
  obtains s' n where "add_new_area ar sz s = Some (Inr (word_of_nat n, s'))" "tlsf_inv s'" "areas_ok s'" "tlsf_held s' = tlsf_held s"
    "owned s' = (\<lambda>x. ar \<le> x \<and> x < ar + unat sz \<or> owned s x)" "same_at (tlsf_held s) s s'"
    "\<exists>c\<in>free_blocks s'. c \<le> ar + 32 \<and> ar + 32 + area_room (unat sz) \<le> c + bsz (hdrs s') c" "area_room (unat sz) \<le> n"
proof -
  obtain w t xs where 1: "new_area_walk ar sz s = Inr (w, t)" "walk_ok False (tlsf_held s) (area_room (unat sz)) w t [] xs" "\<not> gap_ahead False w t xs"
      "a_b0 w = ar + 32" "owned t = (\<lambda>x. ar \<le> x \<and> x < ar + unat sz \<or> owned s x)" "\<And>x. owned s x \<Longrightarrow> data t x = data s x"
    by (rule walk_start [OF assms(1-6)]) (use assms(7) that in simp)
  obtain w' t' k' ps' where 2: "merge_areas w t = Some (Inr (w', t'))" "walk_ok False (tlsf_held s) k' w' t' ps' []" "same_at (tlsf_held s) t t'"
      "owned t' = owned t" "a_b0 w' \<le> a_b0 w" "a_b0 w + area_room (unat sz) \<le> a_b0 w' + k'"
    using walk_loop [OF 1(2)] 1(3) by auto
  obtain s' n where 3: "insert_area w' t' = Inr (word_of_nat n, s')" "tlsf_inv s'" "areas_ok s'" "tlsf_held s' = tlsf_held s" "same_at (tlsf_held s) t' s'"
      "owned s' = owned t'" "\<exists>c\<in>free_blocks s'. c \<le> a_b0 w' \<and> c + bsz (hdrs s') c = a_b0 w' + n" "k' \<le> n" "n < 1073741824"
    by (rule insert_area_spec [OF 2(2)]) (rule that)
  have run: "add_new_area ar sz s = Some (Inr (word_of_nat n, s'))" using 1(1) 2(1) 3(1) by (simp add: add_new_area_def)
  show thesis
  proof (rule that [OF run 3(2-4)])
    obtain c where c: "c \<in> free_blocks s'" "c \<le> a_b0 w'" "c + bsz (hdrs s') c = a_b0 w' + n" using 3(7) by blast
    then have "c \<le> ar + 32" "ar + 32 + area_room (unat sz) \<le> c + bsz (hdrs s') c" using 3(8) 2(5,6) 1(4) by linarith+
    then show "\<exists>c\<in>free_blocks s'. c \<le> ar + 32 \<and> ar + 32 + area_room (unat sz) \<le> c + bsz (hdrs s') c" using c(1) by blast
    show "area_room (unat sz) \<le> n" using 3(8) 2(5,6) by linarith
    have "same_at (tlsf_held s) s t"
      unfolding same_at_def using 1(6) held_owned [OF assms(1)] by blast
    then show "same_at (tlsf_held s) s s'" by (rule same_at_trans [OF _ same_at_trans [OF 2(3) 3(5)]])
  qed (simp_all add: 3(6) 2(4) 1(5))
qed

lemma add_new_area_gap:
  assumes "tlsf_inv s" "areas_ok s" "80 \<le> unat sz" "0 < ar" "\<forall>x. ar \<le> x \<and> x < ar + unat sz \<longrightarrow> \<not> owned s x"
    "card (Collect (owned s)) + unat sz < 1073741824" "closes_gap s ar sz"
  shows "\<exists>n s'. add_new_area ar sz s = Some (Inr (n, s')) \<and> (\<exists>b\<in>free_blocks s'. nxt (hdrs s') b \<in> free_blocks s')"
proof -
  obtain w t xs where 1: "new_area_walk ar sz s = Inr (w, t)" "walk_ok False (tlsf_held s) (area_room (unat sz)) w t [] xs" "gap_ahead False w t xs"
    by (rule walk_start [OF assms(1-6)]) (use assms(7) that in simp)
  obtain w' t' k' ps' where 2: "merge_areas w t = Some (Inr (w', t'))" "walk_ok True (tlsf_held s) k' w' t' ps' []"
    using walk_loop [OF 1(2)] 1(3) by auto
  obtain n s' b where "insert_area w' t' = Inr (n, s')" "b \<in> free_blocks s'" "nxt (hdrs s') b \<in> free_blocks s'"
    by (rule insert_area_gap [OF 2(2)])
  moreover from this(1) have "add_new_area ar sz s = Some (Inr (n, s'))" using 1(1) 2(1) by (simp add: add_new_area_def)
  ultimately show ?thesis by blast
qed

text \<open>An area that touches no other is put in front of the list.\<close>

lemma walk_past:
  assumes "walk_ok lost h k w s ps qs" "\<And>q. q \<in> set qs \<Longrightarrow> q \<noteq> a_lb0 w + 16 \<and> area_end s q + 16 \<noteq> a_ib0 w"
  shows "\<exists>w'. merge_areas w s = Some (Inr (w', s)) \<and> walk_ok lost h k w' s (ps @ qs) [] \<and> a_ib0 w' = a_ib0 w \<and> a_lb0 w' = a_lb0 w"
  using assms
proof (induction qs arbitrary: w ps)
  case Nil
  then have "merge_areas w s = Some (Inr (w, s))" using walk_okD(7) [OF Nil(1)] by (simp add: merge_areas.simps)
  then show ?case using Nil by auto
next
  case (Cons q qs)
  let ?w = "w\<lparr>a_prev := q + 16, a_ptr := start qs 0\<rparr>"
  have "merge_area w s = Inr (?w, s)" "walk_ok lost h k ?w s (ps @ [q]) qs" using pass_area [OF Cons.prems(1)] Cons.prems(2) by simp_all
  then obtain w' where "merge_areas ?w s = Some (Inr (w', s))" "walk_ok lost h k w' s ((ps @ [q]) @ qs) []" "a_ib0 w' = a_ib0 w" "a_lb0 w' = a_lb0 w"
    using Cons.IH [of ?w "ps @ [q]"] Cons.prems(2) by auto
  then show ?case using \<open>merge_area w s = Inr (?w, s)\<close> walk_next(9) [OF Cons.prems(1)] by (subst merge_areas.simps) auto
qed

lemma add_new_area_apart:
  assumes "tlsf_inv s" "areas_ok s" "80 \<le> unat sz" "0 < ar" "\<forall>x. ar \<le> x \<and> x < ar + unat sz \<longrightarrow> \<not> owned s x"
    "card (Collect (owned s)) + unat sz < 1073741824" "area_list s xs"
    "\<And>a. a \<in> areas s \<Longrightarrow> area_end s a + 16 \<noteq> ar \<and> a \<noteq> ar + area_room (unat sz) + 64"
  obtains n s' where "add_new_area ar sz s = Some (Inr (n, s'))" "tlsf_inv s'" "areas_ok s'" "tlsf_held s' = tlsf_held s"
    "owned s' = (\<lambda>x. ar \<le> x \<and> x < ar + unat sz \<or> owned s x)" "area_list s' (ar # xs)" "areas s' = insert ar (areas s)"
    "area_end s' ar = ar + 48 + area_room (unat sz)" "\<And>a. a \<in> areas s \<Longrightarrow> area_end s' a = area_end s a"
proof -
  obtain w t ys where 1: "new_area_walk ar sz s = Inr (w, t)" "walk_ok False (tlsf_held s) (area_room (unat sz)) w t [] ys"
      "area_list s ys" "set ys = areas s" "ar \<notin> areas s" "a_ib0 w = ar" "a_lb0 w = ar + 48 + area_room (unat sz)" "areas t = insert ar (areas s)"
      "\<And>a. a \<in> areas s \<Longrightarrow> area_end t a = area_end s a" "owned t = (\<lambda>x. ar \<le> x \<and> x < ar + unat sz \<or> owned s x)"
    by (rule walk_start [OF assms(1-6)]) (rule that)
  have ys: "ys = xs" using area_list_unique [OF 1(3) assms(7)] .
  have far: "q \<noteq> a_lb0 w + 16 \<and> area_end t q + 16 \<noteq> a_ib0 w" if "q \<in> set xs" for q
    using assms(8) [of q] 1(4,6,7,9) that ys by (auto simp: ac_simps)
  obtain w' where 2: "merge_areas w t = Some (Inr (w', t))" "walk_ok False (tlsf_held s) (area_room (unat sz)) w' t xs []"
      "a_ib0 w' = ar" "a_lb0 w' = ar + 48 + area_room (unat sz)"
    using walk_past [OF 1(2) [unfolded ys] far] 1(6,7) by auto
  obtain s' n where 3: "insert_area w' t = Inr (word_of_nat n, s')" "tlsf_inv s'" "areas_ok s'" "tlsf_held s' = tlsf_held s"
      "owned s' = owned t" "area_list s' (ar # xs)" "areas s' = areas t" "area_end s' = (area_end t)(ar := ar + 48 + area_room (unat sz))"
    by (rule insert_area_spec [OF 2(2), unfolded 2(3,4)]) (rule that)
  have "add_new_area ar sz s = Some (Inr (word_of_nat n, s'))" using 1(1) 2(1) 3(1) by (simp add: add_new_area_def)
  then show thesis by (rule that [OF _ 3(2-4)]) (use 3(5-8) 1(5,8-10) in auto)
qed

text \<open>Without clients every area is one free block between its descriptor and its sentinel.\<close>

lemma areas_free:
  assumes inv: "tlsf_inv s" "areas_ok s" and none: "tlsf_held s = Map.empty"
  shows "a \<in> areas s \<Longrightarrow> a + 32 \<in> free_blocks s" "a \<in> areas s \<Longrightarrow> area_end s a = a + 48 + bsz (hdrs s) (a + 32)"
    "b \<in> free_blocks s \<Longrightarrow> \<exists>a\<in>areas s. b = a + 32"
proof -
  let ?v = "hdrs s"
  note I = tlsf_invD [OF inv(1)] note d = blocks_okD [OF I(2)]
  have C: "cover (owned s) (areas s) (area_end s)" using inv(2) by (simp add: areas_ok_def)
  note cov = coverD [OF C]
  have same: "a = c" if "a \<in> areas s" "c \<in> areas s" "a \<le> x" "x < area_end s a + 16" "c \<le> x" "x < area_end s c + 16" for a c x
    using cov(3) [OF that(1,2)] cov(3) [OF that(2,1)] that(3-6) by (cases a c rule: linorder_cases) auto
  have edge: "x = a \<or> x = area_end s a" if x: "x \<in> blks s" "\<not> bfr ?v x" "a \<in> areas s" "a \<le> x" "x \<le> area_end s a" for a x
  proof -
    have "x \<in> areas s \<or> bsz ?v x = 0" using fun_cong [OF none, of "x + 16"] x(1,2) by (auto simp: tlsf_held_def split: if_splits)
    then obtain c where c: "c \<in> areas s" "x = c \<or> x = area_end s c" using I(9) [of x] x(1) by auto
    have "a = c" by (rule same [OF x(3) c(1), of x]) (use x(4,5) c(2) cov(1) [OF c(1)] in auto)
    then show ?thesis using c(2) by blast
  qed
  have z: "area_end s a \<in> blks s" "bsz ?v (area_end s a) = 0" if "a \<in> areas s" for a using I(9) that by blast+
  have block: "a + 32 \<in> blks s \<and> bfr ?v (a + 32) \<and> nxt ?v (a + 32) = area_end s a" if a: "a \<in> areas s" for a
  proof -
    have n: "nxt ?v a = a + 32" using I(8) [OF a] by (simp add: nxt_def)
    have b: "a + 32 \<in> blks s" using d(6) [OF I(5) [OF a]] I(8) [OF a] n by simp
    moreover have f: "bfr ?v (a + 32)" using edge [OF b _ a] cov(1) [OF a] by fastforce
    moreover have "nxt ?v (a + 32) = area_end s a"
    proof -
      have x: "nxt ?v (a + 32) \<in> blks s" "\<not> bfr ?v (nxt ?v (a + 32))" using d(5,6,9) [OF b] f by blast+
      moreover have "nxt ?v (a + 32) \<le> area_end s a" using d(10) [OF b z(1) [OF a]] cov(1) [OF a] by simp
      moreover have "a < nxt ?v (a + 32)" by (simp add: nxt_def)
      ultimately show ?thesis using edge [OF x a] by auto
    qed
    ultimately show ?thesis by blast
  qed
  then show "a \<in> areas s \<Longrightarrow> a + 32 \<in> free_blocks s" for a by (simp add: free_blocks_def)
  show "area_end s a = a + 48 + bsz ?v (a + 32)" if "a \<in> areas s" using block [OF that] by (simp add: nxt_def)
  show "\<exists>a\<in>areas s. b = a + 32" if "b \<in> free_blocks s"
  proof -
    have b: "b \<in> blks s" "bfr ?v b" using that by (simp_all add: free_blocks_def)
    then have sp: "spans (owned s) b (nxt ?v b)" "16 \<le> bsz ?v b"
      using d(2,3,5) [OF b(1)] by (auto simp: size_ok_def intro!: dvd_imp_le)
    have "owned s (b + 31)" using sp by (simp add: spans_def nxt_def)
    from cov(4) [OF this] obtain a where a: "a \<in> areas s" "a \<le> b + 31" "b \<le> area_end s a" by auto
    note blk = block [OF a(1)]
    have "\<not> b < a" using d(10) [OF b(1) I(5) [OF a(1)]] a(2) sp(2) by (auto simp: nxt_def)
    moreover have "b \<noteq> a" using b(2) I(6) [OF a(1)] by auto
    ultimately have "a + 32 \<le> b" using d(10) [OF I(5) [OF a(1)] b(1)] I(8) [OF a(1)] by (simp add: nxt_def)
    moreover have "b \<noteq> area_end s a" using b(2) d(5) [OF z(1) [OF a(1)]] z(2) [OF a(1)] by auto
    ultimately show ?thesis using d(10) [of "a + 32" b] b(1) blk a(1,3) by (cases "b = a + 32") auto
  qed
qed

end
