(* ===== verification/Tlsf_Realloc.thy ===== *)
theory Tlsf_Realloc
  imports Tlsf_Free
begin

text \<open>
  \<^verbatim>\<open>realloc_ex\<close> and \<^verbatim>\<open>calloc_ex\<close>. A block that is resized in place is first joined with a free
  block behind it and then split; otherwise its bytes are copied to a new block.
\<close>

subsection \<open>Joining a used block with the free block behind it\<close>

definition joined :: "hview \<Rightarrow> nat \<Rightarrow> hview" where
  "joined v b = (let e = nxt v (nxt v b) in
     v(b := (fst (v b), hword (e - b - 16) False (bpf v b)), e := (b, hword (bsz v e) False False)))"

lemma joined_layout:
  assumes ok: "blocks_ok M B v" "small M" and b: "b \<in> B" "\<not> bfr v b" "bsz v b \<noteq> 0" and x: "bfr v (nxt v b)"
  defines "e \<equiv> nxt v (nxt v b)"
  shows "blocks_ok M (B - {nxt v b}) (joined v b)" "nxt v b \<in> B" "e \<in> B" "bpf v e" "\<not> bfr v e" "e \<noteq> b" "e \<noteq> nxt v b" "nxt v b \<noteq> b"
    "bsz (joined v b) b = bsz v b + 16 + bsz v (nxt v b)" "bpf (joined v b) b = bpf v b" "\<not> bfr (joined v b) b"
    "nxt (joined v b) b = e" "joined v b b = (fst (v b), hword (bsz v b + 16 + bsz v (nxt v b)) False (bpf v b))"
    "joined v b e = (b, hword (bsz v e) False False)"
    "\<And>y. y \<in> B \<Longrightarrow> y \<noteq> b \<Longrightarrow> bsz (joined v b) y = bsz v y \<and> bfr (joined v b) y = bfr v y"
    "\<And>y. y \<noteq> b \<Longrightarrow> y \<noteq> e \<Longrightarrow> joined v b y = v y" "size_ok (bsz v b + 16 + bsz v (nxt v b))"
proof -
  let ?x = "nxt v b" and ?k = "bsz v b + 16 + bsz v (nxt v b)"
  note d = blocks_okD [OF ok(1)]
  show xB: "?x \<in> B" using d(6) [OF b(1,3)] .
  note dx = d [OF xB]
  show eB: "e \<in> B" and ef: "bpf v e" "\<not> bfr v e" using dx(5,6,7,9) x by (simp_all add: e_def)
  show ne: "e \<noteq> b" "e \<noteq> ?x" "?x \<noteq> b" by (simp_all add: e_def nxt_def)
  have k: "e - b - 16 = ?k" "b + 16 < e" using b(3) by (simp_all add: e_def nxt_def)
  have sp: "spans M b e" using spans_join [OF d(2) [OF b(1)] dx(2)] by (simp add: e_def)
  have lt: "?k < 1073741824" using spans_small [OF sp ok(2)] k by simp
  show so: "size_ok ?k" using d(3) [OF b(1)] dx(3) lt by (simp add: size_ok_def)
  show jb: "joined v b b = (fst (v b), hword ?k False (bpf v b))" and je: "joined v b e = (b, hword (bsz v e) False False)"
    and jo: "\<And>y. y \<noteq> b \<Longrightarrow> y \<noteq> e \<Longrightarrow> joined v b y = v y"
    using ne(1) by (simp_all add: joined_def Let_def e_def [symmetric] k(1) [symmetric])
  have "{y \<in> B. y \<le> b \<or> e \<le> y} = B - {?x}"
  proof -
    have "(y \<le> b \<or> e \<le> y) \<longleftrightarrow> y \<noteq> ?x" if "y \<in> B" for y
      using d(10) [OF b(1) that] d(10) [OF xB that] unfolding e_def
      by (cases "y \<le> b"; cases "y \<le> ?x") (auto simp: nxt_def)
    then show ?thesis by blast
  qed
  then show "blocks_ok M (B - {?x}) (joined v b)"
    by (intro layout_join [OF ok(1) b(1) eB k(2), where f = False]) (use so k(1) jb je jo ef sp in auto)
  show "bsz (joined v b) b = ?k" "bpf (joined v b) b = bpf v b" "\<not> bfr (joined v b) b" "nxt (joined v b) b = e"
    using jb so k by (simp_all add: bsz_def bpf_def bfr_def nxt_def)
  show "bsz (joined v b) y = bsz v y \<and> bfr (joined v b) y = bfr v y" if "y \<in> B" "y \<noteq> b" for y
    using je jo that d(3) [OF eB] ef(2) by (cases "y = e") (simp_all add: bsz_def bfr_def)
qed

lemma resize_conclude:
  assumes inv: "tlsf_inv s" and b: "b \<notin> areas s" "b \<in> blks s" "\<not> bfr (hdrs s) b" "bsz (hdrs s) b \<noteq> 0"
    and L: "lists_ok s'" "blocks_ok (owned s) (blks s') (hdrs s')" "listed s' (free_blocks s') (bsz (hdrs s'))"
    and kept: "others_kept b (blks s) (hdrs s) (blks s') (hdrs s')"
    and c: "b \<in> blks s'" "\<not> bfr (hdrs s') b" "bsz (hdrs s') b = c" "c \<noteq> 0"
    and P: "owned s' = owned s" "areas s' = areas s" "area_part s' = area_part s"
  shows "tlsf_inv s'" "tlsf_held s' = (tlsf_held s)(b + 16 \<mapsto> c)"
proof -
  show "tlsf_inv s'"
    by (rule tlsf_inv_step [OF inv L(1,2) P L(3) refl refl b(1) _ _ kept]) (use b(4) c(3,4) in simp_all)
  show "tlsf_held s' = (tlsf_held s)(b + 16 \<mapsto> c)"
    using held_except [OF kept P(2)] c b(1) P(2) by (simp add: tlsf_held_def [of s'])
qed

lemma absorb_next:
  assumes inv: "tlsf_inv s" and b: "b \<in> blks s" "\<not> bfr (hdrs s) b" "bsz (hdrs s) b \<noteq> 0" and x: "bfr (hdrs s) (nxt (hdrs s) b)"
  defines "J \<equiv> joined (hdrs s) b" and "B \<equiv> blks s - {nxt (hdrs s) b}"
  obtains s1 where "absorb (nxt (hdrs s) b) s = Inr (word_of_nat (bsz (hdrs s) (nxt (hdrs s) b)), s1)"
    "lists_ok s1" "frame s s1" "listed s1 ({y \<in> B. bfr J y} - {b}) (bsz J)" "{y \<in> B. bfr J y} - {b} = {y \<in> B. bfr J y}"
    "bytes_only (cells s) s s1" "{y \<in> B. bfr J y} \<subseteq> free_blocks s"
proof -
  note I = tlsf_invD [OF inv] let ?v = "hdrs s" let ?x = "nxt ?v b"
  note j = joined_layout [OF I(2,3) b x, folded J_def] note d = blocks_okD [OF I(2)] note ip = block_in_pool [OF I(2,3)]
  have xF: "?x \<in> free_blocks s" using j(2) x by (simp add: free_blocks_def)
  obtain s1 where s1: "absorb ?x s = Inr (word_of_nat (bsz ?v ?x), s1)" "lists_ok s1" "frame s s1" "listed s1 (free_blocks s - {?x}) (bsz ?v)"
      "bytes_only (link_bytes (free_blocks s)) s s1"
  proof -
    have "bsz ?v ?x < 1073741824" using ip(3) [OF j(2)] .
    from absorb_spec [OF I(1,7) xF d(4) [OF j(2)] d(3) [OF j(2)] this ip(1) [OF j(2)]] show thesis using that by blast
  qed
  have F: "free_blocks s - {?x} = {y \<in> B. bfr J y}"
    unfolding free_blocks_def B_def using j(11,15) b(2) by fastforce
  have "listed s1 (free_blocks s - {?x}) (bsz J)"
    by (rule listed_cong [OF s1(4)]) (use j(15) b(2) in \<open>auto simp: free_blocks_def\<close>)
  moreover have "{y \<in> B. bfr J y} - {b} = {y \<in> B. bfr J y}" using j(11) by auto
  moreover have "bytes_only (cells s) s s1" by (rule bytes_only_mono [OF s1(5)]) (auto simp: cells_def link_bytes_def)
  moreover have "{y \<in> B. bfr J y} \<subseteq> free_blocks s" using F by blast
  ultimately show thesis using that [OF s1(1-3)] F by simp
qed

subsection \<open>Resizing in place\<close>

text \<open>
  The bytes a block keeps when it is resized to \<open>N\<close>: what is written lies in headers, in links and
  behind the first \<open>N\<close> bytes, up to the end of the free block behind it.
\<close>

definition resized :: "nat \<Rightarrow> nat \<Rightarrow> tlsf \<Rightarrow> tlsf \<Rightarrow> bool" where
  "resized b N s s' \<longleftrightarrow> bytes_kept (b + 16) s s' \<and>
     (\<forall>i<min (bsz (hdrs s) b) N. data s' (b + 16 + i) = data s (b + 16 + i))"

lemma resizedI:
  assumes inv: "tlsf_inv s" and b: "b \<notin> areas s" "b \<in> blks s" "\<not> bfr (hdrs s) b" "bsz (hdrs s) b \<noteq> 0"
    and o: "bytes_only (cells s \<union> {b + 16 + N..<run_end (hdrs s) b}) s s'"
  shows "resized b N s s'"
  unfolding resized_def
proof
  let ?v = "hdrs s" let ?x = "nxt ?v b"
  note d = blocks_okD [OF tlsf_invD(2) [OF inv]]
  have x: "?x \<in> blks s" using d(6) b(2,4) by blast
  show "bytes_kept (b + 16) s s'"
    unfolding bytes_kept_def
  proof (intro allI impI)
    fix p m i assume p: "p \<noteq> b + 16" "tlsf_held s p = Some m" "i < m"
    have 1: "p + i < b \<or> ?x \<le> p + i" by (rule held_apart_block [OF inv b(2) p(2,3,1)])
    have 2: "p + i < ?x \<or> nxt ?v ?x \<le> p + i" if "bfr ?v ?x"
    proof (rule held_apart_block [OF inv x p(2,3)])
      show "p \<noteq> ?x + 16" using that p(2) by (auto simp: tlsf_held_def)
    qed
    have "p + i \<notin> {b + 16 + N..<run_end ?v b}" using 1 2 by (auto simp: run_end_def)
    then show "data s' (p + i) = data s (p + i)" by (rule held_kept [OF inv o p(2,3)])
  qed
  have held: "tlsf_held s (b + 16) = Some (bsz ?v b)" using b by (simp add: tlsf_held_def)
  show "\<forall>i<min (bsz ?v b) N. data s' (b + 16 + i) = data s (b + 16 + i)"
    using held_kept [OF inv o held] by simp
qed

lemma tmp_size_big:
  assumes "N \<le> k" "k < 4294967296"
  shows "word_of_nat k - word_of_nat N = (word_of_nat (k - N) :: u64)" "SIZEOF_BHDR \<le> word_of_nat (k - N) \<longleftrightarrow> N + 32 \<le> k"
proof -
  show "word_of_nat k - word_of_nat N = (word_of_nat (k - N) :: u64)" by (rule word_of_nat_sub [OF assms(1)])
  have "unat (word_of_nat (k - N) :: u64) = k - N" using assms(2) by (intro unat_word_of_nat_u64) simp
  then show "SIZEOF_BHDR \<le> word_of_nat (k - N) \<longleftrightarrow> N + 32 \<le> k" unfolding word_le_nat_alt using assms(1) by auto
qed

text \<open>The split of a joined block.\<close>

lemma split_joined:
  assumes inv: "tlsf_inv s" and b: "b \<notin> areas s" "b \<in> blks s" "\<not> bfr (hdrs s) b" "bsz (hdrs s) b \<noteq> 0"
    and x: "bfr (hdrs s) (nxt (hdrs s) b)"
  defines "J \<equiv> joined (hdrs s) b" and "B \<equiv> blks s - {nxt (hdrs s) b}" and "e \<equiv> nxt (hdrs s) (nxt (hdrs s) b)"
  assumes t: "lists_ok t" "listed t ({y \<in> B. bfr J y} - {b}) (bsz J)" "blks t = B" "owned t = owned s" "areas t = areas s"
      "area_part t = area_part s" "bytes_only (cells s) s t" "{y \<in> B. bfr J y} \<subseteq> free_blocks s"
    and h: "\<And>y. y \<noteq> b \<Longrightarrow> y \<noteq> e \<Longrightarrow> hdrs t y = hdrs s y" "fst (hdrs t b) = fst (hdrs s b)"
      "snd (hdrs t b) = hword z False (bpf (hdrs s) b)" "size_ok z" "snd (hdrs t e) = hword (bsz (hdrs s) e) False q"
    and N: "size_ok N" "0 < N" "N + 32 \<le> bsz J b"
  obtains s' where "split_block (\<lambda>w. w OR PREV_FREE) b (word_of_nat N) (word_of_nat (bsz J b - N)) e t = Inr s'" "tlsf_inv s'"
    "tlsf_held s' = (tlsf_held s)(b + 16 \<mapsto> N)" "resized b N s s'" "same_areas s s'"
proof -
  note I = tlsf_invD [OF inv] note j = joined_layout [OF I(2,3) b(2-4) x, folded J_def e_def B_def]
  note d = blocks_okD [OF I(2)]
  have eJ: "bsz J e = bsz (hdrs s) e" "\<not> bfr J e" using j(3,5,6) j(15) [of e] by auto
  obtain s' where s': "split_block (\<lambda>w. w OR PREV_FREE) b (word_of_nat N) (word_of_nat (bsz J b - N)) e t = Inr s'"
    "lists_ok s'" "blocks_ok (owned t) (blks s') (hdrs s')" "listed s' (free_blocks s') (bsz (hdrs s'))"
    "others_kept b B J (blks s') (hdrs s')" "b \<in> blks s'" "bsz (hdrs s') b = N" "\<not> bfr (hdrs s') b"
    "owned s' = owned t" "areas s' = areas t" "area_part s' = area_part t"
    "bytes_only (header_bytes B \<union> link_bytes ({y \<in> B. bfr J y} - {b}) \<union> {b + 16 + N..<e}) t s'"
  proof (rule use_split [of t B J "{y \<in> B. bfr J y} - {b}" b e N z False "\<lambda>w. w OR PREV_FREE"])
    show "blocks_ok (owned t) B J" "small (owned t)" using j(1) I(3) t(4) by simp_all
    show "b \<in> B" "e = nxt J b" "\<not> bfr J e" using b(2) j(8,12) eJ by (auto simp: B_def)
    show "hdrs t y = J y" if "y \<in> B" "y \<noteq> b" "y \<noteq> e" for y using h(1) j(16) that by simp
    show "fst (hdrs t b) = fst (J b)" "snd (hdrs t b) = hword z False (bpf J b)" using h(2,3) j(10,13) by simp_all
    show "snd (hdrs t e) OR PREV_FREE = hword (bsz J e) False True" using h(5) hword_ops(3) [OF d(3) [OF j(3)]] eJ by simp
  qed (use t N h(4) in auto)
  have "others_kept b (blks s) (hdrs s) B J"
    using j(15) x unfolding others_kept_def B_def by auto
  then have kept: "others_kept b (blks s) (hdrs s) (blks s') (hdrs s')"
    using s'(5) unfolding others_kept_def by metis
  have N0: "N \<noteq> 0" using N(2) by simp
  note rc = resize_conclude [OF inv b s'(2) s'(3) [unfolded t(4)] s'(4) kept s'(6,8,7) N0
      s'(9) [unfolded t(4)] s'(10) [unfolded t(5)] s'(11) [unfolded t(6)]]
  have "resized b N s s'"
  proof (rule resizedI [OF inv b])
    let ?A = "cells s \<union> {b + 16 + N..<run_end (hdrs s) b}"
    have "bytes_only ?A s t" by (rule bytes_only_mono [OF t(7)]) simp
    moreover have "bytes_only ?A t s'"
      by (rule bytes_only_mono [OF s'(12)]) (use t(8) x in \<open>auto simp: cells_def header_bytes_def link_bytes_def run_end_def e_def B_def\<close>)
    ultimately show "bytes_only ?A s s'" by (rule bytes_only_trans)
  qed
  moreover have "same_areas s s'" by (rule same_areasI) (use s'(9-11) t(4-6) in simp_all)
  ultimately show thesis using that [OF s'(1) rc] by simp
qed

lemma shrink_spec:
  assumes inv: "tlsf_inv s" and b: "b \<notin> areas s" "b \<in> blks s" "\<not> bfr (hdrs s) b" "bsz (hdrs s) b \<noteq> 0"
    and N: "size_ok N" "0 < N" "N \<le> bsz (hdrs s) b"
  obtains s' c where "shrink_block b (nxt (hdrs s) b) (word_of_nat (bsz (hdrs s) b)) (word_of_nat N) (bfr (hdrs s) (nxt (hdrs s) b)) s = Inr s'"
    "tlsf_inv s'" "tlsf_held s' = (tlsf_held s)(b + 16 \<mapsto> c)" "N \<le> c" "resized b N s s'" "same_areas s s'"
proof -
  note I = tlsf_invD [OF inv] let ?v = "hdrs s" let ?x = "nxt ?v b" and ?k = "bsz ?v b"
  note d = blocks_okD [OF I(2)] note ip = block_in_pool [OF I(2,3)]
  have k: "?k < 1073741824" using ip(3) [OF b(2)] .
  have held: "tlsf_held s (b + 16) = Some ?k" using b by (simp add: tlsf_held_def)
  show thesis
  proof (cases "bfr ?v ?x")
    case True
    note j = joined_layout [OF I(2,3) b(2-4) True] let ?J = "joined ?v b"
    obtain s1 where s1: "absorb ?x s = Inr (word_of_nat (bsz ?v ?x), s1)" "lists_ok s1" "frame s s1"
        "listed s1 ({y \<in> blks s - {?x}. bfr ?J y} - {b}) (bsz ?J)"
        "{y \<in> blks s - {?x}. bfr ?J y} - {b} = {y \<in> blks s - {?x}. bfr ?J y}"
        "bytes_only (cells s) s s1" "{y \<in> blks s - {?x}. bfr ?J y} \<subseteq> free_blocks s"
      by (rule absorb_next [OF inv b(2-4) True]) (rule that)
    note f1 = frameD [OF s1(3)]
    let ?t = "s1\<lparr>blks := blks s1 - {?x}\<rparr>"
    have x16: "16 \<le> bsz ?v ?x" using d(3,5) [OF j(2)] True by (auto simp: size_ok_def dvd_imp_le)
    have xk: "bsz ?v ?x < 1073741824" using ip(3) [OF j(2)] .
    have nx: "GET_NEXT_BLOCK (buffer ?x) (word_of_nat (bsz ?v ?x)) = nxt ?v ?x"
      using xk by (simp add: GET_NEXT_BLOCK_def nxt_def [of _ ?x] unat_of_nat)
    have J: "bsz ?J b = ?k + 16 + bsz ?v ?x" by (rule j(9))
    have big: "N + 32 \<le> bsz ?J b" "bsz ?J b < 4294967296" using J N(3) x16 k xk by simp_all
    have tmp: "word_of_nat ?k + (word_of_nat (bsz ?v ?x) + BHDR_OVERHEAD) = (word_of_nat (bsz ?J b) :: u64)"
      by (simp add: J)
    note ts = tmp_size_big [OF _ big(2), of N]
    have wb: "snd (?v b) = hword ?k False (bpf ?v b)" "snd (?v (nxt ?v ?x)) = hword (bsz ?v (nxt ?v ?x)) False True"
      using d(4) [OF b(2)] b(3) d(4) [OF j(3)] j(4,5) by simp_all
    obtain s' where s': "split_block (\<lambda>w. w OR PREV_FREE) b (word_of_nat N) (word_of_nat (bsz ?J b - N)) (nxt ?v ?x) ?t = Inr s'"
        "tlsf_inv s'" "tlsf_held s' = (tlsf_held s)(b + 16 \<mapsto> N)" "resized b N s s'" "same_areas s s'"
      by (rule split_joined [OF inv b True, where t = ?t and N = N and z = ?k and q = True])
        (use s1(2,4,6,7) f1 wb d(3) [OF b(2)] N(1,2) big(1) in \<open>auto simp: bytes_only_def\<close>)
    have "shrink_block b ?x (word_of_nat ?k) (word_of_nat N) True s = Inr s'"
      using s1(1) nx tmp ts big(1) s'(1) by (simp add: shrink_block_def Let_def)
    then show thesis using that [of s' N] s' True by simp
  next
    case False
    note ts = tmp_size_big [OF N(3)]
    show thesis
    proof (cases "N + 32 \<le> ?k")
      case True
      have e: "?x \<in> blks s" "\<not> bpf ?v ?x" using d(6,7) [OF b(2,4)] b(3) by simp_all
      have wx: "snd (?v ?x) = hword (bsz ?v ?x) False False" using d(4) [OF e(1)] e(2) False by simp
      obtain s' where s': "split_block (\<lambda>w. w OR PREV_FREE) b (word_of_nat N) (word_of_nat (?k - N)) ?x s = Inr s'"
        "lists_ok s'" "blocks_ok (owned s) (blks s') (hdrs s')" "listed s' (free_blocks s') (bsz (hdrs s'))"
        "others_kept b (blks s) ?v (blks s') (hdrs s')" "b \<in> blks s'" "bsz (hdrs s') b = N" "\<not> bfr (hdrs s') b"
        "owned s' = owned s" "areas s' = areas s" "area_part s' = area_part s"
        "bytes_only (header_bytes (blks s) \<union> link_bytes (free_blocks s) \<union> {b + 16 + N..<?x}) s s'"
      proof (rule use_split [OF I(2,3,1), of "free_blocks s" b ?x N ?k False "\<lambda>w. w OR PREV_FREE"])
        show "listed s (free_blocks s) (bsz ?v)" by (rule I(7))
        show "free_blocks s = {x \<in> blks s. bfr ?v x} - {b}" using b(3) by (auto simp: free_blocks_def)
        show "snd (?v b) = hword ?k False (bpf ?v b)" using d(4) [OF b(2)] b(3) by simp
        show "snd (?v ?x) OR PREV_FREE = hword (bsz ?v ?x) False True" using wx hword_ops(3) [OF d(3) [OF e(1)]] by simp
      qed (use b(2) False N True d(3) [OF b(2)] in auto)
      have N0: "N \<noteq> 0" using N(2) by simp
      note rc = resize_conclude [OF inv b s'(2-5) s'(6,8,7) N0 s'(9-11)]
      have "resized b N s s'"
        by (rule resizedI [OF inv b], rule bytes_only_mono [OF s'(12)])
          (use False in \<open>auto simp: cells_def link_bytes_def run_end_def\<close>)
      moreover have "same_areas s s'" by (rule same_areasI) (use s'(9-11) in simp_all)
      moreover
have "shrink_block b ?x (word_of_nat ?k) (word_of_nat N) False s = Inr s'"
        using ts k True s'(1) by (simp add: shrink_block_def Let_def)
      ultimately show thesis using that [of s' N] rc False by simp
    next
      case small: False
      have "shrink_block b ?x (word_of_nat ?k) (word_of_nat N) False s = Inr s"
        using ts k small by (simp add: shrink_block_def Let_def)
      moreover have "tlsf_held s = (tlsf_held s)(b + 16 \<mapsto> ?k)" using held by (simp add: fun_upd_idem)
      ultimately show thesis using that [of s ?k] inv N(3) False by (simp add: same_areas_def resized_def bytes_kept_def)
    qed
  qed
qed

lemma grow_spec:
  assumes inv: "tlsf_inv s" and b: "b \<notin> areas s" "b \<in> blks s" "\<not> bfr (hdrs s) b" "bsz (hdrs s) b \<noteq> 0"
    and x: "bfr (hdrs s) (nxt (hdrs s) b)"
    and N: "size_ok N" "0 < N" "N \<le> bsz (hdrs s) b + bsz (hdrs s) (nxt (hdrs s) b)"
  obtains s' c where "grow_block b (nxt (hdrs s) b) (word_of_nat N) s = Inr s'"
    "tlsf_inv s'" "tlsf_held s' = (tlsf_held s)(b + 16 \<mapsto> c)" "N \<le> c" "resized b N s s'" "same_areas s s'"
proof -
  note I = tlsf_invD [OF inv] let ?v = "hdrs s" let ?x = "nxt ?v b" and ?k = "bsz ?v b" let ?e = "nxt ?v ?x"
  note d = blocks_okD [OF I(2)] note ip = block_in_pool [OF I(2,3)]
  note j = joined_layout [OF I(2,3) b(2-4) x] let ?J = "joined ?v b"
  obtain s1 where s1: "absorb ?x s = Inr (word_of_nat (bsz ?v ?x), s1)" "lists_ok s1" "frame s s1"
      "listed s1 ({y \<in> blks s - {?x}. bfr ?J y} - {b}) (bsz ?J)" "{y \<in> blks s - {?x}. bfr ?J y} - {b} = {y \<in> blks s - {?x}. bfr ?J y}"
      "bytes_only (cells s) s s1" "{y \<in> blks s - {?x}. bfr ?J y} \<subseteq> free_blocks s"
    by (rule absorb_next [OF inv b(2-4) x]) (rule that)
  note f1 = frameD [OF s1(3)]
  let ?t = "s1\<lparr>blks := blks s1 - {?x}\<rparr>" and ?m = "?k + 16 + bsz ?v ?x"
  have wb: "snd (?v b) = hword ?k False (bpf ?v b)" "snd (?v ?e) = hword (bsz ?v ?e) False True"
    using d(4) [OF b(2)] b(3) d(4) [OF j(3)] j(4,5) by simp_all
  have ipb: "in_pool ?t b 16" "in_pool s1 ?e 16" "in_pool s1 b 16" using ip(1) [OF b(2)] ip(1) [OF j(3)] f1(5) by simp_all
  let ?g = "\<lambda>w. w + (word_of_nat (bsz ?v ?x) + BHDR_OVERHEAD)"
  have wbt: "snd (hdrs ?t b) = hword ?k False (bpf ?v b)" using f1(1) wb(1) by simp
  obtain s2 where s2: "upd_hdr b (\<lambda>h. h\<lparr>bsize := ?g (bsize h)\<rparr>) ?t = Inr s2" "hframe ?t s2"
      "hdrs s2 = (hdrs ?t)(b := (fst (hdrs ?t b), ?g (hword ?k False (bpf ?v b))))" "bytes_only (header_bytes {b}) ?t s2"
    using word_spec [OF ipb(1) wbt, of ?g] by auto
  note f2 = hframeD [OF s2(2)]
  have h2: "hdrs s2 = ?v(b := (fst (?v b), hword ?m False (bpf ?v b)))"
    using s2(3) f1(1) hword_add [of ?k False "bpf ?v b" "16 + bsz ?v ?x"] by (simp add: ac_simps)
  let ?u = "\<lambda>t. t\<lparr>prev_hdr := b, bsize := bsize t AND NOT PREV_FREE\<rparr>"
  obtain s3 where s3: "upd_hdr ?e ?u s2 = Inr s3" "hframe s2 s3" "hdrs s3 = (hdrs s2)(?e := (b, snd (hdrs s2 ?e) AND NOT PREV_FREE))"
      "bytes_only (header_bytes {?e}) s2 s3"
    using upd_hdr_spec [of s2 ?e ?u] ipb(2) f2(6) by (auto simp: hdrs_def)
  note f3 = hframeD [OF s3(2)]
  have h3: "hdrs s3 = ?J"
    using s3(3) h2 j(6,13,14,16) wb(2) hword_ops(4) [OF d(3) [OF j(3)]] by (auto simp: fun_eq_iff)
  have B3: "blks s3 = blks s - {?x}" "owned s3 = owned s" "areas s3 = areas s" "area_part s3 = area_part s"
      "lists_ok s3" "listed s3 ({y \<in> blks s - {?x}. bfr ?J y} - {b}) (bsz ?J)"
    using s1(2,4) by (simp_all add: f1 f2 f3)
  have by3: "bytes_only (cells s) s s3"
    using s1(6) s2(4) s3(4) b(2) j(3) by (simp add: bytes_only_def cells_def header_bytes_def)
  have m: "bsz ?J b = ?m" "?m < 4294967296" using j(9) j(17) by (simp_all add: size_ok_def)
  have Nm: "N \<le> ?m" using N(3) by simp
  note ts = tmp_size_big [OF Nm m(2)]
  have get: "get_hdr b s2 = Inr (mem s2 b)" "bsize (mem s2 b) AND BLOCK_SIZE = word_of_nat ?m"
    using ipb(3) f2(6) h2 hword_parts(1) [OF j(17)] by (simp_all add: hdrs_sel)
  have nx: "GET_NEXT_BLOCK (buffer b) (word_of_nat ?m) = ?e"
    unfolding GET_NEXT_BLOCK_def unat_word_of_nat_u64 [OF m(2)] by (simp add: nxt_def)
  have run: "grow_block b ?x (word_of_nat N) s =
      (if N + 32 \<le> ?m then split_block (\<lambda>w. w OR PREV_FREE) b (word_of_nat N) (word_of_nat (?m - N)) ?e s3 else Inr s3)"
    by (simp only: grow_block_def s1(1) bind_err.simps prod.case s2(1) get Let_def nx s3(1) ts)
  show thesis
  proof (cases "N + 32 \<le> ?m")
    case True
    obtain s' where s': "split_block (\<lambda>w. w OR PREV_FREE) b (word_of_nat N) (word_of_nat (bsz ?J b - N)) ?e s3 = Inr s'"
        "tlsf_inv s'" "tlsf_held s' = (tlsf_held s)(b + 16 \<mapsto> N)" "resized b N s s'" "same_areas s s'"
      by (rule split_joined [OF inv b x, where t = s3 and N = N and z = ?m and q = False])
        (use B3 by3 s1(7) h3 j N(1,2) True m in auto)
    then show thesis using that [of s' N] run True m(1) by simp
  next
    case False
    have F: "{y \<in> blks s - {?x}. bfr ?J y} - {b} = free_blocks s3" using s1(5) B3(1) h3 by (simp add: free_blocks_def)
    have kept: "others_kept b (blks s) ?v (blks s3) (hdrs s3)"
      using j(15) x B3(1) h3 unfolding others_kept_def by auto
    have c: "b \<in> blks s3" "\<not> bfr (hdrs s3) b" "bsz (hdrs s3) b = ?m" "?m \<noteq> 0" using b(2) j(8,11) B3(1) h3 m(1) by auto
    have L: "blocks_ok (owned s) (blks s3) (hdrs s3)" "listed s3 (free_blocks s3) (bsz (hdrs s3))"
      using j(1) B3(1,6) h3 F by simp_all
    note rc = resize_conclude [OF inv b B3(5) L kept c B3(2-4)]
    have "resized b N s s3" by (rule resizedI [OF inv b], rule bytes_only_mono [OF by3]) simp
    moreover have "same_areas s s3" by (rule same_areasI [OF B3(2-4)])
    ultimately show thesis using that [of s3 ?m] rc run False Nm by simp
  qed
qed

subsection \<open>Moving\<close>

lemma move_spec:
  assumes inv: "tlsf_inv s" and p: "tlsf_held s ptr = Some k" "ptr = b + 16"
    and N: "unat n \<le> 1056964608" "k < unat n"
  obtains (none) "move_block ptr b n s = Inr (0, s)"
  | (moved) q s' c where "move_block ptr b n s = Inr (q, s')" "q \<noteq> 0" "tlsf_inv s'" "tlsf_held s q = None"
      "tlsf_held s' = ((tlsf_held s)(ptr := None))(q \<mapsto> c)" "unat n \<le> c"
      "bytes_kept ptr s s'" "\<forall>i<k. data s' (q + i) = data s (ptr + i)" "same_areas s s'"
proof -
  from inv N(1) show thesis
  proof (cases rule: malloc_ex_spec)
    case none
    then show thesis using that(1) by (simp add: move_block_def)
  next
    case (some a s1 c)
    have q0: "tlsf_held s (a + 16) = None" using some(3) by (simp add: tlsf_held_def free_blocks_def)
    then have ne: "ptr \<noteq> a + 16" using p(1) by auto
    then have p1: "tlsf_held s1 ptr = Some k" using some(4) p(1) by simp
    then have b1: "b \<in> blks s1" "bsz (hdrs s1) b = k" using p(2) by (auto simp: tlsf_held_Some)
    note I1 = tlsf_invD [OF some(2)] note d = blocks_okD [OF I1(2) b1(1)]
    have sk: "size_ok k" using d(3) b1(2) by simp
    have w: "bsize (mem s1 b) AND BLOCK_SIZE = word_of_nat k"
      using d(4) hword_parts(1) [OF d(3)] b1(2) by (simp add: hdrs_sel)
    have u: "unat (word_of_nat k :: u64) = k" using sk by (intro unat_word_of_nat_u64) (simp add: size_ok_def)
    have cp: "unat (ucast (word_of_nat k :: u64) :: u32) = k"
      using sk u by (simp add: unsigned_ucast_eq take_bit_eq_mod size_ok_def)
    have le: "\<not> n < word_of_nat k" using N(2) u by (simp add: word_less_nat_alt)
    have nc: "unat n \<le> c"
    proof -
      have "unat n \<le> fit_size n" using search_spec [OF N(1)] by blast
      then show ?thesis using some(5) by simp
    qed
    let ?s = "memcpy (a + 16) ptr k s1"
    have q1: "tlsf_held s1 (a + 16) = Some c" using some(4) by simp
    have m: "tlsf_inv ?s" "tlsf_held ?s = tlsf_held s1" "same_areas s1 ?s" "bytes_kept (a + 16) s1 ?s"
      unfolding memcpy_def by (rule fill_keeps [OF some(2) q1], use nc N(2) in linarith)+
    have m2: "tlsf_held ?s ptr = Some k" using m(2) p1 by simp
    have cpd: "data ?s (a + 16 + i) = data s1 (ptr + i)" if "i < k" for i using that by (simp add: memcpy_def)
    obtain s' where s': "free_ex ptr ?s = Inr s'" "tlsf_inv s'" "tlsf_held s' = (tlsf_held ?s)(ptr := None)" "bytes_kept ptr ?s s'"
        "owned s' = owned ?s" "areas s' = areas ?s" "area_part s' = area_part ?s"
      using free_ex_spec [OF m(1) m2] by blast
    have ar: "same_areas s s'"
      by (rule same_areas_trans [OF same_areas_trans [OF same_areasI [OF some(10-12)] m(3)] same_areasI [OF s'(5-7)]])
    have run: "move_block ptr b n s = Inr (a + 16, s')"
      using some(1) block_in_pool(1) [OF I1(2,3) b1(1)] w le cp s'(1) by (simp add: move_block_def)
    have held: "tlsf_held s' = ((tlsf_held s)(ptr := None))(a + 16 \<mapsto> c)"
      unfolding s'(3) m(2) some(4) using ne by (simp add: fun_upd_twist)
    have kept: "bytes_kept ptr s s'"
      unfolding bytes_kept_def
    proof (intro allI impI)
      fix r l i assume r: "r \<noteq> ptr" "tlsf_held s r = Some l" "i < l"
      then have r1: "r \<noteq> a + 16" "tlsf_held s1 r = Some l" using q0 some(4) by auto
      have "r \<noteq> 0" using r(2) by (auto simp: tlsf_held_Some)
      then show "data s' (r + i) = data s (r + i)"
        using s'(4) m(2,4) some(9) r r1 unfolding bytes_kept_def by metis
    qed
    have "data s' (a + 16 + i) = data s (ptr + i)" if i: "i < k" for i
    proof -
      have "i < c" using i nc N(2) by simp
      then have "data s' (a + 16 + i) = data ?s (a + 16 + i)" using s'(4) m(2) q1 ne unfolding bytes_kept_def by metis
      moreover have "ptr \<noteq> 0" using p(2) by simp
      ultimately show ?thesis using cpd [OF i] some(9) p(1) i unfolding bytes_kept_def by metis
    qed
    then show thesis using that(2) [of "a + 16" s' c, OF run _ s'(2) q0 held nc kept _ ar] by simp
  qed
qed

subsection \<open>The whole of realloc and calloc\<close>

lemma realloc_ex_spec:
  assumes inv: "tlsf_inv s" and p: "tlsf_held s ptr = Some k" and n: "n \<noteq> 0" "unat n \<le> 1056964608"
  obtains (none) "realloc_ex ptr n s = Inr (0, s)" "k < unat (request_size n)"
  | (ok) q s' c where "realloc_ex ptr n s = Inr (q, s')" "q \<noteq> 0" "tlsf_inv s'"
      "tlsf_held s' = ((tlsf_held s)(ptr := None))(q \<mapsto> c)" "unat n \<le> c"
      "q = ptr \<or> tlsf_held s q = None" "bytes_kept ptr s s'" "\<forall>i<min k (unat n). data s' (q + i) = data s (ptr + i)" "same_areas s s'"
proof -
  note I = tlsf_invD [OF inv] let ?v = "hdrs s"
  obtain b where b: "ptr = b + 16" "b \<notin> areas s" "b \<in> blks s" "\<not> bfr ?v b" "bsz ?v b \<noteq> 0" and k: "bsz ?v b = k"
    using p by (auto simp: tlsf_held_Some)
  let ?x = "nxt ?v b" and ?n = "request_size n" let ?N = "unat ?n"
  note d = blocks_okD [OF I(2)] note ip = block_in_pool [OF I(2,3)] note r = request_size_spec [OF n(2)]
  have x: "?x \<in> blks s" using d(6) [OF b(3,5)] .
  have N: "size_ok ?N" "0 < ?N" "?n = word_of_nat ?N" "unat n \<le> ?N" using r by (simp_all add: size_ok_def)
  have kx: "k < 1073741824" "bsz ?v ?x < 1073741824" using ip(3) [OF b(3)] ip(3) [OF x] k by simp_all
  have u: "unat (word_of_nat k :: u64) = k" "unat (word_of_nat (bsz ?v ?x) :: u64) = bsz ?v ?x"
    using kx by (simp_all add: unat_of_nat)
  have hb: "bsize (mem s b) AND BLOCK_SIZE = word_of_nat k" "bsize (mem s ?x) AND BLOCK_SIZE = word_of_nat (bsz ?v ?x)"
      "(bsize (mem s ?x) AND FREE_BLOCK \<noteq> 0) = bfr ?v ?x"
    using d(3,4) [OF b(3)] d(3,4) [OF x] k hword_parts(1,5) by (simp_all add: hdrs_sel)
  have nx: "GET_NEXT_BLOCK (b + 16) (word_of_nat k) = ?x" using u(1) k by (simp add: GET_NEXT_BLOCK_def nxt_def)
  have c1: "?n \<le> word_of_nat k \<longleftrightarrow> ?N \<le> k" using u by (simp add: word_le_nat_alt)
  have c2: "?n \<le> word_of_nat k + word_of_nat (bsz ?v ?x) \<longleftrightarrow> ?N \<le> k + bsz ?v ?x"
  proof -
    have "unat (word_of_nat k + word_of_nat (bsz ?v ?x) :: u64) = k + bsz ?v ?x" using u kx by (simp add: unat_word_ariths)
    then show ?thesis by (simp add: word_le_nat_alt)
  qed
  have run: "realloc_ex ptr n s =
      (if ?N \<le> k then bind_err (shrink_block b ?x (word_of_nat k) ?n (bfr ?v ?x) s) (\<lambda>s. Inr (b + 16, s))
       else if bfr ?v ?x \<and> ?N \<le> k + bsz ?v ?x then bind_err (grow_block b ?x ?n s) (\<lambda>s. Inr (b + 16, s))
       else move_block ptr b ?n s)"
  proof -
    have g: "get_hdr b s = Inr (mem s b)" "get_hdr ?x s = Inr (mem s ?x)" using ip(1) b(3) x by simp_all
    have pb: "ptr - unat BHDR_OVERHEAD = b" "ptr \<noteq> 0" using b(1) by simp_all
    show ?thesis unfolding realloc_ex_def Let_def pb(1) g bind_err.simps hb nx c1 c2 buffer_simp using pb(2) n(1) by simp
  qed
  have upd: "((tlsf_held s)(ptr := None))(ptr \<mapsto> c) = (tlsf_held s)(ptr \<mapsto> c)" for c by simp
  consider (shrink) "?N \<le> k" | (grow) "\<not> ?N \<le> k" "bfr ?v ?x" "?N \<le> k + bsz ?v ?x"
    | (move) "\<not> ?N \<le> k" "\<not> (bfr ?v ?x \<and> ?N \<le> k + bsz ?v ?x)" by blast
  then show thesis
  proof cases
    case shrink
    obtain s' c where "shrink_block b ?x (word_of_nat k) ?n (bfr ?v ?x) s = Inr s'" "tlsf_inv s'"
        "tlsf_held s' = (tlsf_held s)(b + 16 \<mapsto> c)" "?N \<le> c" "resized b ?N s s'" "same_areas s s'"
      using shrink_spec [OF inv b(2-5) N(1,2)] shrink k N(3) by metis
    then show thesis using ok [of ptr s' c] run shrink b(1) N(4) k by (simp add: resized_def)
  next
    case grow
    obtain s' c where "grow_block b ?x ?n s = Inr s'" "tlsf_inv s'"
        "tlsf_held s' = (tlsf_held s)(b + 16 \<mapsto> c)" "?N \<le> c" "resized b ?N s s'" "same_areas s s'"
      using grow_spec [OF inv b(2-5) grow(2) N(1,2)] grow(3) k N(3) by metis
    then show thesis using ok [of ptr s' c] run grow b(1) N(4) k by (simp add: resized_def)
  next
    case move
    have kN: "k < ?N" using move(1) by simp
    have mv: "realloc_ex ptr n s = move_block ptr b ?n s" using run move by simp
    from inv p b(1) r(1) kN show thesis
    proof (cases rule: move_spec)
      case none
      then show thesis using that(1) mv kN by simp
    next
      case (moved q s' c)
      then show thesis using ok [of q s' c] mv N(4) by simp
    qed
  qed
qed

lemma calloc_ex_spec:
  assumes inv: "tlsf_inv s" and n: "nelem \<noteq> 0" "elem_size \<noteq> 0" "unat (nelem * elem_size) \<le> 1056964608"
  obtains (none) "calloc_ex nelem elem_size s = Inr (0, s)"
  | (some) q s' c where "calloc_ex nelem elem_size s = Inr (q, s')" "q \<noteq> 0" "tlsf_inv s'" "tlsf_held s q = None"
      "tlsf_held s' = (tlsf_held s)(q \<mapsto> c)" "unat (nelem * elem_size) \<le> c"
      "bytes_kept 0 s s'" "\<forall>i<unat (nelem * elem_size). data s' (q + i) = 0" "same_areas s s'"
proof -
  have z: "\<not> (nelem \<le> 0 \<or> elem_size \<le> 0)" using n(1,2) by simp
  from inv n(3) show thesis
  proof (cases rule: malloc_ex_spec)
    case none
    then show thesis using that(1) z by (simp add: calloc_ex_def)
  next
    case (some a s1 c)
    have le: "unat (nelem * elem_size) \<le> c" using search_spec [OF n(3)] some(5) by (metis le_trans)
    have q: "tlsf_held s (a + 16) = None" "tlsf_held s1 (a + 16) = Some c"
      using some(3,4) by (simp_all add: tlsf_held_def free_blocks_def)
    let ?s = "memset0 (a + 16) (unat (nelem * elem_size)) s1"
    have m: "tlsf_inv ?s" "tlsf_held ?s = tlsf_held s1" "same_areas s1 ?s" "bytes_kept (a + 16) s1 ?s"
      unfolding memset0_def by (rule fill_keeps [OF some(2) q(2)], use le in linarith)+
    have "bytes_kept 0 s ?s"
      unfolding bytes_kept_def
    proof (intro allI impI)
      fix r l i assume r: "r \<noteq> 0" "tlsf_held s r = Some l" "i < l"
      then have "r \<noteq> a + 16" "tlsf_held s1 r = Some l" using q(1) some(4) by auto
      then show "data ?s (r + i) = data s (r + i)" using m(4) some(9) r unfolding bytes_kept_def by metis
    qed
    moreover have "same_areas s ?s" by (rule same_areas_trans [OF same_areasI [OF some(10-12)] m(3)])
    moreover have "\<forall>i<unat (nelem * elem_size). data ?s (a + 16 + i) = 0" by (simp add: memset0_def)
    ultimately show thesis
      using that(2) [of "a + 16" ?s c] some z le q(1) m(1,2) by (simp add: calloc_ex_def)
  qed
qed

end
