(* ===== verification/Tlsf_Calls.thy ===== *)
theory Tlsf_Calls
  imports Tlsf_Area Tlsf_Realloc Pool_Interface
begin

text \<open>
  A client of the allocator itself: any sequence of calls of \<^verbatim>\<open>malloc_ex\<close>, \<^verbatim>\<open>calloc_ex\<close>,
  \<^verbatim>\<open>realloc_ex\<close>, \<^verbatim>\<open>free_ex\<close> and \<^verbatim>\<open>add_new_area\<close>, and of writes of the client into its blocks:
  \<open>Write p i x\<close> stores the byte \<open>x\<close> at index \<open>i\<close> of the block \<open>p\<close>. A call may use what the client
  holds.
\<close>

datatype tlsf_call = Malloc u64 | Calloc u64 u64 | Realloc nat u64 | Free nat | Add_area nat u64 | Write nat nat "8 word"

fun call :: "tlsf_call \<Rightarrow> tlsf \<Rightarrow> (tlsf_error + nat \<times> tlsf) option" where
  "call (Malloc n) s = Some (malloc_ex n s)"
| "call (Calloc n k) s = Some (calloc_ex n k s)"
| "call (Realloc p n) s = Some (realloc_ex p n s)"
| "call (Free p) s = Some (bind_err (free_ex p s) (\<lambda>s. Inr (0, s)))"
| "call (Add_area ar sz) s = map_option (\<lambda>r. bind_err r (\<lambda>(n, s). Inr (unat n, s))) (add_new_area ar sz s)"
| "call (Write p i x) s = Some (Inr (0, set_bytes (\<lambda>a. a = p + i) (\<lambda>_. x) s))"

text \<open>The block a call gets, none for \<open>0\<close>.\<close>

fun given :: "tlsf_call \<Rightarrow> nat" where
  "given (Realloc p n) = p"
| "given (Free p) = p"
| "given (Write p i x) = p"
| "given c = 0"

fun fair :: "tlsf_call \<Rightarrow> tlsf \<Rightarrow> bool" where
  "fair (Malloc n) s \<longleftrightarrow> unat n \<le> 1056964608"
| "fair (Calloc n k) s \<longleftrightarrow> unat (n * k) \<le> 1056964608"
| "fair (Realloc p n) s \<longleftrightarrow> (p = 0 \<or> tlsf_held s p \<noteq> None) \<and> unat n \<le> 1056964608"
| "fair (Free p) s \<longleftrightarrow> p = 0 \<or> tlsf_held s p \<noteq> None"
| "fair (Add_area ar sz) s \<longleftrightarrow> 80 \<le> unat sz \<and> 0 < ar \<and> (\<forall>x. ar \<le> x \<and> x < ar + unat sz \<longrightarrow> \<not> owned s x) \<and>
     card (Collect (owned s)) + unat sz < 1073741824 \<and> \<not> closes_gap s ar sz"
| "fair (Write p i x) s \<longleftrightarrow> (\<exists>m. tlsf_held s p = Some m \<and> i < m)"

fun run_calls :: "tlsf_call list \<Rightarrow> tlsf \<Rightarrow> (tlsf_error + nat list \<times> tlsf) option" where
  "run_calls [] s = Some (Inr ([], s))"
| "run_calls (c # cs) s = (case call c s of None \<Rightarrow> None | Some (Inl e) \<Rightarrow> Some (Inl e) | Some (Inr (r, s)) \<Rightarrow>
     map_option (\<lambda>x. bind_err x (\<lambda>(rs, s). Inr (r # rs, s))) (run_calls cs s))"

fun all_fair :: "tlsf_call list \<Rightarrow> tlsf \<Rightarrow> bool" where
  "all_fair [] s = True"
| "all_fair (c # cs) s \<longleftrightarrow> fair c s \<and> (case call c s of Some (Inr (r, s)) \<Rightarrow> all_fair cs s | _ \<Rightarrow> True)"

text \<open>The block \<open>p\<close> of a client is still there with its bytes.\<close>

definition keeps :: "nat \<Rightarrow> tlsf \<Rightarrow> tlsf \<Rightarrow> bool" where
  "keeps p s s' \<longleftrightarrow> (\<forall>m. tlsf_held s p = Some m \<longrightarrow> tlsf_held s' p = Some m \<and> (\<forall>i<m. data s' (p + i) = data s (p + i)))"

definition pool_good :: "tlsf \<Rightarrow> bool" where
  "pool_good s \<longleftrightarrow> tlsf_inv s \<and> areas_ok s"

lemma keeps_trans: "keeps p s t \<Longrightarrow> keeps p t u \<Longrightarrow> keeps p s u"
  by (simp add: keeps_def)

lemma keeps_refl: "keeps p s s"
  by (simp add: keeps_def)

lemma keeps_bytes: "bytes_kept q s s' \<Longrightarrow> p \<noteq> q \<Longrightarrow> (tlsf_held s p \<noteq> None \<Longrightarrow> tlsf_held s' p = tlsf_held s p) \<Longrightarrow> keeps p s s'"
  by (auto simp: bytes_kept_def keeps_def)

lemma keeps_all: "bytes_kept 0 s s' \<Longrightarrow> (tlsf_held s p \<noteq> None \<Longrightarrow> tlsf_held s' p = tlsf_held s p) \<Longrightarrow> keeps p s s'"
  by (auto simp: bytes_kept_0 keeps_def)

lemma malloc_call:
  assumes "pool_good s" "unat n \<le> 1056964608"
  shows "\<exists>r s'. malloc_ex n s = Inr (r, s') \<and> pool_good s' \<and> (\<forall>p. keeps p s s')"
proof -
  have g: "tlsf_inv s" "areas_ok s" using assms(1) by (simp_all add: pool_good_def)
  from g(1) assms(2) show ?thesis
  proof (cases rule: malloc_ex_spec)
    case none
    then show ?thesis using assms(1) keeps_refl by simp
  next
    case (some b s' c)
    have "tlsf_held s (b + 16) = None" using some(3) by (simp add: tlsf_held_def free_blocks_def)
    then have "keeps p s s'" for p by (intro keeps_all [OF some(9)]) (auto simp: some(4))
    moreover have "areas_ok s'" using areas_ok_same [OF same_areasI [OF some(10-12)]] g(2) by simp
    ultimately show ?thesis using some(1,2) by (simp add: pool_good_def)
  qed
qed

lemma free_call:
  assumes "pool_good s" "p = 0 \<or> tlsf_held s p \<noteq> None"
  shows "\<exists>s'. free_ex p s = Inr s' \<and> pool_good s' \<and> (\<forall>q. q \<noteq> p \<longrightarrow> keeps q s s')"
proof (cases "p = 0")
  case True
  then show ?thesis using assms(1) keeps_refl by (simp add: free_ex_def)
next
  case False
  have g: "tlsf_inv s" "areas_ok s" using assms(1) by (simp_all add: pool_good_def)
  obtain k where k: "tlsf_held s p = Some k" using assms(2) False by auto
  obtain s' where s': "free_ex p s = Inr s'" "tlsf_inv s'" "tlsf_held s' = (tlsf_held s)(p := None)" "bytes_kept p s s'"
      "owned s' = owned s" "areas s' = areas s" "area_part s' = area_part s"
    by (rule free_ex_spec [OF g(1) k]) (rule that)
  have "keeps q s s'" if "q \<noteq> p" for q by (rule keeps_bytes [OF s'(4) that]) (simp add: s'(3) that)
  moreover have "areas_ok s'" using areas_ok_same [OF same_areasI [OF s'(5-7)]] g(2) by simp
  ultimately show ?thesis using s'(1,2) by (simp add: pool_good_def)
qed

lemma realloc_call:
  assumes "pool_good s" "p = 0 \<or> tlsf_held s p \<noteq> None" "unat n \<le> 1056964608"
  shows "\<exists>r s'. realloc_ex p n s = Inr (r, s') \<and> pool_good s' \<and> (\<forall>q. q \<noteq> p \<longrightarrow> keeps q s s')"
proof -
  consider "p = 0" "n = 0" | "p = 0" "n \<noteq> 0" | "p \<noteq> 0" "n = 0" | k where "p \<noteq> 0" "n \<noteq> 0" "tlsf_held s p = Some k"
    using assms(2) by blast
  then show ?thesis
  proof cases
    case 1
    then show ?thesis using assms(1) keeps_refl by (simp add: realloc_ex_def)
  next
    case 2
    then show ?thesis using malloc_call [OF assms(1,3)] by (auto simp: realloc_ex_def)
  next
    case 3
    then show ?thesis using free_call [OF assms(1,2)] by (auto simp: realloc_ex_def)
  next
    case 4
    have g: "tlsf_inv s" "areas_ok s" using assms(1) by (simp_all add: pool_good_def)
    from g(1) 4(3,2) assms(3) show ?thesis
    proof (cases rule: realloc_ex_spec)
      case none
      then show ?thesis using assms(1) keeps_refl by simp
    next
      case (ok q s' c)
      have "keeps r s s'" if "r \<noteq> p" for r
        by (rule keeps_bytes [OF ok(7) that]) (use ok(4,6) that in auto)
      moreover have "areas_ok s'" using areas_ok_same [OF ok(9)] g(2) by simp
      ultimately show ?thesis using ok(1,3) by (simp add: pool_good_def)
    qed
  qed
qed

lemma calloc_call:
  assumes "pool_good s" "unat (n * k) \<le> 1056964608"
  shows "\<exists>r s'. calloc_ex n k s = Inr (r, s') \<and> pool_good s' \<and> (\<forall>p. keeps p s s')"
proof (cases "n = 0 \<or> k = 0")
  case True
  then show ?thesis using assms(1) keeps_refl by (auto simp: calloc_ex_def)
next
  case False
  then have nz: "n \<noteq> 0" "k \<noteq> 0" by simp_all
  have g: "tlsf_inv s" "areas_ok s" using assms(1) by (simp_all add: pool_good_def)
  from g(1) nz assms(2) show ?thesis
  proof (cases rule: calloc_ex_spec)
    case none
    then show ?thesis using assms(1) keeps_refl by simp
  next
    case (some q s' c)
    have "keeps p s s'" for p by (rule keeps_all [OF some(7)]) (use some(4) in \<open>auto simp: some(5)\<close>)
    moreover have "areas_ok s'" using areas_ok_same [OF some(9)] g(2) by simp
    ultimately show ?thesis using some(1,3) by (simp add: pool_good_def)
  qed
qed

lemma add_call:
  assumes "pool_good s" "fair (Add_area ar sz) s"
  shows "\<exists>n s'. add_new_area ar sz s = Some (Inr (n, s')) \<and> pool_good s' \<and> (\<forall>p. keeps p s s') \<and> tlsf_held s' = tlsf_held s"
proof -
  have g: "tlsf_inv s" "areas_ok s" using assms(1) by (simp_all add: pool_good_def)
  have f: "80 \<le> unat sz" "0 < ar" "\<forall>x. ar \<le> x \<and> x < ar + unat sz \<longrightarrow> \<not> owned s x"
      "card (Collect (owned s)) + unat sz < 1073741824" "\<not> closes_gap s ar sz" using assms(2) by simp_all
  obtain s' n where s': "add_new_area ar sz s = Some (Inr (word_of_nat n, s'))" "tlsf_inv s'" "areas_ok s'" "tlsf_held s' = tlsf_held s"
      "same_at (tlsf_held s) s s'"
    by (rule add_new_area_spec [OF g f]) (rule that)
  have "keeps p s s'" for p using s'(4,5) by (simp add: keeps_def same_at_def)
  then show ?thesis using s'(1-4) by (auto simp: pool_good_def)
qed

lemma write_call:
  assumes "pool_good s" "fair (Write p i x) s"
  shows "\<exists>r s'. call (Write p i x) s = Some (Inr (r, s')) \<and> pool_good s' \<and> (\<forall>q. q \<noteq> p \<longrightarrow> keeps q s s')"
proof -
  have g: "tlsf_inv s" "areas_ok s" using assms(1) by (simp_all add: pool_good_def)
  obtain m where m: "tlsf_held s p = Some m" "i < m" using assms(2) by auto
  let ?s = "set_bytes (\<lambda>a. a = p + i) (\<lambda>_. x) s"
  have k: "tlsf_inv ?s" "tlsf_held ?s = tlsf_held s" "same_areas s ?s" "bytes_kept p s ?s"
    by (rule fill_keeps [OF g(1) m(1)], use m(2) in simp)+
  have "keeps q s ?s" if "q \<noteq> p" for q by (rule keeps_bytes [OF k(4) that]) (simp add: k(2))
  moreover have "areas_ok ?s" using areas_ok_same [OF k(3)] g(2) by simp
  ultimately show ?thesis using k(1) by (simp add: pool_good_def)
qed

lemma call_safe:
  assumes "pool_good s" "fair c s"
  shows "\<exists>r s'. call c s = Some (Inr (r, s')) \<and> pool_good s' \<and> (\<forall>p. p \<noteq> given c \<longrightarrow> keeps p s s')"
proof (cases c)
  case (Malloc n)
  then obtain r s' where "malloc_ex n s = Inr (r, s')" "pool_good s'" "\<And>p. keeps p s s'"
    using malloc_call [OF assms(1), of n] assms(2) by auto
  then show ?thesis using Malloc by simp
next
  case (Calloc n k)
  then obtain r s' where "calloc_ex n k s = Inr (r, s')" "pool_good s'" "\<And>p. keeps p s s'"
    using calloc_call [OF assms(1), of n k] assms(2) by auto
  then show ?thesis using Calloc by simp
next
  case (Realloc q n)
  then obtain r s' where "realloc_ex q n s = Inr (r, s')" "pool_good s'" "\<And>p. p \<noteq> q \<Longrightarrow> keeps p s s'"
    using realloc_call [OF assms(1), of q n] assms(2) by auto
  then show ?thesis using Realloc by simp
next
  case (Free q)
  then obtain s' where "free_ex q s = Inr s'" "pool_good s'" "\<And>p. p \<noteq> q \<Longrightarrow> keeps p s s'"
    using free_call [OF assms(1), of q] assms(2) by auto
  then show ?thesis using Free by simp
next
  case (Add_area ar sz)
  then have "fair (Add_area ar sz) s" using assms(2) by (simp only:)
  then obtain n s' where "add_new_area ar sz s = Some (Inr (n, s'))" "pool_good s'" "\<And>p. keeps p s s'"
    using add_call [OF assms(1)] by blast
  then show ?thesis using Add_area by simp
next
  case (Write p i x)
  then have "fair (Write p i x) s" using assms(2) by (simp only:)
  from write_call [OF assms(1) this] show ?thesis using Write by simp
qed

lemma calls_safe:
  assumes "pool_good s" "all_fair cs s"
  shows "\<exists>rs s'. run_calls cs s = Some (Inr (rs, s')) \<and> pool_good s' \<and> (\<forall>p. p \<notin> given ` set cs \<longrightarrow> keeps p s s')"
  using assms
proof (induction cs arbitrary: s)
  case Nil
  then show ?case using keeps_refl by simp
next
  case (Cons c cs)
  obtain r s1 where 1: "call c s = Some (Inr (r, s1))" "pool_good s1" "\<And>p. p \<noteq> given c \<Longrightarrow> keeps p s s1"
    using call_safe [of s c] Cons.prems by auto
  moreover have "all_fair cs s1" using Cons.prems(2) 1(1) by simp
  ultimately obtain rs s' where 2: "run_calls cs s1 = Some (Inr (rs, s'))" "pool_good s'" "\<And>p. p \<notin> given ` set cs \<Longrightarrow> keeps p s1 s'"
    using Cons.IH [of s1] by blast
  have "keeps p s s'" if "p \<notin> given ` set (c # cs)" for p using keeps_trans [OF 1(3) 2(3)] that by simp
  then show ?case using 1(1) 2(1,2) by simp
qed

lemma all_fair_append:
  assumes "all_fair (cs @ ds) s"
  shows "all_fair cs s" "run_calls cs s = Some (Inr (rs, s')) \<Longrightarrow> all_fair ds s'"
  using assms
proof (induction cs arbitrary: s rs)
  case (Cons c cs)
  {
    case 1
    then show ?case using Cons.IH(1) by (auto split: option.splits sum.splits)
  next
    case 2
    then show ?case using Cons.IH(2) by (fastforce simp: bind_err_Inr_iff split: option.splits sum.splits)
  }
qed auto

lemma good_disjoint: "pool_good s \<Longrightarrow> held_disjoint (\<lambda>p. p) (tlsf_held s)"
  unfolding pool_good_def held_disjoint_def apart_def using tlsf_held_apart by blast

end
