(* ===== verification/Tlsf_Pool.thy ===== *)
theory Tlsf_Pool
  imports Tlsf_Init Tlsf_Realloc Pool_Interface
begin

text \<open>
  The process-wide side of the allocator: the thread-local pointer \<^verbatim>\<open>mp\<close> to the default pool,
  \<^verbatim>\<open>init_memory_pool\<close>, the constructor function \<^verbatim>\<open>initialize_tlsf\<close>, the calls without a pool
  argument, and \<^verbatim>\<open>TlsfPoolAllocator\<close> (\<^verbatim>\<open>src/common/tlsf_allocator.cc\<close>) on top of them.

  \<open>pools\<close> is the memory of the pools by address. The answer of \<^verbatim>\<open>malloc\<close> and the value of
  \<^verbatim>\<open>atoi(getenv("COMMON_ALLOCATOR_SIZE_MB"))\<close> are arguments of \<open>initialize_tlsf\<close>. A call through
  a null \<^verbatim>\<open>mp\<close> ends with \<open>Bad_access\<close>.
\<close>

subsection \<open>Operations\<close>

record tlsf_proc =
  mp :: "nat \<Rightarrow> nat"
  pools :: "nat \<Rightarrow> tlsf"

definition init_memory_pool :: "nat \<Rightarrow> u64 \<Rightarrow> nat \<Rightarrow> tlsf_proc \<Rightarrow> tlsf_error + u64 \<times> tlsf_proc" where
  "init_memory_pool t mem_pool_size mem_pool st =
     (if mem_pool = 0 \<or> mem_pool_size = 0 \<or> mem_pool_size < SIZEOF_TLSF + BHDR_OVERHEAD * 8 then Inr (- 1, st)
      else if word_of_nat mem_pool AND PTR_MASK \<noteq> 0 then Inr (- 1, st)
      else if tlsf_signature (pools st mem_pool) = TLSF_SIGNATURE then
        let st = st\<lparr>mp := (mp st)(t := mem_pool)\<rparr> in
        bind_err (get_hdr (GET_NEXT_BLOCK mem_pool (ROUNDUP_SIZE SIZEOF_TLSF)) (pools st mem_pool)) (\<lambda>b.
        Inr (bsize b AND BLOCK_SIZE, st))
      else
        let st = st\<lparr>mp := (mp st)(t := mem_pool)\<rparr> in
        bind_err (setup_pool mem_pool_size mem_pool (pools st mem_pool)) (\<lambda>(n, s).
        Inr (n, st\<lparr>pools := (pools st)(mem_pool := s)\<rparr>)))"

definition initialize_tlsf :: "nat \<Rightarrow> int option \<Rightarrow> nat \<Rightarrow> tlsf_proc \<Rightarrow> tlsf_error + tlsf_proc" where
  "initialize_tlsf t env pool st =
     (let sz = (case env of None \<Rightarrow> 0 | Some v \<Rightarrow> word_of_int v) :: u64;
          sz = (if sz = 0 then 256 else sz);
          sz = push_bit 20 sz
      in bind_err (init_memory_pool t sz pool st) (\<lambda>(_, st). Inr st))"

definition tlsf_malloc :: "nat \<Rightarrow> u64 \<Rightarrow> tlsf_proc \<Rightarrow> tlsf_error + nat \<times> tlsf_proc" where
  "tlsf_malloc t sz st =
     (if mp st t = 0 then Inl Bad_access
      else bind_err (malloc_ex sz (pools st (mp st t))) (\<lambda>(p, s). Inr (p, st\<lparr>pools := (pools st)(mp st t := s)\<rparr>)))"

definition tlsf_free :: "nat \<Rightarrow> nat \<Rightarrow> tlsf_proc \<Rightarrow> tlsf_error + tlsf_proc" where
  "tlsf_free t ptr st =
     (if ptr = 0 then Inr st
      else if mp st t = 0 then Inl Bad_access
      else bind_err (free_ex ptr (pools st (mp st t))) (\<lambda>s. Inr (st\<lparr>pools := (pools st)(mp st t := s)\<rparr>)))"

definition tlsf_realloc :: "nat \<Rightarrow> nat \<Rightarrow> u64 \<Rightarrow> tlsf_proc \<Rightarrow> tlsf_error + nat \<times> tlsf_proc" where
  "tlsf_realloc t ptr sz st =
     (if ptr = 0 \<and> sz = 0 then Inr (0, st)
      else if mp st t = 0 then Inl Bad_access
      else bind_err (realloc_ex ptr sz (pools st (mp st t))) (\<lambda>(p, s). Inr (p, st\<lparr>pools := (pools st)(mp st t := s)\<rparr>)))"

definition tlsf_calloc :: "nat \<Rightarrow> u64 \<Rightarrow> u64 \<Rightarrow> tlsf_proc \<Rightarrow> tlsf_error + nat \<times> tlsf_proc" where
  "tlsf_calloc t nelem elem_size st =
     (if nelem \<le> 0 \<or> elem_size \<le> 0 then Inr (0, st)
      else if mp st t = 0 then Inl Bad_access
      else bind_err (calloc_ex nelem elem_size (pools st (mp st t)))
        (\<lambda>(p, s). Inr (p, st\<lparr>pools := (pools st)(mp st t := s)\<rparr>)))"

subsection \<open>TlsfPoolAllocator\<close>

definition newImpl :: "bool \<Rightarrow> nat \<Rightarrow> u64 \<Rightarrow> tlsf_proc \<Rightarrow> tlsf_error + nat \<times> tlsf_proc" where
  "newImpl is_noexcept t sz st =
     bind_err (tlsf_malloc t sz st) (\<lambda>(ptr, st).
     if is_noexcept then Inr (ptr, st) else if ptr \<noteq> 0 then Inr (ptr, st) else Inl Std_bad_alloc)"

definition freeImpl :: "nat \<Rightarrow> nat \<Rightarrow> tlsf_proc \<Rightarrow> tlsf_error + tlsf_proc" where
  "freeImpl t ptr st = tlsf_free t ptr st"

definition tlsf_operator_new :: "nat \<Rightarrow> u64 \<Rightarrow> tlsf_proc \<Rightarrow> tlsf_error + nat \<times> tlsf_proc" where
  "tlsf_operator_new t sz st = newImpl False t sz st"

definition tlsf_operator_new_nothrow :: "nat \<Rightarrow> u64 \<Rightarrow> tlsf_proc \<Rightarrow> tlsf_error + nat \<times> tlsf_proc" where
  "tlsf_operator_new_nothrow t sz st = newImpl True t sz st"

definition tlsf_operator_delete :: "nat \<Rightarrow> nat \<Rightarrow> tlsf_proc \<Rightarrow> tlsf_error + tlsf_proc" where
  "tlsf_operator_delete t ptr st = freeImpl t ptr st"

subsection \<open>The pool contract\<close>

text \<open>
  The contract holds in the thread that ran the constructor, thread \<open>0\<close>: \<^verbatim>\<open>mp\<close> is
  thread-local and null in every other thread.
\<close>

definition proc_inv :: "nat \<Rightarrow> nat \<Rightarrow> tlsf_proc \<Rightarrow> bool" where
  "proc_inv pool n st \<longleftrightarrow> pool \<noteq> 0 \<and> mp st 0 = pool \<and> tlsf_inv (pools st pool) \<and> areas (pools st pool) = {pool + 6272} \<and>
     (\<forall>x. owned (pools st pool) x \<longrightarrow> pool + 6272 \<le> x) \<and> area_end (pools st pool) (pool + 6272) = pool + 6320 + n"

definition proc_held :: "tlsf_proc \<Rightarrow> nat \<rightharpoonup> nat" where
  "proc_held st = tlsf_held (pools st (mp st 0))"

text \<open>The pool has a free block for the request, of the size \<^verbatim>\<open>malloc_ex\<close> looks for.\<close>

definition proc_fits :: "u64 \<Rightarrow> unit \<Rightarrow> tlsf_proc \<Rightarrow> bool" where
  "proc_fits n _ st \<longleftrightarrow> unat n \<le> 1056964608 \<and>
     (\<exists>b \<in> free_blocks (pools st (mp st 0)). fit_size n \<le> bsz (hdrs (pools st (mp st 0))) b)"

definition proc_new :: "nat \<Rightarrow> u64 \<Rightarrow> unit \<Rightarrow> tlsf_proc \<Rightarrow> tlsf_error + nat \<times> tlsf_proc" where
  "proc_new _ n _ st = tlsf_operator_new 0 n st"

definition proc_delete :: "nat \<Rightarrow> nat \<Rightarrow> tlsf_proc \<Rightarrow> tlsf_error + tlsf_proc" where
  "proc_delete _ p st = tlsf_operator_delete 0 p st"

lemma free_block_not_held:
  assumes "b \<in> free_blocks s"
  shows "tlsf_held s (b + 16) = None"
  using assms by (simp add: tlsf_held_def free_blocks_def)

lemma proc_update [simp]:
  "proc_held (st\<lparr>pools := (pools st)(mp st 0 := s)\<rparr>) = tlsf_held s"
  by (simp add: proc_held_def)

interpretation tlsf_pool: pool_allocator "\<lambda>p. p" "proc_inv pool m" proc_held proc_fits proc_new proc_delete for pool m
proof
  fix t :: nat and n :: u64 and e st
  assume inv: "proc_inv pool m st" and fits: "proc_fits n e st"
  let ?s = "pools st pool"
  have s: "tlsf_inv ?s" "pool \<noteq> 0" "mp st 0 = pool" and n: "unat n \<le> 1056964608"
    and b: "\<exists>b\<in>free_blocks ?s. fit_size n \<le> bsz (hdrs ?s) b"
    using inv fits by (auto simp: proc_inv_def proc_fits_def)
  from s(1) n obtain b s' c where m: "malloc_ex n ?s = Inr (b + 16, s')" "tlsf_inv s'" "b \<in> free_blocks ?s"
      "tlsf_held s' = (tlsf_held ?s)(b + 16 \<mapsto> c)" "fit_size n \<le> c" "owned s' = owned ?s" "areas s' = areas ?s" "area_part s' = area_part ?s"
    by (cases rule: malloc_ex_spec) (use b in fastforce)+
  have "unat n \<le> c" using search_spec [OF n] m(5) by (metis le_trans)
  moreover have none: "tlsf_held ?s (b + 16) = None" using m(3) by (rule free_block_not_held)
  moreover have "apart (\<lambda>p. p) (b + 16) c q k" if "tlsf_held ?s q = Some k" for q k
    using tlsf_held_apart [OF m(2), of "b + 16" c q k] that none m(4) by (force simp: apart_def)
  ultimately show "\<exists>p st' c. proc_new t n e st = Inr (p, st') \<and> proc_inv pool m st' \<and> proc_held st p = None \<and>
      proc_held st' = (proc_held st)(p \<mapsto> c) \<and> unat n \<le> c \<and> (\<forall>q m. proc_held st q = Some m \<longrightarrow> apart (\<lambda>p. p) p c q m)"
    using m s(2,3) inv
    by (intro exI [of _ "b + 16"] exI [of _ "st\<lparr>pools := (pools st)(pool := s')\<rparr>"] exI [of _ c])
      (simp add: proc_new_def tlsf_operator_new_def newImpl_def tlsf_malloc_def proc_inv_def proc_held_def area_end_def area_part_def)
next
  fix t p c st
  assume inv: "proc_inv pool m st" and p: "proc_held st p = Some c"
  let ?s = "pools st pool"
  have s: "tlsf_inv ?s" "pool \<noteq> 0" "mp st 0 = pool" "tlsf_held ?s p = Some c" using inv p by (auto simp: proc_inv_def proc_held_def)
  then have "p \<noteq> 0" by (auto simp: tlsf_held_Some)
  obtain s' where "free_ex p ?s = Inr s'" "tlsf_inv s'" "tlsf_held s' = (tlsf_held ?s)(p := None)"
      "owned s' = owned ?s" "areas s' = areas ?s" "area_part s' = area_part ?s"
    using free_ex_spec [OF s(1,4)] by blast
  then show "\<exists>st'. proc_delete t p st = Inr st' \<and> proc_inv pool m st' \<and> proc_held st' = (proc_held st)(p := None)"
    using s(2,3) \<open>p \<noteq> 0\<close> inv
    by (intro exI [of _ "st\<lparr>pools := (pools st)(pool := s')\<rparr>"])
      (simp add: proc_delete_def tlsf_operator_delete_def freeImpl_def tlsf_free_def proc_inv_def proc_held_def area_end_def area_part_def)
qed

subsection \<open>The constructor\<close>

text \<open>The size in mebibytes the constructor uses, for the values of the environment that keep the pool in bounds.\<close>

definition pool_mb :: "int option \<Rightarrow> nat" where
  "pool_mb env = (case env of None \<Rightarrow> 256 | Some v \<Rightarrow> if v = 0 then 256 else nat v)"

definition env_ok :: "int option \<Rightarrow> bool" where
  "env_ok env \<longleftrightarrow> (case env of None \<Rightarrow> True | Some v \<Rightarrow> 0 \<le> v \<and> v \<le> 1024)"

definition pool_fresh :: "nat \<Rightarrow> tlsf_proc \<Rightarrow> bool" where
  "pool_fresh pool st \<longleftrightarrow> pool \<noteq> 0 \<and> pool < 18446744073709551616 \<and> 8 dvd pool \<and> tlsf_signature (pools st pool) \<noteq> TLSF_SIGNATURE"

lemma initialize_spec:
  assumes "env_ok env" "pool_fresh pool st"
  defines "n \<equiv> pool_mb env * 1048576 - 6336"
  obtains s' where "initialize_tlsf t env pool st = Inr (st\<lparr>mp := (mp st)(t := pool), pools := (pools st)(pool := s')\<rparr>)"
    "tlsf_inv s'" "tlsf_held s' = Map.empty" "free_blocks s' = {pool + 6304}" "bsz (hdrs s') (pool + 6304) = n"
    "areas s' = {pool + 6272}" "\<And>x. owned s' x \<Longrightarrow> pool + 6272 \<le> x" "area_end s' (pool + 6272) = pool + 6320 + n"
proof -
  define mb where "mb = pool_mb env"
  have mb: "1 \<le> mb" "mb \<le> 1024" using assms(1) by (auto simp: mb_def pool_mb_def env_ok_def split: option.splits)
  define sz :: u64 where "sz = push_bit 20 (word_of_nat mb)"
  have u: "unat sz = mb * 1048576"
  proof -
    have sz: "sz = word_of_nat (mb * 1048576)" by (simp add: sz_def push_bit_eq_mult)
    show ?thesis unfolding sz by (rule unat_word_of_nat_u64) (use mb(2) in simp)
  qed
  have al: "word_of_nat pool AND PTR_MASK = (0 :: u64)"
  proof -
    have "unat (word_of_nat pool AND PTR_MASK :: u64) = unat (word_of_nat pool :: u64) mod 2 ^ 3"
      by (rule unat_and_mask) (simp add: PTR_MASK_def)
    also have "\<dots> = 0" using assms(2) by (simp add: pool_fresh_def unat_of_nat mod_mod_cancel)
    finally show ?thesis by (simp add: unat_eq_zero)
  qed
  have szs: "6392 \<le> unat sz" "unat sz < 1073748096" "unat sz mod 16 < 8" using u mb by auto
  obtain s' where s': "setup_pool sz pool (pools st pool) = Inr (word_of_nat (unat sz div 16 * 16 - 6336), s')"
    "tlsf_inv s'" "tlsf_held s' = Map.empty" "free_blocks s' = {pool + 6304}" "bsz (hdrs s') (pool + 6304) = unat sz div 16 * 16 - 6336"
    "areas s' = {pool + 6272}" "owned s' = (\<lambda>x. pool + 6272 \<le> x \<and> x < pool + unat sz)" "area s' (pool + 6288) = \<lparr>ai_end = pool + unat sz div 16 * 16 - 16, ai_next = 0\<rparr>"
  proof -
    have p: "pool \<noteq> 0" using assms(2) by (simp add: pool_fresh_def)
    show thesis by (rule setup_pool_spec [OF szs p, of "pools st pool"]) (rule that)
  qed
  have r: "unat sz div 16 * 16 = mb * 1048576" unfolding u by simp
  have sz0: "sz \<noteq> 0" "\<not> sz < 6392"
    using szs(1) by (auto simp: word_less_nat_alt unat_eq_zero [symmetric] simp del: unat_eq_zero)
  have w: "(let sz = case env of None \<Rightarrow> 0 | Some v \<Rightarrow> word_of_int v in if sz = 0 then 256 else sz) = (word_of_nat mb :: u64)"
  proof (cases env)
    case (Some v)
    show ?thesis
    proof (cases "v = 0")
      case False
      then have v: "v = int mb" using assms(1) Some by (auto simp: mb_def pool_mb_def env_ok_def)
      have "unat (word_of_nat mb :: u64) = mb" using mb(2) by (intro unat_word_of_nat_u64) simp
      then have "(word_of_nat mb :: u64) \<noteq> 0" using mb(1) by (metis not_one_le_zero unat_0)
      then show ?thesis by (simp add: Some v)
    qed (simp add: mb_def pool_mb_def Some)
  qed (simp add: mb_def pool_mb_def)
  have init: "init_memory_pool t sz pool st =
      Inr (word_of_nat (unat sz div 16 * 16 - 6336), st\<lparr>mp := (mp st)(t := pool), pools := (pools st)(pool := s')\<rparr>)"
    using sz0 al s'(1) assms(2) by (simp add: init_memory_pool_def pool_fresh_def Let_def)
  have "initialize_tlsf t env pool st = Inr (st\<lparr>mp := (mp st)(t := pool), pools := (pools st)(pool := s')\<rparr>)"
    using init w unfolding initialize_tlsf_def Let_def sz_def by simp
  then show thesis
  proof (rule that)
    show "area_end s' (pool + 6272) = pool + 6320 + n" 
    proof -
      have e: "pool + 6272 + 16 = pool + 6288" by simp
      show ?thesis unfolding area_end_def e using s'(8) mb r by (simp add: n_def mb_def [symmetric])
    qed
    show "bsz (hdrs s') (pool + 6304) = n" using s'(5) r by (simp add: n_def mb_def [symmetric])
  qed (use s' in simp_all)
qed

end
