(* ===== verification/Tlsf_Properties.thy ===== *)
theory Tlsf_Properties
  imports Tlsf_Pool
begin

text \<open>The properties of the two-level segregated fit allocator and of the pool class built on it.\<close>

subsection \<open>Supporting lemmas\<close>

lemma pool_start:
  assumes "env_ok env" "pool_fresh pool st"
  obtains st1 where "initialize_tlsf 0 env pool st = Inr st1" "proc_inv pool (pool_mb env * 1048576 - 6336) st1"
    "proc_held st1 = Map.empty" "free_blocks (pools st1 pool) = {pool + 6304}"
    "bsz (hdrs (pools st1 pool)) (pool + 6304) = pool_mb env * 1048576 - 6336" "mp st1 0 = pool"
  using initialize_spec [OF assms, of 0] assms(2)
  by (force simp: proc_inv_def proc_held_def pool_fresh_def)

text \<open>A process before the constructor runs, and its first allocation afterwards.\<close>

definition blank_tlsf :: tlsf where
  "blank_tlsf = \<lparr>tlsf_signature = 0, area_head = 0, fl_bitmap = 0, sl_bitmap = [], matrix = [],
     mem = (\<lambda>_. \<lparr>prev_hdr = 0, bsize = 0, free_prev = 0, free_next = 0\<rparr>), area = (\<lambda>_. \<lparr>ai_end = 0, ai_next = 0\<rparr>),
     data = (\<lambda>_. 0), owned = (\<lambda>_. False), blks = {}, areas = {}, lists = (\<lambda>_ _. [])\<rparr>"

definition blank_proc :: tlsf_proc where
  "blank_proc = \<lparr>mp = (\<lambda>_. 0), pools = (\<lambda>_. blank_tlsf)\<rparr>"

lemma blank_ok: "env_ok None" "pool_fresh 4096 blank_proc" "pool_mb None = 256"
  by (simp_all add: env_ok_def pool_fresh_def blank_proc_def blank_tlsf_def TLSF_SIGNATURE_def pool_mb_def)

lemma fit_100: "fit_size 100 = 112"
  by (simp add: fit_size_def request_size_def ROUNDUP_SIZE_def MAPPING_SEARCH_def)

lemma first_new:
  assumes inv: "proc_inv pool m st" and F: "proc_held st = Map.empty" "free_blocks (pools st pool) = {pool + 6304}" and n: "proc_fits n () st"
  obtains st' c where "proc_new t n () st = Inr (pool + 6320, st')" "proc_inv pool m st'" "proc_held st' = [pool + 6320 \<mapsto> c]"
proof -
  have s: "tlsf_inv (pools st pool)" "pool \<noteq> 0" "mp st 0 = pool" using inv by (simp_all add: proc_inv_def)
  have n': "unat n \<le> 1056964608" "fit_size n \<le> bsz (hdrs (pools st pool)) (pool + 6304)"
    using n s(3) F(2) by (simp_all add: proc_fits_def)
  from s(1) n'(1) obtain st' where "proc_new t n () st = Inr (pool + 6320, st')"
    by (cases rule: malloc_ex_spec)
      (use n'(2) F(2) s in \<open>auto simp: proc_new_def tlsf_operator_new_def newImpl_def tlsf_malloc_def\<close>)
  then show thesis using that tlsf_pool.alloc_law [OF inv n, of t] F(1) by auto
qed

lemma example_block:
  obtains st1 st' c where "initialize_tlsf 0 None 4096 blank_proc = Inr st1" "proc_fits 100 () st1" "proc_inv 4096 268429120 st1"
    "proc_new 0 100 () st1 = Inr (10416, st')" "proc_inv 4096 268429120 st'" "proc_held st' = [10416 \<mapsto> c]" "proc_held st1 = Map.empty"
proof -
  obtain st1 where s: "initialize_tlsf 0 None 4096 blank_proc = Inr st1" "proc_inv 4096 268429120 st1"
      "proc_held st1 = Map.empty" "free_blocks (pools st1 4096) = {4096 + 6304}"
      "bsz (hdrs (pools st1 4096)) (4096 + 6304) = 268429120" "mp st1 0 = 4096"
    using pool_start [OF blank_ok(1,2)] by (auto simp: blank_ok(3))
  have f: "proc_fits 100 () st1" using s(4-6) by (simp add: proc_fits_def fit_100)
  obtain st' c where "proc_new 0 100 () st1 = Inr (4096 + 6320, st')" "proc_inv 4096 268429120 st'" "proc_held st' = [4096 + 6320 \<mapsto> c]"
    using first_new [OF s(2-4) f] by blast
  then show thesis using that [OF s(1) f s(2)] s(3) by simp
qed

lemma example_held:
  obtains s c where "tlsf_inv s" "tlsf_held s 10416 = Some c"
  by (rule example_block) (auto simp: proc_inv_def proc_held_def)

subsection \<open>Properties\<close>

text \<open>
  C6. The constructor sets up a pool for every size up to 1024 MiB, and from then on, in the thread
  that ran it, any sequence of \<^verbatim>\<open>operator new\<close> and \<^verbatim>\<open>operator delete\<close> of held blocks succeeds
  as long as the pool has a fitting free block, without an access outside the pool or the
  class tables, and the held blocks never overlap.
\<close>

theorem tlsf_pool_safe:
  assumes "env_ok env" "pool_fresh pool st"
  shows "\<exists>st1. initialize_tlsf 0 env pool st = Inr st1 \<and>
    (\<forall>as. pool_ok proc_held proc_fits proc_new proc_delete as st1 \<longrightarrow>
      (\<exists>rs st2. pool_run proc_new proc_delete as st1 = Inr (rs, st2) \<and> held_disjoint (\<lambda>p. p) (proc_held st2)))"
proof -
  obtain st1 where s: "initialize_tlsf 0 env pool st = Inr st1" "proc_inv pool (pool_mb env * 1048576 - 6336) st1"
      "proc_held st1 = Map.empty"
    using pool_start [OF assms] by blast
  have "held_disjoint (\<lambda>p. p) (proc_held st1)" by (simp add: s(3) held_disjoint_def)
  then show ?thesis using s(1) tlsf_pool.run_safe [OF s(2)] by blast
qed

theorem tlsf_pool_safe_witness:
  "\<exists>st1 st2. initialize_tlsf 0 None 4096 blank_proc = Inr st1 \<and>
    pool_run proc_new proc_delete [New 0 100 (), Delete 0 10416] st1 = Inr ([Some 10416, None], st2) \<and>
    held_disjoint (\<lambda>p. p) (proc_held st2)"
proof -
  obtain st1 st' c where e: "initialize_tlsf 0 None 4096 blank_proc = Inr st1" "proc_fits 100 () st1"
      "proc_new 0 100 () st1 = Inr (10416, st')" "proc_held st' = [10416 \<mapsto> c]"
    by (rule example_block)
  then have "pool_ok proc_held proc_fits proc_new proc_delete [New 0 100 (), Delete 0 10416] st1"
    by (simp split: sum.split)
  then obtain rs st2 where r: "pool_run proc_new proc_delete [New 0 100 (), Delete 0 10416] st1 = Inr (rs, st2)"
      "held_disjoint (\<lambda>p. p) (proc_held st2)"
    using tlsf_pool_safe [OF blank_ok(1,2)] e(1) by (metis sum.inject(2))
  moreover from r(1) have "rs = [Some 10416, None]" using e(3) by (cases "proc_delete 0 10416 st'") auto
  ultimately show ?thesis using e(1) by blast
qed

text \<open>
  Nothing leaks: whenever the clients have given back all blocks, the pool is again the one
  free block it started as, with the whole capacity.
\<close>

lemma tlsf_no_leak:
  assumes "env_ok env" "pool_fresh pool st" "initialize_tlsf 0 env pool st = Inr st1"
    "pool_ok proc_held proc_fits proc_new proc_delete as st1" "pool_run proc_new proc_delete as st1 = Inr (rs, st2)"
    "proc_held st2 = Map.empty"
  shows "free_blocks (pools st2 pool) = free_blocks (pools st1 pool) \<and>
    (\<forall>b\<in>free_blocks (pools st1 pool). bsz (hdrs (pools st2 pool)) b = pool_mb env * 1048576 - 6336)"
proof -
  let ?n = "pool_mb env * 1048576 - 6336"
  have s: "proc_inv pool ?n st1" "proc_held st1 = Map.empty" "free_blocks (pools st1 pool) = {pool + 6304}"
    using pool_start [OF assms(1,2)] assms(3) by auto
  have "held_disjoint (\<lambda>p. p) (proc_held st1)" by (simp add: s(2) held_disjoint_def)
  then have "proc_inv pool ?n st2" using tlsf_pool.run_safe [OF s(1) _ assms(4)] assms(5) by auto
  then have t: "tlsf_inv (pools st2 pool)" "areas (pools st2 pool) = {pool + 6272}" "mp st2 0 = pool"
      "\<And>x. owned (pools st2 pool) x \<Longrightarrow> pool + 6272 \<le> x" "area_end (pools st2 pool) (pool + 6272) = pool + 6272 + 48 + ?n"
    by (simp_all add: proc_inv_def)
  have "tlsf_held (pools st2 pool) = Map.empty" using assms(6) t(3) by (simp add: proc_held_def)
  from nothing_held [OF t(1) this t(2,4,5)] show ?thesis using s(3) by (simp add: ac_simps)
qed

lemma tlsf_no_leak_witness:
  "\<exists>st1 st2. initialize_tlsf 0 None 4096 blank_proc = Inr st1 \<and>
    pool_run proc_new proc_delete [New 0 100 (), Delete 0 10416] st1 = Inr ([Some 10416, None], st2) \<and>
    free_blocks (pools st2 4096) = free_blocks (pools st1 4096)"
proof -
  obtain st1 st' c where e: "initialize_tlsf 0 None 4096 blank_proc = Inr st1" "proc_fits 100 () st1"
      "proc_new 0 100 () st1 = Inr (10416, st')" "proc_inv 4096 268429120 st'" "proc_held st' = [10416 \<mapsto> c]"
    by (rule example_block)
  have ok: "pool_ok proc_held proc_fits proc_new proc_delete [New 0 100 (), Delete 0 10416] st1"
    using e by (simp split: sum.split)
  obtain st2 where d: "proc_delete 0 10416 st' = Inr st2" "proc_held st2 = Map.empty"
    using tlsf_pool.dealloc_law [OF e(4), of 10416 c 0] e(5) by auto
  have run: "pool_run proc_new proc_delete [New 0 100 (), Delete 0 10416] st1 = Inr ([Some 10416, None], st2)"
    using e(3) d(1) by simp
  show ?thesis using tlsf_no_leak [OF blank_ok(1,2) e(1) ok run d(2)] e(1) run by blast
qed

text \<open>
  C11. \<^verbatim>\<open>malloc_ex\<close> fails exactly when every free block is smaller than the request rounded up to
  its class, which exceeds the aligned request by at most a thirty-second; otherwise it hands
  out a block of at least the requested size, taken from a free block that exceeds no other
  fitting free block by more than a thirty-second of its size, with less than 32 bytes unused
  behind the rounded request, and keeps the invariant and the bytes of all blocks that clients hold.
\<close>

theorem malloc_ex_good_fit:
  assumes "tlsf_inv s" "unat sz \<le> 1056964608"
  shows "32 * fit_size sz \<le> 33 * max 16 (unat sz + 15) \<and>
    (if \<forall>x\<in>free_blocks s. bsz (hdrs s) x < fit_size sz then malloc_ex sz s = Inr (0, s)
     else \<exists>b s' c. malloc_ex sz s = Inr (b + 16, s') \<and> tlsf_inv s' \<and> b \<in> free_blocks s \<and>
       (\<forall>x\<in>free_blocks s. fit_size sz \<le> bsz (hdrs s) x \<longrightarrow> 32 * (bsz (hdrs s) b - bsz (hdrs s) x) \<le> bsz (hdrs s) b) \<and>
       tlsf_held s' = (tlsf_held s)(b + 16 \<mapsto> c) \<and> unat sz \<le> c \<and> c < fit_size sz + 32 \<and>
       (\<forall>q m i. tlsf_held s q = Some m \<longrightarrow> i < m \<longrightarrow> data s' (q + i) = data s (q + i)))"
proof -
  have b: "32 * fit_size sz \<le> 33 * max 16 (unat sz + 15)" "unat sz \<le> fit_size sz" using search_spec [OF assms(2)] by blast+
  from assms show ?thesis
  proof (cases rule: malloc_ex_spec)
    case none
    then show ?thesis using b(1) by simp
  next
    case (some a s' c)
    then have "\<not> (\<forall>x\<in>free_blocks s. bsz (hdrs s) x < fit_size sz)" by (meson not_less)
    moreover have "\<exists>b s' c. malloc_ex sz s = Inr (b + 16, s') \<and> tlsf_inv s' \<and> b \<in> free_blocks s \<and>
       (\<forall>x\<in>free_blocks s. fit_size sz \<le> bsz (hdrs s) x \<longrightarrow> 32 * (bsz (hdrs s) b - bsz (hdrs s) x) \<le> bsz (hdrs s) b) \<and>
       tlsf_held s' = (tlsf_held s)(b + 16 \<mapsto> c) \<and> unat sz \<le> c \<and> c < fit_size sz + 32 \<and>
       (\<forall>q m i. tlsf_held s q = Some m \<longrightarrow> i < m \<longrightarrow> data s' (q + i) = data s (q + i))"
      using some b(2) by (intro exI [of _ a] exI [of _ s'] exI [of _ c]) (simp add: bytes_kept_0)
    ultimately show ?thesis using b(1) by presburger
  qed
qed

theorem malloc_ex_good_fit_witness:
  "\<exists>s b s' c. tlsf_inv s \<and> malloc_ex 100 s = Inr (b + 16, s') \<and> 100 \<le> c \<and> c < 144 \<and> tlsf_held s' (b + 16) = Some c"
proof -
  obtain st1 where s: "proc_inv 4096 268429120 st1" "proc_fits 100 () st1" by (rule example_block)
  then have i: "tlsf_inv (pools st1 4096)" and f: "\<exists>b\<in>free_blocks (pools st1 4096). 112 \<le> bsz (hdrs (pools st1 4096)) b"
    by (auto simp: proc_inv_def proc_fits_def fit_100)
  have "\<exists>b s' c. malloc_ex 100 (pools st1 4096) = Inr (b + 16, s') \<and> tlsf_held s' = (tlsf_held (pools st1 4096))(b + 16 \<mapsto> c) \<and>
      c < 144 \<and> 100 \<le> c"
    using malloc_ex_good_fit [OF i, of 100] f by (auto simp: fit_100 not_less split: if_splits)
  then obtain b s' c where "malloc_ex 100 (pools st1 4096) = Inr (b + 16, s')"
      "tlsf_held s' = (tlsf_held (pools st1 4096))(b + 16 \<mapsto> c)" "c < 144" "100 \<le> c" by blast
  then show ?thesis using i by (intro exI [of _ "pools st1 4096"] exI [of _ b] exI [of _ s'] exI [of _ c]) simp
qed

text \<open>
  C13. \<^verbatim>\<open>free_ex\<close> of a held block succeeds, gives up exactly that block, keeps the bytes of all
  other held blocks, puts the freed memory into one free block together with its free neighbours, and
  leaves no two free blocks next to each other.
\<close>

theorem free_ex_merges:
  assumes "tlsf_inv s" "tlsf_held s ptr = Some k"
  shows "\<exists>s'. free_ex ptr s = Inr s' \<and> tlsf_inv s' \<and> tlsf_held s' = (tlsf_held s)(ptr := None) \<and>
    (\<forall>q m i. q \<noteq> ptr \<longrightarrow> tlsf_held s q = Some m \<longrightarrow> i < m \<longrightarrow> data s' (q + i) = data s (q + i)) \<and>
    (\<exists>b\<in>free_blocks s'. b + 16 \<le> ptr \<and> ptr + k \<le> b + 16 + bsz (hdrs s') b) \<and>
    (\<forall>b\<in>free_blocks s'. nxt (hdrs s') b \<notin> free_blocks s')"
proof -
  obtain s' where s': "free_ex ptr s = Inr s'" "tlsf_inv s'" "tlsf_held s' = (tlsf_held s)(ptr := None)" "bytes_kept ptr s s'"
      "\<exists>b\<in>free_blocks s'. b + 16 \<le> ptr \<and> ptr + k \<le> b + 16 + bsz (hdrs s') b"
    by (rule free_ex_spec [OF assms]) (rule that)
  moreover have "\<forall>b\<in>free_blocks s'. nxt (hdrs s') b \<notin> free_blocks s'"
    using blocks_okD(9) [OF tlsf_invD(2) [OF s'(2)]] by (auto simp: free_blocks_def)
  ultimately show ?thesis unfolding bytes_kept_def by blast
qed

theorem free_ex_merges_witness:
  "\<exists>s s'. tlsf_inv s \<and> tlsf_held s 10416 \<noteq> None \<and> free_ex 10416 s = Inr s' \<and> tlsf_held s' 10416 = None"
proof -
  obtain s c where s: "tlsf_inv s" "tlsf_held s 10416 = Some c" by (rule example_held)
  from free_ex_merges [OF this] s show ?thesis by auto
qed

text \<open>
  C15. \<^verbatim>\<open>realloc_ex\<close> of a held block either fails and leaves the state as it was, or returns a
  block of at least the new size in place of the old one. The first bytes, up to the smaller
  of the two sizes, are those of the old block, and the bytes of every other held block stay.
\<close>

theorem realloc_ex_keeps_contents:
  assumes "tlsf_inv s" "tlsf_held s ptr = Some k" "n \<noteq> 0" "unat n \<le> 1056964608"
  shows "realloc_ex ptr n s = Inr (0, s) \<or>
    (\<exists>q s' c. realloc_ex ptr n s = Inr (q, s') \<and> tlsf_inv s' \<and> tlsf_held s' = ((tlsf_held s)(ptr := None))(q \<mapsto> c) \<and>
      unat n \<le> c \<and> (\<forall>i<min k (unat n). data s' (q + i) = data s (ptr + i)) \<and>
      (\<forall>r m i. r \<noteq> ptr \<longrightarrow> tlsf_held s r = Some m \<longrightarrow> i < m \<longrightarrow> data s' (r + i) = data s (r + i)))"
  using assms
proof (cases rule: realloc_ex_spec)
  case (ok q s' c)
  have "\<forall>r m i. r \<noteq> ptr \<longrightarrow> tlsf_held s r = Some m \<longrightarrow> i < m \<longrightarrow> data s' (r + i) = data s (r + i)"
    using ok(7) by (simp add: bytes_kept_def)
  then show ?thesis using ok(1,3-5,8) by blast
qed simp

theorem realloc_ex_keeps_contents_witness:
  "\<exists>s k. tlsf_inv s \<and> tlsf_held s 10416 = Some k \<and> (realloc_ex 10416 200 s = Inr (0, s) \<or>
    (\<exists>q s'. realloc_ex 10416 200 s = Inr (q, s') \<and> (\<forall>i<min k 200. data s' (q + i) = data s (10416 + i))))"
proof -
  obtain s k where s: "tlsf_inv s" "tlsf_held s 10416 = Some k" by (rule example_held)
  have p: "(200 :: u64) \<noteq> 0" "unat (200 :: u64) \<le> 1056964608" by simp_all
  have "realloc_ex 10416 200 s = Inr (0, s) \<or>
      (\<exists>q s'. realloc_ex 10416 200 s = Inr (q, s') \<and> (\<forall>i<min k (unat (200 :: u64)). data s' (q + i) = data s (10416 + i)))"
    using realloc_ex_keeps_contents [OF s p] by blast
  then show ?thesis using s by (intro exI [of _ s] exI [of _ k]) simp
qed

lemma bit_unat_div: "bit x j \<longleftrightarrow> odd (unat x div 2 ^ j)" for x :: "'a::len word"
proof -
  have "bit x j \<longleftrightarrow> bit (unat x) j" by (simp add: bit_unsigned_iff)
  then show ?thesis by (simp add: bit_iff_odd)
qed

lemma Max_bits:
  fixes x :: "'a::len word"
  assumes "2 ^ k \<le> unat x" "unat x < 2 ^ Suc k"
  shows "Max {j. bit x j} = k"
proof (rule Max_eqI)
  have "unat x div 2 ^ k = 1" using assms by (intro div_nat_eqI) simp_all
  then show "k \<in> {j. bit x j}" by (simp add: bit_unat_div)
  have le: "j \<le> k" if "bit x j" for j
  proof -
    have "unat x div 2 ^ j \<noteq> 0" using that unfolding bit_unat_div by (metis dvd_0_right)
    then have "2 ^ j \<le> unat x" by (simp add: div_eq_0_iff not_less)
    then have "(2::nat) ^ j < 2 ^ Suc k" using assms(2) by (rule le_less_trans)
    then show ?thesis by (simp only: power_strict_increasing_iff one_less_numeral_iff semiring_norm)
  qed
  then show "finite {j. bit x j}" by (meson finite_nat_set_iff_bounded_le mem_Collect_eq)
  show "j \<le> k" if "j \<in> {j. bit x j}" for j using le that by simp
qed

text \<open>
  C32. The table searches \<^verbatim>\<open>ms_bit\<close> and \<^verbatim>\<open>ls_bit\<close> agree with their definitions on every 32 bit
  word: the position of the highest and of the lowest set bit, and \<open>-1\<close> on \<open>0\<close>.
\<close>

theorem tlsf_bit_search:
  "(ms_bit x, ls_bit x) = (if x = 0 then (- 1, - 1) else (int (Max {k. bit x k}), int (Min {k. bit x k})))"
proof (cases "x = 0")
  case True
  then show ?thesis by (simp add: ls_bit_0) (simp add: ms_bit_def byte_shift_def table_def)
next
  case False
  obtain k where k: "ms_bit x = int k" "2 ^ k \<le> unat x" "unat x < 2 ^ Suc k" by (rule ms_bit_log2 [OF False])
  obtain l where l: "l < LENGTH(32)" "bit x l" "\<And>j. j < l \<Longrightarrow> \<not> bit x j" using lowest_bit [OF False] by blast
  have "finite {j. bit x j}" by (rule finite_subset [of _ "{..<32}"]) (auto dest: bit_imp_le_length)
  then have "Min {j. bit x j} = l" using l(2,3) by (intro Min_eqI) (auto simp: not_less [symmetric])
  then show ?thesis using False k(1) Max_bits [OF k(2,3)] ls_bit_lowest [OF l(2,3)] by simp
qed

text \<open>
  C39. Requests in the last thirty-second below \<open>2 ^ 30\<close> bytes are not refused: they are rounded up
  to class 24 of the first level and \<^verbatim>\<open>malloc_ex\<close> reads \<^verbatim>\<open>sl_bitmap[24]\<close>, behind the array, in
  every state of the pool.
\<close>

theorem malloc_ex_reads_out_of_bounds:
  assumes "1056964608 < unat sz" "unat sz \<le> 1073741808"
  shows "malloc_ex sz s = Inl Bad_access"
proof -
  let ?r = "request_size sz"
  have r: "unat ?r = (unat sz + 15) div 16 * 16"
    using assms by (simp add: request_size_def word_less_nat_alt roundup_size_spec)
  have b: "1056964608 < unat ?r" "unat ?r < 1073741824" unfolding r using assms by linarith+
  have m: "ms_bit (ucast ?r) = 29" using ms_bit_ucast [of 29 ?r] b by simp
  define r1 where "r1 = ?r + word_of_int (push_bit 24 1 - 1)"
  have "unat r1 = unat ?r + 2 ^ 24 - 1" unfolding r1_def using b by (intro round_up_mask(1)) simp_all
  then have m1: "ms_bit (ucast r1) = 30" using ms_bit_ucast [of 30 r1] b by simp
  have "\<exists>q sl. MAPPING_SEARCH ?r = Some (q, 24, sl)"
  proof -
    have "\<not> ?r < SMALL_BLOCK" using b by (simp add: word_less_nat_alt)
    moreover have "nat (29 - MAX_LOG2_SLI) = 24" by simp
    ultimately show ?thesis using m m1 unfolding MAPPING_SEARCH_def r1_def by (simp add: Let_def)
  qed
  then show ?thesis by (auto simp: malloc_ex_def to_class_def)
qed

theorem malloc_ex_reads_out_of_bounds_witness:
  "malloc_ex 1073741800 blank_tlsf = Inl Bad_access"
  by (rule malloc_ex_reads_out_of_bounds) simp_all

text \<open>
  The default pool exists in one thread only: \<^verbatim>\<open>mp\<close> is thread-local and the constructor sets
  it in the thread it runs in, so every other thread that has not set up a pool of its own
  dereferences a null pointer in \<^verbatim>\<open>TlsfPoolAllocator::operator new\<close>, in both forms, and in
  \<^verbatim>\<open>operator delete\<close> of a non-null pointer.
\<close>

lemma tlsf_other_threads_null:
  assumes "initialize_tlsf t env pool st = Inr st1" "u \<noteq> t" "mp st u = 0" "p \<noteq> 0"
  shows "tlsf_operator_new u sz st1 = Inl Bad_access \<and> tlsf_operator_new_nothrow u sz st1 = Inl Bad_access \<and>
    tlsf_operator_delete u p st1 = Inl Bad_access"
proof -
  have "mp st1 u = 0"
    using assms(1-3)
    by (auto simp: initialize_tlsf_def init_memory_pool_def bind_err_Inr_iff Let_def split: if_splits)
  then show ?thesis
    using assms(4) by (simp add: tlsf_operator_new_def tlsf_operator_new_nothrow_def newImpl_def tlsf_malloc_def
        tlsf_operator_delete_def freeImpl_def tlsf_free_def)
qed

end
