(* ===== verification/Tlsf_Area_Properties.thy ===== *)
theory Tlsf_Area_Properties
  imports Tlsf_Calls Tlsf_Properties
begin

text \<open>
  The properties of pools that grow, and of all calls of the allocator together. Their limits are
  those of \<open>fair\<close>: requests up to 2 to the 30 less 2 to the 24 bytes, new areas of 80 bytes or more
  outside the pool, less than 2 to the 30 bytes in all, and no area that closes a gap in the way that
  \<open>closes_gap\<close> says. The last property shows that this exclusion is exact.
\<close>

subsection \<open>A pool that grows\<close>

lemma setup_good:
  assumes "6392 \<le> unat sz" "unat sz < 1073748096" "unat sz mod 16 < 8" "p \<noteq> 0"
  obtains s where "setup_pool sz p s0 = Inr (word_of_nat (unat sz div 16 * 16 - 6336), s)" "pool_good s" "areas s = {p + 6272}"
    "owned s = (\<lambda>x. p + 6272 \<le> x \<and> x < p + unat sz)" "tlsf_held s = Map.empty"
    "area_list s [p + 6272]" "area_end s (p + 6272) = p + unat sz div 16 * 16 - 16"
proof -
  obtain s where s: "setup_pool sz p s0 = Inr (word_of_nat (unat sz div 16 * 16 - 6336), s)" "tlsf_inv s" "areas s = {p + 6272}"
      "owned s = (\<lambda>x. p + 6272 \<le> x \<and> x < p + unat sz)" "area_head s = p + 6288"
      "area s (p + 6288) = \<lparr>ai_end = p + unat sz div 16 * 16 - 16, ai_next = 0\<rparr>" "tlsf_held s = Map.empty"
    by (rule setup_pool_spec [OF assms, of s0]) (rule that)
  have l: "area_list s [p + 6272]" using s(5,6) by (simp add: area_list_def add.commute [of 6288])
  have e: "area_end s (p + 6272) = p + unat sz div 16 * 16 - 16" using s(6) by (simp add: area_end_def add.commute [of 6288])
  have "cover (owned s) (areas s) (area_end s)"
  proof -
    have "6400 \<le> unat sz div 16 * 16" "unat sz div 16 * 16 \<le> unat sz" using round_area [OF assms(1,3)] by simp_all
    then show ?thesis unfolding cover_def s(3,4) by (auto simp: e spans_def)
  qed
  then have "areas_ok s" using s(3) l unfolding areas_ok_def by (intro conjI exI [of _ "[p + 6272]"]) simp_all
  then show thesis using that s(1-4,7) l e by (simp add: pool_good_def)
qed

lemma small_pool:
  obtains s where "setup_pool 6400 4096 blank_tlsf = Inr (64, s)" "pool_good s" "areas s = {10368}"
    "owned s = (\<lambda>x. 10368 \<le> x \<and> x < 10496)" "fair (Add_area 10496 208) s" "tlsf_held s = Map.empty"
    "area_list s [10368]" "area_end s 10368 = 10480" "card (Collect (owned s)) = 128"
proof -
  obtain s where s: "setup_pool 6400 4096 blank_tlsf = Inr (64, s)" "pool_good s" "areas s = {10368}"
      "owned s = (\<lambda>x. 10368 \<le> x \<and> x < 10496)" "tlsf_held s = Map.empty" "area_list s [10368]" "area_end s 10368 = 10480"
    by (rule setup_good [of 6400 4096 blank_tlsf]) simp_all
  have c: "Collect (owned s) = {10368..<10496}" by (auto simp: s(4))
  moreover have "\<not> closes_gap s 10496 208" using closes_gap_touches [of s 10496 208] by (auto simp: s(3) area_room_def)
  ultimately have "fair (Add_area 10496 208) s" by (simp add: s(4))
  then show thesis using that s c by simp
qed

text \<open>
  C7. In a pool that was just set up every sequence of \<^verbatim>\<open>malloc_ex\<close>, \<^verbatim>\<open>calloc_ex\<close>, \<^verbatim>\<open>realloc_ex\<close>,
  \<^verbatim>\<open>free_ex\<close>, \<^verbatim>\<open>add_new_area\<close> and writes of the clients into the blocks they hold succeeds, without an
  access outside the pool or the class tables, when every call is fair: it uses only blocks held at
  the time and requests up to 2 to the 30 less 2 to the 24 bytes, and adds areas of at least 80 bytes
  outside the pool, to less than 2 to the 30 bytes in all, none of them one that closes a gap behind a
  free block (\<open>closes_gap\<close>). Blocks held do not overlap, and a block keeps its bytes and its place until
  it is given to a call, whatever is allocated, resized, freed and written meanwhile: the headers and
  the links of the free lists that the allocator writes are bytes of the same memory.
\<close>

theorem tlsf_calls_safe:
  assumes "6392 \<le> unat sz" "unat sz < 1073748096" "unat sz mod 16 < 8" "p \<noteq> 0" "setup_pool sz p s0 = Inr (n, s)"
    "all_fair (cs @ ds) s"
  shows "\<exists>rs1 s1 rs2 s2. run_calls cs s = Some (Inr (rs1, s1)) \<and> run_calls ds s1 = Some (Inr (rs2, s2)) \<and>
    held_disjoint (\<lambda>q. q) (tlsf_held s2) \<and> (\<forall>q. q \<notin> given ` set ds \<longrightarrow> keeps q s1 s2)"
proof -
  have g: "pool_good s" by (rule setup_good [OF assms(1-4), of s0]) (use assms(5) in simp)
  obtain rs1 s1 where 1: "run_calls cs s = Some (Inr (rs1, s1))" "pool_good s1" "all_fair ds s1"
    using calls_safe [OF g all_fair_append(1) [OF assms(6)]] all_fair_append(2) [OF assms(6)] by blast
  obtain rs2 s2 where "run_calls ds s1 = Some (Inr (rs2, s2))" "pool_good s2" "\<forall>q. q \<notin> given ` set ds \<longrightarrow> keeps q s1 s2"
    using calls_safe [OF 1(2,3)] by blast
  then show ?thesis using 1(1) good_disjoint by blast
qed

theorem tlsf_calls_safe_witness:
  "\<exists>s rs1 s1 rs2 s2. setup_pool 6400 4096 blank_tlsf = Inr (64, s) \<and> run_calls [Add_area 10496 208, Malloc 20] s = Some (Inr (rs1, s1)) \<and>
    run_calls [Malloc 100, Free 0] s1 = Some (Inr (rs2, s2)) \<and> held_disjoint (\<lambda>q. q) (tlsf_held s2) \<and> (\<forall>q. q \<noteq> 0 \<longrightarrow> keeps q s1 s2)"
proof -
  obtain s where s: "setup_pool 6400 4096 blank_tlsf = Inr (64, s)" "fair (Add_area 10496 208) s" by (rule small_pool)
  have f: "all_fair ([Add_area 10496 208, Malloc 20] @ [Malloc 100, Free 0]) s"
    using s(2) by (simp del: fair.simps(5) call.simps split: option.split sum.split)
  have "6392 \<le> unat (6400 :: u64)" "unat (6400 :: u64) < 1073748096" "unat (6400 :: u64) mod 16 < 8" "(4096 :: nat) \<noteq> 0" by simp_all
  from tlsf_calls_safe [OF this s(1) f] obtain rs1 s1 rs2 s2 where "run_calls [Add_area 10496 208, Malloc 20] s = Some (Inr (rs1, s1))"
      "run_calls [Malloc 100, Free 0] s1 = Some (Inr (rs2, s2))" "held_disjoint (\<lambda>q. q) (tlsf_held s2)"
      and k: "\<forall>q. q \<notin> given ` set [Malloc 100, Free 0] \<longrightarrow> keeps q s1 s2"
    by blast
  moreover from k have "\<forall>q. q \<noteq> 0 \<longrightarrow> keeps q s1 s2" by simp
  ultimately show ?thesis using s(1) by blast
qed

text \<open>
  C12. \<^verbatim>\<open>add_new_area\<close> returns for 80 bytes or more of memory outside the pool, less than 2 to the 30
  bytes with what the pool owns, and gives the pool all of it but the headers: the new memory lies in
  one free block, so every request that fits it succeeds from then on. The invariant, by which no
  free block follows another, is kept, the list has every area and no two areas touch, and the held
  blocks and their bytes stay. Excluded is an area that closes the gap between two others where the
  list has the one before it first and that one ends with a free block (\<open>closes_gap\<close>).
\<close>

theorem add_new_area_grows:
  assumes "tlsf_inv s" "areas_ok s" "80 \<le> unat sz" "0 < ar" "\<forall>x. ar \<le> x \<and> x < ar + unat sz \<longrightarrow> \<not> owned s x"
    "card (Collect (owned s)) + unat sz < 1073741824" "\<not> closes_gap s ar sz"
  shows "\<exists>n s'. add_new_area ar sz s = Some (Inr (n, s')) \<and> tlsf_inv s' \<and> areas_ok s' \<and> tlsf_held s' = tlsf_held s \<and>
    (\<forall>q m i. tlsf_held s q = Some m \<and> i < m \<longrightarrow> data s' (q + i) = data s (q + i)) \<and>
    (\<exists>b\<in>free_blocks s'. b + 16 \<le> ar + 48 \<and> ar + 48 + area_room (unat sz) \<le> b + 16 + bsz (hdrs s') b) \<and>
    (\<forall>r. unat r \<le> 1056964608 \<and> fit_size r \<le> area_room (unat sz) \<longrightarrow> (\<exists>p s''. malloc_ex r s' = Inr (p, s'') \<and> p \<noteq> 0))"
proof -
  obtain s' n where s': "add_new_area ar sz s = Some (Inr (word_of_nat n, s'))" "tlsf_inv s'" "areas_ok s'" "tlsf_held s' = tlsf_held s"
    "owned s' = (\<lambda>x. ar \<le> x \<and> x < ar + unat sz \<or> owned s x)" "same_at (tlsf_held s) s s'"
    "\<exists>c\<in>free_blocks s'. c \<le> ar + 32 \<and> ar + 32 + area_room (unat sz) \<le> c + bsz (hdrs s') c" "area_room (unat sz) \<le> n"
    by (rule add_new_area_spec [OF assms]) (rule that)
  obtain c where c: "c \<in> free_blocks s'" "c \<le> ar + 32" "ar + 32 + area_room (unat sz) \<le> c + bsz (hdrs s') c" using s'(7) by blast
  have "\<exists>p s''. malloc_ex r s' = Inr (p, s'') \<and> p \<noteq> 0" if "unat r \<le> 1056964608" "fit_size r \<le> area_room (unat sz)" for r
    using s'(2) that(1)
  proof (cases rule: malloc_ex_spec)
    case none
    then show ?thesis using c that(2) by fastforce
  qed auto
  moreover have "c + 16 \<le> ar + 48" "ar + 48 + area_room (unat sz) \<le> c + 16 + bsz (hdrs s') c" using c(2,3) by simp_all
  moreover have "\<forall>q m i. tlsf_held s q = Some m \<and> i < m \<longrightarrow> data s' (q + i) = data s (q + i)" using s'(6) by (simp add: same_at_def)
  ultimately show ?thesis using s'(1-4) c(1) by blast
qed

theorem add_new_area_grows_witness:
  "\<exists>s n s'. setup_pool 6400 4096 blank_tlsf = Inr (64, s) \<and> add_new_area 10496 208 s = Some (Inr (n, s')) \<and> tlsf_inv s' \<and> areas_ok s' \<and>
    (\<exists>b\<in>free_blocks s'. 10688 \<le> b + 16 + bsz (hdrs s') b)"
proof -
  obtain s where s: "setup_pool 6400 4096 blank_tlsf = Inr (64, s)" "tlsf_inv s" "areas_ok s" "fair (Add_area 10496 208) s"
    by (rule small_pool) (simp add: pool_good_def)
  have "area_room (unat (208 :: u64)) = 144" by (simp add: area_room_def)
  then show ?thesis using add_new_area_grows [OF s(2,3), of 208 10496] s(1,4) by auto
qed

text \<open>
  C14. No memory is lost in a pool that grew: after any sequence of fair calls since its set-up (requests
  up to 2 to the 30 less 2 to the 24 bytes, areas of 80 bytes or more outside the pool that close no gap
  behind a free block, less than 2 to the 30 bytes in all), when the clients hold nothing each area is a single free block, and every byte the pool owns belongs to one of these
  blocks, to the headers around it, or to the bytes behind them that are too few for a header.
\<close>

theorem tlsf_calls_no_leak:
  assumes "6392 \<le> unat sz" "unat sz < 1073748096" "unat sz mod 16 < 8" "p \<noteq> 0" "setup_pool sz p s0 = Inr (n, s)"
    "all_fair cs s" "run_calls cs s = Some (Inr (rs, s'))" "tlsf_held s' = Map.empty"
  shows "free_blocks s' = (\<lambda>a. a + 32) ` areas s' \<and>
    (\<forall>x. owned s' x \<longrightarrow> (\<exists>b\<in>free_blocks s'. b \<le> x + 32 \<and> x < b + bsz (hdrs s') b + 48))"
proof -
  have "pool_good s" by (rule setup_good [OF assms(1-4), of s0]) (use assms(5) in simp)
  then have g: "tlsf_inv s'" "areas_ok s'" using calls_safe [OF _ assms(6)] assms(7) by (auto simp: pool_good_def)
  note f = areas_free [OF g assms(8)]
  have F: "free_blocks s' = (\<lambda>a. a + 32) ` areas s'" using f(1,3) by auto
  have "cover (owned s') (areas s') (area_end s')" using g(2) by (simp add: areas_ok_def)
  note c = coverD(4) [OF this]
  have "\<exists>b\<in>free_blocks s'. b \<le> x + 32 \<and> x < b + bsz (hdrs s') b + 48" if x: "owned s' x" for x
  proof -
    obtain a where a: "a \<in> areas s'" "a \<le> x" "x < area_end s' a + 32" using c [OF x] by blast
    then show ?thesis using f(1,2) [OF a(1)] by (intro bexI [of _ "a + 32"]) simp_all
  qed
  then show ?thesis using F by blast
qed

theorem tlsf_calls_no_leak_witness:
  "\<exists>s rs s'. setup_pool 6400 4096 blank_tlsf = Inr (64, s) \<and> run_calls [Add_area 10496 208, Free 0] s = Some (Inr (rs, s')) \<and>
    free_blocks s' = (\<lambda>a. a + 32) ` areas s'"
proof -
  obtain s where s: "setup_pool 6400 4096 blank_tlsf = Inr (64, s)" "pool_good s" "fair (Add_area 10496 208) s" "tlsf_held s = Map.empty"
    by (rule small_pool)
  obtain n s1 where 1: "add_new_area 10496 208 s = Some (Inr (n, s1))" "tlsf_held s1 = Map.empty"
    using add_call [OF s(2,3)] s(4) by auto
  have f: "all_fair [Add_area 10496 208, Free 0] s" using s(3) by (simp del: fair.simps(5) call.simps split: option.split sum.split)
  have r: "run_calls [Add_area 10496 208, Free 0] s = Some (Inr ([unat n, 0], s1))" using 1(1) by (simp add: free_ex_def)
  have z: "6392 \<le> unat (6400 :: u64)" "unat (6400 :: u64) < 1073748096" "unat (6400 :: u64) mod 16 < 8" "(4096 :: nat) \<noteq> 0" by simp_all
  show ?thesis using tlsf_calls_no_leak [OF z s(1) f r 1(2)] s(1) r by blast
qed

subsection \<open>A gap that stays\<close>

text \<open>
  C40. \<^verbatim>\<open>add_new_area\<close> returns for every new area, and leaves two free blocks beside each other exactly
  if the area closes a gap between two others, the list of areas has the one before it first, and
  that one ends with a free block: the loop joins the new block with the sentinel of the area before
  it, which says that its predecessor is free, and then, at the area behind it, overwrites the word.
  Which of two areas comes first in the list depends on the order in which they were added.
\<close>

theorem add_new_area_forgets_merge:
  assumes "tlsf_inv s" "areas_ok s" "80 \<le> unat sz" "0 < ar" "\<forall>x. ar \<le> x \<and> x < ar + unat sz \<longrightarrow> \<not> owned s x"
    "card (Collect (owned s)) + unat sz < 1073741824"
  shows "\<exists>n s'. add_new_area ar sz s = Some (Inr (n, s')) \<and>
    ((\<exists>b\<in>free_blocks s'. nxt (hdrs s') b \<in> free_blocks s') \<longleftrightarrow> closes_gap s ar sz)"
proof (cases "closes_gap s ar sz")
  case True
  then show ?thesis using add_new_area_gap [OF assms True] by blast
next
  case False
  obtain s' n where s': "add_new_area ar sz s = Some (Inr (word_of_nat n, s'))" "tlsf_inv s'"
    by (rule add_new_area_spec [OF assms False])
  have "nxt (hdrs s') b \<notin> free_blocks s'" if "b \<in> free_blocks s'" for b
    using blocks_okD(9) [OF tlsf_invD(2) [OF s'(2)]] that by (simp add: free_blocks_def)
  then show ?thesis using s'(1) False by blast
qed

lemma owned_more: "card (Collect (\<lambda>x. ar \<le> x \<and> x < ar + k \<or> M x)) \<le> k + card (Collect M)" for ar k :: nat
proof -
  have "Collect (\<lambda>x. ar \<le> x \<and> x < ar + k \<or> M x) = {ar..<ar + k} \<union> Collect M" by auto
  then show ?thesis using card_Un_le [of "{ar..<ar + k}" "Collect M"] by simp
qed

lemma gap_pool:
  obtains s where "tlsf_inv s" "areas_ok s" "\<forall>x. 20080 \<le> x \<and> x < 20288 \<longrightarrow> \<not> owned s x" "card (Collect (owned s)) < 300"
    "closes_gap s 20080 208"
proof -
  obtain s where s: "pool_good s" "areas s = {10368}" "owned s = (\<lambda>x. 10368 \<le> x \<and> x < 10496)" "tlsf_held s = Map.empty"
      "area_list s [10368]" "area_end s 10368 = 10480" "card (Collect (owned s)) = 128"
    by (rule small_pool) (rule that)
  have z: "unat (80 :: u64) = 80" "area_room 80 = 16" by (simp_all add: area_room_def)
  obtain n s1 where s1: "tlsf_inv s1" "areas_ok s1" "tlsf_held s1 = Map.empty" "owned s1 = (\<lambda>x. 20288 \<le> x \<and> x < 20368 \<or> owned s x)"
      "area_list s1 [20288, 10368]" "areas s1 = {20288, 10368}" "area_end s1 20288 = 20352" "area_end s1 10368 = 10480"
    by (rule add_new_area_apart [of s 80 20288 "[10368]"]) (use s in \<open>simp_all add: pool_good_def z\<close>)
  have c1: "card (Collect (owned s1)) \<le> 208" using owned_more [of 20288 80 "owned s"] s(7) by (simp add: s1(4))
  obtain n s2 where s2: "tlsf_inv s2" "areas_ok s2" "tlsf_held s2 = Map.empty" "owned s2 = (\<lambda>x. 20000 \<le> x \<and> x < 20080 \<or> owned s1 x)"
      "area_list s2 [20000, 20288, 10368]" "areas s2 = {20000, 20288, 10368}" "area_end s2 20000 = 20064"
    by (rule add_new_area_apart [of s1 80 20000 "[20288, 10368]"]) (use s1 c1 in \<open>auto simp: s(3) z\<close>)
  have c2: "card (Collect (owned s2)) < 300" using owned_more [of 20000 80 "owned s1"] c1 by (simp add: s2(4))
  have "20032 \<in> free_blocks s2" "20064 = nxt (hdrs s2) 20032"
    using areas_free(1,2) [OF s2(1-3), of 20000] s2(6,7) by (simp_all add: nxt_def)
  then have "bpf (hdrs s2) 20064"
    using blocks_okD(5,7) [OF tlsf_invD(2) [OF s2(1)], of 20032] by (simp add: free_blocks_def)
  then have "closes_gap s2 20080 208"
    unfolding closes_gap_def using s2(5-7) by (intro exI [of _ "[]"] exI [of _ 20000] exI [of _ "[20288, 10368]"]) (simp add: area_room_def)
  moreover have "\<forall>x. 20080 \<le> x \<and> x < 20288 \<longrightarrow> \<not> owned s2 x" by (auto simp: s2(4) s1(4) s(3))
  ultimately show thesis using that s2(1,2) c2 by blast
qed

theorem add_new_area_forgets_merge_witness:
  "\<exists>s n s'. tlsf_inv s \<and> areas_ok s \<and> add_new_area 20080 208 s = Some (Inr (n, s')) \<and>
    (\<exists>b\<in>free_blocks s'. nxt (hdrs s') b \<in> free_blocks s')"
proof -
  obtain s where s: "tlsf_inv s" "areas_ok s" "\<forall>x. 20080 \<le> x \<and> x < 20288 \<longrightarrow> \<not> owned s x" "card (Collect (owned s)) < 300"
      "closes_gap s 20080 208"
    by (rule gap_pool)
  then show ?thesis using add_new_area_forgets_merge [OF s(1,2), of 208 20080] by auto
qed

end
