(* ===== verification/Async.thy ===== *)
theory Async
  imports Runtime
begin

text \<open>
  What the network and storage wrappers have in common: a coroutine hands the address of an
  awaker to an external library, suspends on the awaker, and a callback or a poll of the
  library's completion queue wakes it.

  The abstract machine \<open>async_step\<close> has the runtime's state and the set of awakers whose
  address the library holds. Its invariant is that the coroutine behind each of them is
  parked: suspended on that awaker, alive, and not in the scheduler's ring, or about to
  suspend. A completion is therefore always delivered to the coroutine that waits for it.
  The wrappers refine this machine.
\<close>

subsection \<open>Suspension points that a step leaves alone\<close>

definition susp_at :: "('v, 'e) core \<Rightarrow> handle \<Rightarrow> ('v, 'e) susp option" where
  "susp_at s h = map_option susp (frames s h)"

definition kept :: "nat \<Rightarrow> handle \<Rightarrow> ('v, 'e) core \<Rightarrow> ('v, 'e) core \<Rightarrow> bool" where
  "kept k h s s' \<longleftrightarrow> susp_at s' h = susp_at s h \<and> (h \<in> set (pending k s') \<longrightarrow> h \<in> set (pending k s))"

lemma kept_trans: "kept k h s s' \<Longrightarrow> kept k h s' s'' \<Longrightarrow> kept k h s s''"
  by (auto simp: kept_def)

lemma susp_at_view: "susp_at s h = Some p \<longleftrightarrow> (\<exists>c. view s h = Some (p, c))"
  by (auto simp: susp_at_def view_def)

lemma susp_at_simps [simp]:
  "susp_at (s\<lparr>stack := st\<rparr>) = susp_at s" "susp_at (s\<lparr>stopped := z\<rparr>) = susp_at s" "susp_at (s\<lparr>dangling := d\<rparr>) = susp_at s"
  "susp_at (s\<lparr>queue := q\<rparr>) = susp_at s" "susp_at (s\<lparr>dropped := d\<rparr>) = susp_at s" "susp_at (upd_awaker a w s) = susp_at s"
  "susp_at (destroy x s) h = (if h = x then None else susp_at s h)"
  "h \<noteq> x \<or> (\<forall>f. susp (u f) = susp f) \<Longrightarrow> susp_at (upd_frame x u s) h = susp_at s h"
  by (auto simp: susp_at_def fun_eq_iff upd_frame_def destroy_def upd_awaker_def option.map_comp comp_def)

lemma kept_simps [simp]:
  "kept k h s s" "kept k h s (run_body x b s)" "kept k h s (sched_stop s)"
  "h \<noteq> x \<Longrightarrow> kept k h s (suspend x p s)" "h \<noteq> x \<Longrightarrow> kept k h s (enter x b s)"
  by (auto simp: kept_def run_body_def sched_stop_def suspend_def enter_def)

lemma kept_enqueue:
  assumes "ring_inv (mpsc_cfg 8) k (queue s)" "sched_enqueue x s = Inr s'" "h \<noteq> x"
  shows "kept k h s s'"
proof -
  obtain r d where r: "s' = s\<lparr>queue := r, dropped := d\<rparr>"
      "if length (pending k s) < unat (capacity (queue s)) then pending k (s\<lparr>queue := r\<rparr>) = pending k s @ [x] \<and> d = dropped s
       else r = queue s \<and> d = dropped s @ [x]"
    using sched_enqueue_spec [OF assms(1), of x] assms(2) by auto
  then show ?thesis using assms(3)
    by (simp add: kept_def susp_at_def split: if_splits)
qed

lemma kept_wake:
  assumes "ring_inv (mpsc_cfg 8) k (queue s)" "aw_wake a v s = Inr s'" "h \<noteq> handles s a \<or> h = 0"
  shows "kept k h s s'"
proof (cases "handles s a = 0")
  case True
  then show ?thesis using assms(2) by (auto simp: aw_wake_def handles_def kept_def)
next
  case False
  then obtain t where t: "sched_enqueue (handles s a) s = Inr t" "kept k h t s'"
    using assms(2) by (auto simp: aw_wake_def handles_def bind_err_Inr_iff kept_def)
  show ?thesis using kept_enqueue [OF assms(1) t(1)] assms(3) False t(2) by (metis kept_trans)
qed

lemma kept_ms_await_resume:
  assumes "ms_await_resume t s = Inr (r, s')" "h = t \<Longrightarrow> \<exists>p c. view s t = Some (p, c) \<and> c \<noteq> 0"
  shows "kept k h s s'"
  using assms by (auto simp: ms_await_resume_def view_def kept_def split: option.splits if_splits)

lemma kept_resume:
  assumes "resume x s = Inr s'" "h \<noteq> x" "\<And>g. susp_at s x = Some (S_Task h g) \<Longrightarrow> \<exists>p c. view s h = Some (p, c) \<and> c \<noteq> 0"
  shows "kept k h s s'"
proof (cases "x = noop_coroutine")
  case True
  then show ?thesis using assms(1) by (simp add: resume_def)
next
  case False
  then obtain f where f: "frames s x = Some f" using assms(1) by (auto simp: resume_def split: option.splits)
  show ?thesis
  proof (cases "susp f")
    case (S_Task t g)
    then obtain r s1 where r: "ms_await_resume t s = Inr (r, s1)" "s' = enter x (g r) s1"
      using assms(1) f False by (auto simp: resume_def bind_err_Inr_iff)
    have "kept k h s s1" using r(1) assms(3) S_Task f by (intro kept_ms_await_resume) (auto simp: susp_at_def)
    then show ?thesis using r(2) assms(2) by (auto intro: kept_trans)
  next
    case (S_Awaker a g)
    then show ?thesis using assms(1,2) f False kept_simps(5) [of h x k "upd_awaker a u s" for u]
      by (auto simp: resume_def kept_def split: prod.splits)
  qed (use assms(1,2) f False in \<open>auto simp: resume_def\<close>)
qed

text \<open>
  A tick leaves a coroutine alone that waits on an awaker and is not in the ring, unless it
  wakes that awaker.
\<close>

lemma finish_kept:
  assumes inv: "core_inv k s" and st: "stack s = A_Body x b # st" and f: "finish x r s = Inr s'"
    and h: "susp_at s h = Some (S_Awaker w g)"
  shows "kept k h s s'"
proof -
  note wf = core_run_inv(2) [OF inv, unfolded st] note d = rt_okD [OF wf]
  obtain q where q: "frames s x = Some q" "susp q = Running" "view s x = Some (Running, caller q)"
    using running_frame [OF inv, of x] st by auto
  have hx: "h \<noteq> x" using h q by (auto simp: susp_at_def)
  let ?s = "upd_frame x (\<lambda>f. f\<lparr>result := r\<rparr>) s"
  have k1: "kept k h s ?s" by (simp add: kept_def)
  show ?thesis
  proof (cases "caller q = 0")
    case True
    then have "s' = suspend x S_Final ?s" using f q by (simp add: finish_def Let_def)
    then show ?thesis using k1 hx by (auto intro: kept_trans)
  next
    case False
    let ?t = "?s\<lparr>stack := A_Final x # st\<rparr>"
    have r: "resume (caller q) ?t = Inr s'" using f q False st by (simp add: finish_def Let_def)
    have k2: "kept k h s ?t" by (simp add: kept_def)
    have c: "caller q = noop_coroutine \<or> (\<exists>g e. view s (caller q) = Some (S_Task x g, e))"
      using d(9) [OF q(3)] False d(3) final_on_stack [of x st] by (auto simp: caller_ok_def)
    have hc: "h \<noteq> caller q" using c h d(2) by (auto simp: susp_at_view)
    have "x = t" if "susp_at ?t (caller q) = Some (S_Task t g')" "caller q \<noteq> noop_coroutine" for t g'
      using that c by (auto simp: susp_at_view [symmetric])
    moreover have "susp_at s noop_coroutine = None" using d(2) by (simp add: susp_at_def view_def)
    ultimately have "susp_at ?t (caller q) \<noteq> Some (S_Task h g')" for g' using hx by (cases "caller q = noop_coroutine") auto
    then have "kept k h ?t s'" using r hc by (intro kept_resume) auto
    then show ?thesis by (rule kept_trans [OF k2])
  qed
qed

lemma body_step_kept:
  assumes inv: "core_inv k s" and st: "stack s = A_Body x b # st" and legal: "body_legal k addr b s"
    and f: "body_step addr x b s = Inr s'" and h: "susp_at s h = Some (S_Awaker w g)" and nw: "\<And>v b'. b \<noteq> Wake w v b'"
  shows "kept k h s s'"
proof -
  note ring = core_run_inv(1) [OF inv] and d = rt_okD [OF core_run_inv(2) [OF inv]]
  have hx: "h \<noteq> x" using running_frame [OF inv, of x] h st by (auto simp: susp_at_def)
  have ft: "h \<noteq> t" "\<exists>b. susp_at s t = Some (S_Initial b)" if "fresh_task s t" for t
    using fresh_taskD [OF that] h by (auto simp: susp_at_view)
  show ?thesis
  proof (cases b)
    case (Co_yield b')
    then have e: "sched_enqueue x (suspend x (S_Yield b') s) = Inr s'" using f by simp
    have "queue (suspend x (S_Yield b') s) = queue s" by (simp add: suspend_def)
    then have "kept k h (suspend x (S_Yield b') s) s'" using e ring hx by (intro kept_enqueue) simp_all
    then show ?thesis by (rule kept_trans [OF kept_simps(4) [OF hx]])
  next
    case (Co_await a f')
    then show ?thesis using f hx kept_simps(4) [of h x k "upd_awaker a u s" for u] kept_simps(2) [of k h "upd_awaker a u s" for u]
      by (auto simp: await_awaker_def kept_def split: prod.splits if_splits)
  next
    case (Co_await_task t f')
    then have t: "fresh_task s t" using legal by simp
    have "resume t (s\<lparr>stack := A_Transform x t f' # st\<rparr>) = Inr s'"
      using f Co_await_task st by (auto simp: transform_begin_def split: option.splits if_splits)
    then have "kept k h (s\<lparr>stack := A_Transform x t f' # st\<rparr>) s'"
      using ft [OF t] by (intro kept_resume) auto
    then show ?thesis by (simp add: kept_def)
  next
    case (Create void b' f')
    then show ?thesis using f h by (auto simp: create_task_def kept_def run_body_def susp_at_def split: if_splits)
  next
    case (Submit t b')
    then obtain u where u: "sched_enqueue t s = Inr u" "s' = run_body x b' (upd_frame t (\<lambda>f. f\<lparr>caller := noop_coroutine\<rparr>) u)"
      using f by (auto simp: sched_enqueue_task_def bind_err_Inr_iff split: option.splits)
    have "h \<noteq> t" using ft(1) legal Submit by simp
    from kept_enqueue [OF ring u(1) this] show ?thesis using u(2) by (simp add: kept_def run_body_def)
  next
    case (Wake a v b')
    then obtain u where u: "aw_wake a v s = Inr u" "s' = run_body x b' u" using f by (auto simp: bind_err_Inr_iff)
    have "a \<noteq> w" using nw Wake by blast
    then have "h \<noteq> handles s a \<or> h = 0" using d(12) [of a] h by (cases "handles s a = 0") (auto simp: susp_at_view)
    from kept_wake [OF ring u(1) this] show ?thesis using u(2) by (auto intro: kept_trans)
  next
    case (Stop b')
    then show ?thesis using f kept_trans [OF kept_simps(3) kept_simps(2)] by auto
  qed (use f finish_kept [OF inv st _ h] in auto)
qed

lemma exec_kept:
  assumes inv: "core_inv k s" and legal: "legal k (Tick addr) s" and f: "exec addr s = Inr s'"
    and h: "susp_at s h = Some (S_Awaker w g)" "h \<notin> set (pending k s)" and nw: "\<And>x v b st. stack s \<noteq> A_Body x (Wake w v b) # st"
  shows "kept k h s s'"
proof (cases "stack s")
  case (Cons a st)
  note wf = core_run_inv(2) [OF inv, unfolded Cons] note d = rt_okD [OF wf]
  have run: "h \<noteq> x" if "act_handle a = Some x" for x
    using running_frame [OF inv, of x] that h Cons by (auto simp: susp_at_def act_handle_on_stack)
  show ?thesis
  proof (cases a)
    case A_Loop
    show ?thesis
    proof (cases "pending k s")
      case Nil
      then show ?thesis using loop_step_empty [OF inv] f A_Loop Cons by (simp add: exec_def)
    next
      case (Cons y P)
      have st: "stack s = [A_Loop]" using \<open>stack s = a # st\<close> A_Loop d(5) by (cases st; cases "hd st") auto
      obtain e q where q: "deq_entry (mpsc_cfg 8) 0 (queue s) = Some (Some e, q)" "hd e = y"
          "map hd (ring_contents (mpsc_cfg 8) k q) = P"
        using Cons ring_fifo.deq_some [OF core_run_inv(1) [OF inv], of _ _ 0] by (auto simp: pending_def)
      have r: "resume y (s\<lparr>queue := q, stack := [A_Resumed]\<rparr>) = Inr s'" using f st q by (simp add: exec_def loop_step_def)
      have p: "\<exists>p c. view s y = Some (p, c) \<and> queued_ok p c" using d(11) [of y] Cons by simp
      have "kept k h (s\<lparr>queue := q, stack := [A_Resumed]\<rparr>) s'"
        using r h(2) Cons p by (intro kept_resume) (auto simp: susp_at_view)
      moreover have "set (pending k (s\<lparr>queue := q\<rparr>)) \<subseteq> set (pending k s)" using q(3) Cons by (auto simp: pending_def)
      ultimately show ?thesis by (auto simp: kept_def)
    qed
  next
    case (A_Body x b)
    moreover have "b \<noteq> Wake w v b'" for v b' using nw A_Body Cons by blast
    ultimately show ?thesis using body_step_kept [OF inv _ _ _ h(1), of x b st addr] legal f Cons by (simp add: exec_def)
  next
    case (A_Transform x t f')
    then have f': "transform_end x t f' s = Inr s'" using f Cons by (simp add: exec_def)
    then obtain q where q: "frames s t = Some q" by (auto simp: transform_end_def split: option.splits)
    show ?thesis
    proof (cases "task_done q")
      case True
      then obtain r u where u: "ms_await_resume t s = Inr (r, u)" "s' = run_body x (f' r) u"
        using f' q by (auto simp: transform_end_def bind_err_Inr_iff)
      have "h \<noteq> t" using True q h by (auto simp: task_done_def susp_at_def)
      then have "kept k h s u" using u(1) by (intro kept_ms_await_resume) auto
      then show ?thesis using u(2) by (auto intro: kept_trans)
    next
      case False
      then have "s' = suspend x (S_Task t f') (upd_frame t (\<lambda>f. f\<lparr>caller := x\<rparr>) s)" using f' q by (simp add: transform_end_def)
      moreover have "kept k h s (upd_frame t (\<lambda>f. f\<lparr>caller := x\<rparr>) s)" by (simp add: kept_def)
      ultimately show ?thesis using run A_Transform by (auto intro: kept_trans)
    qed
  qed (use f Cons run in \<open>auto simp: exec_def kept_def\<close>)
qed (use f in \<open>simp add: exec_def\<close>)

subsection \<open>The machine\<close>

definition parked :: "nat \<Rightarrow> ('v, 'e) core \<Rightarrow> nat \<Rightarrow> bool" where
  "parked k s w \<longleftrightarrow> (\<exists>h g. susp_at s h = Some (S_Awaker w g) \<and> h \<notin> set (pending k s))"

definition about :: "('v, 'e) core \<Rightarrow> nat \<Rightarrow> bool" where
  "about s w \<longleftrightarrow> (\<exists>h g st. stack s = A_Body h (Co_await w g) # st) \<and> handles s w = 0 \<and> \<not> checkable (awakers s w)"

definition async_inv :: "nat \<Rightarrow> ('v, 'e) core \<times> nat set \<Rightarrow> bool" where
  "async_inv k = (\<lambda>(s, B). core_inv k s \<and> (\<forall>w\<in>B. parked k s w \<or> about s w))"

text \<open>A new awaker, such as a local variable of a coroutine.\<close>

definition fresh_awaker :: "'v \<Rightarrow> 'v awaker" where
  "fresh_awaker v = \<lparr>aw_handle = 0, aw_ret = v, checkable = False, awaked = False\<rparr>"

text \<open>Code other than the library's completions leaves the awakers in the library's hands alone.\<close>

fun leaves :: "nat set \<Rightarrow> ('v, 'e) call \<Rightarrow> ('v, 'e) core \<Rightarrow> bool" where
  "leaves B (Tick addr) s \<longleftrightarrow> (case stack s of A_Body h (Wake w v b) # st \<Rightarrow> w \<notin> B | _ \<Rightarrow> True)"
| "leaves B (X_Wake w v) s \<longleftrightarrow> w \<notin> B"
| "leaves B _ s \<longleftrightarrow> True"

text \<open>The running coroutine is free to call the library.\<close>

definition calling :: "nat set \<Rightarrow> ('v, 'e) core \<Rightarrow> handle \<Rightarrow> bool" where
  "calling B s h \<longleftrightarrow> (case stack s of A_Body x b # st \<Rightarrow> x = h \<and> (case b of Co_await w g \<Rightarrow> w \<notin> B | _ \<Rightarrow> True) | _ \<Rightarrow> False)"

inductive async_step :: "nat \<Rightarrow> ('v, 'e) core \<times> nat set \<Rightarrow> ('v, 'e) core \<times> nat set \<Rightarrow> bool" for k :: nat where
  call: "legal k c s \<Longrightarrow> leaves B c s \<Longrightarrow> core_exec c s = Inr s' \<Longrightarrow> async_step k (s, B) (s', B)"
| post: "calling B s h \<Longrightarrow> w \<notin> B \<Longrightarrow> handles s w = 0 \<Longrightarrow>
    async_step k (s, B) (run_body h (Co_await w g) (upd_awaker w (\<lambda>_. fresh_awaker v) s), insert w B)"
| go_on: "calling B s h \<Longrightarrow> async_step k (s, B) (run_body h b s, B)"
| make: "w \<notin> B \<Longrightarrow> handles s w = 0 \<Longrightarrow> async_step k (s, B) (upd_awaker w (\<lambda>_. fresh_awaker v) s, B)"
| complete: "w \<in> B \<Longrightarrow> \<not> about s w \<Longrightarrow> aw_wake w v s = Inr s' \<Longrightarrow> async_step k (s, B) (s', B - {w})"
| forget: "B' \<subseteq> B \<Longrightarrow> async_step k (s, B) (s, B')"

lemma awakers_upd: "awakers (upd_awaker w u s) = (awakers s)(w := u (awakers s w))"
  by (simp add: upd_awaker_def)

lemma parkedD:
  assumes "core_inv k s" "parked k s w"
  obtains h g where "handles s w = h" "h \<noteq> 0" "susp_at s h = Some (S_Awaker w g)" "h \<notin> set (pending k s)"
proof -
  note d = rt_okD [OF core_run_inv(2) [OF assms(1)]]
  obtain h g c where h: "view s h = Some (S_Awaker w g, c)" "h \<notin> set (pending k s)"
    using assms(2) by (auto simp: parked_def susp_at_view)
  have "handles s w = h" using d(8) [OF h(1)] by simp
  moreover have "h \<noteq> 0" using h(1) d(1) by auto
  ultimately show thesis using that h by (auto simp: susp_at_view)
qed

lemma parked_kept: "susp_at s h = Some (S_Awaker w g) \<Longrightarrow> h \<notin> set (pending k s) \<Longrightarrow> kept k h s s' \<Longrightarrow> parked k s' w"
  by (auto simp: parked_def kept_def)

lemma callingD:
  "calling B s h \<Longrightarrow> \<exists>b st. stack s = A_Body h b # st" "calling B s h \<Longrightarrow> w \<in> B \<Longrightarrow> \<not> about s w"
  by (auto simp: calling_def about_def split: list.splits activation.splits)

lemma core_inv_upd_awaker:
  "core_inv k s \<Longrightarrow> aw_handle (u (awakers s w)) = handles s w \<Longrightarrow> core_inv k (upd_awaker w u s)"
  by (simp add: core_inv_def fun_upd_idem)

text \<open>The coroutine that is about to suspend suspends.\<close>

lemma about_tick_at:
  assumes inv: "core_inv k s" and w: "about s w" and f: "exec addr s = Inr s'" and st: "stack s = A_Body h (Co_await w g) # st"
  shows "susp_at s' h = Some (S_Awaker w g) \<and> h \<notin> set (pending k s')"
proof -
  have c: "\<not> checkable (awakers s w)" using w by (auto simp: about_def)
  obtain q where q: "frames s h = Some q" "view s h = Some (Running, caller q)" using running_frame [OF inv, of h] st by auto
  have "h \<notin> set (pending k s)" using rt_okD(11) [OF core_run_inv(2) [OF inv], of h] q(2) by auto
  moreover have "s' = suspend h (S_Awaker w g) (upd_awaker w (aw_await_suspend h) s)"
    using f st c by (simp add: exec_def await_awaker_def aw_await_ready_def)
  moreover have "susp_at (suspend h p (upd_awaker w u s)) h = Some p" "pending k (suspend h p (upd_awaker w u s)) = pending k s" for p u
    using q(1) by (simp_all add: suspend_def) (simp add: susp_at_def upd_frame_def)
  ultimately show ?thesis by metis
qed

lemma about_tick:
  assumes "core_inv k s" "about s w" "exec addr s = Inr s'"
  shows "parked k s' w"
proof -
  obtain h g st where "stack s = A_Body h (Co_await w g) # st" using assms(2) by (auto simp: about_def)
  from about_tick_at [OF assms this] show ?thesis by (auto simp: parked_def)
qed

text \<open>Calls from outside the scheduler's thread leave the stack and the parked coroutines alone.\<close>

lemma outside_kept:
  assumes inv: "core_inv k s" and c: "legal k c s" "leaves B c s" "core_exec c s = Inr s'" "\<And>addr. c \<noteq> Tick addr" and w: "w \<in> B"
    and h: "susp_at s h = Some (S_Awaker w g)"
  shows "kept k h s s'"
proof -
  note ring = core_run_inv(1) [OF inv] and d = rt_okD [OF core_run_inv(2) [OF inv]]
  show ?thesis
  proof (cases c)
    case (X_Create a void b)
    then show ?thesis using c h by (auto simp: create_task_def kept_def susp_at_def split: if_splits)
  next
    case (X_Submit t)
    then obtain u where u: "sched_enqueue t s = Inr u" "s' = upd_frame t (\<lambda>f. f\<lparr>caller := noop_coroutine\<rparr>) u"
      using c(3) by (auto simp: sched_enqueue_task_def bind_err_Inr_iff split: option.splits)
    have "h \<noteq> t" using fresh_taskD [of s t] c(1) X_Submit h by (auto simp: susp_at_view)
    from kept_enqueue [OF ring u(1) this] show ?thesis using u(2) by (simp add: kept_def)
  next
    case (X_Wake a v)
    then have "a \<noteq> w" using c(2) w by auto
    then have "h \<noteq> handles s a \<or> h = 0" using d(12) [of a] h by (cases "handles s a = 0") (auto simp: susp_at_view)
    then show ?thesis using kept_wake [OF ring] c(3) X_Wake by simp
  next
    case X_Stop
    then show ?thesis using c(3) by auto
  qed (use c in auto)
qed

lemma outside_about:
  assumes c: "leaves B c s" "core_exec c s = Inr s'" "\<And>addr. c \<noteq> Tick addr" and w: "w \<in> B"
  shows "stack s' = stack s" "awakers s' w = awakers s w"
proof -
  have enq: "stack u = stack s \<and> awakers u = awakers s" if "sched_enqueue x s = Inr u" for x u
    using that by (auto simp: sched_enqueue_def split: option.splits prod.splits)
  have wake: "stack u = stack s \<and> (\<forall>b. b \<noteq> a \<longrightarrow> awakers u b = awakers s b)" if "aw_wake a v s = Inr u" for a v u
    using that enq by (force simp: aw_wake_def bind_err_Inr_iff upd_awaker_def split: if_splits)
  have "stack s' = stack s \<and> awakers s' w = awakers s w"
    using c w enq wake
    by (cases c) (force simp: create_task_def sched_stop_def sched_enqueue_task_def bind_err_Inr_iff upd_frame_def
        split: if_splits option.splits)+
  then show "stack s' = stack s" "awakers s' w = awakers s w" by simp_all
qed

lemma outside_call:
  assumes "core_inv k s" "legal k c s" "leaves B c s" "core_exec c s = Inr s'" "\<And>addr. c \<noteq> Tick addr" "w \<in> B"
  shows "parked k s w \<Longrightarrow> parked k s' w" "about s w \<Longrightarrow> about s' w"
proof -
  show "about s w \<Longrightarrow> about s' w" using outside_about [OF assms(3-6)] by (simp add: about_def handles_def)
  show "parked k s' w" if p: "parked k s w" using parkedD [OF assms(1) p] outside_kept [OF assms] parked_kept by metis
qed

lemma tick_inv:
  assumes inv: "core_inv k s" and c: "legal k (Tick addr) s" "leaves B (Tick addr) s" "exec addr s = Inr s'"
    and w: "w \<in> B" "parked k s w \<or> about s w"
  shows "parked k s' w"
  using w(2)
proof
  assume "parked k s w"
  then obtain h g where h: "susp_at s h = Some (S_Awaker w g)" "h \<notin> set (pending k s)" using parkedD [OF inv] by blast
  moreover have "stack s \<noteq> A_Body x (Wake w v b) # st" for x v b st using c(2) w(1) by auto
  ultimately show ?thesis using exec_kept [OF inv c(1,3)] parked_kept by blast
qed (rule about_tick [OF inv _ c(3)])

text \<open>A completion is a legal wake: the coroutine waits and is not in the ring yet.\<close>

lemma complete_ok:
  assumes inv: "async_inv k (s, B)" and w: "w \<in> B" "\<not> about s w"
  shows "\<exists>s'. aw_wake w v s = Inr s' \<and> core_inv k s' \<and> stack s' = stack s"
proof -
  have i: "core_inv k s" "parked k s w" using assms by (auto simp: async_inv_def)
  show ?thesis using parkedD [OF i] wake_inv [OF i(1), of w v] by blast
qed

lemma wake_about_others:
  assumes "aw_wake w v s = Inr s'" "u \<noteq> w"
  shows "stack s' = stack s" "awakers s' u = awakers s u"
  using assms by (force simp: aw_wake_def bind_err_Inr_iff upd_awaker_def sched_enqueue_def split: if_splits option.splits)+

lemma wake_kept_others:
  assumes inv: "core_inv k s" and f: "aw_wake w v s = Inr s'" and u: "u \<noteq> w" and h: "susp_at s h = Some (S_Awaker u g)"
  shows "kept k h s s'"
proof -
  have "h \<noteq> handles s w \<or> h = 0"
    using rt_okD(12) [OF core_run_inv(2) [OF inv], of w] h u by (cases "handles s w = 0") (auto simp: susp_at_view)
  then show ?thesis by (rule kept_wake [OF core_run_inv(1) [OF inv] f])
qed

lemma wake_keeps_others:
  assumes "core_inv k s" "aw_wake w v s = Inr s'" "u \<noteq> w"
  shows "parked k s u \<Longrightarrow> parked k s' u" "about s u \<Longrightarrow> about s' u"
proof -
  show "about s u \<Longrightarrow> about s' u" using wake_about_others [OF assms(2,3)] by (simp add: about_def handles_def)
  show "parked k s' u" if p: "parked k s u" using parkedD [OF assms(1) p] wake_kept_others [OF assms] parked_kept by metis
qed

lemma same_parked:
  assumes "susp_at s' = susp_at s" "queue s' = queue s"
  shows "parked k s w \<Longrightarrow> parked k s' w"
  using assms by (simp add: parked_def pending_def)

lemma async_step_inv:
  assumes "async_step k x y" "async_inv k x"
  shows "async_inv k y"
  using assms
proof (cases rule: async_step.cases)
  case (call c s B s')
  then have inv: "core_inv k s" and B: "\<forall>w\<in>B. parked k s w \<or> about s w" using assms(2) by (auto simp: async_inv_def)
  have "core_inv k s'" using core_exec_inv [OF inv call(3)] call(5) by auto
  moreover have "parked k s' w \<or> about s' w" if "w \<in> B" for w
  proof (cases "\<exists>addr. c = Tick addr")
    case True
    then show ?thesis using tick_inv [OF inv _ _ _ that] call B that by auto
  next
    case False
    then show ?thesis using outside_call [OF inv call(3-5) _ that] B that by auto
  qed
  ultimately show ?thesis using call(2) by (simp add: async_inv_def)
next
  case (complete w B s v s')
  then have inv: "core_inv k s" using assms(2) by (auto simp: async_inv_def)
  have "core_inv k s'" using complete_ok [of k s B w v] assms(2) complete by auto
  moreover have "parked k s' u \<or> about s' u" if "u \<in> B - {w}" for u
    using wake_keeps_others [OF inv complete(5)] assms(2) that complete(1) by (auto simp: async_inv_def)
  ultimately show ?thesis using complete(2) by (simp add: async_inv_def)
next
  case (post B s h w g v)
  then have inv: "core_inv k s" and B: "\<forall>u\<in>B. parked k s u" using assms(2) callingD(2) [OF post(3)] by (auto simp: async_inv_def)
  let ?u = "upd_awaker w (\<lambda>_. fresh_awaker v) s"
  obtain b st where st: "stack s = A_Body h b # st" using callingD(1) [OF post(3)] by blast
  have i: "core_inv k ?u" using core_inv_upd_awaker [OF inv] post(5) by (simp add: fresh_awaker_def)
  have "core_inv k (run_body h (Co_await w g) ?u)" using run_body_inv [OF i] st by simp
  moreover have "parked k (run_body h (Co_await w g) ?u) u" if "u \<in> B" for u
    by (rule same_parked [of _ s]) (use B that in \<open>simp_all add: run_body_def\<close>)
  moreover have "about (run_body h (Co_await w g) ?u) w"
    by (simp add: about_def run_body_def upd_awaker_def fresh_awaker_def handles_def)
  ultimately show ?thesis using post(2) by (simp add: async_inv_def)
next
  case (go_on B s h b)
  then have inv: "core_inv k s" and B: "\<forall>u\<in>B. parked k s u" using assms(2) callingD(2) [OF go_on(3)] by (auto simp: async_inv_def)
  have "core_inv k (run_body h b s)" using run_body_inv [OF inv] callingD(1) [OF go_on(3)] by blast
  moreover have "parked k (run_body h b s) u" if "u \<in> B" for u
    by (rule same_parked [of _ s]) (use B that in \<open>simp_all add: run_body_def\<close>)
  ultimately show ?thesis using go_on(2) by (simp add: async_inv_def)
next
  case (make w B s v)
  then have inv: "core_inv k s" and B: "\<forall>u\<in>B. parked k s u \<or> about s u" using assms(2) by (auto simp: async_inv_def)
  have "core_inv k (upd_awaker w (\<lambda>_. fresh_awaker v) s)" using core_inv_upd_awaker [OF inv] make(4) by (simp add: fresh_awaker_def)
  moreover have "about (upd_awaker w (\<lambda>_. fresh_awaker v) s) u" if "about s u" "u \<noteq> w" for u
    using that by (simp add: about_def upd_awaker_def handles_def)
  moreover have "parked k (upd_awaker w (\<lambda>_. fresh_awaker v) s) u" if "parked k s u" for u
    by (rule same_parked [of _ s]) (use that in simp_all)
  ultimately show ?thesis using make(2,3) B by (auto simp: async_inv_def)
qed (auto simp: async_inv_def)

text \<open>The continuation of the coroutine that waits on an awaker does not change while it waits.\<close>

definition waits :: "('v, 'e) core \<Rightarrow> nat \<Rightarrow> ('v \<Rightarrow> ('v, 'e) body) \<Rightarrow> bool" where
  "waits s w g \<longleftrightarrow> (\<exists>h. susp_at s h = Some (S_Awaker w g)) \<or> about s w \<and> (\<exists>h st. stack s = A_Body h (Co_await w g) # st)"

lemma one_waiter:
  assumes "core_inv k s" "susp_at s h = Some (S_Awaker w g)" "susp_at s x = Some (S_Awaker w g')"
  shows "x = h"
proof -
  note d = rt_okD(8) [OF core_run_inv(2) [OF assms(1)]]
  have "handles s w = h" using d [of h "S_Awaker w g"] assms(2) by (auto simp: susp_at_view)
  moreover have "handles s w = x" using d [of x "S_Awaker w g'"] assms(3) by (auto simp: susp_at_view)
  ultimately show ?thesis by simp
qed

lemma waits_parked:
  assumes "core_inv k s" "parked k s w" "waits s w g"
  obtains h where "handles s w = h" "h \<noteq> 0" "susp_at s h = Some (S_Awaker w g)" "h \<notin> set (pending k s)"
proof -
  obtain h g' where h: "handles s w = h" "h \<noteq> 0" "susp_at s h = Some (S_Awaker w g')" "h \<notin> set (pending k s)"
    using parkedD [OF assms(1,2)] .
  have "susp_at s h = Some (S_Awaker w g)" using assms(3) h(1,2) one_waiter [OF assms(1) h(3)] by (auto simp: waits_def about_def)
  then show thesis using that h by blast
qed

lemma waits_about:
  assumes "core_inv k s" "about s w" "waits s w g"
  obtains h st where "stack s = A_Body h (Co_await w g) # st"
proof -
  have "susp_at s h \<noteq> Some (S_Awaker w g)" for h
    using rt_okD(8) [OF core_run_inv(2) [OF assms(1)], of h "S_Awaker w g"] rt_okD(1) [OF core_run_inv(2) [OF assms(1)]] assms(2)
    by (force simp: susp_at_view about_def)
  then show thesis using assms(3) that by (auto simp: waits_def)
qed

lemma async_step_waits:
  assumes step: "async_step k x y" and inv: "async_inv k x" and w: "w \<in> snd x" "w \<in> snd y" "waits (fst x) w g"
  shows "waits (fst y) w g"
proof -
  have i: "core_inv k (fst x)" and p: "parked k (fst x) w \<or> about (fst x) w" using inv w(1) by (cases x, simp add: async_inv_def)+
  have kept: "waits s' w g" if "parked k (fst x) w" "\<And>h. susp_at (fst x) h = Some (S_Awaker w g) \<Longrightarrow> h \<notin> set (pending k (fst x)) \<Longrightarrow> kept k h (fst x) s'" for s'
    using waits_parked [OF i that(1) w(3)] that(2) by (metis kept_def waits_def)
  have still: "waits s' w g" if "stack s' = stack (fst x)" "awakers s' w = awakers (fst x) w" "about (fst x) w" for s'
    using waits_about [OF i that(3) w(3)] that by (metis about_def handles_def waits_def)
  show ?thesis
    using step
  proof (cases rule: async_step.cases)
    case (call c s B s')
    show ?thesis
    proof (cases "\<exists>addr. c = Tick addr")
      case True
      then obtain addr where c: "c = Tick addr" by blast
      show ?thesis
      proof (cases "parked k s w")
        case True
        have "stack s \<noteq> A_Body x' (Wake w v b) # st" for x' v b st using call c w(1) by auto
        then show ?thesis using kept exec_kept [of k s addr s'] True call c i by auto
      next
        case False
        then have a: "about s w" using p call by auto
        obtain h st where "stack s = A_Body h (Co_await w g) # st" using waits_about [OF i _ w(3)] a call by auto
        from about_tick_at [OF _ a _ this, of k addr s'] show ?thesis using call c i by (auto simp: waits_def)
      qed
    next
      case False
      then have n: "\<And>addr. c \<noteq> Tick addr" by blast
      show ?thesis using p kept [of s'] still [of s'] outside_kept [OF _ call(3-5) n] outside_about [OF call(4,5) n] call(1,2) w(1) i by auto
    qed
  next
    case (complete v' B s v s')
    then show ?thesis
      using p kept [of s'] still [of s'] wake_kept_others [of k s v' v s' w] wake_about_others [of v' v s s' w] w(2) i by auto
  next
    case (post B s h v' f v)
    then have "parked k s w" using p callingD(2) [OF post(3), of w] w(1) by auto
    then show ?thesis using kept [of "fst y"] post by (auto simp: kept_def run_body_def)
  next
    case (go_on B s h b)
    then have "parked k s w" using p callingD(2) [OF go_on(3), of w] w(1) by auto
    then show ?thesis using kept [of "fst y"] go_on by (auto simp: kept_def run_body_def)
  next
    case (make v' B s v)
    then have "w \<noteq> v'" using w(1) by auto
    then show ?thesis using p kept [of "fst y"] still [of "fst y"] make by (auto simp: kept_def awakers_upd)
  qed (use w(3) in auto)
qed

definition async_init :: "nat \<Rightarrow> ('v, 'e) core \<times> nat set \<Rightarrow> bool" where
  "async_init k x \<longleftrightarrow> core_init k (fst x) \<and> snd x = {}"

interpretation async: inductive_invariant "async_init k" "async_step k" "async_inv k" for k
proof
  show "async_inv k x" if "async_init k x" for x :: "('v, 'e) core \<times> nat set"
    using that core_init_inv by (cases x) (auto simp: async_init_def async_inv_def)
qed (rule async_step_inv)

text \<open>
  A completion enqueues exactly the coroutine that waits, at the end of the ring, and leaves
  the value for it.
\<close>

lemma complete_delivers:
  assumes inv: "core_inv k s" "parked k s w"
  obtains h g s' where "susp_at s h = Some (S_Awaker w g)" "aw_wake w v s = Inr s'" "core_inv k s'" "aw_ret (awakers s' w) = v"
    "susp_at s' h = Some (S_Awaker w g)" "stack s' = stack s" "\<And>u. u \<noteq> w \<Longrightarrow> awakers s' u = awakers s u"
    "if length (pending k s) < unat (capacity (queue s)) then pending k s' = pending k s @ [h] else h \<in> set (dropped s')"
proof -
  obtain h g where h: "handles s w = h" "h \<noteq> 0" "susp_at s h = Some (S_Awaker w g)" "h \<notin> set (pending k s)"
    using parkedD [OF inv] .
  obtain s' where s': "aw_wake w v s = Inr s'" "core_inv k s'" "stack s' = stack s"
    using wake_inv [OF inv(1), of w v] h(1,4) by auto
  obtain r d where r: "sched_enqueue h s = Inr (s\<lparr>queue := r, dropped := d\<rparr>)"
      "if length (pending k s) < unat (capacity (queue s)) then pending k (s\<lparr>queue := r\<rparr>) = pending k s @ [h] \<and> d = dropped s
       else r = queue s \<and> d = dropped s @ [h]"
    using sched_enqueue_spec [OF core_run_inv(1) [OF inv(1)], of h] by blast
  have e: "s' = upd_awaker w (\<lambda>w. if checkable w then w\<lparr>aw_ret := v, awaked := True\<rparr> else w\<lparr>aw_ret := v\<rparr>) (s\<lparr>queue := r, dropped := d\<rparr>)"
    using s'(1) r(1) h(1,2) by (simp add: aw_wake_def handles_def)
  show thesis
    by (rule that [OF h(3) s'(1,2) _ _ s'(3)]) (use e r(2) h(3) in \<open>auto simp: awakers_upd split: if_splits\<close>)
qed

end
