(* ===== verification/Exceptions.thy ===== *)
theory Exceptions
  imports Prelude
begin

text \<open>
  The exceptions of the standard library that the network and storage wrappers throw:
  \<^verbatim>\<open>std::system_error\<close> with its category and code, and \<^verbatim>\<open>std::bad_alloc\<close>.
\<close>

datatype category = Generic_category | System_category

datatype exn = System_error category int | Bad_alloc

end
