(* ===== verification/Fabric_Info.thy ===== *)
theory Fabric_Info
  imports Exceptions
begin

text \<open>
  The class \<^verbatim>\<open>Info\<close> of \<^verbatim>\<open>src/net/fabric/fabric.hpp\<close>, the owner of a \<^verbatim>\<open>fi_info\<close> of libfabric,
  with its moves and builder functions, the attribute builders and the buffer classes.

  \<open>infos\<close> is the memory of the \<^verbatim>\<open>fi_info\<close> structures that libfabric has handed out and not
  taken back, with the members the class uses; \<open>vars\<close> gives \<^verbatim>\<open>info_\<close> of each \<^verbatim>\<open>Info\<close> object, \<open>0\<close> for
  \<^verbatim>\<open>nullptr\<close>. What \<^verbatim>\<open>fi_allocinfo\<close> and \<^verbatim>\<open>fi_getinfo\<close> answer is an argument. The callbacks of the
  \<^verbatim>\<open>with_*_attr\<close> functions are client code on the memory \<open>attrs\<close> behind the attribute pointers.
\<close>

text \<open>
  \<^verbatim>\<open>MAYBE_THROW\<close>: an answer is the return code of a libfabric function and the \<^verbatim>\<open>errno\<close> after the
  call.
\<close>

type_synonym answer = "int \<times> int"

definition MAYBE_THROW :: "answer \<Rightarrow> exn option" where
  "MAYBE_THROW a = (if fst a \<noteq> 0 then Some (System_error Generic_category (snd a)) else None)"

subsection \<open>Attributes and buffers\<close>

record CompletionQueueAttr =
  cq_format :: u32
  cq_wait_obj :: u32
  cq_wait_cond :: u32

definition cq_with_format :: "u32 \<Rightarrow> CompletionQueueAttr \<Rightarrow> CompletionQueueAttr" where
  "cq_with_format f a = a\<lparr>cq_format := f\<rparr>"

definition cq_with_wait_obj :: "u32 \<Rightarrow> CompletionQueueAttr \<Rightarrow> CompletionQueueAttr" where
  "cq_with_wait_obj f a = a\<lparr>cq_wait_obj := f\<rparr>"

definition cq_with_wait_cond :: "u32 \<Rightarrow> CompletionQueueAttr \<Rightarrow> CompletionQueueAttr" where
  "cq_with_wait_cond f a = a\<lparr>cq_wait_cond := f\<rparr>"

record EventQueueAttr =
  eq_wait_obj :: u32

definition eq_with_wait_obj :: "u32 \<Rightarrow> EventQueueAttr \<Rightarrow> EventQueueAttr" where
  "eq_with_wait_obj f a = a\<lparr>eq_wait_obj := f\<rparr>"

text \<open>Both buffer classes allocate in the constructor; \<open>p\<close> is the allocator's answer.\<close>

record MemoryBuffer =
  capicity :: u64
  mb_buf :: u64

definition MemoryBuffer_ctor :: "u64 \<Rightarrow> u64 \<Rightarrow> exn + MemoryBuffer" where
  "MemoryBuffer_ctor sz p = (if p = 0 then Inl Bad_alloc else Inr \<lparr>capicity = sz, mb_buf = p\<rparr>)"

record IOVector =
  iov_buf :: u64
  iov_size :: u64

definition IOVector_ctor :: "u64 \<Rightarrow> u64 option \<Rightarrow> exn + IOVector" where
  "IOVector_ctor sz p = (case p of None \<Rightarrow> Inl Bad_alloc | Some a \<Rightarrow> Inr \<lparr>iov_buf = a, iov_size = sz\<rparr>)"

subsection \<open>Info\<close>

record fi_info =
  caps :: u64
  fi_mode :: u64
  addr_format :: u32
  fi_src_addr :: u64
  fi_dest_addr :: u64
  fi_ep_attr :: u64
  fi_rx_attr :: u64
  fi_domain_attr :: u64
  fi_fabric_attr :: u64

record 'm info_st =
  infos :: "u64 \<rightharpoonup> fi_info"
  vars :: "nat \<rightharpoonup> u64"
  attrs :: 'm

datatype info_error = No_object | Null_deref | Double_free | Thrown exn

type_synonym 'm info_res = "info_error + 'm info_st"

text \<open>\<^verbatim>\<open>info_->...\<close>\<close>

definition deref :: "nat \<Rightarrow> 'm info_st \<Rightarrow> info_error + u64 \<times> fi_info" where
  "deref v s = (case vars s v of None \<Rightarrow> Inl No_object
     | Some p \<Rightarrow> (case infos s p of None \<Rightarrow> Inl Null_deref | Some i \<Rightarrow> if p = 0 then Inl Null_deref else Inr (p, i)))"

definition from_raw :: "nat \<Rightarrow> u64 \<Rightarrow> 'm info_st \<Rightarrow> 'm info_res" where
  "from_raw v p s = Inr (s\<lparr>vars := (vars s)(v \<mapsto> p)\<rparr>)"

definition Info_ctor :: "nat \<Rightarrow> u64 \<Rightarrow> fi_info \<Rightarrow> 'm info_st \<Rightarrow> 'm info_res" where
  "Info_ctor v p i s =
     (if p = 0 then Inl (Thrown Bad_alloc) else Inr (s\<lparr>infos := (infos s)(p \<mapsto> i), vars := (vars s)(v \<mapsto> p)\<rparr>))"

definition Info_dtor :: "nat \<Rightarrow> 'm info_st \<Rightarrow> 'm info_res" where
  "Info_dtor v s =
     (case vars s v of
        None \<Rightarrow> Inl No_object
      | Some p \<Rightarrow>
          if p \<noteq> 0 then
            if infos s p = None then Inl Double_free
            else Inr (s\<lparr>infos := (infos s)(p := None), vars := (vars s)(v := None)\<rparr>)
          else Inr (s\<lparr>vars := (vars s)(v := None)\<rparr>))"

text \<open>Both moves have the same body; the target of the assignment exists before.\<close>

definition Info_move_ctor :: "nat \<Rightarrow> nat \<Rightarrow> 'm info_st \<Rightarrow> 'm info_res" where
  "Info_move_ctor v rhs s =
     (case vars s rhs of None \<Rightarrow> Inl No_object
      | Some p \<Rightarrow> if v = rhs then Inr s else Inr (s\<lparr>vars := (vars s)(v \<mapsto> p, rhs \<mapsto> 0)\<rparr>))"

definition Info_move_assign :: "nat \<Rightarrow> nat \<Rightarrow> 'm info_st \<Rightarrow> 'm info_res" where
  "Info_move_assign v rhs s =
     (case vars s v of None \<Rightarrow> Inl No_object | Some _ \<Rightarrow>
       (case vars s rhs of None \<Rightarrow> Inl No_object
        | Some p \<Rightarrow> if v = rhs then Inr s else Inr (s\<lparr>vars := (vars s)(v \<mapsto> p, rhs \<mapsto> 0)\<rparr>)))"

text \<open>A builder function changes the structure and returns \<^verbatim>\<open>std::move(*this)\<close> as a new object \<open>r\<close>.\<close>

definition build :: "nat \<Rightarrow> nat \<Rightarrow> (fi_info \<Rightarrow> 'm \<Rightarrow> fi_info \<times> 'm) \<Rightarrow> 'm info_st \<Rightarrow> 'm info_res" where
  "build v r u s =
     bind_err (deref v s) (\<lambda>(p, i). case u i (attrs s) of (i', m) \<Rightarrow>
       Info_move_ctor r v (s\<lparr>infos := (infos s)(p \<mapsto> i'), attrs := m\<rparr>))"

definition with_caps :: "u64 \<Rightarrow> nat \<Rightarrow> nat \<Rightarrow> 'm info_st \<Rightarrow> 'm info_res" where
  "with_caps c v r = build v r (\<lambda>i m. (i\<lparr>caps := caps i OR c\<rparr>, m))"

definition with_addr_format :: "u32 \<Rightarrow> nat \<Rightarrow> nat \<Rightarrow> 'm info_st \<Rightarrow> 'm info_res" where
  "with_addr_format f v r = build v r (\<lambda>i m. (i\<lparr>addr_format := f\<rparr>, m))"

definition with_mode :: "u64 \<Rightarrow> nat \<Rightarrow> nat \<Rightarrow> 'm info_st \<Rightarrow> 'm info_res" where
  "with_mode c v r = build v r (\<lambda>i m. (i\<lparr>fi_mode := fi_mode i OR c\<rparr>, m))"

definition with_ep_attr :: "(u64 \<Rightarrow> 'm \<Rightarrow> 'm) \<Rightarrow> nat \<Rightarrow> nat \<Rightarrow> 'm info_st \<Rightarrow> 'm info_res" where
  "with_ep_attr fn v r = build v r (\<lambda>i m. (i, fn (fi_ep_attr i) m))"

definition with_rx_attr :: "(u64 \<Rightarrow> 'm \<Rightarrow> 'm) \<Rightarrow> nat \<Rightarrow> nat \<Rightarrow> 'm info_st \<Rightarrow> 'm info_res" where
  "with_rx_attr fn v r = build v r (\<lambda>i m. (i, fn (fi_rx_attr i) m))"

definition with_domain_attr :: "(u64 \<Rightarrow> 'm \<Rightarrow> 'm) \<Rightarrow> nat \<Rightarrow> nat \<Rightarrow> 'm info_st \<Rightarrow> 'm info_res" where
  "with_domain_attr fn v r = build v r (\<lambda>i m. (i, fn (fi_domain_attr i) m))"

definition with_fabric_attr :: "(u64 \<Rightarrow> 'm \<Rightarrow> 'm) \<Rightarrow> nat \<Rightarrow> nat \<Rightarrow> 'm info_st \<Rightarrow> 'm info_res" where
  "with_fabric_attr fn v r = build v r (\<lambda>i m. (i, fn (fi_fabric_attr i) m))"

definition dst_addr :: "nat \<Rightarrow> 'm info_st \<Rightarrow> info_error + u64" where
  "dst_addr v s = bind_err (deref v s) (\<lambda>(p, i). Inr (fi_dest_addr i))"

definition src_addr :: "nat \<Rightarrow> 'm info_st \<Rightarrow> info_error + u64" where
  "src_addr v s = bind_err (deref v s) (\<lambda>(p, i). Inr (fi_src_addr i))"

definition get_fabric_attr :: "nat \<Rightarrow> 'm info_st \<Rightarrow> info_error + u64" where
  "get_fabric_attr v s = bind_err (deref v s) (\<lambda>(p, i). Inr (fi_fabric_attr i))"

definition get_domain_attr :: "nat \<Rightarrow> 'm info_st \<Rightarrow> info_error + u64" where
  "get_domain_attr v s = bind_err (deref v s) (\<lambda>(p, i). Inr (fi_domain_attr i))"

definition get_info :: "nat \<Rightarrow> answer \<Rightarrow> u64 \<Rightarrow> fi_info \<Rightarrow> 'm info_st \<Rightarrow> 'm info_res" where
  "get_info v a p i s =
     (case MAYBE_THROW a of Some x \<Rightarrow> Inl (Thrown x)
      | None \<Rightarrow> Inr (s\<lparr>infos := (infos s)(p \<mapsto> i), vars := (vars s)(v \<mapsto> p)\<rparr>))"

subsection \<open>Ownership\<close>

text \<open>
  A program's operations on \<^verbatim>\<open>Info\<close> objects. \<open>Raw\<close> takes over a structure that libfabric made for
  a connection request. An exception leaves the objects as they were, and the program goes on.
\<close>

datatype 'm info_op =
    New nat u64 fi_info
  | Raw nat u64 fi_info
  | Get nat answer u64 fi_info
  | Move nat nat
  | Assign nat nat
  | Build nat nat "fi_info \<Rightarrow> 'm \<Rightarrow> fi_info \<times> 'm"
  | Destroy nat

fun info_exec :: "'m info_op \<Rightarrow> 'm info_st \<Rightarrow> 'm info_res" where
  "info_exec (New v p i) s = Info_ctor v p i s"
| "info_exec (Raw v p i) s = from_raw v p (s\<lparr>infos := (infos s)(p \<mapsto> i)\<rparr>)"
| "info_exec (Get v a p i) s = get_info v a p i s"
| "info_exec (Move v w) s = Info_move_ctor v w s"
| "info_exec (Assign v w) s = Info_move_assign v w s"
| "info_exec (Build v r u) s = build v r u s"
| "info_exec (Destroy v) s = Info_dtor v s"

text \<open>
  The rules of the language and of libfabric: an object is constructed where there is none and
  used where there is one, an object that was moved from is not built upon, and libfabric
  hands out structures that are not in use.
\<close>

fun info_legal :: "'m info_op \<Rightarrow> 'm info_st \<Rightarrow> bool" where
  "info_legal (New v p i) s \<longleftrightarrow> vars s v = None \<and> infos s p = None"
| "info_legal (Raw v p i) s \<longleftrightarrow> vars s v = None \<and> infos s p = None \<and> p \<noteq> 0"
| "info_legal (Get v a p i) s \<longleftrightarrow> vars s v = None \<and> infos s p = None \<and> p \<noteq> 0"
| "info_legal (Move v w) s \<longleftrightarrow> vars s v = None \<and> vars s w \<noteq> None"
| "info_legal (Assign v w) s \<longleftrightarrow> vars s v \<noteq> None \<and> vars s w \<noteq> None"
| "info_legal (Build v r u) s \<longleftrightarrow> vars s v \<noteq> None \<and> vars s v \<noteq> Some 0 \<and> vars s r = None"
| "info_legal (Destroy v) s \<longleftrightarrow> vars s v \<noteq> None"

definition info_step :: "'m info_op \<Rightarrow> 'm info_st \<Rightarrow> 'm info_res" where
  "info_step a s = (case info_exec a s of Inl (Thrown x) \<Rightarrow> Inr s | r \<Rightarrow> r)"

fun info_run :: "'m info_op list \<Rightarrow> 'm info_st \<Rightarrow> 'm info_res" where
  "info_run [] s = Inr s"
| "info_run (a # as) s = bind_err (info_step a s) (info_run as)"

fun info_legal_run :: "'m info_op list \<Rightarrow> 'm info_st \<Rightarrow> bool" where
  "info_legal_run [] s = True"
| "info_legal_run (a # as) s \<longleftrightarrow> info_legal a s \<and> (case info_step a s of Inl e \<Rightarrow> True | Inr s' \<Rightarrow> info_legal_run as s')"

text \<open>A run overwrites if it assigns to an object that still owns a structure.\<close>

fun overwrite :: "'m info_op \<Rightarrow> 'm info_st \<Rightarrow> bool" where
  "overwrite (Assign v w) s \<longleftrightarrow> v \<noteq> w \<and> vars s v \<noteq> Some 0"
| "overwrite _ s \<longleftrightarrow> False"

fun overwrites :: "'m info_op list \<Rightarrow> 'm info_st \<Rightarrow> bool" where
  "overwrites [] s = False"
| "overwrites (a # as) s \<longleftrightarrow> overwrite a s \<or> (case info_step a s of Inl e \<Rightarrow> False | Inr s' \<Rightarrow> overwrites as s')"

definition owned :: "'m info_st \<Rightarrow> u64 set" where
  "owned s = {p. p \<noteq> 0 \<and> (\<exists>v. vars s v = Some p)}"

definition owners_ok :: "'m info_st \<Rightarrow> bool" where
  "owners_ok s \<longleftrightarrow> owned s \<subseteq> dom (infos s) \<and> infos s 0 = None \<and>
     (\<forall>v w p. vars s v = Some p \<and> vars s w = Some p \<and> p \<noteq> 0 \<longrightarrow> v = w)"

definition no_leak :: "'m info_st \<Rightarrow> bool" where
  "no_leak s \<longleftrightarrow> dom (infos s) \<subseteq> owned s"

lemma owners_okI:
  assumes "owned s \<subseteq> dom (infos s)" "infos s 0 = None" "\<And>v w p. vars s v = Some p \<Longrightarrow> vars s w = Some p \<Longrightarrow> p \<noteq> 0 \<Longrightarrow> v = w"
  shows "owners_ok s"
  using assms unfolding owners_ok_def by blast

lemma owners_okD:
  assumes "owners_ok s"
  shows "owned s \<subseteq> dom (infos s)" "infos s 0 = None" "vars s v = Some p \<Longrightarrow> vars s w = Some p \<Longrightarrow> p \<noteq> 0 \<Longrightarrow> v = w"
    "vars s v = Some p \<Longrightarrow> p \<noteq> 0 \<Longrightarrow> infos s p \<noteq> None"
  using assms unfolding owners_ok_def owned_def by auto

text \<open>The three changes of ownership: a new owner, a move, and a release.\<close>

lemma owners_add:
  fixes s :: "'m info_st" and i :: fi_info
  assumes "owners_ok s" "vars s v = None" "infos s p = None" "p \<noteq> 0"
  defines "t \<equiv> s\<lparr>infos := (infos s)(p \<mapsto> i), vars := (vars s)(v \<mapsto> p)\<rparr>"
  shows "owners_ok t" "no_leak s \<Longrightarrow> no_leak t"
proof -
  note d = owners_okD [OF assms(1)]
  have n: "vars s w \<noteq> Some p" for w using d(4) [of w p] assms(3,4) by auto
  have "q \<in> owned t \<longleftrightarrow> q = p \<or> q \<in> owned s" for q
    using assms(2,4) by (auto simp: owned_def t_def) (metis option.distinct(1))
  then have o: "owned t = insert p (owned s)" by blast
  show "no_leak t" if "no_leak s" using that o by (auto simp: no_leak_def t_def)
  show "owners_ok t"
  proof (rule owners_okI)
    show "owned t \<subseteq> dom (infos t)" using d(1) o by (auto simp: t_def)
    show "x = y" if "vars t x = Some q" "vars t y = Some q" "q \<noteq> 0" for x y q
      using that n d(3) [of x q y] by (auto simp: t_def split: if_splits)
  qed (use d(2) assms(4) in \<open>simp add: t_def\<close>)
qed

lemma owners_move:
  fixes s :: "'m info_st"
  assumes "owners_ok s" "vars s w = Some p" "v \<noteq> w"
  defines "t \<equiv> s\<lparr>vars := (vars s)(v \<mapsto> p, w \<mapsto> 0)\<rparr>"
  shows "owners_ok t" "no_leak s \<Longrightarrow> vars s v = None \<or> vars s v = Some 0 \<Longrightarrow> no_leak t"
proof -
  note d = owners_okD [OF assms(1)]
  have "owned t \<subseteq> owned s" using assms(2) by (auto simp: owned_def t_def split: if_splits)
  then have sub: "owned t \<subseteq> dom (infos t)" using d(1) by (auto simp: t_def)
  have before: "x \<noteq> w \<and> vars s (if x = v then w else x) = Some q" if "vars t x = Some q" "q \<noteq> 0" for x q
    using that assms(2,3) by (auto simp: t_def split: if_splits)
  have uniq: "x = y" if "vars t x = Some q" "vars t y = Some q" "q \<noteq> 0" for x y q
  proof -
    have "(if x = v then w else x) = (if y = v then w else y)" using before that by (intro d(3)) blast+
    then show ?thesis using before that by (metis (full_types))
  qed
  show "owners_ok t" by (rule owners_okI [OF sub _ uniq]) (use d(2) in \<open>simp_all add: t_def\<close>)
  show "no_leak t" if l: "no_leak s" and v: "vars s v = None \<or> vars s v = Some 0"
  proof -
    have "q \<in> owned t" if q: "q \<in> owned s" for q
    proof -
      obtain x where x: "q \<noteq> 0" "vars s x = Some q" using q by (auto simp: owned_def)
      then have "vars t (if x = w then v else x) = Some q" using v assms(2,3) by (auto simp: t_def)
      then show ?thesis using x(1) unfolding owned_def by blast
    qed
    then show ?thesis using l by (auto simp: no_leak_def t_def)
  qed
qed

lemma owners_free:
  fixes s :: "'m info_st"
  assumes "owners_ok s" "vars s v = Some p"
  defines "t \<equiv> s\<lparr>infos := (infos s)(p := None), vars := (vars s)(v := None)\<rparr>"
  shows "owners_ok t" "no_leak s \<Longrightarrow> no_leak t"
proof -
  note d = owners_okD [OF assms(1)]
  have "q \<in> owned t \<longleftrightarrow> q \<in> owned s \<and> q \<noteq> p" for q
    using assms(2) d(3) [of v q] by (auto simp: owned_def t_def) (metis option.inject)
  then have o: "owned t = owned s - {p}" by blast
  show "no_leak t" if "no_leak s" using that o by (auto simp: no_leak_def t_def)
  have sub: "owned t \<subseteq> dom (infos t)" using d(1) o by (auto simp: t_def)
  have uniq: "x = y" if "vars t x = Some q" "vars t y = Some q" "q \<noteq> 0" for x y q
    using that d(3) [of x q y] by (auto simp: t_def split: if_splits)
  show "owners_ok t" by (rule owners_okI [OF sub _ uniq]) (use d(2) in \<open>simp_all add: t_def\<close>)
qed

lemma info_step_ok:
  assumes ok: "owners_ok s" and legal: "info_legal a s"
  shows "\<exists>s'. info_step a s = Inr s' \<and> owners_ok s' \<and> (no_leak s \<and> \<not> overwrite a s \<longrightarrow> no_leak s')"
proof (cases a)
  case (New v p i)
  then show ?thesis using ok legal owners_add [OF ok, of v p i] by (auto simp: info_step_def Info_ctor_def)
next
  case (Raw v p i)
  then show ?thesis using legal owners_add [OF ok, of v p i] by (simp add: info_step_def from_raw_def)
next
  case (Get v r p i)
  then show ?thesis using ok legal owners_add [OF ok, of v p i] by (auto simp: info_step_def get_info_def split: option.splits)
next
  case (Move v w)
  then obtain p where p: "vars s w = Some p" "vars s v = None" "v \<noteq> w" using legal by fastforce
  then show ?thesis using Move owners_move [OF ok p(1,3)] by (simp add: info_step_def Info_move_ctor_def)
next
  case (Assign v w)
  then obtain p q where p: "vars s w = Some p" "vars s v = Some q" using legal by auto
  show ?thesis
  proof (cases "v = w")
    case True
    then show ?thesis using Assign p ok by (simp add: info_step_def Info_move_assign_def)
  next
    case False
    then show ?thesis using Assign p owners_move [OF ok p(1) False] by (simp add: info_step_def Info_move_assign_def)
  qed
next
  case (Build v r u)
  then obtain p where p: "vars s v = Some p" "p \<noteq> 0" "vars s r = None" "r \<noteq> v" using legal by fastforce
  then obtain i where i: "infos s p = Some i" using ok by (auto simp: owners_ok_def owned_def)
  obtain i' m where u: "u i (attrs s) = (i', m)" by fastforce
  let ?s = "s\<lparr>infos := (infos s)(p \<mapsto> i'), attrs := m\<rparr>"
  have "owners_ok ?s" "no_leak s \<Longrightarrow> no_leak ?s" using ok p(2) i by (auto simp: owners_ok_def owned_def no_leak_def)
  then show ?thesis using Build p i u owners_move [of ?s v p r]
    by (simp add: info_step_def build_def deref_def Info_move_ctor_def)
next
  case (Destroy v)
  then obtain p where p: "vars s v = Some p" using legal by auto
  show ?thesis
  proof (cases "p = 0")
    case True
    then have "(infos s)(p := None) = infos s" using owners_okD(2) [OF ok] by auto
    then show ?thesis using Destroy p True owners_free [OF ok p] by (simp add: info_step_def Info_dtor_def)
  next
    case False
    then show ?thesis using Destroy p owners_okD(4) [OF ok p] owners_free [OF ok p] by (simp add: info_step_def Info_dtor_def)
  qed
qed

lemma info_run_ok:
  "owners_ok s \<Longrightarrow> info_legal_run as s \<Longrightarrow>
    \<exists>s'. info_run as s = Inr s' \<and> owners_ok s' \<and> (no_leak s \<and> \<not> overwrites as s \<longrightarrow> no_leak s')"
proof (induction as arbitrary: s)
  case (Cons a as)
  obtain t where t: "info_step a s = Inr t" "owners_ok t" "no_leak s \<and> \<not> overwrite a s \<longrightarrow> no_leak t"
    using info_step_ok [OF Cons.prems(1)] Cons.prems(2) by auto
  obtain s' where "info_run as t = Inr s'" "owners_ok s'" "no_leak t \<and> \<not> overwrites as t \<longrightarrow> no_leak s'"
    using Cons.IH [OF t(2)] Cons.prems(2) t(1) by auto
  then show ?case using t by auto
qed simp

definition no_infos :: "'m \<Rightarrow> 'm info_st" where
  "no_infos m = \<lparr>infos = Map.empty, vars = Map.empty, attrs = m\<rparr>"

text \<open>
  C18. \<^verbatim>\<open>Info\<close> owns its \<^verbatim>\<open>fi_info\<close>: in every run of constructions, moves, builder calls and
  destructions no structure is freed twice or used after it was freed, every \<^verbatim>\<open>Info\<close> that is not
  moved from has a live structure that no other object has, and every live structure has an
  owner, unless the run assigns to an \<^verbatim>\<open>Info\<close> that still owns one.
\<close>

theorem info_ownership:
  assumes "info_legal_run as (no_infos m)"
  shows "\<exists>s. info_run as (no_infos m) = Inr s \<and>
    (\<forall>v p. vars s v = Some p \<and> p \<noteq> 0 \<longrightarrow> infos s p \<noteq> None \<and> (\<forall>w. vars s w = Some p \<longrightarrow> w = v)) \<and>
    (\<not> overwrites as (no_infos m) \<longrightarrow> (\<forall>p. infos s p \<noteq> None \<longrightarrow> (\<exists>v. vars s v = Some p)))"
proof -
  have "owners_ok (no_infos m)" "no_leak (no_infos m)" by (simp_all add: no_infos_def owners_ok_def no_leak_def owned_def)
  then obtain s where "info_run as (no_infos m) = Inr s" "owners_ok s" "\<not> overwrites as (no_infos m) \<longrightarrow> no_leak s"
    using info_run_ok [OF _ assms] by blast
  then show ?thesis by (intro exI [of _ s]) (auto simp: owners_ok_def no_leak_def owned_def)
qed

definition blank_info :: fi_info where
  "blank_info = \<lparr>caps = 0, fi_mode = 0, addr_format = 0, fi_src_addr = 0, fi_dest_addr = 0, fi_ep_attr = 0, fi_rx_attr = 0,
     fi_domain_attr = 0, fi_fabric_attr = 0\<rparr>"

theorem info_ownership_witness:
  "\<exists>s. info_run [New 0 64 blank_info, Build 0 1 (\<lambda>i m. (i\<lparr>caps := caps i OR 6\<rparr>, m)), Destroy 0, Move 2 1, Destroy 1, Destroy 2]
     (no_infos ()) = Inr s \<and> infos s 64 = None \<and> vars s 2 = None"
  using info_ownership [of "[New 0 64 blank_info, Build 0 1 (\<lambda>i m. (i\<lparr>caps := caps i OR 6\<rparr>, m)), Destroy 0, Move 2 1, Destroy 1, Destroy 2]" "()"]
  by (simp add: no_infos_def info_step_def Info_ctor_def build_def deref_def Info_move_ctor_def Info_dtor_def)

text \<open>
  The member \<^verbatim>\<open>ret_\<close> of an \<^verbatim>\<open>Awaker<Info>\<close> is an \<open>Info\<close> of its own when the first connection
  request is assigned to it: the assignment leaks the structure of the default constructor.
\<close>

lemma awaker_ret_leaks:
  "\<exists>s. info_run [New 0 64 blank_info, Raw 1 128 blank_info, Assign 0 1, Destroy 1, Destroy 0] (no_infos ()) = Inr s \<and>
     infos s 64 \<noteq> None \<and> (\<forall>v. vars s v = None)"
  by (simp add: no_infos_def info_step_def Info_ctor_def from_raw_def Info_move_assign_def Info_dtor_def)

end
