(* ===== verification/Fabric.thy ===== *)
theory Fabric
  imports Async Fabric_Info
begin

text \<open>
  The wrappers of libfabric's endpoints and queues (\<^verbatim>\<open>src/net/fabric/fabric.hpp\<close>): object life
  times, the coroutines \<^verbatim>\<open>accept\<close>, \<^verbatim>\<open>send\<close>, \<^verbatim>\<open>recv\<close>, \<^verbatim>\<open>write\<close>, \<^verbatim>\<open>read\<close>, \<^verbatim>\<open>next\<close> and
  \<^verbatim>\<open>wait_disconn\<close>, and the two polls that turn completions and events into wakes.

  libfabric is a parameter: what its functions answer are arguments of the operations, its
  constants the record \<open>fi_abi\<close>. What the library keeps between calls is \<open>fids\<close>, the open
  descriptors with the event queue they are bound to, and \<open>posted\<close>, the operations that have
  not completed, by their context, the address of an awaker. \<open>rt\<close> is the coroutine runtime.

  A coroutine of this file runs straight to its only \<^verbatim>\<open>co_await\<close>. Its model is the step of the
  running coroutine that makes the library calls and leaves the rest of the body, from the
  \<^verbatim>\<open>co_await\<close> or the \<^verbatim>\<open>throw\<close> on, for the runtime to execute.
\<close>

subsection \<open>State\<close>

record fi_abi =
  EAGAIN :: int
  FI_EAVAIL :: int
  FI_RECV :: u64
  FI_SEND :: u64
  FI_WRITE :: u64
  FI_READ :: u64
  FI_CONNREQ :: u32
  FI_SHUTDOWN :: u32

text \<open>The values of the runtime: nothing, a \<^verbatim>\<open>fi_addr_t\<close>, an \<^verbatim>\<open>Info\<close> by its pointer.\<close>

datatype fab_val = Void | Addr u64 | Inf u64

datatype fid_kind = Fid_fabric | Fid_eq | Fid_domain | Fid_cq | Fid_mr | Fid_pep | Fid_av | Fid_ep

text \<open>The endpoint objects: descriptor, event queue and the awaker member.\<close>

datatype endpoint = PassiveEndpoint (obj_fid: u64) (obj_eq: nat) (obj_awaker: nat) | Endpoint (obj_fid: u64) (obj_eq: nat) (obj_awaker: nat)

fun obj_kind :: "endpoint \<Rightarrow> fid_kind" where
  "obj_kind (PassiveEndpoint _ _ _) = Fid_pep"
| "obj_kind (Endpoint _ _ _) = Fid_ep"

record EventQueue =
  eq_map :: "u64 \<rightharpoonup> nat"
  eq_peps :: "u64 \<rightharpoonup> nat"

datatype op_kind = Op_send | Op_recv | Op_write | Op_read

datatype awaker_type = Awaker_void | Awaker_Address

record post =
  op :: op_kind
  ctx_type :: awaker_type
  p_buf :: u64
  p_len :: u64
  p_desc :: u64
  p_peer :: u64
  p_raddr :: u64
  p_key :: u64

text \<open>
  \<open>miscast\<close> and \<open>orphans\<close> are ghosts: the operations whose awaker was cast to a type it does not
  have, and the awakers of coroutines that suspended on an operation whose completion nobody
  will deliver.
\<close>

record fab =
  rt :: "(fab_val, exn) core"
  eqs :: "nat \<Rightarrow> EventQueue"
  objs :: "nat \<rightharpoonup> endpoint"
  fids :: "u64 \<rightharpoonup> fid_kind \<times> nat option"
  posted :: "nat \<rightharpoonup> post"
  miscast :: "op_kind list"
  orphans :: "nat set"

datatype fab_error = Eq_end_deref | Dangling | Wrong_type | Double_close | Assert_failed | No_coroutine | Core_error core_error

definition lift_rt :: "fab \<Rightarrow> core_error + (fab_val, exn) core \<Rightarrow> fab_error + fab" where
  "lift_rt st r = (case r of Inl e \<Rightarrow> Inl (Core_error e) | Inr s \<Rightarrow> Inr (st\<lparr>rt := s\<rparr>))"

subsection \<open>Descriptors\<close>

text \<open>
  The constructors of \<^verbatim>\<open>Fabric\<close>, \<^verbatim>\<open>EventQueue\<close>, \<^verbatim>\<open>Domain\<close>, \<^verbatim>\<open>CompletionQueue\<close>, \<^verbatim>\<open>MemoryRegion\<close> and
  \<^verbatim>\<open>AddressVector\<close> open a descriptor or throw; \<open>fid\<close> is the one libfabric returns.
\<close>

definition open_fid :: "fid_kind \<Rightarrow> answer \<Rightarrow> u64 \<Rightarrow> fab \<Rightarrow> exn option \<times> fab" where
  "open_fid kd a fid st =
     (case MAYBE_THROW a of Some x \<Rightarrow> (Some x, st) | None \<Rightarrow> (None, st\<lparr>fids := (fids st)(fid \<mapsto> (kd, None))\<rparr>))"

definition Fabric_ctor :: "answer \<Rightarrow> u64 \<Rightarrow> fab \<Rightarrow> exn option \<times> fab" where
  "Fabric_ctor = open_fid Fid_fabric"

definition EventQueue_ctor :: "nat \<Rightarrow> answer \<Rightarrow> u64 \<Rightarrow> fab \<Rightarrow> exn option \<times> fab" where
  "EventQueue_ctor e a fid st = open_fid Fid_eq a fid (st\<lparr>eqs := (eqs st)(e := \<lparr>eq_map = Map.empty, eq_peps = Map.empty\<rparr>)\<rparr>)"

definition Domain_ctor :: "answer \<Rightarrow> u64 \<Rightarrow> fab \<Rightarrow> exn option \<times> fab" where
  "Domain_ctor = open_fid Fid_domain"

definition CompletionQueue_ctor :: "answer \<Rightarrow> u64 \<Rightarrow> fab \<Rightarrow> exn option \<times> fab" where
  "CompletionQueue_ctor = open_fid Fid_cq"

definition MemoryRegion_ctor :: "answer \<Rightarrow> u64 \<Rightarrow> fab \<Rightarrow> exn option \<times> fab" where
  "MemoryRegion_ctor = open_fid Fid_mr"

definition AddressVector_ctor :: "answer \<Rightarrow> u64 \<Rightarrow> fab \<Rightarrow> exn option \<times> fab" where
  "AddressVector_ctor = open_fid Fid_av"

definition fi_close :: "u64 \<Rightarrow> fab \<Rightarrow> fab_error + fab" where
  "fi_close fid st = (if fids st fid = None then Inl Double_close else Inr (st\<lparr>fids := (fids st)(fid := None)\<rparr>))"

text \<open>\<^verbatim>\<open>HAS_FID_DTOR\<close>\<close>

definition fid_dtor :: "u64 \<Rightarrow> fab \<Rightarrow> fab_error + fab" where
  "fid_dtor = fi_close"

definition AddressVector_insert :: "int \<Rightarrow> u64 \<Rightarrow> fab_error + u64" where
  "AddressVector_insert rc a = (if rc = 1 then Inr a else Inl Assert_failed)"

definition add_ep :: "nat \<Rightarrow> u64 \<Rightarrow> nat \<Rightarrow> fab \<Rightarrow> fab" where
  "add_ep e fid o' st =
     (if eq_peps (eqs st e) fid = None
      then st\<lparr>eqs := (eqs st)(e := (eqs st e)\<lparr>eq_peps := (eq_peps (eqs st e))(fid \<mapsto> o')\<rparr>)\<rparr> else st)"

definition del_ep :: "nat \<Rightarrow> u64 \<Rightarrow> fab \<Rightarrow> fab" where
  "del_ep e fid st = st\<lparr>eqs := (eqs st)(e := (eqs st e)\<lparr>eq_peps := (eq_peps (eqs st e))(fid := None)\<rparr>)\<rparr>"

text \<open>\<^verbatim>\<open>fi_pep_bind\<close> and \<^verbatim>\<open>fi_ep_bind\<close> to an event queue.\<close>

definition bind_eq :: "u64 \<Rightarrow> nat \<Rightarrow> fab \<Rightarrow> fab" where
  "bind_eq fid e st = st\<lparr>fids := (fids st)(fid := map_option (\<lambda>(kd, _). (kd, Some e)) (fids st fid))\<rparr>"

definition make_awaker :: "nat \<Rightarrow> fab_val \<Rightarrow> fab \<Rightarrow> fab" where
  "make_awaker w v st = st\<lparr>rt := upd_awaker w (\<lambda>_. fresh_awaker v) (rt st)\<rparr>"

text \<open>
  The constructor of \<^verbatim>\<open>PassiveEndpoint\<close> at the address \<open>o'\<close>, with its awaker at \<open>w\<close>; \<open>al\<close> is the answer of
  \<^verbatim>\<open>fi_allocinfo\<close> for \<^verbatim>\<open>awaker_.ret_\<close>. An exception leaves no object, and the descriptor open.
\<close>

definition PassiveEndpoint_ctor ::
  "nat \<Rightarrow> nat \<Rightarrow> nat \<Rightarrow> u64 \<Rightarrow> answer \<Rightarrow> u64 \<Rightarrow> answer \<Rightarrow> fab \<Rightarrow> exn option \<times> fab" where
  "PassiveEndpoint_ctor o' e w al a_ep fid a_bind st =
     (if al = 0 then (Some Bad_alloc, st)
      else case open_fid Fid_pep a_ep fid (make_awaker w (Inf al) st) of
        (Some x, st) \<Rightarrow> (Some x, st)
      | (None, st) \<Rightarrow>
          (case MAYBE_THROW a_bind of
             Some x \<Rightarrow> (Some x, st)
           | None \<Rightarrow> (None, (add_ep e fid o' (bind_eq fid e st))\<lparr>objs := (objs st)(o' \<mapsto> PassiveEndpoint fid e w)\<rparr>)))"

text \<open>
  The constructor of \<^verbatim>\<open>Endpoint\<close>: answers to \<^verbatim>\<open>fi_endpoint\<close>, the two or three \<^verbatim>\<open>fi_ep_bind\<close> and
  \<^verbatim>\<open>fi_enable\<close>. The object is registered before the second bind.
\<close>

definition Endpoint_ctor ::
  "nat \<Rightarrow> nat \<Rightarrow> nat \<Rightarrow> answer \<Rightarrow> u64 \<Rightarrow> answer \<Rightarrow> answer \<Rightarrow> answer option \<Rightarrow> answer \<Rightarrow> fab \<Rightarrow> exn option \<times> fab" where
  "Endpoint_ctor o' e w a_ep fid a_eq a_cq a_av a_enable st =
     (case open_fid Fid_ep a_ep fid (make_awaker w Void st) of
        (Some x, st) \<Rightarrow> (Some x, st)
      | (None, st) \<Rightarrow>
          (case MAYBE_THROW a_eq of
             Some x \<Rightarrow> (Some x, st)
           | None \<Rightarrow>
               let st = add_ep e fid o' (bind_eq fid e st) in
               (case MAYBE_THROW a_cq of
                  Some x \<Rightarrow> (Some x, st)
                | None \<Rightarrow>
                    (case (case a_av of None \<Rightarrow> None | Some a \<Rightarrow> MAYBE_THROW a) of
                       Some x \<Rightarrow> (Some x, st)
                     | None \<Rightarrow>
                         (case MAYBE_THROW a_enable of
                            Some x \<Rightarrow> (Some x, st)
                          | None \<Rightarrow> (None, st\<lparr>objs := (objs st)(o' \<mapsto> Endpoint fid e w)\<rparr>))))))"

definition PassiveEndpoint_dtor :: "nat \<Rightarrow> fab \<Rightarrow> fab_error + fab" where
  "PassiveEndpoint_dtor o' st =
     (case objs st o' of
        Some (PassiveEndpoint fid e w) \<Rightarrow>
          bind_err (fi_close fid (del_ep e fid st)) (\<lambda>st. Inr (st\<lparr>objs := (objs st)(o' := None)\<rparr>))
      | _ \<Rightarrow> Inl Dangling)"

definition Endpoint_dtor :: "nat \<Rightarrow> fab \<Rightarrow> fab_error + fab" where
  "Endpoint_dtor o' st =
     (case objs st o' of
        Some (Endpoint fid e w) \<Rightarrow>
          bind_err (fi_close fid (del_ep e fid st)) (\<lambda>st. Inr (st\<lparr>objs := (objs st)(o' := None)\<rparr>))
      | _ \<Rightarrow> Inl Dangling)"

definition Endpoint_close :: "nat \<Rightarrow> answer \<Rightarrow> fab \<Rightarrow> fab_error + exn option \<times> fab" where
  "Endpoint_close o' a st =
     (case objs st o' of
        Some (Endpoint fid e w) \<Rightarrow>
          (case MAYBE_THROW a of Some x \<Rightarrow> Inr (Some x, st)
           | None \<Rightarrow> bind_err (fi_close fid st) (\<lambda>st. Inr (None, st)))
      | _ \<Rightarrow> Inl Dangling)"

subsection \<open>Coroutines\<close>

text \<open>The running coroutine \<open>h\<close> goes on with \<open>b\<close>.\<close>

definition go :: "handle \<Rightarrow> (fab_val, exn) body \<Rightarrow> fab \<Rightarrow> fab" where
  "go h b st = st\<lparr>rt := run_body h b (rt st)\<rparr>"

definition with_endpoint :: "nat \<Rightarrow> fab \<Rightarrow> (u64 \<Rightarrow> nat \<Rightarrow> nat \<Rightarrow> fab) \<Rightarrow> fab_error + fab" where
  "with_endpoint o' st f = (case objs st o' of Some (Endpoint fid e w) \<Rightarrow> Inr (f fid e w) | _ \<Rightarrow> Inl Dangling)"

definition PassiveEndpoint_next :: "handle \<Rightarrow> nat \<Rightarrow> fab \<Rightarrow> fab_error + fab" where
  "PassiveEndpoint_next h o' st =
     (case objs st o' of
        Some (PassiveEndpoint fid e w) \<Rightarrow> Inr (go h (Co_await w Co_return) st)
      | _ \<Rightarrow> Inl Dangling)"

definition Endpoint_wait_disconn :: "handle \<Rightarrow> nat \<Rightarrow> fab \<Rightarrow> fab_error + fab" where
  "Endpoint_wait_disconn h o' st = with_endpoint o' st (\<lambda>fid e w. go h (Co_await w (\<lambda>_. Co_return Void)) st)"

definition Endpoint_accept :: "handle \<Rightarrow> nat \<Rightarrow> nat \<Rightarrow> answer \<Rightarrow> fab \<Rightarrow> fab_error + fab" where
  "Endpoint_accept h o' w a st = with_endpoint o' st (\<lambda>fid e _.
     case MAYBE_THROW a of
       Some x \<Rightarrow> go h (Throw x) st
     | None \<Rightarrow>
         let st = make_awaker w Void st;
             st = (if eq_map (eqs st e) fid = None
                   then st\<lparr>eqs := (eqs st)(e := (eqs st e)\<lparr>eq_map := (eq_map (eqs st e))(fid \<mapsto> w)\<rparr>)\<rparr> else st)
         in go h (Co_await w (\<lambda>_. Co_return Void)) st)"

text \<open>
  The loop of \<^verbatim>\<open>send\<close> around \<^verbatim>\<open>fi_send\<close>: \<open>rcs i\<close> is the answer to call number \<open>i\<close>. A library that answers
  \<^verbatim>\<open>-EAGAIN\<close> for ever makes it spin.
\<close>

partial_function (option) fi_send_loop :: "fi_abi \<Rightarrow> (nat \<Rightarrow> int) \<Rightarrow> nat \<Rightarrow> int option" where
  "fi_send_loop abi rcs i = (if rcs i \<noteq> - EAGAIN abi then Some (rcs i) else fi_send_loop abi rcs (Suc i))"

declare fi_send_loop.simps [code]

definition Endpoint_send ::
  "fi_abi \<Rightarrow> handle \<Rightarrow> nat \<Rightarrow> nat \<Rightarrow> MemoryBuffer \<Rightarrow> u64 \<Rightarrow> u64 \<Rightarrow> u64 option \<Rightarrow> (nat \<Rightarrow> int) \<Rightarrow> fab \<Rightarrow> (fab_error + fab) option" where
  "Endpoint_send abi h o' w buf sz desc dst rcs st =
     map_option (\<lambda>rc. with_endpoint o' st (\<lambda>fid e _.
       let st = make_awaker w Void st in
       if rc \<noteq> 0 then go h (Throw (System_error System_category (- rc))) st
       else go h (Co_await w (\<lambda>_. Co_return Void))
         (st\<lparr>posted := (posted st)(w \<mapsto> \<lparr>op = Op_send, ctx_type = Awaker_void, p_buf = mb_buf buf, p_len = sz, p_desc = desc,
            p_peer = (case dst of Some a \<Rightarrow> a | None \<Rightarrow> 0), p_raddr = 0, p_key = 0\<rparr>)\<rparr>)))
       (fi_send_loop abi rcs 0)"

definition Endpoint_recv ::
  "handle \<Rightarrow> nat \<Rightarrow> nat \<Rightarrow> MemoryBuffer \<Rightarrow> u64 \<Rightarrow> u64 \<Rightarrow> answer \<Rightarrow> fab \<Rightarrow> fab_error + fab" where
  "Endpoint_recv h o' w buf sz desc a st = with_endpoint o' st (\<lambda>fid e _.
     let st = make_awaker w (Addr 0) st in
     case MAYBE_THROW a of
       Some x \<Rightarrow> go h (Throw x) st
     | None \<Rightarrow> go h (Co_await w Co_return)
         (st\<lparr>posted := (posted st)(w \<mapsto> \<lparr>op = Op_recv, ctx_type = Awaker_Address, p_buf = mb_buf buf, p_len = sz, p_desc = desc,
            p_peer = 0, p_raddr = 0, p_key = 0\<rparr>)\<rparr>))"

definition Endpoint_write ::
  "handle \<Rightarrow> nat \<Rightarrow> nat \<Rightarrow> MemoryBuffer \<Rightarrow> u64 \<Rightarrow> u64 \<Rightarrow> u64 \<Rightarrow> u64 \<Rightarrow> u64 \<Rightarrow> answer \<Rightarrow> fab \<Rightarrow> fab_error + fab" where
  "Endpoint_write h o' w buf sz desc addr key dst a st = with_endpoint o' st (\<lambda>fid e _.
     let st = make_awaker w (Addr 0) st in
     case MAYBE_THROW a of
       Some x \<Rightarrow> go h (Throw x) st
     | None \<Rightarrow> go h (Co_await w (\<lambda>_. Co_return Void))
         (st\<lparr>posted := (posted st)(w \<mapsto> \<lparr>op = Op_write, ctx_type = Awaker_Address, p_buf = mb_buf buf, p_len = sz, p_desc = desc,
            p_peer = dst, p_raddr = addr, p_key = key\<rparr>)\<rparr>))"

text \<open>\<^verbatim>\<open>read\<close> ignores what \<^verbatim>\<open>fi_read\<close> returns, and passes \<^verbatim>\<open>addr\<close> where the source address belongs.\<close>

definition Endpoint_read ::
  "handle \<Rightarrow> nat \<Rightarrow> nat \<Rightarrow> MemoryBuffer \<Rightarrow> u64 \<Rightarrow> u64 \<Rightarrow> u64 \<Rightarrow> u64 \<Rightarrow> u64 \<Rightarrow> answer \<Rightarrow> fab \<Rightarrow> fab_error + fab" where
  "Endpoint_read h o' w buf sz desc addr key src a st = with_endpoint o' st (\<lambda>fid e _.
     let st = make_awaker w Void st in
     go h (Co_await w (\<lambda>_. Co_return Void))
       (if fst a = 0 then
          st\<lparr>posted := (posted st)(w \<mapsto> \<lparr>op = Op_read, ctx_type = Awaker_void, p_buf = mb_buf buf, p_len = sz, p_desc = desc,
            p_peer = addr, p_raddr = addr, p_key = key\<rparr>)\<rparr>
        else st\<lparr>orphans := insert w (orphans st)\<rparr>))"

definition PassiveEndpoint_listen :: "nat \<Rightarrow> answer \<Rightarrow> fab \<Rightarrow> fab_error + exn option" where
  "PassiveEndpoint_listen o' a st = (case objs st o' of Some (PassiveEndpoint fid e w) \<Rightarrow> Inr (MAYBE_THROW a) | _ \<Rightarrow> Inl Dangling)"

definition Endpoint_get_name :: "nat \<Rightarrow> answer \<Rightarrow> fab \<Rightarrow> fab_error + exn option" where
  "Endpoint_get_name o' a st = (case objs st o' of Some (Endpoint fid e w) \<Rightarrow> Inr (MAYBE_THROW a) | _ \<Rightarrow> Inl Dangling)"

subsection \<open>Polling\<close>

text \<open>
  An entry of a completion queue; the last member is the source address of
  \<^verbatim>\<open>fi_cq_readfrom\<close>, or the member \<^verbatim>\<open>buf\<close> of an error entry, which lies at the same offset.
\<close>

record cq_entry =
  op_context :: nat
  flags :: u64
  entry_addr :: u64

text \<open>
  The wake of the awaker behind a context, cast to \<open>ty\<close>. \<^verbatim>\<open>Awaker<void>::wake\<close> leaves \<^verbatim>\<open>ret_\<close> alone.
\<close>

definition woken_ret :: "awaker_type \<Rightarrow> nat \<Rightarrow> u64 \<Rightarrow> fab \<Rightarrow> fab_val" where
  "woken_ret ty w a st = (if ty = Awaker_Address then Addr a else aw_ret (awakers (rt st) w))"

definition wake_context :: "awaker_type \<Rightarrow> nat \<Rightarrow> u64 \<Rightarrow> fab \<Rightarrow> fab_error + fab" where
  "wake_context ty w a st =
     (case posted st w of
        None \<Rightarrow> Inl Dangling
      | Some p \<Rightarrow>
          lift_rt (st\<lparr>posted := (posted st)(w := None), miscast := (if ctx_type p = ty then miscast st else miscast st @ [op p])\<rparr>)
            (aw_wake w (woken_ret ty w a st) (rt st)))"

text \<open>
  \<^verbatim>\<open>CompletionQueue::poll\<close>: \<open>rc\<close> and \<open>ent\<close> are the answer of \<^verbatim>\<open>fi_cq_readfrom\<close>, \<open>erc\<close> and \<open>eent\<close> that of
  \<^verbatim>\<open>fi_cq_readerr\<close>.
\<close>

definition CompletionQueue_poll :: "fi_abi \<Rightarrow> int \<Rightarrow> cq_entry \<Rightarrow> int \<Rightarrow> cq_entry \<Rightarrow> fab \<Rightarrow> fab_error + int \<times> fab" where
  "CompletionQueue_poll abi rc ent erc eent st =
     (if rc = - EAGAIN abi then Inr (0, st)
      else
        let (rc, ent) = (if rc = - FI_EAVAIL abi then (erc, eent) else (rc, ent)) in
        if rc = 1 \<and> flags ent AND FI_RECV abi \<noteq> 0 then
          bind_err (wake_context Awaker_Address (op_context ent) (entry_addr ent) st) (\<lambda>st. Inr (rc, st))
        else if rc = 1 \<and> flags ent AND (FI_SEND abi OR FI_WRITE abi) \<noteq> 0 then
          bind_err (wake_context Awaker_void (op_context ent) 0 st) (\<lambda>st. Inr (rc, st))
        else if rc = 1 then
          Inr (rc, st\<lparr>posted := (posted st)(op_context ent := None), orphans := insert (op_context ent) (orphans st)\<rparr>)
        else Inr (rc, st))"

text \<open>
  \<^verbatim>\<open>EventQueue::poll\<close>: the answer of \<^verbatim>\<open>fi_eq_read\<close> is \<open>ret\<close> with the event, the descriptor and the \<^verbatim>\<open>fi_info\<close>
  of the entry. \<^verbatim>\<open>peps_.end()\<close> is dereferenced when a request or shutdown is for no registered
  endpoint.
\<close>

definition EventQueue_poll :: "fi_abi \<Rightarrow> nat \<Rightarrow> int \<Rightarrow> u32 \<Rightarrow> u64 \<Rightarrow> u64 \<Rightarrow> fab \<Rightarrow> fab_error + int \<times> fab" where
  "EventQueue_poll abi e ret event fid info st =
     (if ret > 0 then
        if event = FI_CONNREQ abi then
          (case eq_peps (eqs st e) fid of
             None \<Rightarrow> Inl Eq_end_deref
           | Some o' \<Rightarrow>
               (case objs st o' of
                  None \<Rightarrow> Inl Dangling
                | Some (Endpoint _ _ _) \<Rightarrow> Inl Wrong_type
                | Some (PassiveEndpoint _ _ w) \<Rightarrow>
                    bind_err (lift_rt st (aw_wake w (Inf info) (rt st))) (\<lambda>st. Inr (ret, st))))
        else if event = FI_SHUTDOWN abi then
          (case eq_peps (eqs st e) fid of
             None \<Rightarrow> Inl Eq_end_deref
           | Some o' \<Rightarrow>
               (case objs st o' of
                  None \<Rightarrow> Inl Dangling
                | Some (PassiveEndpoint _ _ _) \<Rightarrow> Inl Wrong_type
                | Some (Endpoint _ _ w) \<Rightarrow>
                    bind_err (lift_rt st (aw_wake w Void (rt st))) (\<lambda>st. Inr (ret, st))))
        else
          (case eq_map (eqs st e) fid of
             Some w \<Rightarrow>
               bind_err (lift_rt st (aw_wake w Void (rt st))) (\<lambda>st.
               Inr (ret, st\<lparr>eqs := (eqs st)(e := (eqs st e)\<lparr>eq_map := (eq_map (eqs st e))(fid := None)\<rparr>)\<rparr>))
           | None \<Rightarrow> Inr (ret, st))
      else Inr (ret, st))"

end
