(* ===== verification/Fabric_Safety.thy ===== *)
theory Fabric_Safety
  imports Fabric
begin

text \<open>
  The network wrappers on top of the coroutine runtime. \<open>fab_exec\<close> executes a program's calls one
  after the other: steps of the runtime, constructors and destructors of endpoints, the first
  steps of the coroutines of an endpoint, and the polls. \<open>fab_legal\<close> has the rules for the
  program and what libfabric documents. Every legal step refines the abstract machine of
  \<open>Async\<close>, with the awakers whose addresses libfabric or the event queues hold.
\<close>

subsection \<open>Programs\<close>

datatype fab_call =
    Run "(fab_val, exn) call"
  | New_fid fid_kind answer u64
  | New_eq nat answer u64
  | Delete_fid u64
  | New_pep nat nat nat u64 answer u64 answer
  | New_ep nat nat nat answer u64 answer answer "answer option" answer
  | Delete_pep nat
  | Delete_ep nat
  | Next nat
  | Wait_disconn nat
  | Accept nat nat answer
  | Send nat nat MemoryBuffer u64 u64 "u64 option" "nat \<Rightarrow> int"
  | Recv nat nat MemoryBuffer u64 u64 answer
  | Write nat nat MemoryBuffer u64 u64 u64 u64 u64 answer
  | Read nat nat MemoryBuffer u64 u64 u64 u64 u64 answer
  | Cq_poll int cq_entry int cq_entry
  | Eq_poll nat int u32 u64 u64

definition running :: "fab \<Rightarrow> handle option" where
  "running st = (case stack (rt st) of A_Body h b # s \<Rightarrow> Some h | _ \<Rightarrow> None)"

definition by_running :: "fab \<Rightarrow> (handle \<Rightarrow> (fab_error + fab) option) \<Rightarrow> (fab_error + fab) option" where
  "by_running st f = (case running st of Some h \<Rightarrow> f h | None \<Rightarrow> Some (Inl No_coroutine))"

fun fab_exec :: "fi_abi \<Rightarrow> fab_call \<Rightarrow> fab \<Rightarrow> (fab_error + fab) option" where
  "fab_exec abi (Run c) st = Some (lift_rt st (core_exec c (rt st)))"
| "fab_exec abi (New_fid kd a fid) st = Some (Inr (snd (open_fid kd a fid st)))"
| "fab_exec abi (New_eq e a fid) st = Some (Inr (snd (EventQueue_ctor e a fid st)))"
| "fab_exec abi (Delete_fid fid) st = Some (fid_dtor fid st)"
| "fab_exec abi (New_pep o' e w al a_ep fid a_bind) st = Some (Inr (snd (PassiveEndpoint_ctor o' e w al a_ep fid a_bind st)))"
| "fab_exec abi (New_ep o' e w a_ep fid a_eq a_cq a_av a_en) st = Some (Inr (snd (Endpoint_ctor o' e w a_ep fid a_eq a_cq a_av a_en st)))"
| "fab_exec abi (Delete_pep o') st = Some (PassiveEndpoint_dtor o' st)"
| "fab_exec abi (Delete_ep o') st = Some (Endpoint_dtor o' st)"
| "fab_exec abi (Next o') st = by_running st (\<lambda>h. Some (PassiveEndpoint_next h o' st))"
| "fab_exec abi (Wait_disconn o') st = by_running st (\<lambda>h. Some (Endpoint_wait_disconn h o' st))"
| "fab_exec abi (Accept o' w a) st = by_running st (\<lambda>h. Some (Endpoint_accept h o' w a st))"
| "fab_exec abi (Send o' w buf sz desc dst rcs) st = by_running st (\<lambda>h. Endpoint_send abi h o' w buf sz desc dst rcs st)"
| "fab_exec abi (Recv o' w buf sz desc a) st = by_running st (\<lambda>h. Some (Endpoint_recv h o' w buf sz desc a st))"
| "fab_exec abi (Write o' w buf sz desc addr key dst a) st = by_running st (\<lambda>h. Some (Endpoint_write h o' w buf sz desc addr key dst a st))"
| "fab_exec abi (Read o' w buf sz desc addr key src a) st = by_running st (\<lambda>h. Some (Endpoint_read h o' w buf sz desc addr key src a st))"
| "fab_exec abi (Cq_poll rc ent erc eent) st = Some (bind_err (CompletionQueue_poll abi rc ent erc eent st) (\<lambda>(_, st). Inr st))"
| "fab_exec abi (Eq_poll e ret ev fid info) st = Some (bind_err (EventQueue_poll abi e ret ev fid info st) (\<lambda>(_, st). Inr st))"

subsection \<open>Rules\<close>

text \<open>libfabric's constants: the error codes differ, the completion flags are bits of their own.\<close>

definition abi_ok :: "fi_abi \<Rightarrow> bool" where
  "abi_ok abi \<longleftrightarrow> 0 < EAGAIN abi \<and> 0 < FI_EAVAIL abi \<and> EAGAIN abi \<noteq> FI_EAVAIL abi \<and> FI_CONNREQ abi \<noteq> FI_SHUTDOWN abi \<and>
     FI_RECV abi \<noteq> 0 \<and> FI_SEND abi \<noteq> 0 \<and> FI_WRITE abi \<noteq> 0 \<and>
     FI_SEND abi AND FI_RECV abi = 0 \<and> FI_WRITE abi AND FI_RECV abi = 0 \<and>
     FI_READ abi AND FI_RECV abi = 0 \<and> FI_READ abi AND FI_SEND abi = 0 \<and> FI_READ abi AND FI_WRITE abi = 0"

fun op_flag :: "fi_abi \<Rightarrow> op_kind \<Rightarrow> u64" where
  "op_flag abi Op_send = FI_SEND abi"
| "op_flag abi Op_recv = FI_RECV abi"
| "op_flag abi Op_write = FI_WRITE abi"
| "op_flag abi Op_read = FI_READ abi"

text \<open>A completion, successful or not, is for a posted operation and carries its flag.\<close>

definition completes :: "fi_abi \<Rightarrow> cq_entry \<Rightarrow> fab \<Rightarrow> bool" where
  "completes abi ent st \<longleftrightarrow>
     (case posted st (op_context ent) of None \<Rightarrow> False
      | Some p \<Rightarrow> flags ent AND (FI_RECV abi OR FI_SEND abi OR FI_WRITE abi OR FI_READ abi) = op_flag abi (op p))"

definition mapped :: "fab \<Rightarrow> nat set" where
  "mapped st = {w. \<exists>e fid. eq_map (eqs st e) fid = Some w}"

definition handed_out :: "fab \<Rightarrow> nat set" where
  "handed_out st = dom (posted st) \<union> mapped st \<union> orphans st"

definition members :: "fab \<Rightarrow> nat set" where
  "members st = {w. \<exists>o' x. objs st o' = Some x \<and> w = obj_awaker x}"

text \<open>The address of a local awaker is that of no other awaker in use.\<close>

definition free_awaker :: "nat \<Rightarrow> fab \<Rightarrow> bool" where
  "free_awaker w st \<longleftrightarrow> w \<notin> handed_out st \<and> w \<notin> members st \<and> handles (rt st) w = 0"

definition in_call :: "fab \<Rightarrow> bool" where
  "in_call st \<longleftrightarrow> (case running st of Some h \<Rightarrow> calling (handed_out st) (rt st) h | None \<Rightarrow> False)"

definition is_ep :: "nat \<Rightarrow> fab \<Rightarrow> bool" where
  "is_ep o' st \<longleftrightarrow> (case objs st o' of Some (Endpoint _ _ _) \<Rightarrow> True | _ \<Rightarrow> False)"

definition is_pep :: "nat \<Rightarrow> fab \<Rightarrow> bool" where
  "is_pep o' st \<longleftrightarrow> (case objs st o' of Some (PassiveEndpoint _ _ _) \<Rightarrow> True | _ \<Rightarrow> False)"

definition is_ok :: "answer \<Rightarrow> bool" where
  "is_ok a \<longleftrightarrow> fst a = 0"

text \<open>
  Rules of the program: polls and coroutine calls are made by the running coroutine, which is
  in none of these calls yet; objects are used while they exist; a member awaker is not
  woken again before its coroutine has run. Rules of libfabric: descriptors are fresh, a
  constructor fails at its first call or not at all, completions and events are for what was
  posted and bound, and \<^verbatim>\<open>fi_send\<close> does not answer \<^verbatim>\<open>-EAGAIN\<close> for ever.
\<close>

fun fab_legal :: "fi_abi \<Rightarrow> nat \<Rightarrow> fab_call \<Rightarrow> fab \<Rightarrow> bool" where
  "fab_legal abi k (Run c) st \<longleftrightarrow> legal k c (rt st) \<and> leaves (handed_out st \<union> members st) c (rt st)"
| "fab_legal abi k (New_fid kd a fid) st \<longleftrightarrow> kd \<notin> {Fid_eq, Fid_pep, Fid_ep} \<and> fids st fid = None"
| "fab_legal abi k (New_eq e a fid) st \<longleftrightarrow> eqs st e = \<lparr>eq_map = Map.empty, eq_peps = Map.empty\<rparr> \<and> fids st fid = None"
| "fab_legal abi k (Delete_fid fid) st \<longleftrightarrow> (\<exists>kd. fids st fid = Some (kd, None))"
| "fab_legal abi k (New_pep o' e w al a_ep fid a_bind) st \<longleftrightarrow>
     objs st o' = None \<and> free_awaker w st \<and> fids st fid = None \<and> (is_ok a_ep \<longrightarrow> is_ok a_bind)"
| "fab_legal abi k (New_ep o' e w a_ep fid a_eq a_cq a_av a_en) st \<longleftrightarrow>
     objs st o' = None \<and> free_awaker w st \<and> fids st fid = None \<and>
     (is_ok a_ep \<longrightarrow> is_ok a_eq \<and> is_ok a_cq \<and> (case a_av of Some a \<Rightarrow> is_ok a | None \<Rightarrow> True) \<and> is_ok a_en)"
| "fab_legal abi k (Delete_pep o') st \<longleftrightarrow> is_pep o' st"
| "fab_legal abi k (Delete_ep o') st \<longleftrightarrow> is_ep o' st"
| "fab_legal abi k (Next o') st \<longleftrightarrow> in_call st \<and> is_pep o' st"
| "fab_legal abi k (Wait_disconn o') st \<longleftrightarrow> in_call st \<and> is_ep o' st"
| "fab_legal abi k (Accept o' w a) st \<longleftrightarrow> in_call st \<and> is_ep o' st \<and> free_awaker w st"
| "fab_legal abi k (Send o' w buf sz desc dst rcs) st \<longleftrightarrow>
     in_call st \<and> is_ep o' st \<and> free_awaker w st \<and> (\<exists>i. rcs i \<noteq> - EAGAIN abi)"
| "fab_legal abi k (Recv o' w buf sz desc a) st \<longleftrightarrow> in_call st \<and> is_ep o' st \<and> free_awaker w st"
| "fab_legal abi k (Write o' w buf sz desc addr key dst a) st \<longleftrightarrow> in_call st \<and> is_ep o' st \<and> free_awaker w st"
| "fab_legal abi k (Read o' w buf sz desc addr key src a) st \<longleftrightarrow> in_call st \<and> is_ep o' st \<and> free_awaker w st"
| "fab_legal abi k (Cq_poll rc ent erc eent) st \<longleftrightarrow>
     in_call st \<and> (rc = 1 \<longrightarrow> completes abi ent st) \<and> (rc = - FI_EAVAIL abi \<and> erc = 1 \<longrightarrow> completes abi eent st)"
| "fab_legal abi k (Eq_poll e ret ev fid info) st \<longleftrightarrow>
     in_call st \<and>
     (ret > 0 \<and> ev = FI_CONNREQ abi \<longrightarrow> fids st fid = Some (Fid_pep, Some e)) \<and>
     (ret > 0 \<and> ev = FI_SHUTDOWN abi \<longrightarrow> fids st fid = Some (Fid_ep, Some e)) \<and>
     (\<forall>o' x. objs st o' = Some x \<and> obj_fid x = fid \<longrightarrow> handles (rt st) (obj_awaker x) \<notin> set (pending k (rt st)))"

subsection \<open>Invariant\<close>

fun op_type :: "op_kind \<Rightarrow> awaker_type" where
  "op_type Op_send = Awaker_void"
| "op_type Op_recv = Awaker_Address"
| "op_type Op_write = Awaker_Address"
| "op_type Op_read = Awaker_void"

text \<open>Every awaker in the hands of the library or an event queue is there once.\<close>

definition awakers_ok :: "fab \<Rightarrow> bool" where
  "awakers_ok st \<longleftrightarrow>
     dom (posted st) \<inter> mapped st = {} \<and> dom (posted st) \<inter> orphans st = {} \<and> mapped st \<inter> orphans st = {} \<and>
     members st \<inter> handed_out st = {} \<and>
     (\<forall>e fid e' fid' w. eq_map (eqs st e) fid = Some w \<and> eq_map (eqs st e') fid' = Some w \<longrightarrow> e = e' \<and> fid = fid') \<and>
     (\<forall>w p. posted st w = Some p \<longrightarrow> ctx_type p = op_type (op p)) \<and> set (miscast st) \<subseteq> {Op_write}"

text \<open>The registered endpoints of the event queues are the objects, and these have open descriptors.\<close>

definition endpoints_ok :: "fab \<Rightarrow> bool" where
  "endpoints_ok st \<longleftrightarrow>
     (\<forall>e fid o'. eq_peps (eqs st e) fid = Some o' \<longrightarrow> (\<exists>x. objs st o' = Some x \<and> obj_fid x = fid \<and> obj_eq x = e)) \<and>
     (\<forall>o' x. objs st o' = Some x \<longrightarrow>
        eq_peps (eqs st (obj_eq x)) (obj_fid x) = Some o' \<and> fids st (obj_fid x) = Some (obj_kind x, Some (obj_eq x))) \<and>
     (\<forall>fid kd e. fids st fid = Some (kd, Some e) \<longrightarrow>
        (\<exists>o' x. objs st o' = Some x \<and> obj_fid x = fid \<and> obj_kind x = kd \<and> obj_eq x = e))"

text \<open>How the coroutine of an operation goes on when the operation has completed.\<close>

fun op_cont :: "op_kind \<Rightarrow> fab_val \<Rightarrow> (fab_val, exn) body" where
  "op_cont Op_recv = Co_return"
| "op_cont q = (\<lambda>_. Co_return Void)"

definition conts_ok :: "(fab_val, exn) core \<Rightarrow> (nat \<rightharpoonup> post) \<Rightarrow> bool" where
  "conts_ok s P \<longleftrightarrow> (\<forall>w p. P w = Some p \<longrightarrow> waits s w (op_cont (op p)))"

definition fab_inv :: "nat \<Rightarrow> fab \<Rightarrow> bool" where
  "fab_inv k st \<longleftrightarrow> async_inv k (rt st, handed_out st) \<and> conts_ok (rt st) (posted st) \<and> awakers_ok st \<and> endpoints_ok st"

lemma fab_field_simps [simp]:
  "posted (go h b st) = posted st" "eqs (go h b st) = eqs st" "orphans (go h b st) = orphans st" "objs (go h b st) = objs st"
  "fids (go h b st) = fids st" "miscast (go h b st) = miscast st" "rt (go h b st) = run_body h b (rt st)"
  "posted (make_awaker w v st) = posted st" "eqs (make_awaker w v st) = eqs st" "orphans (make_awaker w v st) = orphans st"
  "objs (make_awaker w v st) = objs st" "fids (make_awaker w v st) = fids st" "miscast (make_awaker w v st) = miscast st"
  "rt (make_awaker w v st) = upd_awaker w (\<lambda>_. fresh_awaker v) (rt st)"
  by (simp_all add: go_def make_awaker_def)

lemma handed_out_cong:
  "posted st' = posted st \<Longrightarrow> (\<And>e. eq_map (eqs st' e) = eq_map (eqs st e)) \<Longrightarrow> orphans st' = orphans st \<Longrightarrow> handed_out st' = handed_out st"
  by (simp add: handed_out_def mapped_def)

lemma awakers_ok_cong:
  assumes "posted st' = posted st" "\<And>e. eq_map (eqs st' e) = eq_map (eqs st e)" "orphans st' = orphans st" "miscast st' = miscast st"
    "members st' \<inter> handed_out st = {}"
  shows "awakers_ok st \<Longrightarrow> awakers_ok st'"
  using assms handed_out_cong [of st' st] by (simp add: awakers_ok_def mapped_def)

lemma awakers_okD:
  assumes "awakers_ok st"
  shows "dom (posted st) \<inter> mapped st = {}" "dom (posted st) \<inter> orphans st = {}" "mapped st \<inter> orphans st = {}"
    "members st \<inter> handed_out st = {}"
    "eq_map (eqs st e) fid = Some w \<Longrightarrow> eq_map (eqs st e') fid' = Some w \<Longrightarrow> e = e' \<and> fid = fid'"
    "posted st w = Some p \<Longrightarrow> ctx_type p = op_type (op p)" "set (miscast st) \<subseteq> {Op_write}"
  using assms unfolding awakers_ok_def by (simp_all, blast+)

lemma awakers_okI:
  assumes "dom (posted st) \<inter> mapped st = {}" "dom (posted st) \<inter> orphans st = {}" "mapped st \<inter> orphans st = {}"
    "members st \<inter> handed_out st = {}"
    "\<And>e fid e' fid' w. eq_map (eqs st e) fid = Some w \<Longrightarrow> eq_map (eqs st e') fid' = Some w \<Longrightarrow> e = e' \<and> fid = fid'"
    "\<And>w p. posted st w = Some p \<Longrightarrow> ctx_type p = op_type (op p)" "set (miscast st) \<subseteq> {Op_write}"
  shows "awakers_ok st"
  unfolding awakers_ok_def using assms(1-4,6,7) by (intro conjI allI impI) (use assms(5) in blast)+

lemma endpoints_ok_cong:
  assumes "\<And>e. eq_peps (eqs st' e) = eq_peps (eqs st e)" "objs st' = objs st" "fids st' = fids st"
  shows "endpoints_ok st \<Longrightarrow> endpoints_ok st'"
  using assms by (simp add: endpoints_ok_def)

lemma fab_invD:
  assumes "fab_inv k st"
  shows "async_inv k (rt st, handed_out st)" "core_inv k (rt st)" "awakers_ok st" "endpoints_ok st" "conts_ok (rt st) (posted st)"
  using assms by (auto simp: fab_inv_def async_inv_def)

lemma conts_step:
  assumes inv: "fab_inv k st" and step: "async_step k (rt st, handed_out st) (s, H)" and H: "dom P \<subseteq> H"
    and P: "\<And>w p. P w = Some p \<Longrightarrow> posted st w = Some p \<or> waits s w (op_cont (op p))"
  shows "conts_ok s P"
proof -
  note I = fab_invD [OF inv]
  have "waits s w (op_cont (op p))" if w: "P w = Some p" for w p
  proof (cases "posted st w = Some p")
    case True
    then have "waits (rt st) w (op_cont (op p))" "w \<in> handed_out st" "w \<in> H"
      using I(5) H w by (auto simp: conts_ok_def handed_out_def)
    then show ?thesis using async_step_waits [OF step I(1), of w] by simp
  qed (use P [OF w] in blast)
  then show ?thesis by (simp add: conts_ok_def)
qed

lemma posted_handed_out: "dom (posted st) \<subseteq> handed_out st"
  by (auto simp: handed_out_def)

lemma in_callD: "in_call st \<Longrightarrow> \<exists>h. running st = Some h \<and> calling (handed_out st) (rt st) h"
  by (auto simp: in_call_def split: option.splits)

lemma is_epD: "is_ep o' st \<Longrightarrow> \<exists>fid e w. objs st o' = Some (Endpoint fid e w)"
  by (auto simp: is_ep_def split: option.splits endpoint.splits)

lemma is_pepD: "is_pep o' st \<Longrightarrow> \<exists>fid e w. objs st o' = Some (PassiveEndpoint fid e w)"
  by (auto simp: is_pep_def split: option.splits endpoint.splits)

text \<open>The three ways a coroutine of an endpoint goes on.\<close>

lemma go_inv:
  assumes "fab_inv k st" "calling (handed_out st) (rt st) h"
  shows "fab_inv k (go h b st)"
proof -
  note I = fab_invD [OF assms(1)]
  have h: "handed_out (go h b st) = handed_out st" by (rule handed_out_cong) simp_all
  note step = async_step.go_on [OF assms(2), of k b]
  have "async_inv k (run_body h b (rt st), handed_out st)" using async_step_inv [OF step I(1)] .
  moreover have "conts_ok (run_body h b (rt st)) (posted st)" by (rule conts_step [OF assms(1) step posted_handed_out]) simp
  moreover have "members (go h b st) \<inter> handed_out st = {}" using I(3) by (simp add: awakers_ok_def members_def)
  then have "awakers_ok (go h b st)" by (intro awakers_ok_cong [OF _ _ _ _ _ I(3)]) simp_all
  moreover have "endpoints_ok (go h b st)" by (rule endpoints_ok_cong [OF _ _ _ I(4)]) simp_all
  ultimately show ?thesis by (simp add: fab_inv_def h)
qed

lemma make_inv:
  assumes "fab_inv k st" "free_awaker w st"
  shows "fab_inv k (make_awaker w v st)"
proof -
  note I = fab_invD [OF assms(1)]
  have h: "handed_out (make_awaker w v st) = handed_out st" by (rule handed_out_cong) simp_all
  have step: "async_step k (rt st, handed_out st) (upd_awaker w (\<lambda>_. fresh_awaker v) (rt st), handed_out st)"
    using assms(2) by (intro async_step.make) (simp_all add: free_awaker_def)
  have "async_inv k (upd_awaker w (\<lambda>_. fresh_awaker v) (rt st), handed_out st)" by (rule async_step_inv [OF step I(1)])
  moreover have "conts_ok (upd_awaker w (\<lambda>_. fresh_awaker v) (rt st)) (posted st)"
    by (rule conts_step [OF assms(1) step posted_handed_out]) simp
  moreover have "members (make_awaker w v st) \<inter> handed_out st = {}" using I(3) by (simp add: awakers_ok_def members_def)
  then have "awakers_ok (make_awaker w v st)" by (intro awakers_ok_cong [OF _ _ _ _ _ I(3)]) simp_all
  moreover have "endpoints_ok (make_awaker w v st)" by (rule endpoints_ok_cong [OF _ _ _ I(4)]) simp_all
  ultimately show ?thesis by (simp add: fab_inv_def h)
qed

lemma calling_make: "calling B (upd_awaker w u s) h \<longleftrightarrow> calling B s h"
  by (simp add: calling_def)

lemma throw_inv:
  assumes "fab_inv k st" "calling (handed_out st) (rt st) h" "free_awaker w st"
  shows "fab_inv k (go h b (make_awaker w v st))"
proof (rule go_inv [OF make_inv [OF assms(1,3)]])
  have "handed_out (make_awaker w v st) = handed_out st" by (rule handed_out_cong) simp_all
  then show "calling (handed_out (make_awaker w v st)) (rt (make_awaker w v st)) h" using assms(2) by (simp add: calling_make)
qed

text \<open>A coroutine hands out its local awaker and waits.\<close>

lemma await_inv:
  assumes inv: "fab_inv k st" and h: "calling (handed_out st) (rt st) h" and w: "free_awaker w st"
    and st': "rt st' = run_body h (Co_await w g) (upd_awaker w (\<lambda>_. fresh_awaker v) (rt st))" "handed_out st' = insert w (handed_out st)"
      "awakers_ok st'" "endpoints_ok st'"
    and P: "\<And>u p. posted st' u = Some p \<Longrightarrow> posted st u = Some p \<or> u = w \<and> g = op_cont (op p)"
  shows "fab_inv k st'"
proof -
  have step: "async_step k (rt st, handed_out st) (rt st', handed_out st')"
    using async_step.post [OF h, of w k g v] w st'(1,2) by (simp add: free_awaker_def)
  have "waits (rt st') w g"
    by (auto simp: st'(1) waits_def about_def run_body_def fresh_awaker_def handles_def awakers_upd)
  then have "conts_ok (rt st') (posted st')" using P by (intro conts_step [OF inv step posted_handed_out]) auto
  then show ?thesis using async_step_inv [OF step fab_invD(1) [OF inv]] st' by (simp add: fab_inv_def)
qed

lemma posted_inv:
  assumes inv: "fab_inv k st" and h: "calling (handed_out st) (rt st) h" and w: "free_awaker w st" and p: "ctx_type p = op_type (op p)" "g = op_cont (op p)"
  shows "fab_inv k (go h (Co_await w g) ((make_awaker w v st)\<lparr>posted := (posted st)(w \<mapsto> p)\<rparr>))"
proof (rule await_inv [OF inv h w])
  let ?st = "go h (Co_await w g) ((make_awaker w v st)\<lparr>posted := (posted st)(w \<mapsto> p)\<rparr>)"
  have n: "w \<notin> dom (posted st)" "w \<notin> mapped st" "w \<notin> orphans st" "w \<notin> members st" using w by (auto simp: free_awaker_def handed_out_def)
  have m: "mapped ?st = mapped st" "members ?st = members st" by (simp_all add: mapped_def members_def)
  show h: "handed_out ?st = insert w (handed_out st)" using m by (simp add: handed_out_def)
  show "awakers_ok ?st" using fab_invD(3) [OF inv] n p(1) unfolding awakers_ok_def m h by auto
  show "endpoints_ok ?st" by (rule endpoints_ok_cong [OF _ _ _ fab_invD(4) [OF inv]]) simp_all
qed (use p(2) in \<open>auto split: if_splits\<close>)

lemma mapped_inv:
  assumes inv: "fab_inv k st" and h: "calling (handed_out st) (rt st) h" and w: "free_awaker w st" and f: "eq_map (eqs st e) fid = None"
  shows "fab_inv k (go h (Co_await w g) ((make_awaker w v st)\<lparr>eqs := (eqs st)(e := (eqs st e)\<lparr>eq_map := (eq_map (eqs st e))(fid \<mapsto> w)\<rparr>)\<rparr>))"
proof (rule await_inv [OF inv h w])
  let ?st = "go h (Co_await w g) ((make_awaker w v st)\<lparr>eqs := (eqs st)(e := (eqs st e)\<lparr>eq_map := (eq_map (eqs st e))(fid \<mapsto> w)\<rparr>)\<rparr>)"
  have n: "w \<notin> dom (posted st)" "w \<notin> mapped st" "w \<notin> orphans st" "w \<notin> members st" using w by (auto simp: free_awaker_def handed_out_def)
  have look: "eq_map (eqs ?st e') fid' = (if e' = e \<and> fid' = fid then Some w else eq_map (eqs st e') fid')" for e' fid' by simp
  have m: "mapped ?st = insert w (mapped st)" "members ?st = members st"
    unfolding mapped_def look using f by (auto simp: members_def split: if_splits) (metis option.distinct(1))
  show h: "handed_out ?st = insert w (handed_out st)" using m by (simp add: handed_out_def)
  note a = awakers_okD [OF fab_invD(3) [OF inv]]
  show "awakers_ok ?st"
  proof (rule awakers_okI)
    fix e1 f1 e2 f2 u
    assume u: "eq_map (eqs ?st e1) f1 = Some u" "eq_map (eqs ?st e2) f2 = Some u"
    have "u \<in> mapped st" if "eq_map (eqs st e') f' = Some u" for e' f' using that by (auto simp: mapped_def)
    then show "e1 = e2 \<and> f1 = f2" using u n(2) a(5) unfolding look by (metis option.inject)
  qed (use a(1-4,6,7) n m h in auto)
  show "endpoints_ok ?st" by (rule endpoints_ok_cong [OF _ _ _ fab_invD(4) [OF inv]]) simp_all
qed simp_all

lemma orphan_inv:
  assumes inv: "fab_inv k st" and h: "calling (handed_out st) (rt st) h" and w: "free_awaker w st"
  shows "fab_inv k (go h (Co_await w g) ((make_awaker w v st)\<lparr>orphans := insert w (orphans st)\<rparr>))"
proof (rule await_inv [OF inv h w])
  let ?st = "go h (Co_await w g) ((make_awaker w v st)\<lparr>orphans := insert w (orphans st)\<rparr>)"
  have n: "w \<notin> dom (posted st)" "w \<notin> mapped st" "w \<notin> members st" using w by (auto simp: free_awaker_def handed_out_def)
  have m: "mapped ?st = mapped st" "members ?st = members st" by (simp_all add: mapped_def members_def)
  show h: "handed_out ?st = insert w (handed_out st)" using m by (simp add: handed_out_def)
  show "awakers_ok ?st" using fab_invD(3) [OF inv] n unfolding awakers_ok_def m h by auto
  show "endpoints_ok ?st" by (rule endpoints_ok_cong [OF _ _ _ fab_invD(4) [OF inv]]) simp_all
qed simp_all

subsection \<open>Completions and events\<close>

lemma handed_out_rt [simp]: "handed_out (st\<lparr>rt := s\<rparr>) = handed_out st" "mapped (st\<lparr>rt := s\<rparr>) = mapped st" "members (st\<lparr>rt := s\<rparr>) = members st"
  by (simp_all add: handed_out_def mapped_def members_def)

lemma rt_inv:
  assumes "fab_inv k st" "async_step k (rt st, handed_out st) (s, handed_out st)"
  shows "fab_inv k (st\<lparr>rt := s\<rparr>)"
proof -
  have "awakers_ok (st\<lparr>rt := s\<rparr>)"
    using awakers_okD(4) [OF fab_invD(3) [OF assms(1)]] by (intro awakers_ok_cong [OF _ _ _ _ _ fab_invD(3) [OF assms(1)]]) simp_all
  moreover have "endpoints_ok (st\<lparr>rt := s\<rparr>)" by (rule endpoints_ok_cong [OF _ _ _ fab_invD(4) [OF assms(1)]]) simp_all
  ultimately show ?thesis
    using async_step_inv [OF assms(2) fab_invD(1) [OF assms(1)]] conts_step [OF assms posted_handed_out] by (simp add: fab_inv_def)
qed

lemma in_call_not_about: "in_call st \<Longrightarrow> w \<in> handed_out st \<Longrightarrow> \<not> about (rt st) w"
  using in_callD callingD(2) by blast

lemma complete_inv:
  assumes inv: "fab_inv k st" and c: "in_call st" "w \<in> handed_out st"
  obtains s where "aw_wake w v (rt st) = Inr s" "parked k (rt st) w"
    "\<forall>st'. rt st' = s \<and> handed_out st' = handed_out st - {w} \<and> posted st' \<subseteq>\<^sub>m posted st \<and> awakers_ok st' \<and> endpoints_ok st' \<longrightarrow> fab_inv k st'"
proof -
  note I = fab_invD [OF inv] and n = in_call_not_about [OF c]
  obtain s where s: "aw_wake w v (rt st) = Inr s" using complete_ok [OF I(1) c(2) n] by blast
  have "parked k (rt st) w" using I(1) c(2) n by (auto simp: async_inv_def)
  moreover note step = async_step.complete [OF c(2) n s, of k]
  have "conts_ok s (posted st')" if "handed_out st' = handed_out st - {w}" "posted st' \<subseteq>\<^sub>m posted st" for st'
    by (rule conts_step [OF inv step]) (use that posted_handed_out [of st'] in \<open>auto simp: map_le_def dom_def\<close>)
  moreover have "async_inv k (s, handed_out st - {w})" using async_step_inv [OF step I(1)] .
  ultimately show thesis using that s by (simp add: fab_inv_def)
qed

lemma member_inv:
  assumes inv: "fab_inv k st" and w: "w \<notin> handed_out st" "handles (rt st) w \<notin> set (pending k (rt st))"
  obtains s where "aw_wake w v (rt st) = Inr s" "fab_inv k (st\<lparr>rt := s\<rparr>)"
proof -
  note I = fab_invD [OF inv]
  obtain s where s: "aw_wake w v (rt st) = Inr s" using wake_inv [OF I(2) w(2)] by blast
  then have "async_step k (rt st, handed_out st) (s, handed_out st)" using w by (intro async_step.call [of _ "X_Wake w v"]) simp_all
  then show thesis using that s rt_inv [OF inv] by blast
qed

lemma wake_context_inv:
  assumes inv: "fab_inv k st" and c: "in_call st" and p: "posted st w = Some p" "ctx_type p = ty \<or> op p = Op_write"
  obtains s st' where "aw_wake w (woken_ret ty w a st) (rt st) = Inr s"
    "parked k (rt st) w" "wake_context ty w a st = Inr st'" "fab_inv k st'" "rt st' = s" "posted st' = (posted st)(w := None)" "orphans st' = orphans st"
    "miscast st' = (if ctx_type p = ty then miscast st else miscast st @ [op p])"
proof -
  note o = awakers_okD [OF fab_invD(3) [OF inv]]
  have w: "w \<in> handed_out st" using p(1) by (auto simp: handed_out_def)
  obtain s where s: "aw_wake w (woken_ret ty w a st) (rt st) = Inr s" "parked k (rt st) w"
      "\<forall>st'. rt st' = s \<and> handed_out st' = handed_out st - {w} \<and> posted st' \<subseteq>\<^sub>m posted st \<and> awakers_ok st' \<and> endpoints_ok st' \<longrightarrow> fab_inv k st'"
    by (rule complete_inv [OF inv c w, where v = "woken_ret ty w a st"])
  let ?st = "st\<lparr>posted := (posted st)(w := None), miscast := (if ctx_type p = ty then miscast st else miscast st @ [op p]), rt := s\<rparr>"
  have m: "mapped ?st = mapped st" "members ?st = members st" by (simp_all add: mapped_def members_def)
  have h: "handed_out ?st = handed_out st - {w}" using o(1,2) p(1) unfolding handed_out_def m(1) by auto
  have "awakers_ok ?st"
    by (rule awakers_okI) (use o p(2) m h in \<open>auto split: if_splits\<close>)
  moreover have "endpoints_ok ?st" by (rule endpoints_ok_cong [OF _ _ _ fab_invD(4) [OF inv]]) simp_all
  ultimately have "fab_inv k ?st" using s(3) h by (auto simp: map_le_def)
  moreover have "wake_context ty w a st = Inr ?st" using p(1) s(1) by (simp add: wake_context_def lift_rt_def)
  ultimately show thesis using that [of s ?st] s(1,2) by simp
qed

lemma event_map_inv:
  assumes inv: "fab_inv k st" and c: "in_call st" and w: "eq_map (eqs st e) fid = Some w"
  obtains s where "aw_wake w v (rt st) = Inr s"
    "fab_inv k (st\<lparr>rt := s, eqs := (eqs st)(e := (eqs st e)\<lparr>eq_map := (eq_map (eqs st e))(fid := None)\<rparr>)\<rparr>)"
proof -
  note o = awakers_okD [OF fab_invD(3) [OF inv]]
  have wm: "w \<in> mapped st" using w by (auto simp: mapped_def)
  have wh: "w \<in> handed_out st" using wm by (simp add: handed_out_def)
  obtain s where s: "aw_wake w v (rt st) = Inr s"
      "\<forall>st'. rt st' = s \<and> handed_out st' = handed_out st - {w} \<and> posted st' \<subseteq>\<^sub>m posted st \<and> awakers_ok st' \<and> endpoints_ok st' \<longrightarrow> fab_inv k st'"
    by (rule complete_inv [OF inv c wh, where v = v])
  let ?st = "st\<lparr>rt := s, eqs := (eqs st)(e := (eqs st e)\<lparr>eq_map := (eq_map (eqs st e))(fid := None)\<rparr>)\<rparr>"
  have look: "eq_map (eqs ?st e') f' = Some u \<longleftrightarrow> eq_map (eqs st e') f' = Some u \<and> u \<noteq> w" for e' f' u
  proof (cases "e' = e \<and> f' = fid")
    case False
    then have "eq_map (eqs st e') f' \<noteq> Some w" using o(5) [OF w] by blast
    then show ?thesis using False by auto
  qed (use w in auto)
  have m: "mapped ?st = mapped st - {w}" "members ?st = members st" unfolding mapped_def look by (auto simp: members_def)
  have h: "handed_out ?st = handed_out st - {w}" using o(1,3) wm unfolding handed_out_def m(1) by auto
  have "awakers_ok ?st"
  proof (rule awakers_okI)
    show "e1 = e2 \<and> f1 = f2" if "eq_map (eqs ?st e1) f1 = Some u" "eq_map (eqs ?st e2) f2 = Some u" for e1 f1 e2 f2 u
      using that o(5) unfolding look by blast
  qed (use o(1-4,6,7) m h in auto)
  moreover have "endpoints_ok ?st" by (rule endpoints_ok_cong [OF _ _ _ fab_invD(4) [OF inv]]) simp_all
  ultimately have "fab_inv k ?st" using s(2) h by (auto simp: map_le_def)
  then show thesis using that s(1) by blast
qed

subsection \<open>Constructors and destructors\<close>

lemma endpoints_okD:
  assumes "endpoints_ok st"
  shows "eq_peps (eqs st e) fid = Some o' \<Longrightarrow> \<exists>x. objs st o' = Some x \<and> obj_fid x = fid \<and> obj_eq x = e"
    "objs st o' = Some x \<Longrightarrow> eq_peps (eqs st (obj_eq x)) (obj_fid x) = Some o'"
    "objs st o' = Some x \<Longrightarrow> fids st (obj_fid x) = Some (obj_kind x, Some (obj_eq x))"
    "fids st fid = Some (kd, Some e) \<Longrightarrow> \<exists>o' x. objs st o' = Some x \<and> obj_fid x = fid \<and> obj_kind x = kd \<and> obj_eq x = e"
  using assms unfolding endpoints_ok_def by blast+

lemma endpoints_okI:
  assumes "\<And>e fid o'. eq_peps (eqs st e) fid = Some o' \<Longrightarrow> \<exists>x. objs st o' = Some x \<and> obj_fid x = fid \<and> obj_eq x = e"
    "\<And>o' x. objs st o' = Some x \<Longrightarrow> eq_peps (eqs st (obj_eq x)) (obj_fid x) = Some o' \<and> fids st (obj_fid x) = Some (obj_kind x, Some (obj_eq x))"
    "\<And>fid kd e. fids st fid = Some (kd, Some e) \<Longrightarrow> \<exists>o' x. objs st o' = Some x \<and> obj_fid x = fid \<and> obj_kind x = kd \<and> obj_eq x = e"
  shows "endpoints_ok st"
  unfolding endpoints_ok_def using assms by blast

lemma unregistered:
  assumes "endpoints_ok st" "fids st fid = None"
  shows "eq_peps (eqs st e) fid = None" "objs st o' = Some x \<Longrightarrow> obj_fid x \<noteq> fid"
proof -
  note d = endpoints_okD [OF assms(1)]
  show n: "obj_fid x \<noteq> fid" if "objs st o' = Some x" for o' x using d(3) [OF that] assms(2) by auto
  show "eq_peps (eqs st e) fid = None" using d(1) [of e fid] n by (cases "eq_peps (eqs st e) fid") auto
qed

text \<open>Descriptors that are bound to no event queue.\<close>

lemma unbound_inv:
  assumes inv: "fab_inv k st" and f: "fids st fid = None \<or> (\<exists>kd. fids st fid = Some (kd, None))" "v = None \<or> (\<exists>kd. v = Some (kd, None))"
  shows "fab_inv k (st\<lparr>fids := (fids st)(fid := v)\<rparr>)"
proof -
  note I = fab_invD [OF inv] note d = endpoints_okD [OF I(4)]
  let ?st = "st\<lparr>fids := (fids st)(fid := v)\<rparr>"
  have m: "mapped ?st = mapped st" "members ?st = members st" by (simp_all add: mapped_def members_def)
  have h: "handed_out ?st = handed_out st" by (rule handed_out_cong) simp_all
  have "awakers_ok ?st" using awakers_okD(4) [OF I(3)] m by (intro awakers_ok_cong [OF _ _ _ _ _ I(3)]) simp_all
  moreover have "endpoints_ok ?st"
  proof (rule endpoints_okI)
    show "eq_peps (eqs ?st (obj_eq x)) (obj_fid x) = Some o' \<and> fids ?st (obj_fid x) = Some (obj_kind x, Some (obj_eq x))"
      if x: "objs ?st o' = Some x" for o' x
      using d(2,3) [of o' x] x f(1) by auto
  qed (use d(1,4) f(2) in \<open>auto split: if_splits\<close>)
  ultimately show ?thesis using I(1,5) by (simp add: fab_inv_def h)
qed

lemma open_inv:
  assumes "fab_inv k st" "fids st fid = None"
  shows "fab_inv k (snd (open_fid kd a fid st))"
  using assms unbound_inv [OF assms(1), of fid "Some (kd, None)"] by (simp add: open_fid_def split: option.split)

definition register :: "nat \<Rightarrow> endpoint \<Rightarrow> fab \<Rightarrow> fab" where
  "register o' x st = st\<lparr>fids := (fids st)(obj_fid x \<mapsto> (obj_kind x, Some (obj_eq x))),
     eqs := (eqs st)(obj_eq x := (eqs st (obj_eq x))\<lparr>eq_peps := (eq_peps (eqs st (obj_eq x)))(obj_fid x \<mapsto> o')\<rparr>),
     objs := (objs st)(o' \<mapsto> x)\<rparr>"

lemma register_inv:
  assumes inv: "fab_inv k st" and o': "objs st o' = None" and f: "fids st (obj_fid x) = None" and w: "obj_awaker x \<notin> handed_out st"
  shows "fab_inv k (register o' x st)"
proof -
  note I = fab_invD [OF inv] note a = awakers_okD [OF I(3)] and d = endpoints_okD [OF I(4)] and u = unregistered [OF I(4) f]
  let ?st = "register o' x st"
  have maps: "eq_map (eqs ?st e) = eq_map (eqs st e)" for e by (simp add: register_def)
  have h: "handed_out ?st = handed_out st" by (rule handed_out_cong) (simp_all add: register_def)
  have "members ?st \<subseteq> insert (obj_awaker x) (members st)" by (auto simp: members_def register_def split: if_splits)
  then have "members ?st \<inter> handed_out st = {}" using a(4) w by auto
  then have "awakers_ok ?st" by (intro awakers_ok_cong [OF _ maps _ _ _ I(3)]) (simp_all add: register_def)
  moreover have "endpoints_ok ?st"
  proof (rule endpoints_okI)
    show "\<exists>y. objs ?st o1 = Some y \<and> obj_fid y = fid \<and> obj_eq y = e" if "eq_peps (eqs ?st e) fid = Some o1" for e fid o1
    proof (cases "e = obj_eq x \<and> fid = obj_fid x")
      case False
      then have "eq_peps (eqs st e) fid = Some o1" using that by (auto simp: register_def split: if_splits)
      then show ?thesis using d(1) [of e fid o1] o' by (auto simp: register_def)
    qed (use that in \<open>auto simp: register_def\<close>)
    show "eq_peps (eqs ?st (obj_eq y)) (obj_fid y) = Some o1 \<and> fids ?st (obj_fid y) = Some (obj_kind y, Some (obj_eq y))"
      if "objs ?st o1 = Some y" for o1 y
      using that d(2,3) [of o1 y] u(2) [of o1 y] by (auto simp: register_def split: if_splits)
    show "\<exists>o1 y. objs ?st o1 = Some y \<and> obj_fid y = fid \<and> obj_kind y = kd \<and> obj_eq y = e" if f1: "fids ?st fid = Some (kd, Some e)" for fid kd e
    proof (cases "fid = obj_fid x")
      case True
      then show ?thesis using f1 by (intro exI [of _ o'] exI [of _ x]) (simp add: register_def)
    next
      case False
      then obtain o1 y where y: "objs st o1 = Some y" "obj_fid y = fid" "obj_kind y = kd" "obj_eq y = e"
        using f1 d(4) [of fid kd e] by (auto simp: register_def)
      then show ?thesis using o' by (intro exI [of _ o1] exI [of _ y]) (auto simp: register_def)
    qed
  qed
  ultimately show ?thesis using I(1,5) by (simp add: fab_inv_def h) (simp add: register_def)
qed

definition unregister :: "nat \<Rightarrow> endpoint \<Rightarrow> fab \<Rightarrow> fab" where
  "unregister o' x st = st\<lparr>fids := (fids st)(obj_fid x := None),
     eqs := (eqs st)(obj_eq x := (eqs st (obj_eq x))\<lparr>eq_peps := (eq_peps (eqs st (obj_eq x)))(obj_fid x := None)\<rparr>),
     objs := (objs st)(o' := None)\<rparr>"

lemma unregister_inv:
  assumes inv: "fab_inv k st" and x: "objs st o' = Some x"
  shows "fab_inv k (unregister o' x st)"
proof -
  note I = fab_invD [OF inv] note a = awakers_okD [OF I(3)] and d = endpoints_okD [OF I(4)]
  let ?st = "unregister o' x st"
  have only: "o1 = o'" if "objs st o1 = Some y" "obj_fid y = obj_fid x" for o1 y
    using d(2,3) [OF that(1)] d(2,3) [OF x] that(2) by simp
  have maps: "eq_map (eqs ?st e) = eq_map (eqs st e)" for e by (simp add: unregister_def)
  have h: "handed_out ?st = handed_out st" by (rule handed_out_cong) (simp_all add: unregister_def)
  have "members ?st \<subseteq> members st" by (auto simp: members_def unregister_def split: if_splits)
  then have "members ?st \<inter> handed_out st = {}" using a(4) by auto
  then have "awakers_ok ?st" by (intro awakers_ok_cong [OF _ maps _ _ _ I(3)]) (simp_all add: unregister_def)
  moreover have "endpoints_ok ?st"
  proof (rule endpoints_okI)
    show "\<exists>y. objs ?st o1 = Some y \<and> obj_fid y = fid \<and> obj_eq y = e" if p: "eq_peps (eqs ?st e) fid = Some o1" for e fid o1
    proof -
      have ne: "\<not> (e = obj_eq x \<and> fid = obj_fid x)" and q: "eq_peps (eqs st e) fid = Some o1"
        using p by (auto simp: unregister_def split: if_splits)
      then obtain y where y: "objs st o1 = Some y" "obj_fid y = fid" "obj_eq y = e" using d(1) [OF q] by blast
      then have "o1 \<noteq> o'" using ne x by auto
      then show ?thesis using y by (simp add: unregister_def)
    qed
    show "eq_peps (eqs ?st (obj_eq y)) (obj_fid y) = Some o1 \<and> fids ?st (obj_fid y) = Some (obj_kind y, Some (obj_eq y))"
      if "objs ?st o1 = Some y" for o1 y
    proof -
      have y: "objs st o1 = Some y" "o1 \<noteq> o'" using that by (auto simp: unregister_def split: if_splits)
      then have "obj_fid y \<noteq> obj_fid x" using only by blast
      then show ?thesis using d(2,3) [OF y(1)] by (cases "obj_eq y = obj_eq x") (simp_all add: unregister_def)
    qed
    show "\<exists>o1 y. objs ?st o1 = Some y \<and> obj_fid y = fid \<and> obj_kind y = kd \<and> obj_eq y = e" if f: "fids ?st fid = Some (kd, Some e)" for fid kd e
    proof -
      have ne: "fid \<noteq> obj_fid x" and q: "fids st fid = Some (kd, Some e)" using f by (auto simp: unregister_def split: if_splits)
      then obtain o1 y where y: "objs st o1 = Some y" "obj_fid y = fid" "obj_kind y = kd" "obj_eq y = e" using d(4) [OF q] by blast
      then have "o1 \<noteq> o'" using ne x by auto
      then show ?thesis using y by (intro exI [of _ o1] exI [of _ y]) (simp add: unregister_def)
    qed
  qed
  ultimately show ?thesis using I(1,5) by (simp add: fab_inv_def h) (simp add: unregister_def)
qed

lemma MAYBE_THROW_iff: "MAYBE_THROW a = None \<longleftrightarrow> is_ok a"
  by (simp add: MAYBE_THROW_def is_ok_def)

lemma register_eq:
  assumes "eq_peps (eqs st (obj_eq x)) (obj_fid x) = None"
  shows "(add_ep (obj_eq x) (obj_fid x) o' (bind_eq (obj_fid x) (obj_eq x) (st\<lparr>fids := (fids st)(obj_fid x \<mapsto> (obj_kind x, None))\<rparr>)))
    \<lparr>objs := (objs st)(o' \<mapsto> x)\<rparr> = register o' x st"
  using assms by (simp add: add_ep_def bind_eq_def register_def)

lemma new_pep_ok:
  assumes inv: "fab_inv k st" and legal: "fab_legal abi k (New_pep o' e w al a_ep fid a_bind) st"
  shows "fab_inv k (snd (PassiveEndpoint_ctor o' e w al a_ep fid a_bind st))"
proof -
  let ?st = "make_awaker w (Inf al) st" and ?x = "PassiveEndpoint fid e w"
  have f: "free_awaker w st" and l: "objs st o' = None" "fids st fid = None" "is_ok a_ep \<longrightarrow> is_ok a_bind" using legal by auto
  have m: "fab_inv k ?st" by (rule make_inv [OF inv f])
  have "handed_out ?st = handed_out st" by (rule handed_out_cong) simp_all
  then have r: "fab_inv k (register o' ?x ?st)" using register_inv [OF m, of o' ?x] l f by (simp add: free_awaker_def)
  have "eq_peps (eqs ?st e) fid = None" using unregistered(1) [OF fab_invD(4) [OF inv] l(2)] by simp
  then show ?thesis using inv m r l(3) register_eq [of ?st ?x o']
    by (cases "MAYBE_THROW a_ep"; cases "MAYBE_THROW a_bind")
      (simp_all add: PassiveEndpoint_ctor_def open_fid_def MAYBE_THROW_iff [symmetric])
qed

lemma new_ep_ok:
  assumes inv: "fab_inv k st" and legal: "fab_legal abi k (New_ep o' e w a_ep fid a_eq a_cq a_av a_en) st"
  shows "fab_inv k (snd (Endpoint_ctor o' e w a_ep fid a_eq a_cq a_av a_en st))"
proof -
  let ?st = "make_awaker w Void st" and ?x = "Endpoint fid e w"
  have f: "free_awaker w st" and l: "objs st o' = None" "fids st fid = None" using legal by auto
  have m: "fab_inv k ?st" by (rule make_inv [OF inv f])
  show ?thesis
  proof (cases "is_ok a_ep")
    case True
    have "handed_out ?st = handed_out st" by (rule handed_out_cong) simp_all
    then have r: "fab_inv k (register o' ?x ?st)" using register_inv [OF m, of o' ?x] l f by (simp add: free_awaker_def)
    have e: "eq_peps (eqs ?st e) fid = None" using unregistered(1) [OF fab_invD(4) [OF inv] l(2)] by simp
    have ok: "MAYBE_THROW a_ep = None" "MAYBE_THROW a_eq = None" "MAYBE_THROW a_cq = None" "MAYBE_THROW a_en = None"
        "(case a_av of None \<Rightarrow> None | Some a \<Rightarrow> MAYBE_THROW a) = None"
      using True legal by (auto simp: MAYBE_THROW_iff split: option.splits)
    have "objs (add_ep e' f' o1 (bind_eq f' e' s)) = objs s" for e' f' o1 s by (simp add: add_ep_def bind_eq_def)
    then have "snd (Endpoint_ctor o' e w a_ep fid a_eq a_cq a_av a_en st) = register o' ?x ?st"
      using register_eq [of ?st ?x o'] e by (simp add: Endpoint_ctor_def open_fid_def ok Let_def)
    then show ?thesis using r by simp
  next
    case False
    then obtain x where "MAYBE_THROW a_ep = Some x" using MAYBE_THROW_iff [of a_ep] by fastforce
    then show ?thesis using m by (simp add: Endpoint_ctor_def open_fid_def)
  qed
qed

lemma delete_ok:
  assumes inv: "fab_inv k st" and x: "objs st o' = Some x"
  shows "bind_err (fi_close (obj_fid x) (del_ep (obj_eq x) (obj_fid x) st)) (\<lambda>st. Inr (st\<lparr>objs := (objs st)(o' := None)\<rparr>)) =
    Inr (unregister o' x st)"
  using endpoints_okD(3) [OF fab_invD(4) [OF inv] x] by (simp add: fi_close_def del_ep_def unregister_def)

subsection \<open>Polls\<close>

lemma and_zero_or: "x AND y = 0 \<Longrightarrow> x AND z = 0 \<Longrightarrow> x AND (y OR z) = 0" for x y z :: "'a::len word"
proof -
  have "x AND (y OR z) = (x AND y) OR (x AND z)" by (rule bit_word_eqI) (auto simp: bit_and_iff bit_or_iff)
  then show "x AND y = 0 \<Longrightarrow> x AND z = 0 \<Longrightarrow> x AND (y OR z) = 0" by simp
qed

lemma and_within: "x AND m = v \<Longrightarrow> m AND y = y \<Longrightarrow> x AND y = v AND y" for x m v y :: "'a::len word"
  using and.assoc [of x m y] by simp

lemma and_or_self: "x AND (x OR y) = x" "y AND (x OR y) = y" for x y :: "'a::len word"
  by (rule bit_word_eqI, auto simp: bit_and_iff bit_or_iff)+

lemma flag_bits:
  assumes "abi_ok abi" "fl AND (FI_RECV abi OR FI_SEND abi OR FI_WRITE abi OR FI_READ abi) = op_flag abi q"
  shows "fl AND FI_RECV abi \<noteq> 0 \<longleftrightarrow> q = Op_recv"
    "q = Op_send \<or> q = Op_write \<Longrightarrow> fl AND (FI_SEND abi OR FI_WRITE abi) \<noteq> 0"
    "q = Op_read \<Longrightarrow> fl AND (FI_SEND abi OR FI_WRITE abi) = 0"
proof -
  let ?m = "FI_RECV abi OR FI_SEND abi OR FI_WRITE abi OR FI_READ abi" and ?t = "FI_SEND abi OR FI_WRITE abi"
  note a = assms(1) [unfolded abi_ok_def]
  have m: "?m AND FI_RECV abi = FI_RECV abi" "?m AND ?t = ?t"
    by (rule bit_word_eqI, auto simp: bit_and_iff bit_or_iff)+
  have r: "fl AND FI_RECV abi = op_flag abi q AND FI_RECV abi" "fl AND ?t = op_flag abi q AND ?t"
    using and_within [OF assms(2) m(1)] and_within [OF assms(2) m(2)] .
  show "fl AND FI_RECV abi \<noteq> 0 \<longleftrightarrow> q = Op_recv" using a unfolding r(1) by (cases q) simp_all
  show "fl AND ?t \<noteq> 0" if "q = Op_send \<or> q = Op_write" using that a unfolding r(2) by (auto simp: and_or_self)
  show "fl AND ?t = 0" if "q = Op_read" using that a unfolding r(2) by (simp add: and_zero_or)
qed

text \<open>What \<^verbatim>\<open>poll\<close> does with the entry of a completed operation.\<close>

definition deliver :: "op_kind \<Rightarrow> cq_entry \<Rightarrow> fab \<Rightarrow> fab_error + fab" where
  "deliver q ent st = (case q of
      Op_recv \<Rightarrow> wake_context Awaker_Address (op_context ent) (entry_addr ent) st
    | Op_read \<Rightarrow> Inr (st\<lparr>posted := (posted st)(op_context ent := None), orphans := insert (op_context ent) (orphans st)\<rparr>)
    | _ \<Rightarrow> wake_context Awaker_void (op_context ent) 0 st)"

lemma poll_delivers:
  assumes abi: "abi_ok abi" and c: "completes abi ent st" and p: "posted st (op_context ent) = Some p"
  shows "CompletionQueue_poll abi 1 ent erc eent st = bind_err (deliver (op p) ent st) (\<lambda>st. Inr (1, st))"
    "CompletionQueue_poll abi (- FI_EAVAIL abi) x 1 ent st = bind_err (deliver (op p) ent st) (\<lambda>st. Inr (1, st))"
proof -
  have "flags ent AND (FI_RECV abi OR FI_SEND abi OR FI_WRITE abi OR FI_READ abi) = op_flag abi (op p)"
    using c p by (simp add: completes_def)
  note b = flag_bits [OF abi this]
  have e: "EAGAIN abi > 0" "FI_EAVAIL abi > 0" "EAGAIN abi \<noteq> FI_EAVAIL abi" using abi by (simp_all add: abi_ok_def)
  show "CompletionQueue_poll abi 1 ent erc eent st = bind_err (deliver (op p) ent st) (\<lambda>st. Inr (1, st))"
    using b e by (cases "op p") (simp_all add: CompletionQueue_poll_def deliver_def)
  show "CompletionQueue_poll abi (- FI_EAVAIL abi) x 1 ent st = bind_err (deliver (op p) ent st) (\<lambda>st. Inr (1, st))"
    using b e by (cases "op p") (simp_all add: CompletionQueue_poll_def deliver_def)
qed

text \<open>The awakers of coroutines that have called \<^verbatim>\<open>read\<close>.\<close>

definition readers :: "fab \<Rightarrow> nat set" where
  "readers st = {w. \<exists>p. posted st w = Some p \<and> op p = Op_read} \<union> orphans st"

lemma deliver_ok:
  assumes inv: "fab_inv k st" and c: "in_call st" and p: "posted st (op_context ent) = Some p"
  shows "\<exists>st'. deliver (op p) ent st = Inr st' \<and> fab_inv k st' \<and> readers st \<subseteq> readers st'"
proof -
  let ?w = "op_context ent"
  note a = awakers_okD [OF fab_invD(3) [OF inv]]
  have t: "ctx_type p = op_type (op p)" by (rule a(6) [OF p])
  have wake: "\<exists>st'. wake_context ty ?w x st = Inr st' \<and> fab_inv k st' \<and> readers st \<subseteq> readers st'"
    if q: "ctx_type p = ty \<or> op p = Op_write" "op p \<noteq> Op_read" for ty x
  proof -
    obtain st' where "wake_context ty ?w x st = Inr st'" "fab_inv k st'" "posted st' = (posted st)(?w := None)" "orphans st' = orphans st"
      by (rule wake_context_inv [OF inv c p q(1), where a = x])
    then show ?thesis using q(2) p by (auto simp: readers_def)
  qed
  show ?thesis
  proof (cases "op p = Op_read")
    case True
    let ?st = "st\<lparr>posted := (posted st)(?w := None), orphans := insert ?w (orphans st)\<rparr>"
    have m: "mapped ?st = mapped st" "members ?st = members st" by (simp_all add: mapped_def members_def)
    have h: "handed_out ?st = handed_out st" using p unfolding handed_out_def m(1) by auto
    have "awakers_ok ?st" by (rule awakers_okI) (use a m h p in \<open>auto split: if_splits\<close>)
    moreover have "endpoints_ok ?st" by (rule endpoints_ok_cong [OF _ _ _ fab_invD(4) [OF inv]]) simp_all
    moreover have "conts_ok (rt ?st) (posted ?st)" using fab_invD(5) [OF inv] by (simp add: conts_ok_def)
    ultimately have "fab_inv k ?st" using fab_invD(1) [OF inv] h by (simp add: fab_inv_def)
    then show ?thesis using True by (auto simp: deliver_def readers_def)
  qed (use wake t in \<open>cases "op p"; auto simp: deliver_def\<close>)
qed

lemma cq_poll_ok:
  assumes inv: "fab_inv k st" and abi: "abi_ok abi" and l: "fab_legal abi k (Cq_poll rc ent erc eent) st"
  shows "\<exists>st' r. CompletionQueue_poll abi rc ent erc eent st = Inr (r, st') \<and> fab_inv k st' \<and> readers st \<subseteq> readers st'"
proof -
  have c: "in_call st" using l by simp
  have e: "EAGAIN abi > 0" "FI_EAVAIL abi > 0" "EAGAIN abi \<noteq> FI_EAVAIL abi" using abi by (simp_all add: abi_ok_def)
  have d: "\<exists>p. posted st (op_context x) = Some p" if "completes abi x st" for x
    using that by (auto simp: completes_def split: option.splits)
  consider "rc = 1" | "rc = - FI_EAVAIL abi" "erc = 1" | "rc \<noteq> 1" "rc \<noteq> - FI_EAVAIL abi \<or> erc \<noteq> 1" by blast
  then show ?thesis
  proof cases
    case 1
    then have x: "completes abi ent st" using l by simp
    obtain p where p: "posted st (op_context ent) = Some p" using d [OF x] by blast
    then show ?thesis using 1 poll_delivers(1) [OF abi x p] deliver_ok [OF inv c p] by fastforce
  next
    case 2
    then have x: "completes abi eent st" using l by simp
    obtain p where p: "posted st (op_context eent) = Some p" using d [OF x] by blast
    then show ?thesis using 2 poll_delivers(2) [OF abi x p] deliver_ok [OF inv c p] by fastforce
  next
    case 3
    then have "\<exists>r. CompletionQueue_poll abi rc ent erc eent st = Inr (r, st)" by (auto simp: CompletionQueue_poll_def)
    then show ?thesis using inv by blast
  qed
qed

lemma eq_poll_ok:
  assumes inv: "fab_inv k st" and abi: "abi_ok abi" and l: "fab_legal abi k (Eq_poll e ret ev fid info) st"
  shows "\<exists>st' r. EventQueue_poll abi e ret ev fid info st = Inr (r, st') \<and> fab_inv k st' \<and> readers st = readers st'"
proof -
  note d = endpoints_okD [OF fab_invD(4) [OF inv]] and a = awakers_okD [OF fab_invD(3) [OF inv]]
  have c: "in_call st" using l by simp
  have find: "\<exists>o' x. eq_peps (eqs st e) fid = Some o' \<and> objs st o' = Some x \<and> obj_kind x = kd \<and>
      (\<exists>s. aw_wake (obj_awaker x) v (rt st) = Inr s \<and> fab_inv k (st\<lparr>rt := s\<rparr>))" if f: "fids st fid = Some (kd, Some e)" for kd v
  proof -
    obtain o' x where x: "objs st o' = Some x" "obj_fid x = fid" "obj_kind x = kd" "obj_eq x = e" using d(4) [OF f] by blast
    have "obj_awaker x \<in> members st" using x(1) by (auto simp: members_def)
    then have n: "obj_awaker x \<notin> handed_out st" "handles (rt st) (obj_awaker x) \<notin> set (pending k (rt st))" using a(4) l x(1,2) by auto
    show ?thesis using d(2) [OF x(1)] x member_inv [OF inv n, of v] by metis
  qed
  have r: "readers (st\<lparr>rt := s\<rparr>) = readers st" "readers (st\<lparr>rt := s, eqs := E\<rparr>) = readers st" for s E by (simp_all add: readers_def)
  show ?thesis
  proof (cases "ret > 0")
    case True
    consider "ev = FI_CONNREQ abi" | "ev = FI_SHUTDOWN abi" "ev \<noteq> FI_CONNREQ abi" | "ev \<noteq> FI_CONNREQ abi" "ev \<noteq> FI_SHUTDOWN abi" by blast
    then show ?thesis
    proof cases
      case 1
      then obtain o' x s where x: "eq_peps (eqs st e) fid = Some o'" "objs st o' = Some x" "obj_kind x = Fid_pep"
          "aw_wake (obj_awaker x) (Inf info) (rt st) = Inr s" "fab_inv k (st\<lparr>rt := s\<rparr>)"
        using find [of Fid_pep "Inf info"] l True by auto
      then show ?thesis using 1 True r by (cases x) (simp_all add: EventQueue_poll_def lift_rt_def)
    next
      case 2
      then obtain o' x s where x: "eq_peps (eqs st e) fid = Some o'" "objs st o' = Some x" "obj_kind x = Fid_ep"
          "aw_wake (obj_awaker x) Void (rt st) = Inr s" "fab_inv k (st\<lparr>rt := s\<rparr>)"
        using find [of Fid_ep Void] l True by auto
      then show ?thesis using 2 True r by (cases x) (simp_all add: EventQueue_poll_def lift_rt_def)
    next
      case 3
      show ?thesis
      proof (cases "eq_map (eqs st e) fid")
        case (Some w)
        obtain s where "aw_wake w Void (rt st) = Inr s"
            "fab_inv k (st\<lparr>rt := s, eqs := (eqs st)(e := (eqs st e)\<lparr>eq_map := (eq_map (eqs st e))(fid := None)\<rparr>)\<rparr>)"
          using event_map_inv [OF inv c Some] by blast
        then show ?thesis using 3 True Some r by (simp add: EventQueue_poll_def lift_rt_def)
      qed (use 3 True inv in \<open>simp add: EventQueue_poll_def\<close>)
    qed
  qed (use inv in \<open>simp add: EventQueue_poll_def\<close>)
qed

subsection \<open>Every legal call\<close>

lemma send_loop_Some: "rcs (n + d) \<noteq> - EAGAIN abi \<Longrightarrow> (\<And>i. i < d \<Longrightarrow> rcs (n + i) = - EAGAIN abi) \<Longrightarrow> fi_send_loop abi rcs n = Some (rcs (n + d))"
proof (induction d arbitrary: n)
  case 0
  then show ?case by (subst fi_send_loop.simps) simp
next
  case (Suc d)
  have "rcs n = - EAGAIN abi" using Suc.prems(2) [of 0] by simp
  moreover have "fi_send_loop abi rcs (Suc n) = Some (rcs (Suc n + d))"
    using Suc.IH [of "Suc n"] Suc.prems(1) Suc.prems(2) [of "Suc i" for i] by simp
  ultimately show ?case by (subst fi_send_loop.simps) simp
qed

lemma send_loop_first:
  assumes "rcs i \<noteq> - EAGAIN abi"
  shows "fi_send_loop abi rcs 0 = Some (rcs (LEAST i. rcs i \<noteq> - EAGAIN abi))"
proof -
  define m where "m = (LEAST i. rcs i \<noteq> - EAGAIN abi)"
  have a: "rcs m \<noteq> - EAGAIN abi" unfolding m_def using assms by (rule LeastI)
  have b: "rcs j = - EAGAIN abi" if "j < m" for j using not_less_Least [OF that [unfolded m_def]] by blast
  have "fi_send_loop abi rcs 0 = Some (rcs (0 + m))" by (rule send_loop_Some) (use a b in simp_all)
  then show ?thesis by (simp add: m_def)
qed

lemma send_loop_result: "fi_send_loop abi rcs n = Some r \<Longrightarrow> \<exists>i. r = rcs i \<and> rcs i \<noteq> - EAGAIN abi"
  by (rule fi_send_loop.raw_induct [where P = "\<lambda>abi rcs n r. \<exists>i. r = rcs i \<and> rcs i \<noteq> - EAGAIN abi"]) (auto split: if_splits)

lemma fab_exec_ok:
  assumes inv: "fab_inv k st" and abi: "abi_ok abi" and l: "fab_legal abi k c st"
  shows "\<exists>st'. fab_exec abi c st = Some (Inr st') \<and> fab_inv k st' \<and> readers st \<subseteq> readers st'"
proof -
  have ep: "with_endpoint o' st f = Inr (f fid e w)" if "objs st o' = Some (Endpoint fid e w)" for o' f fid e w
    using that by (simp add: with_endpoint_def)
  have run: "\<exists>st'. by_running st f = Some (Inr st') \<and> fab_inv k st' \<and> readers st \<subseteq> readers st'"
    if "in_call st" "\<And>h. calling (handed_out st) (rt st) h \<Longrightarrow> \<exists>st'. f h = Some (Inr st') \<and> fab_inv k st' \<and> readers st \<subseteq> readers st'" for f
    using in_callD [OF that(1)] that(2) by (auto simp: by_running_def)
  have posted: "fab_inv k (go h (Co_await w g) ((make_awaker w v st)\<lparr>posted := (posted st)(w \<mapsto> p)\<rparr>))"
    if "calling (handed_out st) (rt st) h" "free_awaker w st" "ctx_type p = op_type (op p)" "\<forall>x. g x = op_cont (op p) x" for h w g v p
    using posted_inv [OF inv that(1-3) ext [OF that(4) [rule_format]]] .
  have more: "readers st \<subseteq> readers ((make_awaker w v st)\<lparr>posted := (posted st)(w \<mapsto> p)\<rparr>)" if "free_awaker w st" for w v p
    using that by (auto simp: readers_def free_awaker_def handed_out_def)
  have rd: "readers (go h b s) = readers s" "readers (make_awaker w v s) = readers s" for h b s w v by (simp_all add: readers_def)
  show ?thesis
  proof (cases c)
    case (Run c')
    then obtain s where s: "core_exec c' (rt st) = Inr s" using core_exec_inv [OF fab_invD(2) [OF inv]] l by auto
    have "leaves (handed_out st) c' (rt st)" using l Run by (cases c') (auto split: list.splits activation.splits body.splits)
    then have "async_step k (rt st, handed_out st) (s, handed_out st)" using l Run s by (intro async_step.call) simp_all
    then show ?thesis using rt_inv [OF inv] Run s by (simp add: lift_rt_def readers_def)
  next
    case (New_fid kd a fid)
    then show ?thesis using open_inv [OF inv, of fid kd a] l by (simp add: readers_def open_fid_def split: option.split)
  next
    case (New_eq e a fid)
    then have "st\<lparr>eqs := (eqs st)(e := \<lparr>eq_map = Map.empty, eq_peps = Map.empty\<rparr>)\<rparr> = st" using l by (simp add: fun_upd_idem)
    then show ?thesis using New_eq open_inv [OF inv, of fid Fid_eq a] l
      by (simp add: EventQueue_ctor_def) (simp add: readers_def open_fid_def split: option.split)
  next
    case (Delete_fid fid)
    then show ?thesis using unbound_inv [OF inv, of fid None] l by (auto simp: fid_dtor_def fi_close_def readers_def)
  next
    case (New_pep o' e w al a_ep fid a_bind)
    then show ?thesis using new_pep_ok [OF inv] l
      by (simp add: readers_def PassiveEndpoint_ctor_def open_fid_def add_ep_def bind_eq_def split: option.split)
  next
    case (New_ep o' e w a_ep fid a_eq a_cq a_av a_en)
    then show ?thesis using new_ep_ok [OF inv] l
      by (simp add: readers_def Endpoint_ctor_def open_fid_def add_ep_def bind_eq_def Let_def split: option.split)
  next
    case (Delete_pep o')
    then obtain fid e w where x: "objs st o' = Some (PassiveEndpoint fid e w)" using l is_pepD [of o' st] by auto
    then show ?thesis using Delete_pep delete_ok [OF inv x] unregister_inv [OF inv x]
      by (simp add: PassiveEndpoint_dtor_def) (simp add: readers_def unregister_def)
  next
    case (Delete_ep o')
    then obtain fid e w where x: "objs st o' = Some (Endpoint fid e w)" using l is_epD [of o' st] by auto
    then show ?thesis using Delete_ep delete_ok [OF inv x] unregister_inv [OF inv x]
      by (simp add: Endpoint_dtor_def) (simp add: readers_def unregister_def)
  next
    case (Next o')
    then obtain fid e w where x: "objs st o' = Some (PassiveEndpoint fid e w)" using l is_pepD [of o' st] by auto
    show ?thesis using Next l by (auto intro!: run go_inv [OF inv] simp: PassiveEndpoint_next_def x rd)
  next
    case (Wait_disconn o')
    then obtain fid e w where x: "objs st o' = Some (Endpoint fid e w)" using l is_epD [of o' st] by auto
    show ?thesis using Wait_disconn l by (auto intro!: run go_inv [OF inv] simp: Endpoint_wait_disconn_def ep [OF x] rd)
  next
    case (Accept o' w a)
    then obtain fid e w' where x: "objs st o' = Some (Endpoint fid e w')" using l is_epD [of o' st] by auto
    have f: "free_awaker w st" and c: "in_call st" using l Accept by simp_all
    have "\<exists>st'. Endpoint_accept h o' w a st = Inr st' \<and> fab_inv k st' \<and> readers st \<subseteq> readers st'" if "calling (handed_out st) (rt st) h" for h
      using go_inv [OF inv that] throw_inv [OF inv that f] mapped_inv [OF inv that f, of e fid]
      by (simp add: Endpoint_accept_def ep [OF x] Let_def rd split: option.split) (simp add: readers_def)
    then show ?thesis using Accept by (auto intro!: run [OF c])
  next
    case (Send o' w buf sz desc dst rcs)
    then obtain fid e w' where x: "objs st o' = Some (Endpoint fid e w')" using l is_epD [of o' st] by auto
    have f: "free_awaker w st" and c: "in_call st" using l Send by simp_all
    obtain rc where rc: "fi_send_loop abi rcs 0 = Some rc" using l Send send_loop_first by auto
    have "\<exists>st'. Endpoint_send abi h o' w buf sz desc dst rcs st = Some (Inr st') \<and> fab_inv k st' \<and> readers st \<subseteq> readers st'"
      if "calling (handed_out st) (rt st) h" for h
      using throw_inv [OF inv that f] posted [OF that f] more [OF f] by (simp add: Endpoint_send_def rc ep [OF x] Let_def rd)
    then show ?thesis using Send by (auto intro!: run [OF c])
  next
    case (Recv o' w buf sz desc a)
    then obtain fid e w' where x: "objs st o' = Some (Endpoint fid e w')" using l is_epD [of o' st] by auto
    have f: "free_awaker w st" and c: "in_call st" using l Recv by simp_all
    have "\<exists>st'. Endpoint_recv h o' w buf sz desc a st = Inr st' \<and> fab_inv k st' \<and> readers st \<subseteq> readers st'"
      if "calling (handed_out st) (rt st) h" for h
      using throw_inv [OF inv that f] posted [OF that f] more [OF f] by (simp add: Endpoint_recv_def ep [OF x] Let_def rd split: option.split)
    then show ?thesis using Recv by (auto intro!: run [OF c])
  next
    case (Write o' w buf sz desc addr key dst a)
    then obtain fid e w' where x: "objs st o' = Some (Endpoint fid e w')" using l is_epD [of o' st] by auto
    have f: "free_awaker w st" and c: "in_call st" using l Write by simp_all
    have "\<exists>st'. Endpoint_write h o' w buf sz desc addr key dst a st = Inr st' \<and> fab_inv k st' \<and> readers st \<subseteq> readers st'"
      if "calling (handed_out st) (rt st) h" for h
      using throw_inv [OF inv that f] posted [OF that f] more [OF f] by (simp add: Endpoint_write_def ep [OF x] Let_def rd split: option.split)
    then show ?thesis using Write by (auto intro!: run [OF c])
  next
    case (Read o' w buf sz desc addr key src a)
    then obtain fid e w' where x: "objs st o' = Some (Endpoint fid e w')" using l is_epD [of o' st] by auto
    have f: "free_awaker w st" and c: "in_call st" using l Read by simp_all
    have "\<exists>st'. Endpoint_read h o' w buf sz desc addr key src a st = Inr st' \<and> fab_inv k st' \<and> readers st \<subseteq> readers st'"
      if "calling (handed_out st) (rt st) h" for h
      using orphan_inv [OF inv that f] posted [OF that f] more [OF f] by (simp add: Endpoint_read_def ep [OF x] Let_def rd) (auto simp: readers_def)
    then show ?thesis using Read by (auto intro!: run [OF c])
  next
    case (Cq_poll rc ent erc eent)
    have "fab_legal abi k (Cq_poll rc ent erc eent) st" using l unfolding Cq_poll .
    then obtain st' r where "CompletionQueue_poll abi rc ent erc eent st = Inr (r, st')" "fab_inv k st'" "readers st \<subseteq> readers st'"
      using cq_poll_ok [OF inv abi] by blast
    then show ?thesis using Cq_poll by simp
  next
    case (Eq_poll e ret ev fid info)
    have "fab_legal abi k (Eq_poll e ret ev fid info) st" using l unfolding Eq_poll .
    then obtain st' r where "EventQueue_poll abi e ret ev fid info st = Inr (r, st')" "fab_inv k st'" "readers st = readers st'"
      using eq_poll_ok [OF inv abi] by blast
    then show ?thesis using Eq_poll by simp
  qed
qed

subsection \<open>Reachable states\<close>

text \<open>The runtime has not started, and no endpoint has been constructed.\<close>

definition fab_init :: "nat \<Rightarrow> fab \<Rightarrow> bool" where
  "fab_init k st \<longleftrightarrow> core_init k (rt st) \<and> (\<forall>e. eqs st e = \<lparr>eq_map = Map.empty, eq_peps = Map.empty\<rparr>) \<and>
     objs st = Map.empty \<and> fids st = Map.empty \<and> posted st = Map.empty \<and> miscast st = [] \<and> orphans st = {}"

inductive fab_step :: "fi_abi \<Rightarrow> nat \<Rightarrow> fab \<Rightarrow> fab \<Rightarrow> bool" for abi :: fi_abi and k :: nat where
  step: "abi_ok abi \<Longrightarrow> fab_legal abi k c st \<Longrightarrow> fab_exec abi c st = Some (Inr st') \<Longrightarrow> fab_step abi k st st'"

lemma fab_init_sets: "fab_init k st \<Longrightarrow> handed_out st = {} \<and> members st = {} \<and> mapped st = {}"
  by (simp add: fab_init_def handed_out_def members_def mapped_def)

lemma fab_init_inv: "fab_init k st \<Longrightarrow> fab_inv k st"
  using fab_init_sets [of k st] core_init_inv [of k "rt st"]
  by (auto simp: fab_inv_def async_inv_def awakers_ok_def endpoints_ok_def) (simp_all add: fab_init_def conts_ok_def)

lemma fab_step_inv: "fab_step abi k st st' \<Longrightarrow> fab_inv k st \<Longrightarrow> fab_inv k st' \<and> readers st \<subseteq> readers st'"
  by (cases rule: fab_step.cases, assumption) (use fab_exec_ok [of k st abi] in fastforce)

interpretation fab: inductive_invariant "fab_init k" "fab_step abi k" "fab_inv k" for abi k
  by unfold_locales (use fab_init_inv fab_step_inv in blast)+

abbreviation fab_reach :: "fi_abi \<Rightarrow> nat \<Rightarrow> fab \<Rightarrow> bool" where
  "fab_reach abi k \<equiv> reach (fab_init k) (fab_step abi k)"

lemma readers_stay: "(fab_step abi k)\<^sup>*\<^sup>* st st' \<Longrightarrow> fab_inv k st \<Longrightarrow> readers st \<subseteq> readers st'"
proof (induction rule: rtranclp_induct)
  case (step u v)
  then have "fab_inv k u" using fab.steps_inv by blast
  then show ?case using step fab_step_inv by blast
qed simp

lemma reader_parked:
  assumes "fab_inv k st" "w \<in> readers st"
  shows "parked k (rt st) w \<or> about (rt st) w"
proof -
  have "w \<in> handed_out st" using assms(2) by (auto simp: readers_def handed_out_def)
  then show ?thesis using fab_invD(1) [OF assms(1)] by (simp add: async_inv_def)
qed

end
