(* ===== verification/Fabric_Runs.thy ===== *)
theory Fabric_Runs
  imports Fabric_Safety
begin

text \<open>
  Concrete runs of the network wrappers. The rules of \<open>fab_legal\<close> speak of the awakers in use,
  sets that are not computed from the state; \<open>rules\<close> checks them against the list of the
  awakers and objects that the calls so far have named, which contains all of them.
\<close>

fun fab_run :: "fi_abi \<Rightarrow> fab_call list \<Rightarrow> fab \<Rightarrow> (fab_error + fab) option" where
  "fab_run abi [] st = Some (Inr st)"
| "fab_run abi (c # cs) st =
     (case fab_exec abi c st of None \<Rightarrow> None | Some (Inl e) \<Rightarrow> Some (Inl e) | Some (Inr st') \<Rightarrow> fab_run abi cs st')"

lemma fab_run_append:
  "fab_run abi (cs @ cs') s = (case fab_run abi cs s of Some (Inr s') \<Rightarrow> fab_run abi cs' s' | r \<Rightarrow> r)"
  by (induction cs arbitrary: s) (auto split: option.split sum.split)

fun named_awakers :: "fab_call \<Rightarrow> nat list" where
  "named_awakers (New_pep o' e w al a_ep fid a_bind) = [w]"
| "named_awakers (New_ep o' e w a_ep fid a_eq a_cq a_av a_en) = [w]"
| "named_awakers (Accept o' w a) = [w]"
| "named_awakers (Send o' w buf sz desc dst rcs) = [w]"
| "named_awakers (Recv o' w buf sz desc a) = [w]"
| "named_awakers (Write o' w buf sz desc addr key dst a) = [w]"
| "named_awakers (Read o' w buf sz desc addr key src a) = [w]"
| "named_awakers (Cq_poll rc ent erc eent) = [op_context ent, op_context eent]"
| "named_awakers _ = []"

fun named_objs :: "fab_call \<Rightarrow> nat list" where
  "named_objs (New_pep o' e w al a_ep fid a_bind) = [o']"
| "named_objs (New_ep o' e w a_ep fid a_eq a_cq a_av a_en) = [o']"
| "named_objs _ = []"

definition calls_now :: "nat list \<Rightarrow> fab \<Rightarrow> bool" where
  "calls_now W st \<longleftrightarrow> (case running st of Some h \<Rightarrow> calling (set W) (rt st) h | None \<Rightarrow> False)"

definition unnamed :: "nat list \<Rightarrow> nat \<Rightarrow> fab \<Rightarrow> bool" where
  "unnamed W w st \<longleftrightarrow> w \<notin> set W \<and> handles (rt st) w = 0"

fun rules :: "fi_abi \<Rightarrow> nat \<Rightarrow> nat list \<Rightarrow> nat list \<Rightarrow> fab_call \<Rightarrow> fab \<Rightarrow> bool" where
  "rules abi k W O' (Run c) st \<longleftrightarrow> legal k c (rt st) \<and> leaves (set W) c (rt st)"
| "rules abi k W O' (New_fid kd a fid) st \<longleftrightarrow> kd \<notin> {Fid_eq, Fid_pep, Fid_ep} \<and> fids st fid = None"
| "rules abi k W O' (New_eq e a fid) st \<longleftrightarrow> False"
| "rules abi k W O' (Delete_fid fid) st \<longleftrightarrow> (case fids st fid of Some (kd, None) \<Rightarrow> True | _ \<Rightarrow> False)"
| "rules abi k W O' (New_pep o' e w al a_ep fid a_bind) st \<longleftrightarrow>
     objs st o' = None \<and> unnamed W w st \<and> fids st fid = None \<and> (is_ok a_ep \<longrightarrow> is_ok a_bind)"
| "rules abi k W O' (New_ep o' e w a_ep fid a_eq a_cq a_av a_en) st \<longleftrightarrow>
     objs st o' = None \<and> unnamed W w st \<and> fids st fid = None \<and>
     (is_ok a_ep \<longrightarrow> is_ok a_eq \<and> is_ok a_cq \<and> (case a_av of Some a \<Rightarrow> is_ok a | None \<Rightarrow> True) \<and> is_ok a_en)"
| "rules abi k W O' (Delete_pep o') st \<longleftrightarrow> is_pep o' st"
| "rules abi k W O' (Delete_ep o') st \<longleftrightarrow> is_ep o' st"
| "rules abi k W O' (Next o') st \<longleftrightarrow> calls_now W st \<and> is_pep o' st"
| "rules abi k W O' (Wait_disconn o') st \<longleftrightarrow> calls_now W st \<and> is_ep o' st"
| "rules abi k W O' (Accept o' w a) st \<longleftrightarrow> calls_now W st \<and> is_ep o' st \<and> unnamed W w st"
| "rules abi k W O' (Send o' w buf sz desc dst rcs) st \<longleftrightarrow>
     calls_now W st \<and> is_ep o' st \<and> unnamed W w st \<and> rcs 0 \<noteq> - EAGAIN abi"
| "rules abi k W O' (Recv o' w buf sz desc a) st \<longleftrightarrow> calls_now W st \<and> is_ep o' st \<and> unnamed W w st"
| "rules abi k W O' (Write o' w buf sz desc addr key dst a) st \<longleftrightarrow> calls_now W st \<and> is_ep o' st \<and> unnamed W w st"
| "rules abi k W O' (Read o' w buf sz desc addr key src a) st \<longleftrightarrow> calls_now W st \<and> is_ep o' st \<and> unnamed W w st"
| "rules abi k W O' (Cq_poll rc ent erc eent) st \<longleftrightarrow>
     calls_now W st \<and> (rc = 1 \<longrightarrow> completes abi ent st) \<and> (rc = - FI_EAVAIL abi \<and> erc = 1 \<longrightarrow> completes abi eent st)"
| "rules abi k W O' (Eq_poll e ret ev fid info) st \<longleftrightarrow>
     calls_now W st \<and>
     (ret > 0 \<and> ev = FI_CONNREQ abi \<longrightarrow> fids st fid = Some (Fid_pep, Some e)) \<and>
     (ret > 0 \<and> ev = FI_SHUTDOWN abi \<longrightarrow> fids st fid = Some (Fid_ep, Some e)) \<and>
     (\<forall>o'\<in>set O'. case objs st o' of None \<Rightarrow> True
        | Some x \<Rightarrow> obj_fid x = fid \<longrightarrow> handles (rt st) (obj_awaker x) \<notin> set (pending k (rt st)))"

fun fab_check :: "fi_abi \<Rightarrow> nat \<Rightarrow> nat list \<Rightarrow> nat list \<Rightarrow> fab_call list \<Rightarrow> fab \<Rightarrow> (nat list \<Rightarrow> nat list \<Rightarrow> fab \<Rightarrow> bool) \<Rightarrow> bool" where
  "fab_check abi k W O' [] st p = p W O' st"
| "fab_check abi k W O' (c # cs) st p \<longleftrightarrow> rules abi k W O' c st \<and>
     (case fab_exec abi c st of Some (Inr st') \<Rightarrow> fab_check abi k (named_awakers c @ W) (named_objs c @ O') cs st' p | _ \<Rightarrow> False)"

definition named :: "nat list \<Rightarrow> nat list \<Rightarrow> fab \<Rightarrow> bool" where
  "named W O' st \<longleftrightarrow> handed_out st \<union> members st \<subseteq> set W \<and> dom (objs st) \<subseteq> set O'"

lemma named_rules:
  assumes "named W O' st" "rules abi k W O' c st"
  shows "fab_legal abi k c st"
proof -
  have call: "in_call st" if "calls_now W st"
    using that assms(1) by (auto simp: calls_now_def in_call_def calling_def named_def split: option.splits list.splits activation.splits body.splits)
  have new: "free_awaker w st" if "unnamed W w st" for w
    using that assms(1) by (auto simp: unnamed_def free_awaker_def named_def)
  show ?thesis
  proof (cases c)
    case (Run c')
    then show ?thesis using assms by (cases c') (auto simp: named_def split: list.splits activation.splits body.splits)
  next
    case (Eq_poll e ret ev fid info)
    then show ?thesis using assms call by (auto simp: named_def split: option.splits)
  qed (use assms(2) call new in \<open>auto split: option.splits\<close>)
qed

lemma named_cong:
  assumes "named W O' st" "\<And>w p. posted st' w = Some p \<Longrightarrow> w \<in> dom (posted st) \<or> w \<in> set V" "orphans st' \<subseteq> orphans st \<union> set V"
    "\<And>e f w. eq_map (eqs st' e) f = Some w \<Longrightarrow> eq_map (eqs st e) f = Some w \<or> w \<in> set V"
    "\<And>o' x. objs st' o' = Some x \<Longrightarrow> objs st o' = Some x \<or> obj_awaker x \<in> set V \<and> o' \<in> set P"
  shows "named (V @ W) (P @ O') st'"
proof -
  have n: "posted st w = Some p \<Longrightarrow> w \<in> set W" "w \<in> orphans st \<Longrightarrow> w \<in> set W" "eq_map (eqs st e) f = Some w \<Longrightarrow> w \<in> set W"
    "objs st o' = Some x \<Longrightarrow> obj_awaker x \<in> set W \<and> o' \<in> set O'" for w p e f o' x
    using assms(1) unfolding named_def handed_out_def mapped_def members_def by blast+
  have "mapped st' \<subseteq> set W \<union> set V" using assms(4) n(3) unfolding mapped_def by blast
  moreover have "members st' \<subseteq> set W \<union> set V" using assms(5) n(4) by (fastforce simp: members_def)
  moreover have "dom (objs st') \<subseteq> set O' \<union> set P" using assms(5) n(4) by fastforce
  moreover have "dom (posted st') \<subseteq> set W \<union> set V" using assms(2) n(1) by fastforce
  ultimately show ?thesis using assms(3) n(2) unfolding named_def handed_out_def by auto
qed

lemmas exec_defs = by_running_def lift_rt_def bind_err_Inr_iff PassiveEndpoint_ctor_def Endpoint_ctor_def open_fid_def
  EventQueue_ctor_def fid_dtor_def fi_close_def add_ep_def del_ep_def bind_eq_def PassiveEndpoint_dtor_def Endpoint_dtor_def
  PassiveEndpoint_next_def Endpoint_wait_disconn_def with_endpoint_def Endpoint_accept_def Endpoint_send_def Endpoint_recv_def
  Endpoint_write_def Endpoint_read_def CompletionQueue_poll_def EventQueue_poll_def wake_context_def Let_def

lemma named_exec:
  assumes "named W O' st" "fab_exec abi c st = Some (Inr st')"
  shows "named (named_awakers c @ W) (named_objs c @ O') st'"
proof (rule named_cong [OF assms(1)])
  show "w \<in> dom (posted st) \<or> w \<in> set (named_awakers c)" if "posted st' w = Some p" for w p
    using assms(2) that by (cases c) (auto simp: exec_defs split: if_splits option.splits sum.splits prod.splits endpoint.splits)
  show "orphans st' \<subseteq> orphans st \<union> set (named_awakers c)"
    using assms(2) by (cases c) (auto simp: exec_defs split: if_splits option.splits sum.splits prod.splits endpoint.splits)
  show "eq_map (eqs st e) f = Some w \<or> w \<in> set (named_awakers c)" if "eq_map (eqs st' e) f = Some w" for e f w
    using assms(2) that by (cases c) (auto simp: exec_defs split: if_splits option.splits sum.splits prod.splits endpoint.splits)
  show "objs st o' = Some x \<or> obj_awaker x \<in> set (named_awakers c) \<and> o' \<in> set (named_objs c)" if "objs st' o' = Some x" for o' x
    using assms(2) that by (cases c) (auto simp: exec_defs split: if_splits option.splits sum.splits prod.splits endpoint.splits)
qed

text \<open>A checked run is a run of legal calls.\<close>

lemma fab_check_steps:
  "fab_check abi k W O' cs st p \<Longrightarrow> named W O' st \<Longrightarrow> abi_ok abi \<Longrightarrow>
   \<exists>st' W' P. fab_run abi cs st = Some (Inr st') \<and> p W' P st' \<and> named W' P st' \<and> (fab_step abi k)\<^sup>*\<^sup>* st st'"
proof (induction cs arbitrary: W O' st)
  case (Cons c cs)
  obtain st' where st': "fab_exec abi c st = Some (Inr st')" "fab_check abi k (named_awakers c @ W) (named_objs c @ O') cs st' p"
    using Cons.prems(1) by (auto split: option.splits sum.splits)
  have "fab_legal abi k c st" by (rule named_rules [OF Cons.prems(2)]) (use Cons.prems(1) in simp)
  then have "fab_step abi k st st'" using Cons.prems(3) st'(1) by (intro fab_step.step)
  then show ?case using Cons.IH [OF st'(2) named_exec [OF Cons.prems(2) st'(1)] Cons.prems(3)] st'(1)
    by (auto intro: converse_rtranclp_into_rtranclp)
qed auto

lemma reach_steps: "(fab_step abi k)\<^sup>*\<^sup>* st st' \<Longrightarrow> fab_reach abi k st \<Longrightarrow> fab_reach abi k st'"
  by (induction rule: rtranclp_induct) (auto intro: reach_step)

subsection \<open>A program\<close>

text \<open>
  libfabric's constants, a scheduler with a ring of four slots, and an endpoint (the object 70
  with descriptor 700 and awaker 7) and a passive endpoint (80, 800 and 8) on event queue 0.
\<close>

definition libfabric :: fi_abi where
  "libfabric = \<lparr>EAGAIN = 11, FI_EAVAIL = 259, FI_RECV = 1024, FI_SEND = 2048, FI_WRITE = 512, FI_READ = 256,
     FI_CONNREQ = 1, FI_SHUTDOWN = 3\<rparr>"

definition fab_start :: fab where
  "fab_start = \<lparr>rt = \<lparr>frames = Map.empty, awakers = (\<lambda>_. fresh_awaker Void), queue = init 4 (replicate 4 0), stopped = False,
       stack = [A_Loop], dropped = [], dangling = [], default_value = Void\<rparr>,
     eqs = (\<lambda>_. \<lparr>eq_map = Map.empty, eq_peps = Map.empty\<rparr>), objs = Map.empty, fids = Map.empty, posted = Map.empty,
     miscast = [], orphans = {}\<rparr>"

lemma libfabric_ok: "abi_ok libfabric"
  by (simp add: abi_ok_def libfabric_def)

lemma fab_start_init: "fab_init 2 fab_start"
  by (simp add: fab_init_def fab_start_def core_init_def ring_inv_def sync_supported_def ring_layout_def unit_scale_def
      init_def ring_contents_def ring_count_def zero_ht_def fresh_awaker_def)

lemma fab_check_start:
  assumes "fab_check libfabric 2 [] [] cs fab_start p"
  shows "\<exists>st W P. fab_run libfabric cs fab_start = Some (Inr st) \<and> fab_reach libfabric 2 st \<and> named W P st \<and> p W P st"
proof -
  have "named [] [] fab_start" using fab_init_sets [OF fab_start_init] by (simp add: named_def fab_start_def)
  from fab_check_steps [OF assms this libfabric_ok] show ?thesis
    using reach_steps [OF _ reach_init [of "fab_init 2", OF fab_start_init]] by blast
qed

lemma fab_check_legal:
  assumes "fab_check libfabric 2 [] [] cs fab_start (\<lambda>W P st. rules libfabric 2 W P c st \<and> q st)"
  shows "\<exists>st. fab_run libfabric cs fab_start = Some (Inr st) \<and> fab_reach libfabric 2 st \<and> fab_legal libfabric 2 c st \<and> q st"
  using fab_check_start [OF assms] named_rules by blast

definition ok :: answer where
  "ok = (0, 0)"

definition endpoints :: "fab_call list" where
  "endpoints = [New_fid Fid_cq ok 500, New_ep 70 0 7 ok 700 ok ok None ok, New_pep 80 0 8 900 ok 800 ok]"

text \<open>A coroutine at address \<open>h\<close> is submitted, resumed, and makes the call \<open>c\<close>; then it runs on.\<close>

definition spawn :: "handle \<Rightarrow> fab_call list" where
  "spawn h = [Run (X_Create h True (Co_return Void)), Run (X_Submit h), Run (Tick 0)]"

definition calls :: "handle \<Rightarrow> fab_call \<Rightarrow> fab_call list" where
  "calls h c = spawn h @ [c, Run (Tick 0), Run (Tick 0)]"

definition fab_buffer :: MemoryBuffer where
  "fab_buffer = \<lparr>capicity = 64, mb_buf = 4096\<rparr>"

text \<open>A coroutine receives, and another one is about to poll.\<close>

definition receiving :: "fab_call list" where
  "receiving = endpoints @ calls 256 (Recv 70 1 fab_buffer 64 0 ok) @ spawn 512"

definition received :: cq_entry where
  "received = \<lparr>op_context = 1, flags = 1024, entry_addr = 42\<rparr>"

end
