(* ===== verification/Fabric_Properties.thy ===== *)
theory Fabric_Properties
  imports Fabric_Runs
begin

text \<open>
  Properties of the network wrappers (\<^verbatim>\<open>src/net/fabric/fabric.hpp\<close>) in every state that legal
  calls reach: every call succeeds, completions and events reach the coroutine that waits for
  them, and what goes wrong with \<^verbatim>\<open>read\<close>, with failed completions and with failing constructors.
\<close>

lemma reach_fab:
  assumes "fab_reach abi k st"
  shows "fab_inv k st" "core_inv k (rt st)" "awakers_ok st" "endpoints_ok st" "conts_ok (rt st) (posted st)"
  using fab.reach_inv [OF assms] fab_invD by blast+



text \<open>
  C9. A completion reaches the coroutine that posted the operation: when the completion queue
  has an entry for a posted send, receive or write, \<^verbatim>\<open>CompletionQueue::poll\<close> wakes the coroutine
  that is suspended on the awaker behind the entry's context, and no other. The coroutine goes
  to the end of the scheduler's ring (or is dropped when the ring is full), where it continues as
  \<^verbatim>\<open>op_cont\<close> says: the receiver finds the sender's address and its task returns it, the other
  tasks return. A failed operation, which poll reads with \<^verbatim>\<open>fi_cq_readerr\<close>, is delivered in the
  same way, so its coroutine cannot tell.
\<close>

theorem completion_resumes_poster:
  assumes "fab_reach abi k st" "abi_ok abi" "in_call st" "completes abi ent st"
    and "posted st (op_context ent) = Some p" "op p \<noteq> Op_read"
    and "rc = 1 \<and> x = ent \<or> rc = - FI_EAVAIL abi \<and> erc = 1 \<and> y = ent"
  shows "\<exists>h st'. susp_at (rt st) h = Some (S_Awaker (op_context ent) (op_cont (op p))) \<and>
    CompletionQueue_poll abi rc x erc y st = Inr (1, st') \<and> posted st' = (posted st)(op_context ent := None) \<and>
    susp_at (rt st') h = Some (S_Awaker (op_context ent) (op_cont (op p))) \<and> stack (rt st') = stack (rt st) \<and>
    (op p = Op_recv \<longrightarrow> aw_ret (awakers (rt st') (op_context ent)) = Addr (entry_addr ent)) \<and>
    (\<forall>u. u \<noteq> op_context ent \<longrightarrow> awakers (rt st') u = awakers (rt st) u) \<and>
    (if length (pending k (rt st)) < unat (capacity (queue (rt st))) then pending k (rt st') = pending k (rt st) @ [h]
     else h \<in> set (dropped (rt st')))"
proof -
  let ?w = "op_context ent"
  note I = reach_fab [OF assms(1)]
  define ty where "ty = (if op p = Op_recv then Awaker_Address else Awaker_void)"
  define a where "a = (if op p = Op_recv then entry_addr ent else 0)"
  have t: "ctx_type p = ty \<or> op p = Op_write" using awakers_okD(6) [OF I(3) assms(5)] assms(6) unfolding ty_def by (cases "op p") simp_all
  obtain s st' where w: "aw_wake ?w (woken_ret ty ?w a st) (rt st) = Inr s" "parked k (rt st) ?w" "wake_context ty ?w a st = Inr st'"
      "rt st' = s" "posted st' = (posted st)(?w := None)"
    using wake_context_inv [OF I(1) assms(3,5) t] by metis
  have "deliver (op p) ent st = Inr st'" using w(3) assms(6) by (cases "op p") (simp_all add: deliver_def ty_def a_def)
  then have poll: "CompletionQueue_poll abi rc x erc y st = Inr (1, st')" using poll_delivers [OF assms(2,4,5)] assms(7) by auto
  have ret: "op p = Op_recv \<longrightarrow> woken_ret ty ?w a st = Addr (entry_addr ent)" by (simp add: woken_ret_def ty_def a_def)
  have "waits (rt st) ?w (op_cont (op p))" using I(5) assms(5) by (simp add: conts_ok_def)
  then obtain h where h: "susp_at (rt st) h = Some (S_Awaker ?w (op_cont (op p)))" using waits_parked [OF I(2) w(2)] by blast
  show ?thesis
    by (rule complete_delivers [OF I(2) w(2), where v = "woken_ret ty ?w a st"])
      (use w poll ret h one_waiter [OF I(2) h] in auto)
qed

theorem completion_resumes_poster_witness:
  "\<exists>st h st'. fab_run libfabric receiving fab_start = Some (Inr st) \<and> susp_at (rt st) h = Some (S_Awaker 1 Co_return) \<and>
     CompletionQueue_poll libfabric (- 259) received 1 received st = Inr (1, st') \<and> pending 2 (rt st') = pending 2 (rt st) @ [h]"
proof -
  let ?q = "\<lambda>st. length (pending 2 (rt st)) < unat (capacity (queue (rt st))) \<and>
    (case posted st 1 of Some p \<Rightarrow> op p = Op_recv | None \<Rightarrow> False)"
  have "fab_check libfabric 2 [] [] receiving fab_start (\<lambda>W P st. rules libfabric 2 W P (Cq_poll 1 received 0 received) st \<and> ?q st)"
    by code_simp
  from fab_check_legal [OF this] obtain st p where st: "fab_run libfabric receiving fab_start = Some (Inr st)" "fab_reach libfabric 2 st"
      "fab_legal libfabric 2 (Cq_poll 1 received 0 received) st" "posted st (op_context received) = Some p" "op p \<noteq> Op_read" "?q st"
    by (auto simp: received_def split: option.splits)
  have "op p = Op_recv" using st(4,6) by (simp add: received_def)
  then have g: "op_cont (op p) = Co_return" by simp
  have "in_call st" "completes libfabric received st" using st(3) by simp_all
  from completion_resumes_poster [OF st(2) libfabric_ok this st(4,5), of "- 259" received 1 received] st(1,6) g
  show ?thesis by (auto simp: libfabric_def received_def)
qed

text \<open>
  C35. A coroutine that calls \<^verbatim>\<open>Endpoint::read\<close> is never resumed: in every state that legal calls
  reach afterwards, it is about to suspend or suspended on the awaker of its read and not in
  the scheduler's ring. \<^verbatim>\<open>poll\<close> wakes on \<^verbatim>\<open>FI_RECV\<close>, \<^verbatim>\<open>FI_SEND\<close> and \<^verbatim>\<open>FI_WRITE\<close> only, and a failing
  \<^verbatim>\<open>fi_read\<close> is not noticed.
\<close>

theorem read_never_returns:
  assumes "fab_reach abi k st" "abi_ok abi" "fab_legal abi k (Read o' w buf sz desc addr key src a) st"
    and "fab_exec abi (Read o' w buf sz desc addr key src a) st = Some (Inr st1)" "(fab_step abi k)\<^sup>*\<^sup>* st1 st2"
  shows "parked k (rt st2) w \<or> about (rt st2) w"
proof -
  have i: "fab_inv k st1" using fab_exec_ok [OF reach_fab(1) [OF assms(1)] assms(2,3)] assms(4) by auto
  have "w \<in> readers st1" using assms(3,4)
    by (auto simp: by_running_def Endpoint_read_def with_endpoint_def Let_def readers_def split: option.splits endpoint.splits if_splits)
  then have "w \<in> readers st2" using readers_stay [OF assms(5) i] by blast
  then show ?thesis by (rule reader_parked [OF fab.steps_inv [OF assms(5) i]])
qed

text \<open>A coroutine reads, and another one polls the completion of the read.\<close>

definition read_call :: fab_call where
  "read_call = Read 70 1 fab_buffer 64 0 8192 5 42 ok"

definition read_done :: cq_entry where
  "read_done = \<lparr>op_context = 1, flags = 256, entry_addr = 0\<rparr>"

definition after_read :: "fab_call list" where
  "after_read = [Run (Tick 0), Run (Tick 0)] @ spawn 512 @ [Cq_poll 1 read_done 0 read_done]"

theorem read_never_returns_witness:
  "\<exists>st1 st2. fab_run libfabric (endpoints @ spawn 256 @ [read_call]) fab_start = Some (Inr st1) \<and>
     fab_run libfabric after_read st1 = Some (Inr st2) \<and> posted st2 1 = None \<and> (parked 2 (rt st2) 1 \<or> about (rt st2) 1)"
proof -
  have "fab_check libfabric 2 [] [] (endpoints @ spawn 256) fab_start (\<lambda>W P st. rules libfabric 2 W P read_call st \<and>
      fab_check libfabric 2 W P (read_call # after_read) st (\<lambda>W P st. case posted st 1 of None \<Rightarrow> True | Some _ \<Rightarrow> False))"
    by code_simp
  from fab_check_start [OF this] obtain st W P where st: "fab_run libfabric (endpoints @ spawn 256) fab_start = Some (Inr st)"
      "fab_reach libfabric 2 st" "named W P st" "rules libfabric 2 W P read_call st"
      "fab_check libfabric 2 W P (read_call # after_read) st (\<lambda>W P st. case posted st 1 of None \<Rightarrow> True | Some _ \<Rightarrow> False)"
    by blast
  then obtain st1 where st1: "fab_exec libfabric read_call st = Some (Inr st1)" "fab_check libfabric 2 (named_awakers read_call @ W)
      (named_objs read_call @ P) after_read st1 (\<lambda>W P st. case posted st 1 of None \<Rightarrow> True | Some _ \<Rightarrow> False)"
    by (auto split: option.splits sum.splits)
  obtain st2 where st2: "fab_run libfabric after_read st1 = Some (Inr st2)" "posted st2 1 = None" "(fab_step libfabric 2)\<^sup>*\<^sup>* st1 st2"
    using fab_check_steps [OF st1(2) named_exec [OF st(3) st1(1)] libfabric_ok] by (auto split: option.splits)
  have "fab_run libfabric (endpoints @ spawn 256 @ [read_call]) fab_start = Some (Inr st1)"
    using fab_run_append [of libfabric "endpoints @ spawn 256" "[read_call]"] st(1) st1(1) by simp
  then show ?thesis
    using read_never_returns [OF st(2) libfabric_ok named_rules [OF st(3,4), unfolded read_call_def] st1(1) [unfolded read_call_def] st2(3)] st2
    by blast
qed



text \<open>
  C22. The context of a posted operation points to an awaker of the type the operation expects:
  \<^verbatim>\<open>Awaker<Address>\<close> for receives and writes, \<^verbatim>\<open>Awaker<void>\<close> for sends and reads. The casts of
  \<^verbatim>\<open>CompletionQueue::poll\<close> agree with it for all operations but writes, whose awaker is cast to
  \<^verbatim>\<open>Awaker<void>\<close>.
\<close>

theorem contexts_well_typed:
  assumes "fab_reach abi k st"
  shows "(\<forall>w p. posted st w = Some p \<longrightarrow> (ctx_type p = Awaker_Address \<longleftrightarrow> op p = Op_recv \<or> op p = Op_write)) \<and>
    set (miscast st) \<subseteq> {Op_write}"
proof -
  note a = awakers_okD(6,7) [OF reach_fab(3) [OF assms]]
  have "ctx_type p = Awaker_Address \<longleftrightarrow> op p = Op_recv \<or> op p = Op_write" if "posted st w = Some p" for w p
    using a(1) [OF that] by (cases "op p") simp_all
  then show ?thesis using a(2) by blast
qed

text \<open>A coroutine writes, and another one polls the completion of the write.\<close>

definition written :: "fab_call list" where
  "written = endpoints @ calls 256 (Write 70 1 fab_buffer 64 0 8192 5 42 ok) @ spawn 512 @
     [Cq_poll 1 \<lparr>op_context = 1, flags = 512, entry_addr = 0\<rparr> 0 \<lparr>op_context = 1, flags = 512, entry_addr = 0\<rparr>]"

theorem contexts_well_typed_witness:
  "\<exists>st. fab_run libfabric written fab_start = Some (Inr st) \<and> miscast st = [Op_write] \<and> set (miscast st) \<subseteq> {Op_write}"
proof -
  have "fab_check libfabric 2 [] [] written fab_start (\<lambda>W P st. miscast st = [Op_write])"
    by code_simp
  from fab_check_start [OF this] show ?thesis using contexts_well_typed by blast
qed

text \<open>
  C19. A connection request wakes the coroutine that waits in \<^verbatim>\<open>PassiveEndpoint::next\<close> of the
  endpoint it is for, with the request's \<^verbatim>\<open>Info\<close>, and no other. When no coroutine waits there, the
  event is consumed and nothing becomes ready.
\<close>

theorem connection_request_wakes_next:
  assumes "fab_reach abi k st" "abi_ok abi" "fab_legal abi k (Eq_poll e ret (FI_CONNREQ abi) fid info) st" "ret > 0"
  shows "\<exists>o' w st'. objs st o' = Some (PassiveEndpoint fid e w) \<and>
    EventQueue_poll abi e ret (FI_CONNREQ abi) fid info st = Inr (ret, st') \<and> aw_ret (awakers (rt st') w) = Inf info \<and>
    (\<forall>u. u \<noteq> w \<longrightarrow> awakers (rt st') u = awakers (rt st) u) \<and>
    (let h = aw_handle (awakers (rt st) w) in
     if h = 0 then pending k (rt st') = pending k (rt st) \<and> dropped (rt st') = dropped (rt st)
     else (\<exists>g. susp_at (rt st) h = Some (S_Awaker w g)) \<and>
       (if length (pending k (rt st)) < unat (capacity (queue (rt st))) then pending k (rt st') = pending k (rt st) @ [h]
        else h \<in> set (dropped (rt st'))))"
proof -
  note I = reach_fab [OF assms(1)] note d = rt_okD [OF core_run_inv(2) [OF I(2)]]
  obtain o' x where x: "objs st o' = Some x" "obj_fid x = fid" "obj_kind x = Fid_pep" "obj_eq x = e"
    using endpoints_okD(4) [OF I(4), of fid Fid_pep e] assms(3,4) by auto
  then obtain w where w: "x = PassiveEndpoint fid e w" by (cases x) auto
  let ?h = "aw_handle (awakers (rt st) w)"
  have "\<forall>o' x. objs st o' = Some x \<and> obj_fid x = fid \<longrightarrow> handles (rt st) (obj_awaker x) \<notin> set (pending k (rt st))"
    using assms(3) unfolding fab_legal.simps by blast
  from this [rule_format, of o' x] have n: "?h \<notin> set (pending k (rt st))" using x(1,2) w by (simp add: handles_def)
  have p: "eq_peps (eqs st e) fid = Some o'" using endpoints_okD(2) [OF I(4) x(1)] x(2,4) by simp
  have poll: "EventQueue_poll abi e ret (FI_CONNREQ abi) fid info st =
      bind_err (lift_rt st (aw_wake w (Inf info) (rt st))) (\<lambda>st. Inr (ret, st))"
    using assms(4) p x(1) w by (simp add: EventQueue_poll_def)
  show ?thesis
  proof (cases "?h = 0")
    case True
    then show ?thesis using x(1) w poll by - (rule exI [of _ o'], rule exI [of _ w], simp add: aw_wake_def lift_rt_def awakers_upd)
  next
    case False
    then obtain g where g: "susp_at (rt st) ?h = Some (S_Awaker w g)"
      using d(12) [of w] by (auto simp: handles_def susp_at_view)
    then have "parked k (rt st) w" using n by (auto simp: parked_def)
    then obtain h' g' s where s: "susp_at (rt st) h' = Some (S_Awaker w g')" "aw_wake w (Inf info) (rt st) = Inr s"
        "aw_ret (awakers s w) = Inf info" "\<forall>u. u \<noteq> w \<longrightarrow> awakers s u = awakers (rt st) u"
        "if length (pending k (rt st)) < unat (capacity (queue (rt st))) then pending k s = pending k (rt st) @ [h'] else h' \<in> set (dropped s)"
      using complete_delivers [OF I(2), of w "Inf info"] by metis
    have "h' = ?h" using d(8) [of h' "S_Awaker w g'"] s(1) by (auto simp: susp_at_view handles_def)
    then show ?thesis using False g x(1) w poll s by - (rule exI [of _ o'], rule exI [of _ w], simp add: lift_rt_def split: if_splits)
  qed
qed

definition accepting :: "fab_call list" where
  "accepting = endpoints @ calls 256 (Next 80) @ spawn 512"

theorem connection_request_wakes_next_witness:
  "\<exists>st st'. fab_run libfabric accepting fab_start = Some (Inr st) \<and> EventQueue_poll libfabric 0 40 1 800 901 st = Inr (40, st') \<and>
     aw_ret (awakers (rt st') 8) = Inf 901 \<and> pending 2 (rt st') = pending 2 (rt st) @ [256]"
proof -
  let ?q = "\<lambda>st. length (pending 2 (rt st)) < unat (capacity (queue (rt st))) \<and> aw_handle (awakers (rt st) 8) = 256 \<and>
    (case eq_peps (eqs st 0) 800 of Some i \<Rightarrow> (case objs st i of Some x \<Rightarrow> obj_awaker x = 8 | None \<Rightarrow> False) | None \<Rightarrow> False)"
  have "fab_check libfabric 2 [] [] accepting fab_start (\<lambda>W P st. rules libfabric 2 W P (Eq_poll 0 40 (FI_CONNREQ libfabric) 800 901) st \<and> ?q st)"
    by code_simp
  from fab_check_legal [OF this] obtain st where st: "fab_run libfabric accepting fab_start = Some (Inr st)" "fab_reach libfabric 2 st"
      "fab_legal libfabric 2 (Eq_poll 0 40 (FI_CONNREQ libfabric) 800 901) st" "?q st"
    by blast
  from connection_request_wakes_next [OF st(2) libfabric_ok st(3)] obtain o' w st' where
    x: "objs st o' = Some (PassiveEndpoint 800 0 w)" "EventQueue_poll libfabric 0 40 (FI_CONNREQ libfabric) 800 901 st = Inr (40, st')"
      "aw_ret (awakers (rt st') w) = Inf 901" "w = 8 \<longrightarrow> pending 2 (rt st') = pending 2 (rt st) @ [256]"
    using st(4) by (auto simp: Let_def)
  have "eq_peps (eqs st 0) 800 = Some o'" using endpoints_okD(2) [OF reach_fab(4) [OF st(2)] x(1)] by simp
  then have "w = 8" using st(4) x(1) by simp
  then show ?thesis using st(1) x by (auto simp: libfabric_def)
qed

text \<open>
  A constructor of \<^verbatim>\<open>Endpoint\<close> that fails after it has registered the object, at the bind to
  the completion queue, throws and leaves the descriptor open and a pointer to the destroyed
  object in the event queue; the next shutdown event for the descriptor follows it.
\<close>

lemma failed_constructor_dangles:
  assumes "fst a_ep = 0" "fst a_eq = 0" "fst a_cq \<noteq> 0" "objs st o' = None" "eq_peps (eqs st e) fid = None"
    and "ret > 0" "FI_SHUTDOWN abi \<noteq> FI_CONNREQ abi"
  shows "\<exists>st'. Endpoint_ctor o' e w a_ep fid a_eq a_cq a_av a_enable st = (Some (System_error Generic_category (snd a_cq)), st') \<and>
    fids st' fid = Some (Fid_ep, Some e) \<and> objs st' o' = None \<and>
    EventQueue_poll abi e ret (FI_SHUTDOWN abi) fid info st' = Inl Dangling"
  using assms
  by (simp add: Endpoint_ctor_def open_fid_def MAYBE_THROW_def Let_def add_ep_def bind_eq_def EventQueue_poll_def)

text \<open>
  C21. \<^verbatim>\<open>Endpoint::send\<close> terminates if and only if \<^verbatim>\<open>fi_send\<close> answers something other than \<^verbatim>\<open>-EAGAIN\<close>
  at some call. It acts on the first such answer: an error is thrown with its code, and on
  success the coroutine goes on to its \<^verbatim>\<open>co_await\<close> with the operation posted.
\<close>

theorem send_terminates:
  assumes "objs st o' = Some (Endpoint fid e v)"
  shows "(Endpoint_send abi h o' w buf sz desc dst rcs st = None \<longleftrightarrow> (\<forall>i. rcs i = - EAGAIN abi)) \<and>
    (\<forall>n. rcs n \<noteq> - EAGAIN abi \<and> (\<forall>i<n. rcs i = - EAGAIN abi) \<longrightarrow>
      (if rcs n = 0 then \<exists>p st'. Endpoint_send abi h o' w buf sz desc dst rcs st = Some (Inr st') \<and>
           rt st' = run_body h (Co_await w (\<lambda>_. Co_return Void)) (upd_awaker w (\<lambda>_. fresh_awaker Void) (rt st)) \<and>
           posted st' = (posted st)(w \<mapsto> p) \<and> op p = Op_send \<and> p_buf p = mb_buf buf \<and> p_len p = sz
       else Endpoint_send abi h o' w buf sz desc dst rcs st =
           Some (Inr (go h (Throw (System_error System_category (- rcs n))) (make_awaker w Void st)))))"
proof (intro conjI allI impI)
  show "Endpoint_send abi h o' w buf sz desc dst rcs st = None \<longleftrightarrow> (\<forall>i. rcs i = - EAGAIN abi)"
    using send_loop_first [of rcs _ abi] send_loop_result [of abi rcs 0] by (fastforce simp: Endpoint_send_def)
next
  fix n
  assume n: "rcs n \<noteq> - EAGAIN abi \<and> (\<forall>i<n. rcs i = - EAGAIN abi)"
  have "fi_send_loop abi rcs 0 = Some (rcs (0 + n))" by (rule send_loop_Some) (use n in simp_all)
  then show "if rcs n = 0 then \<exists>p st'. Endpoint_send abi h o' w buf sz desc dst rcs st = Some (Inr st') \<and>
           rt st' = run_body h (Co_await w (\<lambda>_. Co_return Void)) (upd_awaker w (\<lambda>_. fresh_awaker Void) (rt st)) \<and>
           posted st' = (posted st)(w \<mapsto> p) \<and> op p = Op_send \<and> p_buf p = mb_buf buf \<and> p_len p = sz
       else Endpoint_send abi h o' w buf sz desc dst rcs st =
           Some (Inr (go h (Throw (System_error System_category (- rcs n))) (make_awaker w Void st)))"
    using assms by (auto simp: Endpoint_send_def with_endpoint_def Let_def intro!: exI [where P = "\<lambda>p. _ = _(w \<mapsto> p) \<and> _ p"])
qed

theorem send_terminates_witness:
  "\<exists>st p st'. fab_run libfabric (endpoints @ spawn 256) fab_start = Some (Inr st) \<and> posted st' = (posted st)(1 \<mapsto> p) \<and> op p = Op_send \<and>
     Endpoint_send libfabric 256 70 1 fab_buffer 64 0 None (\<lambda>i. if i < 3 then - 11 else 0) st = Some (Inr st')"
proof -
  have "fab_check libfabric 2 [] [] (endpoints @ spawn 256) fab_start (\<lambda>W P st. objs st 70 = Some (Endpoint 700 0 7))"
    by code_simp
  from fab_check_start [OF this] obtain st where st: "fab_run libfabric (endpoints @ spawn 256) fab_start = Some (Inr st)"
      "objs st 70 = Some (Endpoint 700 0 7)" by blast
  from send_terminates [OF st(2), of libfabric 256 1 fab_buffer 64 0 None "\<lambda>i. if i < 3 then - 11 else 0", THEN conjunct2, rule_format, of 3] st(1)
  show ?thesis by (auto simp: libfabric_def)
qed

text \<open>
  After a successful \<^verbatim>\<open>Endpoint::close\<close>, the destructor closes the descriptor a second time. An event
  for a descriptor with no registered endpoint dereferences the end iterator.
\<close>

lemma close_then_destructor:
  assumes "objs st o' = Some (Endpoint fid e w)" "fids st fid \<noteq> None"
  shows "\<exists>st'. Endpoint_close o' (0, 0) st = Inr (None, st') \<and> Endpoint_dtor o' st' = Inl Double_close"
  using assms by (auto simp: Endpoint_close_def MAYBE_THROW_def fi_close_def Endpoint_dtor_def del_ep_def)

lemma unknown_descriptor_event:
  assumes "eq_peps (eqs st e) fid = None" "ret > 0" "ev = FI_CONNREQ abi \<or> ev = FI_SHUTDOWN abi"
  shows "EventQueue_poll abi e ret ev fid info st = Inl Eq_end_deref"
  using assms by (auto simp: EventQueue_poll_def)

end
