(* ===== verification/Blob.thy ===== *)
theory Blob
  imports Async Exceptions
begin

text \<open>
  The wrappers of SPDK's blob store (\<^verbatim>\<open>src/io/blob/blob.hpp\<close>): the coroutines of \<^verbatim>\<open>Blob\<close>,
  \<^verbatim>\<open>BlobStore\<close> and \<^verbatim>\<open>BlobDev\<close>, the event loop, and \<^verbatim>\<open>BlobEnv\<close>.

  SPDK is a parameter. A call that takes a callback is remembered in \<open>inflight\<close>, by the address of
  the awaker that is the callback's argument. SPDK calls back from \<^verbatim>\<open>spdk_thread_poll\<close>, or from
  within the call itself: the argument \<open>sync\<close> of an operation is the callback it makes then, if
  any. \<open>lost\<close> is a ghost: the awakers whose callback came before the \<^verbatim>\<open>co_await\<close>.

  As in the network wrappers, an operation is the step of the running coroutine up to its next
  \<^verbatim>\<open>co_await\<close>, and the rest of the body is left for the runtime. \<^verbatim>\<open>make_blob\<close> awaits twice: its
  body goes on from an awaited value with \<open>make_blob_open\<close> and \<open>make_blob_channel\<close>.
\<close>

subsection \<open>State\<close>

record Blob =
  blob_ptr :: u64
  channel :: u64

datatype blob_val = B_unit | B_int int | B_id u64 | B_ptr u64 | B_blob Blob | B_store u64

datatype request =
    Rq_resize u64 u64
  | Rq_sync_md u64
  | Rq_write u64 u64 u64 u64 u64
  | Rq_read u64 u64 u64 u64 u64
  | Rq_create u64
  | Rq_open u64 u64
  | Rq_init u64

record blob_st =
  brt :: "(blob_val, exn) core"
  inflight :: "nat \<rightharpoonup> request"
  lost :: "nat set"

datatype blob_error = Bserrno_assert | Stray_callback | Wrong_stage | Blob_core core_error

type_synonym blob_res = "blob_error + blob_st"

definition wake_with :: "nat \<Rightarrow> blob_val \<Rightarrow> blob_st \<Rightarrow> blob_res" where
  "wake_with w v st = (case aw_wake w v (brt st) of Inl e \<Rightarrow> Inl (Blob_core e) | Inr s \<Rightarrow> Inr (st\<lparr>brt := s\<rparr>))"

subsection \<open>Callbacks\<close>

definition common_cb :: "nat \<Rightarrow> int \<Rightarrow> blob_st \<Rightarrow> blob_res" where
  "common_cb w bserrno = wake_with w (B_int bserrno)"

definition create_cb :: "nat \<Rightarrow> u64 \<Rightarrow> int \<Rightarrow> blob_st \<Rightarrow> blob_res" where
  "create_cb w blobid bserrno st = (if bserrno \<noteq> 0 then Inl Bserrno_assert else wake_with w (B_id blobid) st)"

definition open_cb :: "nat \<Rightarrow> u64 \<Rightarrow> int \<Rightarrow> blob_st \<Rightarrow> blob_res" where
  "open_cb w blob bserrno st = (if bserrno \<noteq> 0 then Inl Bserrno_assert else wake_with w (B_ptr blob) st)"

definition init_cb :: "nat \<Rightarrow> u64 \<Rightarrow> int \<Rightarrow> blob_st \<Rightarrow> blob_res" where
  "init_cb w bs bserrno st = (if bserrno \<noteq> 0 then Inl Bserrno_assert else wake_with w (B_ptr bs) st)"

text \<open>SPDK calls the callback that was passed with the request.\<close>

fun callback :: "request \<Rightarrow> nat \<Rightarrow> u64 \<Rightarrow> int \<Rightarrow> blob_st \<Rightarrow> blob_res" where
  "callback (Rq_create bs) w p e st = create_cb w p e st"
| "callback (Rq_open bs i) w p e st = open_cb w p e st"
| "callback (Rq_init dev) w p e st = init_cb w p e st"
| "callback _ w p e st = common_cb w e st"

subsection \<open>Operations\<close>

definition spdk_call ::
  "handle \<Rightarrow> nat \<Rightarrow> blob_val \<Rightarrow> request \<Rightarrow> (u64 \<times> int) option \<Rightarrow> (blob_val \<Rightarrow> (blob_val, exn) body) \<Rightarrow> blob_st \<Rightarrow> blob_res" where
  "spdk_call h w v rq sync k st =
     (let st = st\<lparr>brt := upd_awaker w (\<lambda>_. fresh_awaker v) (brt st)\<rparr> in
      bind_err
        (case sync of
           None \<Rightarrow> Inr (st\<lparr>inflight := (inflight st)(w \<mapsto> rq)\<rparr>)
         | Some (p, e) \<Rightarrow> callback rq w p e (st\<lparr>lost := insert w (lost st)\<rparr>))
        (\<lambda>st. Inr (st\<lparr>brt := run_body h (Co_await w k) (brt st)\<rparr>)))"

definition Blob_resize :: "handle \<Rightarrow> Blob \<Rightarrow> nat \<Rightarrow> u64 \<Rightarrow> (u64 \<times> int) option \<Rightarrow> blob_st \<Rightarrow> blob_res" where
  "Blob_resize h b w sz sync = spdk_call h w (B_int 0) (Rq_resize (blob_ptr b) sz) sync Co_return"

definition Blob_get_num_clusters :: "(u64 \<Rightarrow> u64) \<Rightarrow> Blob \<Rightarrow> u64" where
  "Blob_get_num_clusters spdk_blob_get_num_clusters b = spdk_blob_get_num_clusters (blob_ptr b)"

definition Blob_sync_meta_data :: "handle \<Rightarrow> Blob \<Rightarrow> nat \<Rightarrow> (u64 \<times> int) option \<Rightarrow> blob_st \<Rightarrow> blob_res" where
  "Blob_sync_meta_data h b w sync = spdk_call h w (B_int 0) (Rq_sync_md (blob_ptr b)) sync Co_return"

definition Blob_write :: "handle \<Rightarrow> Blob \<Rightarrow> nat \<Rightarrow> u64 \<Rightarrow> u64 \<Rightarrow> u64 \<Rightarrow> (u64 \<times> int) option \<Rightarrow> blob_st \<Rightarrow> blob_res" where
  "Blob_write h b w buf offset len sync =
     spdk_call h w (B_int 0) (Rq_write (blob_ptr b) (channel b) buf offset len) sync Co_return"

definition Blob_read :: "handle \<Rightarrow> Blob \<Rightarrow> nat \<Rightarrow> u64 \<Rightarrow> u64 \<Rightarrow> u64 \<Rightarrow> (u64 \<times> int) option \<Rightarrow> blob_st \<Rightarrow> blob_res" where
  "Blob_read h b w buf offset len sync =
     spdk_call h w (B_int 0) (Rq_read (blob_ptr b) (channel b) buf offset len) sync Co_return"

definition free_cluster_count :: "(u64 \<Rightarrow> u64) \<Rightarrow> u64 \<Rightarrow> u64" where
  "free_cluster_count spdk_bs_free_cluster_count bs = spdk_bs_free_cluster_count bs"

definition get_io_unit_size :: "(u64 \<Rightarrow> u64) \<Rightarrow> u64 \<Rightarrow> u64" where
  "get_io_unit_size spdk_bs_get_io_unit_size bs = spdk_bs_get_io_unit_size bs"

text \<open>\<^verbatim>\<open>make_blob\<close>, up to the first await, from there to the second, and from there to the end.\<close>

definition make_blob :: "handle \<Rightarrow> u64 \<Rightarrow> nat \<Rightarrow> (u64 \<times> int) option \<Rightarrow> blob_st \<Rightarrow> blob_res" where
  "make_blob h bs w sync = spdk_call h w (B_id 0) (Rq_create bs) sync Co_return"

definition make_blob_open :: "u64 \<Rightarrow> nat \<Rightarrow> (u64 \<times> int) option \<Rightarrow> blob_st \<Rightarrow> blob_res" where
  "make_blob_open bs w sync st =
     (case stack (brt st) of
        A_Body h (Co_return (B_id i)) # _ \<Rightarrow> spdk_call h w (B_ptr 0) (Rq_open bs i) sync Co_return st
      | _ \<Rightarrow> Inl Wrong_stage)"

definition make_blob_channel :: "u64 \<Rightarrow> blob_st \<Rightarrow> blob_res" where
  "make_blob_channel ch st =
     (case stack (brt st) of
        A_Body h (Co_return (B_ptr p)) # _ \<Rightarrow>
          Inr (st\<lparr>brt := run_body h (Co_return (B_blob \<lparr>blob_ptr = p, channel = ch\<rparr>)) (brt st)\<rparr>)
      | _ \<Rightarrow> Inl Wrong_stage)"

fun to_store :: "blob_val \<Rightarrow> blob_val" where
  "to_store (B_ptr p) = B_store p"
| "to_store v = v"

definition init_blobstore :: "handle \<Rightarrow> u64 \<Rightarrow> nat \<Rightarrow> (u64 \<times> int) option \<Rightarrow> blob_st \<Rightarrow> blob_res" where
  "init_blobstore h dev w sync = spdk_call h w (B_ptr 0) (Rq_init dev) sync (\<lambda>v. Co_return (to_store v))"

text \<open>\<^verbatim>\<open>BlobEventLoop::poll\<close>: SPDK's poll makes the callbacks \<open>cbs\<close>, each once.\<close>

fun event_loop_poll :: "(nat \<times> u64 \<times> int) list \<Rightarrow> blob_st \<Rightarrow> blob_res" where
  "event_loop_poll [] st = Inr st"
| "event_loop_poll ((w, p, e) # cbs) st =
     (case inflight st w of
        None \<Rightarrow> Inl Stray_callback
      | Some rq \<Rightarrow> bind_err (callback rq w p e (st\<lparr>inflight := (inflight st)(w := None)\<rparr>)) (event_loop_poll cbs))"

definition make_event_loop :: "u64 \<Rightarrow> exn + u64" where
  "make_event_loop thread = (if thread = 0 then Inl Bad_alloc else Inr thread)"

definition make_blob_dev :: "int \<Rightarrow> u64 \<Rightarrow> exn + u64" where
  "make_blob_dev rc bs_dev = (if rc \<noteq> 0 then Inl (System_error System_category rc) else Inr bs_dev)"

definition dma_alloc :: "(u64 \<Rightarrow> u64 \<Rightarrow> u64 \<Rightarrow> int \<Rightarrow> u32 \<Rightarrow> u64) \<Rightarrow> u64 \<Rightarrow> u64 \<Rightarrow> int \<Rightarrow> u32 \<Rightarrow> u64" where
  "dma_alloc spdk_malloc sz align socket_id fl = spdk_malloc sz align 0 socket_id fl"

subsection \<open>Set-up\<close>

text \<open>
  What SPDK answers during \<^verbatim>\<open>BlobEnv::setup\<close>: return codes, the new thread (\<open>0\<close> for none), the
  callbacks made by \<^verbatim>\<open>spdk_subsystem_load_config\<close> itself and by each poll of the thread, as
  the list of their \<^verbatim>\<open>rc\<close>, whether \<^verbatim>\<open>spdk_rpc_set_state\<close> took effect, and after how many polls the
  thread has exited. One callback is outstanding at a time.
\<close>

record setup_answers =
  env_init_rc :: int
  thread_lib_rc :: int
  new_thread :: u64
  load_cbs :: "int list"
  poll_cbs :: "nat \<Rightarrow> int list"
  rpc_runtime :: bool
  exited :: "nat \<Rightarrow> bool"

datatype setup_stage = Loading | Initialising | Configuring | Woken int | Aborted

fun setup_cb :: "bool \<Rightarrow> setup_stage \<Rightarrow> int \<Rightarrow> setup_stage" where
  "setup_cb rpc Loading rc = (if rc \<noteq> 0 then Woken rc else Initialising)"
| "setup_cb rpc Initialising rc = (if rc \<noteq> 0 then Woken rc else if rpc then Configuring else Aborted)"
| "setup_cb rpc Configuring rc = Woken rc"
| "setup_cb rpc s rc = s"

partial_function (option) wait_awaked :: "setup_answers \<Rightarrow> nat \<Rightarrow> setup_stage \<Rightarrow> setup_stage option" where
  "wait_awaked a i s =
     (case s of
        Woken rc \<Rightarrow> Some s
      | Aborted \<Rightarrow> Some s
      | _ \<Rightarrow> wait_awaked a (Suc i) (foldl (setup_cb (rpc_runtime a)) s (poll_cbs a i)))"

partial_function (option) wait_exited :: "setup_answers \<Rightarrow> nat \<Rightarrow> nat option" where
  "wait_exited a i = (if exited a i then Some i else wait_exited a (Suc i))"

definition return_rc :: "handle \<Rightarrow> int \<Rightarrow> blob_st \<Rightarrow> blob_st" where
  "return_rc h rc st = st\<lparr>brt := run_body h (Co_return (B_int rc)) (brt st)\<rparr>"

text \<open>\<^verbatim>\<open>CheckableAwaker\<close>, woken with \<open>rc\<close> before any coroutine waits on it.\<close>

definition awaked_awaker :: "int \<Rightarrow> blob_val awaker" where
  "awaked_awaker rc = \<lparr>aw_handle = 0, aw_ret = B_int rc, checkable = True, awaked = True\<rparr>"

definition BlobEnv_setup :: "handle \<Rightarrow> nat \<Rightarrow> setup_answers \<Rightarrow> blob_st \<Rightarrow> blob_res option" where
  "BlobEnv_setup h w a st =
     (if env_init_rc a \<noteq> 0 then Some (Inr (return_rc h (env_init_rc a) st))
      else if thread_lib_rc a \<noteq> 0 then Some (Inr (return_rc h (thread_lib_rc a) st))
      else if new_thread a = 0 then Some (Inr (return_rc h (- 1) st))
      else
        Option.bind (wait_awaked a 0 (foldl (setup_cb (rpc_runtime a)) Loading (load_cbs a))) (\<lambda>s.
          case s of
            Woken rc \<Rightarrow>
              map_option (\<lambda>_. Inr (st\<lparr>brt := run_body h (Co_await w Co_return) (upd_awaker w (\<lambda>_. awaked_awaker rc) (brt st))\<rparr>))
                (wait_exited a 0)
          | _ \<Rightarrow> Some (Inl Bserrno_assert)))"

end
