(* ===== verification/Blob_Safety.thy ===== *)
theory Blob_Safety
  imports Blob
begin

text \<open>
  The blob store wrappers on top of the coroutine runtime. Every legal call of a program refines
  the abstract machine of \<open>Async\<close>, with the awakers whose addresses SPDK holds, so every callback
  finds the coroutine that waits for it; unless it comes before the \<^verbatim>\<open>co_await\<close>.
\<close>

subsection \<open>Programs\<close>

datatype blob_call =
    Blob_run "(blob_val, exn) call"
  | Call_resize Blob nat u64 "(u64 \<times> int) option"
  | Call_sync_md Blob nat "(u64 \<times> int) option"
  | Call_write Blob nat u64 u64 u64 "(u64 \<times> int) option"
  | Call_read Blob nat u64 u64 u64 "(u64 \<times> int) option"
  | Call_make_blob u64 nat "(u64 \<times> int) option"
  | Call_open u64 nat "(u64 \<times> int) option"
  | Call_channel u64
  | Call_init u64 nat "(u64 \<times> int) option"
  | Call_poll "(nat \<times> u64 \<times> int) list"

definition top_handle :: "blob_st \<Rightarrow> handle" where
  "top_handle st = (case stack (brt st) of A_Body h b # _ \<Rightarrow> h | _ \<Rightarrow> 0)"

fun blob_exec :: "blob_call \<Rightarrow> blob_st \<Rightarrow> blob_res" where
  "blob_exec (Blob_run c) st = (case core_exec c (brt st) of Inl e \<Rightarrow> Inl (Blob_core e) | Inr s \<Rightarrow> Inr (st\<lparr>brt := s\<rparr>))"
| "blob_exec (Call_resize b w n sync) st = Blob_resize (top_handle st) b w n sync st"
| "blob_exec (Call_sync_md b w sync) st = Blob_sync_meta_data (top_handle st) b w sync st"
| "blob_exec (Call_write b w buf off n sync) st = Blob_write (top_handle st) b w buf off n sync st"
| "blob_exec (Call_read b w buf off n sync) st = Blob_read (top_handle st) b w buf off n sync st"
| "blob_exec (Call_make_blob bs w sync) st = make_blob (top_handle st) bs w sync st"
| "blob_exec (Call_open bs w sync) st = make_blob_open bs w sync st"
| "blob_exec (Call_channel ch) st = make_blob_channel ch st"
| "blob_exec (Call_init dev w sync) st = init_blobstore (top_handle st) dev w sync st"
| "blob_exec (Call_poll cbs) st = event_loop_poll cbs st"

definition hooked :: "blob_st \<Rightarrow> nat set" where
  "hooked st = dom (inflight st) \<union> lost st"

text \<open>A body that \<^verbatim>\<open>make_blob\<close> has to take further.\<close>

fun mid_make_blob :: "(blob_val, exn) body \<Rightarrow> bool" where
  "mid_make_blob (Co_return (B_id i)) = True"
| "mid_make_blob (Co_return (B_ptr p)) = True"
| "mid_make_blob b = False"

definition top_body :: "blob_st \<Rightarrow> (blob_val, exn) body option" where
  "top_body st = (case stack (brt st) of A_Body h b # _ \<Rightarrow> Some b | _ \<Rightarrow> None)"

fun awaits_open :: "(blob_val, exn) body option \<Rightarrow> bool" where
  "awaits_open (Some (Co_return (B_id i))) = True"
| "awaits_open b = False"

fun awaits_channel :: "(blob_val, exn) body option \<Rightarrow> bool" where
  "awaits_channel (Some (Co_return (B_ptr p))) = True"
| "awaits_channel b = False"

lemma awaits_iff: "awaits_open b \<longleftrightarrow> (\<exists>i. b = Some (Co_return (B_id i)))" "awaits_channel b \<longleftrightarrow> (\<exists>p. b = Some (Co_return (B_ptr p)))"
  by (cases b rule: awaits_open.cases; simp) (cases b rule: awaits_channel.cases; simp)

fun has_status :: "request \<Rightarrow> bool" where
  "has_status (Rq_create bs) = False"
| "has_status (Rq_open bs i) = False"
| "has_status (Rq_init dev) = False"
| "has_status rq = True"

definition may_call :: "nat \<Rightarrow> blob_st \<Rightarrow> bool" where
  "may_call w st \<longleftrightarrow> calling (hooked st) (brt st) (top_handle st) \<and> w \<notin> hooked st \<and> handles (brt st) w = 0"

definition no_error :: "(u64 \<times> int) option \<Rightarrow> bool" where
  "no_error sync \<longleftrightarrow> (case sync of None \<Rightarrow> True | Some (p, e) \<Rightarrow> e = 0)"

text \<open>
  The running coroutine calls with an awaker of its own; SPDK calls back once for each request,
  and does not fail to create or open a blob or to initialise a store.
\<close>

fun blob_legal :: "nat \<Rightarrow> blob_call \<Rightarrow> blob_st \<Rightarrow> bool" where
  "blob_legal k (Blob_run c) st \<longleftrightarrow> legal k c (brt st) \<and> leaves (hooked st) c (brt st) \<and>
     (case top_body st of None \<Rightarrow> True | Some b \<Rightarrow> \<not> mid_make_blob b)"
| "blob_legal k (Call_resize b w n sync) st \<longleftrightarrow> may_call w st"
| "blob_legal k (Call_sync_md b w sync) st \<longleftrightarrow> may_call w st"
| "blob_legal k (Call_write b w buf off n sync) st \<longleftrightarrow> may_call w st"
| "blob_legal k (Call_read b w buf off n sync) st \<longleftrightarrow> may_call w st"
| "blob_legal k (Call_make_blob bs w sync) st \<longleftrightarrow> may_call w st \<and> no_error sync"
| "blob_legal k (Call_open bs w sync) st \<longleftrightarrow> may_call w st \<and> no_error sync \<and> awaits_open (top_body st)"
| "blob_legal k (Call_channel ch) st \<longleftrightarrow> awaits_channel (top_body st)"
| "blob_legal k (Call_init dev w sync) st \<longleftrightarrow> may_call w st \<and> no_error sync"
| "blob_legal k (Call_poll cbs) st \<longleftrightarrow> calling (hooked st) (brt st) (top_handle st) \<and> distinct (map fst cbs) \<and>
     (\<forall>(w, p, e) \<in> set cbs. case inflight st w of None \<Rightarrow> False | Some rq \<Rightarrow> has_status rq \<or> e = 0)"

subsection \<open>Invariant\<close>

text \<open>What a coroutine does with the outcome of its request, and what the outcome is.\<close>

fun cont_of :: "request \<Rightarrow> blob_val \<Rightarrow> (blob_val, exn) body" where
  "cont_of (Rq_init dev) = (\<lambda>v. Co_return (to_store v))"
| "cont_of rq = Co_return"

fun value_of :: "request \<Rightarrow> u64 \<Rightarrow> int \<Rightarrow> blob_val" where
  "value_of (Rq_create bs) p e = B_id p"
| "value_of (Rq_open bs i) p e = B_ptr p"
| "value_of (Rq_init dev) p e = B_ptr p"
| "value_of rq p e = B_int e"

definition blob_inv :: "nat \<Rightarrow> blob_st \<Rightarrow> bool" where
  "blob_inv k st \<longleftrightarrow> async_inv k (brt st, hooked st) \<and> dom (inflight st) \<inter> lost st = {} \<and>
     (\<forall>w rq. inflight st w = Some rq \<longrightarrow> waits (brt st) w (cont_of rq))"

lemma blob_invD:
  assumes "blob_inv k st"
  shows "async_inv k (brt st, hooked st)" "core_inv k (brt st)" "dom (inflight st) \<inter> lost st = {}"
    "inflight st w = Some rq \<Longrightarrow> waits (brt st) w (cont_of rq)"
  using assms by (auto simp: blob_inv_def async_inv_def)

lemma inflight_hooked: "inflight st w = Some rq \<Longrightarrow> w \<in> hooked st"
  by (auto simp: hooked_def)

text \<open>A step of the abstract machine keeps the requests in flight waiting.\<close>

lemma blob_step_inv:
  assumes inv: "blob_inv k st" and step: "async_step k (brt st, hooked st) (brt st', hooked st')"
    and d: "dom (inflight st') \<inter> lost st' = {}"
    and new: "\<And>w rq. inflight st' w = Some rq \<Longrightarrow> inflight st w = Some rq \<or> waits (brt st') w (cont_of rq)"
  shows "blob_inv k st'"
proof -
  note I = blob_invD [OF inv]
  have "waits (brt st') w (cont_of rq)" if w: "inflight st' w = Some rq" for w rq
    using new [OF w] async_step_waits [OF step I(1), of w] I(4) [of w rq] inflight_hooked [of st w] inflight_hooked [OF w] by auto
  then show ?thesis using async_step_inv [OF step I(1)] d by (simp add: blob_inv_def)
qed

lemma callback_wakes:
  "has_status rq \<or> e = 0 \<Longrightarrow> callback rq w p e st = wake_with w (value_of rq p e) st"
  by (cases rq) (simp_all add: common_cb_def create_cb_def open_cb_def init_cb_def)

lemma spdk_call_inv:
  assumes inv: "blob_inv k st" and c: "may_call w st" "top_handle st = h" "has_status rq \<or> no_error sync"
  shows "\<exists>st'. spdk_call h w v rq sync (cont_of rq) st = Inr st' \<and> blob_inv k st' \<and> lost st \<subseteq> lost st' \<and>
    (sync = None \<longrightarrow> inflight st' = (inflight st)(w \<mapsto> rq)) \<and> (sync \<noteq> None \<longrightarrow> w \<in> lost st')"
proof -
  note I = blob_invD [OF inv]
  have h: "calling (hooked st) (brt st) h" and w: "w \<notin> hooked st" "handles (brt st) w = 0" using c by (simp_all add: may_call_def)
  have post: "async_step k (brt st, hooked st) (run_body h (Co_await w (cont_of rq)) (upd_awaker w (\<lambda>_. fresh_awaker x) (brt st)), insert w (hooked st))" for x
    by (rule async_step.post [OF h w])
  have waits: "waits (run_body h (Co_await w g) (upd_awaker w (\<lambda>_. fresh_awaker x) s)) w g" for g x and s :: "(blob_val, exn) core"
    by (auto simp: waits_def about_def run_body_def fresh_awaker_def handles_def awakers_upd)
  have d: "dom (inflight st) \<inter> lost st = {}" "w \<notin> dom (inflight st)" "w \<notin> lost st" using I(3) w(1) by (auto simp: hooked_def)
  show ?thesis
  proof (cases sync)
    case None
    let ?st = "st\<lparr>inflight := (inflight st)(w \<mapsto> rq), brt := run_body h (Co_await w (cont_of rq)) (upd_awaker w (\<lambda>_. fresh_awaker v) (brt st))\<rparr>"
    have "blob_inv k ?st"
      by (rule blob_step_inv [OF inv]) (use post [of v] waits d in \<open>auto simp: hooked_def split: if_splits\<close>)
    then show ?thesis using None by (simp add: spdk_call_def Let_def)
  next
    case (Some y)
    obtain p e where y: "y = (p, e)" by fastforce
    let ?x = "value_of rq p e"
    let ?st = "st\<lparr>lost := insert w (lost st), brt := run_body h (Co_await w (cont_of rq)) (upd_awaker w (\<lambda>_. fresh_awaker ?x) (brt st))\<rparr>"
    have "blob_inv k ?st"
      by (rule blob_step_inv [OF inv]) (use post [of ?x] d in \<open>auto simp: hooked_def\<close>)
    moreover have "aw_wake w ?x (upd_awaker w (\<lambda>_. fresh_awaker v) (brt st)) = Inr (upd_awaker w (\<lambda>_. fresh_awaker ?x) (brt st))"
      by (simp add: aw_wake_def awakers_upd fresh_awaker_def) (simp add: upd_awaker_def)
    ultimately show ?thesis using Some y c(3) callback_wakes [of rq e w p]
      by (auto simp: spdk_call_def Let_def wake_with_def no_error_def)
  qed
qed

lemma calling_mono: "calling B s h \<Longrightarrow> stack s' = stack s \<Longrightarrow> B' \<subseteq> B \<Longrightarrow> calling B' s' h"
  by (auto simp: calling_def split: list.splits activation.splits body.splits)

text \<open>A callback from the event loop.\<close>

lemma complete_request:
  assumes inv: "blob_inv k st" and c: "calling (hooked st) (brt st) h" and w: "inflight st w = Some rq" "has_status rq \<or> e = 0"
  obtains x s where "susp_at (brt st) x = Some (S_Awaker w (cont_of rq))" "aw_wake w (value_of rq p e) (brt st) = Inr s"
    "callback rq w p e (st\<lparr>inflight := (inflight st)(w := None)\<rparr>) = Inr (st\<lparr>inflight := (inflight st)(w := None), brt := s\<rparr>)"
    "blob_inv k (st\<lparr>inflight := (inflight st)(w := None), brt := s\<rparr>)" "stack s = stack (brt st)"
    "aw_ret (awakers s w) = value_of rq p e" "\<And>u. u \<noteq> w \<Longrightarrow> awakers s u = awakers (brt st) u"
    "if length (pending k (brt st)) < unat (capacity (queue (brt st))) then pending k s = pending k (brt st) @ [x] else x \<in> set (dropped s)"
proof -
  note I = blob_invD [OF inv] and W = inflight_hooked [OF w(1)]
  let ?v = "value_of rq p e"
  have n: "\<not> about (brt st) w" by (rule callingD(2) [OF c W])
  then have pk: "parked k (brt st) w" using I(1) W by (auto simp: async_inv_def)
  obtain x where x: "susp_at (brt st) x = Some (S_Awaker w (cont_of rq))"
    using waits_parked [OF I(2) pk I(4) [OF w(1)]] by metis
  obtain x' g s where s: "susp_at (brt st) x' = Some (S_Awaker w g)" "aw_wake w ?v (brt st) = Inr s" "aw_ret (awakers s w) = ?v"
      "stack s = stack (brt st)" "\<And>u. u \<noteq> w \<Longrightarrow> awakers s u = awakers (brt st) u"
      "if length (pending k (brt st)) < unat (capacity (queue (brt st))) then pending k s = pending k (brt st) @ [x'] else x' \<in> set (dropped s)"
    using complete_delivers [OF I(2) pk, of ?v] by metis
  have x': "x' = x" by (rule one_waiter [OF I(2) x s(1)])
  let ?st = "st\<lparr>inflight := (inflight st)(w := None), brt := s\<rparr>"
  have "hooked ?st = hooked st - {w}" using I(3) w(1) by (auto simp: hooked_def)
  then have step: "async_step k (brt st, hooked st) (brt ?st, hooked ?st)" using async_step.complete [OF W n s(2)] by simp
  have i: "blob_inv k ?st" by (rule blob_step_inv [OF inv step]) (use I(3) in \<open>auto split: if_splits\<close>)
  have cb: "callback rq w p e (st\<lparr>inflight := (inflight st)(w := None)\<rparr>) = Inr ?st"
    using callback_wakes [OF w(2)] s(2) by (simp add: wake_with_def)
  show thesis by (rule that [OF x s(2) cb i s(4,3,5) s(6) [unfolded x']])
qed

lemma poll_inv:
  "blob_inv k st \<Longrightarrow> blob_legal k (Call_poll cbs) st \<Longrightarrow> \<exists>st'. event_loop_poll cbs st = Inr st' \<and> blob_inv k st' \<and> lost st' = lost st"
proof (induction cbs arbitrary: st)
  case (Cons c cbs)
  obtain w p e where c: "c = (w, p, e)" by (cases c)
  have l: "calling (hooked st) (brt st) (top_handle st)" "distinct (map fst cbs)" "w \<notin> fst ` set cbs"
    "\<forall>(w, p, e) \<in> set ((w, p, e) # cbs). case inflight st w of None \<Rightarrow> False | Some rq \<Rightarrow> has_status rq \<or> e = 0"
    using Cons.prems(2) c by auto
  then obtain rq where rq: "inflight st w = Some rq" "has_status rq \<or> e = 0" by (auto split: option.splits)
  obtain s where s: "callback rq w p e (st\<lparr>inflight := (inflight st)(w := None)\<rparr>) = Inr (st\<lparr>inflight := (inflight st)(w := None), brt := s\<rparr>)"
      "blob_inv k (st\<lparr>inflight := (inflight st)(w := None), brt := s\<rparr>)" "stack s = stack (brt st)"
    by (rule complete_request [OF Cons.prems(1) l(1) rq, where p = p]) (use that in blast)
  let ?st = "st\<lparr>inflight := (inflight st)(w := None), brt := s\<rparr>"
  have "hooked ?st \<subseteq> hooked st" by (auto simp: hooked_def)
  then have "calling (hooked ?st) (brt ?st) (top_handle ?st)"
    using calling_mono [OF l(1)] s(3) by (simp add: top_handle_def)
  moreover have "\<forall>(u, p, e) \<in> set cbs. case inflight ?st u of None \<Rightarrow> False | Some rq \<Rightarrow> has_status rq \<or> e = 0"
    using l(3,4) by force
  ultimately have "blob_legal k (Call_poll cbs) ?st" using l(2) by simp
  then show ?case using Cons.IH [OF s(2)] rq(1) s(1) c by auto
qed simp

subsection \<open>Every legal call\<close>

lemma top_handle_body: "calling B (brt st) (top_handle st) \<Longrightarrow> \<exists>b rest. stack (brt st) = A_Body (top_handle st) b # rest"
  using callingD(1) by blast

lemma blob_exec_ok:
  assumes inv: "blob_inv k st" and l: "blob_legal k c st"
  shows "\<exists>st'. blob_exec c st = Inr st' \<and> blob_inv k st' \<and> lost st \<subseteq> lost st'"
proof -
  note I = blob_invD [OF inv]
  have call: "\<exists>st'. spdk_call (top_handle st) w v rq sync g st = Inr st' \<and> blob_inv k st' \<and> lost st \<subseteq> lost st'"
    if "may_call w st" "has_status rq \<or> no_error sync" "g = cont_of rq" for w v rq sync g
    using spdk_call_inv [OF inv that(1) refl that(2), of v] that(3) by blast
  show ?thesis
  proof (cases c)
    case (Blob_run c')
    then obtain s where s: "core_exec c' (brt st) = Inr s" using core_exec_inv [OF I(2)] l by auto
    let ?st = "st\<lparr>brt := s\<rparr>"
    have "async_step k (brt st, hooked st) (s, hooked st)" using Blob_run l s by (intro async_step.call) auto
    then have "async_step k (brt st, hooked st) (brt ?st, hooked ?st)" by (simp add: hooked_def)
    then have "blob_inv k ?st" by (rule blob_step_inv [OF inv]) (use I(3) in simp_all)
    then show ?thesis using Blob_run s by simp
  next
    case (Call_open bs w sync)
    then obtain i where i: "top_body st = Some (Co_return (B_id i))" "may_call w st" "no_error sync" using l awaits_iff by auto
    then have "make_blob_open bs w sync st = spdk_call (top_handle st) w (B_ptr 0) (Rq_open bs i) sync Co_return st"
      by (auto simp: top_body_def top_handle_def make_blob_open_def split: list.splits activation.splits)
    then show ?thesis using Call_open call [of w "Rq_open bs i" sync Co_return] i by (simp add: fun_eq_iff)
  next
    case (Call_channel ch)
    then obtain p where p: "top_body st = Some (Co_return (B_ptr p))" using l awaits_iff by auto
    let ?st = "st\<lparr>brt := run_body (top_handle st) (Co_return (B_blob \<lparr>blob_ptr = p, channel = ch\<rparr>)) (brt st)\<rparr>"
    have e: "make_blob_channel ch st = Inr ?st"
      using p by (auto simp: top_body_def top_handle_def make_blob_channel_def split: list.splits activation.splits)
    have "calling (hooked st) (brt st) (top_handle st)"
      using p by (auto simp: calling_def top_body_def top_handle_def split: list.splits activation.splits)
    then have "async_step k (brt st, hooked st) (brt ?st, hooked ?st)" using async_step.go_on by (simp add: hooked_def)
    then have "blob_inv k ?st" by (rule blob_step_inv [OF inv]) (use I(3) in simp_all)
    then show ?thesis using Call_channel e by simp
  next
    case (Call_poll cbs)
    then show ?thesis using poll_inv [OF inv, of cbs] l by auto
  qed (use l call in \<open>simp_all add: Blob_resize_def Blob_sync_meta_data_def Blob_write_def Blob_read_def make_blob_def init_blobstore_def fun_eq_iff\<close>)
qed

definition blob_init :: "nat \<Rightarrow> blob_st \<Rightarrow> bool" where
  "blob_init k st \<longleftrightarrow> core_init k (brt st) \<and> inflight st = Map.empty \<and> lost st = {}"

inductive blob_step :: "nat \<Rightarrow> blob_st \<Rightarrow> blob_st \<Rightarrow> bool" for k :: nat where
  step: "blob_legal k c st \<Longrightarrow> blob_exec c st = Inr st' \<Longrightarrow> blob_step k st st'"

lemma blob_init_inv: "blob_init k st \<Longrightarrow> blob_inv k st"
  using core_init_inv [of k "brt st"] by (simp add: blob_init_def blob_inv_def async_inv_def hooked_def)

lemma blob_stepD: "blob_step k st st' \<Longrightarrow> blob_inv k st \<Longrightarrow> blob_inv k st' \<and> lost st \<subseteq> lost st'"
  by (cases rule: blob_step.cases, assumption) (use blob_exec_ok [of k st] in fastforce)

interpretation blob: inductive_invariant "blob_init k" "blob_step k" "blob_inv k" for k
  by unfold_locales (use blob_init_inv blob_stepD in blast)+

abbreviation blob_reach :: "nat \<Rightarrow> blob_st \<Rightarrow> bool" where
  "blob_reach k \<equiv> reach (blob_init k) (blob_step k)"

lemma lost_stays: "(blob_step k)\<^sup>*\<^sup>* st st' \<Longrightarrow> blob_inv k st \<Longrightarrow> lost st \<subseteq> lost st'"
proof (induction rule: rtranclp_induct)
  case (step u v)
  then have "blob_inv k u" using blob.steps_inv by blast
  then show ?case using step blob_stepD by blast
qed simp

end
