(* ===== verification/Blob_Properties.thy ===== *)
theory Blob_Properties
  imports Blob_Safety
begin

text \<open>
  Properties of the storage wrappers (\<^verbatim>\<open>src/io/blob/blob.hpp\<close>) in every state that legal calls
  reach: every call succeeds, callbacks resume the coroutine that waits for them, a callback
  that comes too early is lost, and the polling loops of the set-up end.
\<close>

subsection \<open>Concrete runs\<close>

text \<open>The rules in a form that computes.\<close>

definition is_hooked :: "nat \<Rightarrow> blob_st \<Rightarrow> bool" where
  "is_hooked w st \<longleftrightarrow> inflight st w \<noteq> None \<or> w \<in> lost st"

definition calls_at :: "blob_st \<Rightarrow> (blob_val, exn) core \<Rightarrow> handle \<Rightarrow> bool" where
  "calls_at st s h \<longleftrightarrow> (case stack s of A_Body x b # _ \<Rightarrow> x = h \<and> (case b of Co_await w g \<Rightarrow> \<not> is_hooked w st | _ \<Rightarrow> True) | _ \<Rightarrow> False)"

fun leaves_hooked :: "blob_st \<Rightarrow> (blob_val, exn) call \<Rightarrow> (blob_val, exn) core \<Rightarrow> bool" where
  "leaves_hooked st (Tick addr) s \<longleftrightarrow> (case stack s of A_Body h (Wake w v b) # _ \<Rightarrow> \<not> is_hooked w st | _ \<Rightarrow> True)"
| "leaves_hooked st (X_Wake w v) s \<longleftrightarrow> \<not> is_hooked w st"
| "leaves_hooked st _ s \<longleftrightarrow> True"

lemma hooked_code [code_unfold]:
  "w \<in> hooked st \<longleftrightarrow> is_hooked w st" "calling (hooked st) s h \<longleftrightarrow> calls_at st s h" "leaves (hooked st) c s \<longleftrightarrow> leaves_hooked st c s"
proof -
  show *: "w \<in> hooked st \<longleftrightarrow> is_hooked w st" for w by (auto simp: hooked_def is_hooked_def)
  show "calling (hooked st) s h \<longleftrightarrow> calls_at st s h"
    by (auto simp: calling_def calls_at_def * split: list.split activation.split body.split)
  show "leaves (hooked st) c s \<longleftrightarrow> leaves_hooked st c s"
    by (cases c) (auto simp: * split: list.split activation.split body.split)
qed

fun blob_run :: "blob_call list \<Rightarrow> blob_st \<Rightarrow> blob_res" where
  "blob_run [] st = Inr st"
| "blob_run (c # cs) st = bind_err (blob_exec c st) (blob_run cs)"

lemma blob_run_append: "blob_run (cs @ cs') st = bind_err (blob_run cs st) (blob_run cs')"
proof (induction cs arbitrary: st)
  case (Cons c cs)
  then show ?case by (cases "blob_exec c st") simp_all
qed simp

fun blob_check :: "nat \<Rightarrow> blob_call list \<Rightarrow> blob_st \<Rightarrow> (blob_st \<Rightarrow> bool) \<Rightarrow> bool" where
  "blob_check k [] st p = p st"
| "blob_check k (c # cs) st p \<longleftrightarrow> blob_legal k c st \<and> (case blob_exec c st of Inl e \<Rightarrow> False | Inr st' \<Rightarrow> blob_check k cs st' p)"

lemma blob_check_steps:
  "blob_check k cs st p \<Longrightarrow> \<exists>st'. blob_run cs st = Inr st' \<and> p st' \<and> (blob_step k)\<^sup>*\<^sup>* st st'"
proof (induction cs arbitrary: st)
  case (Cons c cs)
  then obtain u where u: "blob_exec c st = Inr u" "blob_legal k c st" "blob_check k cs u p" by (auto split: sum.splits)
  then have "blob_step k st u" by (auto intro: blob_step.step)
  then show ?case using Cons.IH [OF u(3)] u(1) by (auto intro: converse_rtranclp_into_rtranclp)
qed simp

definition blob_start :: blob_st where
  "blob_start = \<lparr>brt = \<lparr>frames = Map.empty, awakers = (\<lambda>_. fresh_awaker B_unit), queue = init 4 (replicate 4 0), stopped = False,
     stack = [A_Loop], dropped = [], dangling = [], default_value = B_unit\<rparr>, inflight = Map.empty, lost = {}\<rparr>"

lemma blob_start_init: "blob_init 2 blob_start"
  by (simp add: blob_init_def blob_start_def core_init_def ring_inv_def sync_supported_def ring_layout_def unit_scale_def
      init_def ring_contents_def ring_count_def zero_ht_def fresh_awaker_def)

lemma blob_check_start:
  assumes "blob_check 2 cs blob_start p"
  shows "\<exists>st. blob_run cs blob_start = Inr st \<and> blob_reach 2 st \<and> p st"
proof -
  have "(blob_step k)\<^sup>*\<^sup>* s t \<Longrightarrow> blob_reach k s \<Longrightarrow> blob_reach k t" for k s t
    by (induction rule: rtranclp_induct) (auto intro: reach_step)
  then show ?thesis using blob_check_steps [OF assms] reach_init [of "blob_init 2", OF blob_start_init] by blast
qed

text \<open>A coroutine at address \<open>h\<close> is submitted and resumed, and makes a call; another one polls.\<close>

definition enter_at :: "handle \<Rightarrow> blob_call list" where
  "enter_at h = [Blob_run (X_Create h True (Co_yield (Co_return B_unit))), Blob_run (X_Submit h), Blob_run (Tick 0)]"

definition ticks_of :: "nat \<Rightarrow> blob_call list" where
  "ticks_of n = replicate n (Blob_run (Tick 0))"

definition a_blob :: Blob where
  "a_blob = \<lparr>blob_ptr = 4096, channel = 8192\<rparr>"

definition reading :: "blob_call list" where
  "reading = enter_at 256 @ [Call_read a_blob 1 65536 0 8 None] @ ticks_of 2 @ enter_at 512"



text \<open>
  C10. The callback of a request resumes the coroutine that made it, with the outcome: the
  coroutine suspended on the request's awaker goes to the end of the scheduler's ring (or is
  dropped when the ring is full), no other awaker is touched, and the coroutine goes on with
  the outcome the way its function does. So the tasks of \<^verbatim>\<open>resize\<close>, \<^verbatim>\<open>sync_meta_data\<close>, \<^verbatim>\<open>write\<close> and
  \<^verbatim>\<open>read\<close> return SPDK's \<^verbatim>\<open>bserrno\<close>.
\<close>

theorem callback_resumes_requester:
  assumes "blob_reach k st" "inflight st w = Some rq" "blob_legal k (Call_poll [(w, p, e)]) st"
  shows "\<exists>h st'. susp_at (brt st) h = Some (S_Awaker w (cont_of rq)) \<and> event_loop_poll [(w, p, e)] st = Inr st' \<and>
    inflight st' = (inflight st)(w := None) \<and> aw_ret (awakers (brt st') w) = value_of rq p e \<and>
    (has_status rq \<longrightarrow> cont_of rq (value_of rq p e) = Co_return (B_int e)) \<and>
    (\<forall>u. u \<noteq> w \<longrightarrow> awakers (brt st') u = awakers (brt st) u) \<and>
    (if length (pending k (brt st)) < unat (capacity (queue (brt st))) then pending k (brt st') = pending k (brt st) @ [h]
     else h \<in> set (dropped (brt st')))"
proof -
  have i: "blob_inv k st" by (rule blob.reach_inv [OF assms(1)])
  have c: "calling (hooked st) (brt st) (top_handle st)" "has_status rq \<or> e = 0" using assms(2,3) by auto
  have "has_status rq \<longrightarrow> cont_of rq (value_of rq p e) = Co_return (B_int e)" by (cases rq) simp_all
  then show ?thesis
    by (rule_tac complete_request [OF i c(1) assms(2) c(2), where p = p]) (use assms(2) in auto)
qed

theorem callback_resumes_requester_witness:
  "\<exists>h st st'. blob_run reading blob_start = Inr st \<and> susp_at (brt st) h = Some (S_Awaker 1 Co_return) \<and>
     event_loop_poll [(1, 0, - 5)] st = Inr st' \<and> aw_ret (awakers (brt st') 1) = B_int (- 5) \<and> pending 2 (brt st') = pending 2 (brt st) @ [h]"
proof -
  have "blob_check 2 reading blob_start (\<lambda>st. blob_legal 2 (Call_poll [(1, 0, - 5)]) st \<and>
      inflight st 1 = Some (Rq_read 4096 8192 65536 0 8) \<and> length (pending 2 (brt st)) < unat (capacity (queue (brt st))))"
    by code_simp
  from blob_check_start [OF this] obtain st where st: "blob_run reading blob_start = Inr st" "blob_reach 2 st"
      "blob_legal 2 (Call_poll [(1, 0, - 5)]) st" "inflight st 1 = Some (Rq_read 4096 8192 65536 0 8)"
      "length (pending 2 (brt st)) < unat (capacity (queue (brt st)))" by blast
  from callback_resumes_requester [OF st(2,4,3)] show ?thesis using st(1,5) by auto
qed

subsection \<open>Callbacks that come too early\<close>

text \<open>The awaker of a call that SPDK answers before it returns.\<close>

fun answered_at_once :: "blob_call \<Rightarrow> nat option" where
  "answered_at_once (Call_resize b w n (Some y)) = Some w"
| "answered_at_once (Call_sync_md b w (Some y)) = Some w"
| "answered_at_once (Call_write b w buf off n (Some y)) = Some w"
| "answered_at_once (Call_read b w buf off n (Some y)) = Some w"
| "answered_at_once (Call_make_blob bs w (Some y)) = Some w"
| "answered_at_once (Call_open bs w (Some y)) = Some w"
| "answered_at_once (Call_init dev w (Some y)) = Some w"
| "answered_at_once c = None"

lemma spdk_call_lost:
  assumes "spdk_call h w v rq (Some y) g st = Inr st'"
  shows "w \<in> lost st'"
proof -
  have "lost u' = lost u" if "callback rq w p e u = Inr u'" for p e u u'
    using that by (cases rq) (auto simp: common_cb_def create_cb_def open_cb_def init_cb_def wake_with_def split: sum.splits if_splits)
  then show ?thesis using assms by (force simp: spdk_call_def Let_def bind_err_Inr_iff split: prod.splits)
qed

text \<open>
  C36. A callback that SPDK makes before the call returns is lost: the coroutine suspends
  afterwards on an \<^verbatim>\<open>Awaker\<close>, which does not remember the wake, and is not resumed in any state
  that legal calls reach from there.
\<close>

theorem synchronous_callback_lost:
  assumes "blob_reach k st" "blob_legal k c st" "answered_at_once c = Some w" "blob_exec c st = Inr st1" "(blob_step k)\<^sup>*\<^sup>* st1 st2"
  shows "parked k (brt st2) w \<or> about (brt st2) w"
proof -
  have i: "blob_inv k st1" using blob_exec_ok [OF blob.reach_inv [OF assms(1)] assms(2)] assms(4) by auto
  have "w \<in> lost st1"
    using assms(3,4) by (cases c rule: answered_at_once.cases)
      (auto simp: Blob_resize_def Blob_sync_meta_data_def Blob_write_def Blob_read_def make_blob_def make_blob_open_def init_blobstore_def
        intro: spdk_call_lost split: list.splits activation.splits body.splits blob_val.splits)
  then have "w \<in> hooked st2" using lost_stays [OF assms(5) i] by (auto simp: hooked_def)
  then show ?thesis using blob_invD(1) [OF blob.steps_inv [OF assms(5) i]] by (simp add: async_inv_def)
qed

theorem synchronous_callback_lost_witness:
  "\<exists>st1 st2. blob_run (enter_at 256 @ [Call_write a_blob 1 65536 0 0 (Some (0, 0))]) blob_start = Inr st1 \<and>
     blob_run (ticks_of 8) st1 = Inr st2 \<and> (parked 2 (brt st2) 1 \<or> about (brt st2) 1)"
proof -
  let ?c = "Call_write a_blob 1 65536 0 0 (Some (0, 0))"
  have "blob_check 2 (enter_at 256) blob_start (\<lambda>st. blob_check 2 [?c] st (\<lambda>st1. blob_check 2 (ticks_of 8) st1 (\<lambda>_. True)))" by code_simp
  from blob_check_start [OF this] obtain st where s: "blob_run (enter_at 256) blob_start = Inr st" "blob_reach 2 st"
      "blob_check 2 [?c] st (\<lambda>st1. blob_check 2 (ticks_of 8) st1 (\<lambda>_. True))" by blast
  then obtain st1 where "blob_legal 2 ?c st" "blob_exec ?c st = Inr st1" "blob_check 2 (ticks_of 8) st1 (\<lambda>_. True)"
    by (cases "blob_exec ?c st") auto
  note st = s(1,2) this
  obtain st2 where st2: "blob_run (ticks_of 8) st1 = Inr st2" "(blob_step 2)\<^sup>*\<^sup>* st1 st2" using blob_check_steps [OF st(5)] by blast
  have "blob_run (enter_at 256 @ [?c]) blob_start = Inr st1" using blob_run_append [of "enter_at 256" "[?c]"] st(1,4) by simp
  then show ?thesis using synchronous_callback_lost [OF st(2,3) _ st(4) st2(2), of 1] st2(1) by auto
qed

text \<open>A failure to create or open a blob or to initialise a store fails an assertion in the callback.\<close>

lemma status_asserted: "\<not> has_status rq \<Longrightarrow> e \<noteq> 0 \<Longrightarrow> callback rq w p e st = Inl Bserrno_assert"
  by (cases rq) (simp_all add: create_cb_def open_cb_def init_cb_def)

subsection \<open>Set-up\<close>

text \<open>The return codes of loading the configuration, initialising and loading again: the first failure, or the last.\<close>

fun setup_outcome :: "int list \<Rightarrow> int option" where
  "setup_outcome (a # b # c # rcs) = Some (if a \<noteq> 0 then a else if b \<noteq> 0 then b else c)"
| "setup_outcome [a, b] = (if a \<noteq> 0 then Some a else if b \<noteq> 0 then Some b else None)"
| "setup_outcome [a] = (if a \<noteq> 0 then Some a else None)"
| "setup_outcome [] = None"

text \<open>The callbacks of the first \<open>n\<close> polls.\<close>

definition callbacks :: "setup_answers \<Rightarrow> nat \<Rightarrow> int list" where
  "callbacks a n = load_cbs a @ concat (map (poll_cbs a) [0..<n])"

abbreviation stage_after :: "setup_answers \<Rightarrow> nat \<Rightarrow> setup_stage" where
  "stage_after a n \<equiv> foldl (setup_cb True) Loading (callbacks a n)"

lemma foldl_Woken [simp]: "foldl (setup_cb rpc) (Woken v) rcs = Woken v"
  by (induction rcs) simp_all

lemma outcome_stage: "foldl (setup_cb True) Loading rcs = Woken v \<longleftrightarrow> setup_outcome rcs = Some v"
  by (cases rcs rule: setup_outcome.cases) auto

lemma not_Aborted: "s \<noteq> Aborted \<Longrightarrow> foldl (setup_cb True) s rcs \<noteq> Aborted"
proof (induction rcs arbitrary: s)
  case (Cons rc rcs)
  have "setup_cb True s rc \<noteq> Aborted" using Cons.prems by (cases s) simp_all
  then show ?case using Cons.IH by simp
qed simp

lemma stage_Suc: "stage_after a (Suc n) = foldl (setup_cb True) (stage_after a n) (poll_cbs a n)"
  by (simp add: callbacks_def)

lemma stage_later: "stage_after a n = Woken v \<Longrightarrow> stage_after a (n + d) = Woken v"
proof (induction d)
  case (Suc d)
  then show ?case using stage_Suc [of a "n + d"] by simp
qed simp

lemma wait_awaked_returns:
  assumes "rpc_runtime a"
  shows "stage_after a (n + d) = Woken v \<Longrightarrow> wait_awaked a n (stage_after a n) = Some (Woken v)"
proof (induction d arbitrary: n)
  case 0
  then show ?case by (simp add: wait_awaked.simps)
next
  case (Suc d)
  have next': "wait_awaked a (Suc n) (stage_after a (Suc n)) = Some (Woken v)" using Suc.IH [of "Suc n"] Suc.prems by simp
  show ?case
  proof (cases "stage_after a n")
    case (Woken u)
    then have "u = v" using stage_later [OF Woken, of "Suc d"] Suc.prems by simp
    then show ?thesis using Woken by (simp add: wait_awaked.simps)
  next
    case Aborted
    then show ?thesis using not_Aborted [of Loading] by blast
  qed (use next' assms in \<open>subst wait_awaked.simps; simp add: stage_Suc\<close>)+
qed

lemma wait_awaked_only:
  "wait_awaked a i s = Some s' \<Longrightarrow> rpc_runtime a \<longrightarrow> s = stage_after a i \<longrightarrow> (\<exists>n rc. stage_after a n = Woken rc \<and> s' = Woken rc)"
proof (rule wait_awaked.raw_induct [where P = "\<lambda>a i s s'. rpc_runtime a \<longrightarrow> s = stage_after a i \<longrightarrow> (\<exists>n rc. stage_after a n = Woken rc \<and> s' = Woken rc)"])
  fix f a i s s'
  assume f: "\<And>a i s s'. f a i s = Some s' \<Longrightarrow> rpc_runtime a \<longrightarrow> s = stage_after a i \<longrightarrow> (\<exists>n rc. stage_after a n = Woken rc \<and> s' = Woken rc)"
    and s': "(case s of Woken rc \<Rightarrow> Some s | Aborted \<Rightarrow> Some s | _ \<Rightarrow> f a (Suc i) (foldl (setup_cb (rpc_runtime a)) s (poll_cbs a i))) = Some s'"
  show "rpc_runtime a \<longrightarrow> s = stage_after a i \<longrightarrow> (\<exists>n rc. stage_after a n = Woken rc \<and> s' = Woken rc)"
    using s' f [of a "Suc i" "stage_after a (Suc i)" s'] not_Aborted [of Loading "callbacks a i"]
    by (cases s) (auto simp: stage_Suc intro: sym)
qed

lemma wait_exited_iff: "wait_exited a i = None \<longleftrightarrow> (\<forall>n\<ge>i. \<not> exited a n)"
proof
  show "\<forall>n\<ge>i. \<not> exited a n" if "wait_exited a i = None"
  proof (intro allI impI)
    fix n
    assume "i \<le> n"
    then show "\<not> exited a n" using that
      by (induction rule: inc_induct) (subst (asm) wait_exited.simps; simp split: if_splits)+
  qed
  have "\<exists>n\<ge>i. exited a n" if "wait_exited a i = Some m" for m
  proof (rule wait_exited.raw_induct [OF _ that, where P = "\<lambda>a i m. \<exists>n\<ge>i. exited a n"])
    fix f a i m
    assume "\<And>a i m. f a i = Some m \<Longrightarrow> \<exists>n\<ge>i. exited a n" "(if exited a i then Some i else f a (Suc i)) = Some m"
    then show "\<exists>n\<ge>i. exited a n" by (cases "exited a i") (auto, metis Suc_leD)
  qed
  then show "wait_exited a i = None" if "\<forall>n\<ge>i. \<not> exited a n" using that by (cases "wait_exited a i") auto
qed

text \<open>
  C20. \<^verbatim>\<open>BlobEnv::setup\<close> with a working environment and thread returns if and only if SPDK makes
  enough callbacks and the thread exits: the first polling loop ends when one of the three
  chained callbacks has failed or the last one has come, the second when the thread has
  exited. The result is then the first non-zero code of the chain, or the last code, and the
  \<^verbatim>\<open>co_await\<close> at the end finds it without suspending.
\<close>

theorem setup_terminates:
  assumes "env_init_rc a = 0" "thread_lib_rc a = 0" "new_thread a \<noteq> 0" "rpc_runtime a"
  shows "(BlobEnv_setup h w a st = None \<longleftrightarrow> \<not> ((\<exists>n. setup_outcome (callbacks a n) \<noteq> None) \<and> (\<exists>m. exited a m))) \<and>
    (\<forall>n m rc. setup_outcome (callbacks a n) = Some rc \<and> exited a m \<longrightarrow>
      (\<exists>st'. BlobEnv_setup h w a st = Some (Inr st') \<and>
        (\<forall>addr b rest. stack (brt st) = A_Body h b # rest \<longrightarrow>
          (\<exists>s. exec addr (brt st') = Inr s \<and> stack s = A_Body h (Co_return (B_int rc)) # rest \<and> frames s = frames (brt st)))))"
proof -
  have zero: "foldl (setup_cb True) Loading (load_cbs a) = stage_after a 0" by (simp add: callbacks_def)
  let ?fin = "\<lambda>rc. st\<lparr>brt := run_body h (Co_await w Co_return) (upd_awaker w (\<lambda>_. awaked_awaker rc) (brt st))\<rparr>"
  have eq: "BlobEnv_setup h w a st = Option.bind (wait_awaked a 0 (stage_after a 0)) (\<lambda>s.
      case s of Woken rc \<Rightarrow> map_option (\<lambda>_. Inr (?fin rc)) (wait_exited a 0) | _ \<Rightarrow> Some (Inl Bserrno_assert))"
    using assms zero by (simp add: BlobEnv_setup_def)
  have ends: "wait_awaked a 0 (stage_after a 0) = Some (Woken rc)" if "setup_outcome (callbacks a n) = Some rc" for n rc
    using wait_awaked_returns [OF assms(4), of 0 n rc] that by (simp add: outcome_stage)
  have exits: "wait_exited a 0 = None \<longleftrightarrow> (\<forall>m. \<not> exited a m)" by (simp add: wait_exited_iff)
  have run: "BlobEnv_setup h w a st = map_option (\<lambda>_. Inr (?fin rc)) (wait_exited a 0)" if "setup_outcome (callbacks a n) = Some rc" for n rc
    unfolding eq using ends [OF that] by simp
  have step: "\<exists>s. exec addr (brt (?fin rc)) = Inr s \<and> stack s = A_Body h (Co_return (B_int rc)) # rest \<and> frames s = frames (brt st)"
    if "stack (brt st) = A_Body h b # rest" for addr b rest rc
    using that by (simp add: exec_def run_body_def await_awaker_def aw_await_ready_def aw_await_resume_def awaked_awaker_def awakers_upd)
  show ?thesis
  proof (intro conjI allI impI)
    show "BlobEnv_setup h w a st = None \<longleftrightarrow> \<not> ((\<exists>n. setup_outcome (callbacks a n) \<noteq> None) \<and> (\<exists>m. exited a m))"
    proof (cases "wait_awaked a 0 (stage_after a 0)")
      case None
      then have "setup_outcome (callbacks a n) = None" for n using ends [of n] by (cases "setup_outcome (callbacks a n)") auto
      then show ?thesis using None unfolding eq by simp
    next
      case (Some s)
      obtain n rc where "setup_outcome (callbacks a n) = Some rc" using wait_awaked_only [OF Some] assms(4) outcome_stage by blast
      then show ?thesis using run exits by auto
    qed
  next
    fix n m rc
    assume o: "setup_outcome (callbacks a n) = Some rc \<and> exited a m"
    then have "BlobEnv_setup h w a st = Some (Inr (?fin rc))" using run [of n rc] exits by auto
    then show "\<exists>st'. BlobEnv_setup h w a st = Some (Inr st') \<and> (\<forall>addr b rest. stack (brt st) = A_Body h b # rest \<longrightarrow>
        (\<exists>s. exec addr (brt st') = Inr s \<and> stack s = A_Body h (Co_return (B_int rc)) # rest \<and> frames s = frames (brt st)))"
      using step by blast
  qed
qed

theorem setup_terminates_witness:
  "\<exists>st'. BlobEnv_setup 256 1 \<lparr>env_init_rc = 0, thread_lib_rc = 0, new_thread = 64, load_cbs = [],
     poll_cbs = (\<lambda>i. if i = 2 then [0, 0] else if i = 5 then [7] else []), rpc_runtime = True, exited = (\<lambda>n. n = 4)\<rparr> blob_start = Some (Inr st')"
proof -
  let ?a = "\<lparr>env_init_rc = 0, thread_lib_rc = 0, new_thread = 64, load_cbs = [],
     poll_cbs = (\<lambda>i. if i = 2 then [0, 0] else if i = 5 then [7] else []), rpc_runtime = True, exited = (\<lambda>n. n = 4)\<rparr>"
  have "setup_outcome (callbacks ?a 6) = Some 7" by code_simp
  then have "\<exists>st'. BlobEnv_setup 256 1 ?a blob_start = Some (Inr st') \<and> True"
    using setup_terminates [of ?a 256 1 blob_start, THEN conjunct2, rule_format, of 6 7 4] by force
  then show ?thesis by blast
qed

end
