(* ===== verification/Spec2Isabelle.thy ===== *)
theory Spec2Isabelle
  imports Ring_Concurrent Frames Tlsf_Area_Properties Fabric_Properties Blob_Properties
begin

text \<open>
  sqkio is a small C++ runtime for asynchronous input and output: a scheduler resumes
  coroutines whose handles wait in a lock-free ring; awakers connect them to completions;
  coroutine frames come from a pool allocator; network (libfabric) and storage (SPDK)
  wrappers turn completion queues into wake-ups. This development models the parts that carry
  the runtime's own logic and proves them correct, or shows exactly where they are not.

  \<^bold>\<open>Parts and theories.\<close> Paths are relative to \<^verbatim>\<open>src/src\<close>.

  \<^item> \<open>Prelude\<close>: machine integer types, the error monad \<open>bind_err\<close>, words that are bit masks,
    reachability and the locale \<open>inductive_invariant\<close>.

  \<^item> The ring, \<^verbatim>\<open>common/include/ring.hpp\<close>. \<open>Ring_Bits\<close> has the power-of-two and alignment
    helpers; \<open>Ring_Elems\<close> the record of a ring and the copy routines
    \<^verbatim>\<open>enqueue_elems_32/64/128\<close> and \<^verbatim>\<open>dequeue_elems_32/64/128\<close> with their unrolled loops;
    \<open>Ring\<close> creation (\<^verbatim>\<open>of\<close>, \<^verbatim>\<open>init\<close>, \<^verbatim>\<open>free\<close>), the head moves and tail updates of the
    single-thread, multi-thread and head/tail-synchronised modes, \<^verbatim>\<open>enqueue\<close> and \<^verbatim>\<open>dequeue\<close>.
    \<open>Queue_Interface\<close> is the contract of a bounded queue as the locale \<open>bounded_fifo\<close>;
    \<open>Ring_Queue\<close> interprets it on the ring: every uninterrupted sequence of operations gives
    the results of a bounded list. \<open>Ring_Concurrent\<close> executes the same operations one shared
    access at a time, interleaved over any number of threads, and shows that they refine the
    bounded queue, race neither on slots nor on positions, and cannot all be stuck.

  \<^item> Pool allocators, \<^verbatim>\<open>common/include/allocator.hpp\<close>, \<^verbatim>\<open>common/tlsf_allocator.cc\<close>.
    \<open>Pool_Interface\<close> is the contract \<^verbatim>\<open>PoolAllocatable\<close> needs of a pool, the locale
    \<open>pool_allocator\<close>, with the client lemma that every run keeps the held blocks disjoint.
    \<open>Slab\<close> models \<^verbatim>\<open>SlabPoolAllocator\<close> and interprets the contract on it; \<open>Tlsf_Pool\<close>
    models \<^verbatim>\<open>TlsfPoolAllocator\<close> and does the same.

  \<^item> The two-level segregated fit allocator, \<^verbatim>\<open>common/tlsf/tlsf.c\<close>. \<open>Tlsf_Bits\<close> has the
    table searches \<^verbatim>\<open>ms_bit\<close> and \<^verbatim>\<open>ls_bit\<close>, \<open>Tlsf_Map\<close> the classes of sizes
    (\<^verbatim>\<open>MAPPING_SEARCH\<close>, \<^verbatim>\<open>MAPPING_INSERT\<close>), \<open>Tlsf\<close> every operation on a pool:
    \<^verbatim>\<open>FIND_SUITABLE_BLOCK\<close>, the three list macros, \<^verbatim>\<open>malloc_ex\<close>, \<^verbatim>\<open>free_ex\<close>,
    \<^verbatim>\<open>realloc_ex\<close>, \<^verbatim>\<open>calloc_ex\<close>, \<^verbatim>\<open>process_area\<close>, the set-up of a pool and
    \<^verbatim>\<open>add_new_area\<close>, which gives a pool more memory at any address. The
    invariant \<open>tlsf_inv\<close> of \<open>Tlsf_Inv\<close> joins the layout of the blocks in the memory the pool owns
    (\<open>Tlsf_Blocks\<close>: each block ends where the next one starts, flags and back pointers agree, no
    two free blocks are adjacent), the areas (each from its descriptor to its sentinel) and the free
    lists (\<open>Tlsf_Lists\<close>: doubly linked lists, bitmaps that are set
    exactly for the non-empty classes). \<open>Tlsf_Alloc\<close>, \<open>Tlsf_Free\<close>, \<open>Tlsf_Init\<close>,
    \<open>Tlsf_Realloc\<close> and \<open>Tlsf_Area\<close> give each operation its specification; the latter has the
    invariant \<open>areas_ok\<close> of the list of areas, which cover the memory of the pool, and the invariant
    \<open>walk_ok\<close> of the loop of \<^verbatim>\<open>add_new_area\<close>. \<open>Tlsf_Calls\<close> composes them into runs of
    a client of the allocator. \<open>Tlsf_Properties\<close> has the theorems on the operations and the pool
    class, \<open>Tlsf_Area_Properties\<close> those on pools that grow.

  \<^item> The coroutine runtime, \<^verbatim>\<open>core/core.hpp\<close>. \<open>Core\<close> has the scheduler, awakers, promises
    and awaitables as steps of a machine with the native call stack that nested \<^verbatim>\<open>resume\<close>
    calls build; the scheduler's ring is the model of \<open>Ring\<close>, used through
    \<open>bounded_fifo\<close>. \<open>Core_Safety\<close> has the invariant and its preservation by every call;
    \<open>Runtime\<close> the theorems on reachable states. \<open>Frames\<close> composes the runtime with a pool, as
    \<^verbatim>\<open>PromiseBase\<close> does by deriving from \<^verbatim>\<open>PoolAllocatable<SlabPoolAllocator>\<close>: the locale
    \<open>frame_pool\<close> extends \<open>pool_allocator\<close>, and on the slab allocator the blocks held are
    exactly the frames of the live coroutines.

  \<^item> \<open>Async\<close> is what the network and storage wrappers share: an abstract machine of the
    runtime and the set of awakers whose addresses an external library holds. Its invariant is
    that the coroutine behind each of them is parked on it, or about to suspend; its lemmas
    say that a completion is delivered to exactly that coroutine, and that the coroutine's
    continuation does not change while it waits. \<open>Exceptions\<close> has the standard exceptions.

  \<^item> The network wrappers, \<^verbatim>\<open>net/fabric/fabric.hpp\<close>. \<open>Fabric_Info\<close> has the owner class \<^verbatim>\<open>Info\<close>
    with its moves and builders, the attribute and buffer classes, and the theorem on
    ownership. \<open>Fabric\<close> has the state of the wrappers, the constructors and destructors, the
    coroutines of \<^verbatim>\<open>Endpoint\<close> and \<^verbatim>\<open>PassiveEndpoint\<close>, and the two polls. \<open>Fabric_Safety\<close> has
    the rules for programs and for libfabric (\<open>fab_legal\<close>) and the invariant: every awaker is in
    the library's hands once, and the event queues know exactly the live endpoints. Its steps
    refine \<open>Async\<close>. \<open>Fabric_Runs\<close> checks concrete runs against the rules;
    \<open>Fabric_Properties\<close> has the theorems.

  \<^item> The storage wrappers, \<^verbatim>\<open>io/blob/blob.hpp\<close>. \<open>Blob\<close> has the coroutines of \<^verbatim>\<open>Blob\<close>, \<^verbatim>\<open>BlobStore\<close> and
    \<^verbatim>\<open>BlobDev\<close> with their callbacks, the event loop and \<^verbatim>\<open>BlobEnv\<close>; \<open>Blob_Safety\<close> the rules, the
    invariant and the refinement of \<open>Async\<close>; \<open>Blob_Properties\<close> the theorems.

  \<^bold>\<open>State and errors.\<close> Data members are records; every operation returns its new state or an
  error value. What the language leaves undefined (an access outside an object, a resume of a
  destroyed or running coroutine, a shift by a negative amount), a failed assertion and a thrown
  exception are values of error types, so safety theorems say that these values are not returned.
  32 and 64 bit integers are words; positions in the ring wrap around.

  \<^bold>\<open>Waiting and bounds.\<close> Loops of the ring that wait for another thread are partial functions
  into \<open>option\<close>; the theorems on uninterrupted operations show that they return. In
  \<open>Ring_Concurrent\<close> a compare-exchange on a 32 bit head is assumed not to sleep through half of
  the head's range (\<open>fresh\<close>). \<^verbatim>\<open>Endpoint::send\<close> and the two polling loops of \<^verbatim>\<open>BlobEnv::setup\<close> are
  partial functions of the library's answers; \<open>send_terminates\<close> and \<open>setup_terminates\<close> say
  exactly when they return. No definition uses fuel. The allocator is proved for requests up to
  \<open>2 ^ 30 - 2 ^ 24\<close> bytes and pools of less than \<open>2 ^ 30\<close> bytes of blocks in all areas together, the
  bounds at which its class tables end; \<open>malloc_ex_reads_out_of_bounds\<close> shows what happens above.
  The loop of \<^verbatim>\<open>add_new_area\<close> is a partial function too; \<open>add_new_area_grows\<close> says that it returns. It
  leaves out the one case in which the code forgets to join free memory, which
  \<open>add_new_area_forgets_merge\<close> shows.

  \<^bold>\<open>Libraries as parameters.\<close> libfabric and SPDK are not modelled themselves. What their functions
  answer is an argument of the operation that calls them, their constants are the record
  \<open>fi_abi\<close>, and what they keep between calls is state: the open descriptors and the operations
  posted (\<open>fids\<close>, \<open>posted\<close>), the requests in flight (\<open>inflight\<close>). The rules state their
  documented behaviour: descriptors are fresh, completions and callbacks are for what was
  posted, once. A coroutine of the wrappers is the step of the running coroutine up to its
  next \<^verbatim>\<open>co_await\<close>; the rest of its body is left for the runtime. The rules leave out constructors
  that fail half way and events for unknown descriptors; the lemmas \<open>failed_constructor_dangles\<close>,
  \<open>unknown_descriptor_event\<close> and \<open>close_then_destructor\<close> show what these do.

  \<^bold>\<open>Not modelled.\<close> Memory orderings weaker than sequential consistency. Of \<^verbatim>\<open>tlsf.c\<close> the code of
  configurations the build does not select (locks, statistics, growth by \<^verbatim>\<open>sbrk\<close> or
  \<^verbatim>\<open>mmap\<close>, debug output). The allocator of the ring (\<^verbatim>\<open>ring_generic_allocator.hpp\<close>) forwards to the
  standard library; whether it succeeds is an argument of \<open>Ring_of\<close>. Logging and compiler hints have no effect on the state;
  \<^verbatim>\<open>net/io_uring/uring.hpp\<close> is empty.
\<close>

end
